(* ===== verification/Bigint_Math.thy ===== *)
theory Bigint_Math
  imports Beamr_Prelude
begin

text \<open>
  Magnitude arithmetic on little-endian 64-bit limb vectors, the free functions of
  \<^verbatim>\<open>crates/beamr/src/term/bigint_math.rs\<close>. \<open>u128\<close> intermediates are \<^typ>\<open>128 word\<close>,
  so every addition and multiplication below wraps where the source's would; the lemmas show
  that none does. An indexed write that the source would panic on is \<^const>\<open>None\<close>.
  \<open>limbs_val\<close> reads a limb vector as a natural number; every operation is shown to compute
  the corresponding operation on numbers and to return a vector without leading zero limbs.
\<close>

section \<open>Definitions\<close>

type_synonym u128 = "128 word"

datatype Ordering = Less | Equal | Greater

fun ordering_reverse :: "Ordering \<Rightarrow> Ordering" where
  "ordering_reverse Less = Greater"
| "ordering_reverse Equal = Equal"
| "ordering_reverse Greater = Less"

definition cmp_nat :: "nat \<Rightarrow> nat \<Rightarrow> Ordering" where
  "cmp_nat a b = (if a < b then Less else if a = b then Equal else Greater)"

definition cmp_u64 :: "u64 \<Rightarrow> u64 \<Rightarrow> Ordering" where
  "cmp_u64 a b = (if a < b then Less else if a = b then Equal else Greater)"

text \<open>\<open>Iterator::cmp\<close> on two iterators of limbs: lexicographic, a proper prefix is less.\<close>

fun iter_cmp :: "u64 list \<Rightarrow> u64 list \<Rightarrow> Ordering" where
  "iter_cmp [] [] = Equal"
| "iter_cmp [] (y # ys) = Less"
| "iter_cmp (x # xs) [] = Greater"
| "iter_cmp (x # xs) (y # ys) =
     (case cmp_u64 x y of Equal \<Rightarrow> iter_cmp xs ys | ord \<Rightarrow> ord)"

text \<open>\<open>iter().rposition(p)\<close>: the index of the last element that satisfies \<open>p\<close>.\<close>

definition rposition :: "('a \<Rightarrow> bool) \<Rightarrow> 'a list \<Rightarrow> nat option" where
  "rposition p xs = map_option (\<lambda>i. length xs - 1 - i) (position p (rev xs))"

definition normalized :: "u64 list \<Rightarrow> u64 list" where
  "normalized limbs =
     take (case rposition (\<lambda>limb. limb \<noteq> 0) limbs of None \<Rightarrow> 0 | Some index \<Rightarrow> index + 1) limbs"

definition normalize_limbs :: "u64 list \<Rightarrow> u64 list" where
  "normalize_limbs limbs =
     (case rposition (\<lambda>limb. limb \<noteq> 0) limbs of
        Some index \<Rightarrow> take (index + 1) limbs
      | None \<Rightarrow> [])"

definition cmp_abs :: "u64 list \<Rightarrow> u64 list \<Rightarrow> Ordering" where
  "cmp_abs left right =
     (let left = normalized left; right = normalized right in
      case cmp_nat (length left) (length right) of
        Equal \<Rightarrow> iter_cmp (rev left) (rev right)
      | order \<Rightarrow> order)"

text \<open>\<open>*v.get(index).unwrap_or(&0)\<close>\<close>

definition limb_or_zero :: "u64 list \<Rightarrow> nat \<Rightarrow> u64" where
  "limb_or_zero v index = (case vec_get v index of Some limb \<Rightarrow> limb | None \<Rightarrow> 0)"

definition add_abs_step ::
  "u64 list \<Rightarrow> u64 list \<Rightarrow> nat \<Rightarrow> u64 list \<times> u128 \<Rightarrow> u64 list \<times> u128" where
  "add_abs_step left right index = (\<lambda>(out, carry).
     let sum = ucast (limb_or_zero left index) + ucast (limb_or_zero right index) + carry
     in (out @ [ucast sum], drop_bit 64 sum))"

definition add_abs :: "u64 list \<Rightarrow> u64 list \<Rightarrow> u64 list" where
  "add_abs left right =
     (let len = max (length left) (length right);
          (out, carry) = fold (add_abs_step left right) [0..<len] ([], 0)
      in normalize_limbs (if carry \<noteq> 0 then out @ [ucast carry] else out))"

definition sub_abs_step ::
  "u64 list \<Rightarrow> u64 list \<Rightarrow> nat \<Rightarrow> u64 list \<times> u128 \<Rightarrow> u64 list \<times> u128" where
  "sub_abs_step left right index = (\<lambda>(out, borrow).
     let right_limb = ucast (limb_or_zero right index);
         subtrahend = right_limb + borrow;
         minuend = ucast (limb_or_zero left index)
     in if minuend \<ge> subtrahend then (out @ [ucast (minuend - subtrahend)], 0)
        else (out @ [ucast (push_bit 64 1 + minuend - subtrahend)], 1))"

definition sub_abs :: "u64 list \<Rightarrow> u64 list \<Rightarrow> u64 list" where
  "sub_abs left right =
     normalize_limbs (fst (fold (sub_abs_step left right) [0..<length left] ([], 0)))"

text \<open>
  \<open>mul_abs\<close>: the inner loop over \<open>right\<close>, the carry loop after it, and the outer loop over
  \<open>left\<close>. An index past the end of \<open>out\<close> panics in the source.
\<close>

fun mul_abs_inner ::
  "u64 \<Rightarrow> u64 list \<Rightarrow> nat \<Rightarrow> u64 list \<Rightarrow> u128 \<Rightarrow> (u64 list \<times> u128) option" where
  "mul_abs_inner left_limb [] index out carry = Some (out, carry)"
| "mul_abs_inner left_limb (right_limb # right) index out carry =
     (case vec_get out index of
        None \<Rightarrow> None
      | Some limb \<Rightarrow>
          let product = ucast left_limb * ucast right_limb + ucast limb + carry
          in mul_abs_inner left_limb right (index + 1) (out[index := ucast product])
               (drop_bit 64 product))"

function mul_abs_carry :: "u64 list \<Rightarrow> nat \<Rightarrow> u128 \<Rightarrow> u64 list option" where
  "mul_abs_carry out index carry =
     (if carry = 0 then Some out
      else if index < length out then
        let sum = ucast (out ! index) + carry
        in mul_abs_carry (out[index := ucast sum]) (index + 1) (drop_bit 64 sum)
      else None)"
  by pat_completeness auto
termination
  by (relation "measure (\<lambda>(out, index, carry). length out - index)") auto

declare mul_abs_carry.simps [simp del]

fun mul_abs_outer ::
  "u64 list \<Rightarrow> u64 list \<Rightarrow> nat \<Rightarrow> u64 list \<Rightarrow> u64 list option" where
  "mul_abs_outer [] right i out = Some out"
| "mul_abs_outer (left_limb # left) right i out =
     (case mul_abs_inner left_limb right i out 0 of
        None \<Rightarrow> None
      | Some (out, carry) \<Rightarrow>
          (case mul_abs_carry out (i + length right) carry of
             None \<Rightarrow> None
           | Some out \<Rightarrow> mul_abs_outer left right (i + 1) out))"

definition mul_abs :: "u64 list \<Rightarrow> u64 list \<Rightarrow> u64 list option" where
  "mul_abs left right =
     (if normalized left = [] \<or> normalized right = [] then Some []
      else map_option normalize_limbs
             (mul_abs_outer left right 0 (replicate (length left + length right) 0)))"

definition leading_zeros :: "u64 \<Rightarrow> nat" where
  "leading_zeros w = length (takeWhile (\<lambda>i. \<not> bit w i) (rev [0..<64]))"

definition bit_length_abs :: "u64 list \<Rightarrow> nat" where
  "bit_length_abs limbs =
     (let limbs = normalized limbs in
      if limbs = [] then 0
      else (length limbs - 1) * 64 + (64 - leading_zeros (last limbs)))"

definition test_bit :: "u64 list \<Rightarrow> nat \<Rightarrow> bool" where
  "test_bit limbs b =
     (case vec_get limbs (b div 64) of
        None \<Rightarrow> False
      | Some value \<Rightarrow> drop_bit (b mod 64) value AND 1 = 1)"

definition set_bit_limbs :: "u64 list \<Rightarrow> nat \<Rightarrow> u64 list" where
  "set_bit_limbs limbs b =
     (let limb = b div 64; offset = b mod 64;
          limbs = (if length limbs \<le> limb then limbs @ replicate (limb + 1 - length limbs) 0
                   else limbs)
      in limbs[limb := (limbs ! limb) OR push_bit offset 1])"

definition shl_abs_step :: "nat \<Rightarrow> u64 list \<Rightarrow> nat \<Rightarrow> u64 list \<times> u64 \<Rightarrow> u64 list \<times> u64" where
  "shl_abs_step shift limbs index = (\<lambda>(out, carry).
     let limb_shift = shift div 64; bit_shift = shift mod 64; limb = limbs ! index in
     (out[index + limb_shift := push_bit bit_shift limb OR carry],
      if bit_shift = 0 then 0 else drop_bit (64 - bit_shift) limb))"

definition shl_abs :: "u64 list \<Rightarrow> nat \<Rightarrow> u64 list" where
  "shl_abs limbs shift =
     (let limbs = normalized limbs in
      if limbs = [] then []
      else
        let limb_shift = shift div 64;
            (out, carry) = fold (shl_abs_step shift limbs) [0..<length limbs]
                             (replicate (limb_shift + length limbs + 1) 0, 0)
        in normalize_limbs (out[limb_shift + length limbs := carry]))"

definition divmod_abs_step ::
  "u64 list \<Rightarrow> u64 list \<Rightarrow> nat \<Rightarrow> u64 list \<times> u64 list \<Rightarrow> u64 list \<times> u64 list" where
  "divmod_abs_step left right b = (\<lambda>(quotient, remainder).
     let remainder = shl_abs remainder 1;
         remainder = (if test_bit left b then set_bit_limbs remainder 0 else remainder)
     in if cmp_abs remainder right \<noteq> Less
        then (set_bit_limbs quotient b, sub_abs remainder right)
        else (quotient, remainder))"

definition divmod_abs :: "u64 list \<Rightarrow> u64 list \<Rightarrow> u64 list \<times> u64 list" where
  "divmod_abs left right =
     (let left = normalized left; right = normalized right in
      if right = [] then ([], [])
      else if cmp_abs left right = Less then ([], left)
      else
        let (quotient, remainder) =
              fold (divmod_abs_step left right) (rev [0..<bit_length_abs left]) ([], [])
        in (normalize_limbs quotient, normalize_limbs remainder))"

definition low_bits_mask :: "nat \<Rightarrow> u64 list" where
  "low_bits_mask bits =
     (if bits = 0 then []
      else
        let limbs = (bits + 63) div 64;
            out = replicate limbs (- 1);
            used = bits mod 64
        in if used \<noteq> 0 then out[limbs - 1 := push_bit used 1 - 1] else out)"

definition bitand_abs :: "u64 list \<Rightarrow> u64 list \<Rightarrow> u64 list" where
  "bitand_abs left right =
     normalize_limbs (map (\<lambda>index. (left ! index) AND (right ! index))
       [0..<min (length left) (length right)])"

section \<open>The number a limb vector denotes\<close>

fun limbs_val :: "u64 list \<Rightarrow> nat" where
  "limbs_val [] = 0"
| "limbs_val (x # xs) = unat x + 2 ^ 64 * limbs_val xs"

definition no_leading_zero :: "u64 list \<Rightarrow> bool" where
  "no_leading_zero xs \<longleftrightarrow> (xs = [] \<or> last xs \<noteq> 0)"

lemma limbs_val_append:
  "limbs_val (xs @ ys) = limbs_val xs + 2 ^ (64 * length xs) * limbs_val ys"
  by (induction xs) (simp_all add: power_add algebra_simps)

lemma limbs_val_replicate_zero [simp]: "limbs_val (replicate n 0) = 0"
  by (induction n) simp_all

lemma unat_u64_less: "unat (x :: u64) < 18446744073709551616"
  using unsigned_less [of x] by simp

lemma limbs_val_less: "limbs_val xs < 2 ^ (64 * length xs)"
proof (induction xs)
  case (Cons x xs)
  have "unat x + 2 ^ 64 * limbs_val xs < 2 ^ 64 + 2 ^ 64 * limbs_val xs"
    using unsigned_less [of x] by simp
  also have "\<dots> = 2 ^ 64 * (limbs_val xs + 1)" by simp
  also have "\<dots> \<le> 2 ^ 64 * 2 ^ (64 * length xs)"
    using Cons.IH by (intro mult_le_mono) auto
  finally show ?case by (simp add: power_add)
qed simp

lemma limbs_val_take_Suc:
  "limbs_val (take (Suc n) xs) =
     limbs_val (take n xs) + 2 ^ (64 * n) * unat (limb_or_zero xs n)"
proof (cases "n < length xs")
  case True
  then show ?thesis
    by (simp add: take_Suc_conv_app_nth limbs_val_append limb_or_zero_def vec_get_def)
qed (simp add: limb_or_zero_def vec_get_def)

lemma limbs_val_update:
  "i < length xs \<Longrightarrow>
     limbs_val (xs[i := v]) + 2 ^ (64 * i) * unat (xs ! i) = limbs_val xs + 2 ^ (64 * i) * unat v"
proof (induction xs arbitrary: i)
  case (Cons x xs)
  show ?case
  proof (cases i)
    case (Suc j)
    with Cons.prems have "j < length xs" by simp
    from Cons.IH [OF this] have
      "2 ^ 64 * (limbs_val (xs[j := v]) + 2 ^ (64 * j) * unat (xs ! j)) =
       2 ^ 64 * (limbs_val xs + 2 ^ (64 * j) * unat v)" by simp
    then show ?thesis by (simp add: Suc power_add algebra_simps)
  qed simp
qed simp

section \<open>Normalisation\<close>

lemma take_len_rposition:
  "take (case rposition p xs of None \<Rightarrow> 0 | Some i \<Rightarrow> i + 1) xs = rev (dropWhile (Not \<circ> p) (rev xs))"
proof (cases "position p (rev xs)")
  case None
  then have "\<forall>x\<in>set (rev xs). (Not \<circ> p) x" by simp
  then have "dropWhile (Not \<circ> p) (rev xs) = []" by (simp only: dropWhile_eq_Nil_conv)
  then show ?thesis by (simp only: rposition_def None option.map option.case take_0 rev.simps)
next
  case (Some i)
  then have i: "i < length xs" "p (rev xs ! i)" "\<forall>j<i. \<not> p (rev xs ! j)"
    by (simp_all add: position_Some_iff)
  then have "takeWhile (Not \<circ> p) (rev xs) = take i (rev xs)"
    by (intro takeWhile_eq_take_P_nth) auto
  then have "dropWhile (Not \<circ> p) (rev xs) = drop i (rev xs)"
    using i(1) by (simp add: dropWhile_eq_drop)
  then show ?thesis
    using Some i(1) by (simp add: rposition_def rev_drop Suc_diff_Suc)
qed

lemma normalized_eq: "normalized xs = rev (dropWhile (\<lambda>x. x = 0) (rev xs))"
  using take_len_rposition [of "\<lambda>x. x \<noteq> 0" xs] by (simp add: normalized_def comp_def)

lemma normalize_limbs_eq [simp]: "normalize_limbs xs = normalized xs"
  by (simp add: normalize_limbs_def normalized_def split: option.split)

lemma no_leading_zero_normalized [simp]: "no_leading_zero (normalized xs)"
  unfolding no_leading_zero_def normalized_eq
  using hd_dropWhile [of "\<lambda>x. x = 0" "rev xs"] by (auto simp: last_rev)

lemma normalized_decomp: "\<exists>k. xs = normalized xs @ replicate k 0"
proof -
  have "rev xs = takeWhile (\<lambda>x. x = 0) (rev xs) @ dropWhile (\<lambda>x. x = 0) (rev xs)" by simp
  moreover have "takeWhile (\<lambda>x. x = 0) (rev xs) =
      replicate (length (takeWhile (\<lambda>x. x = 0) (rev xs))) 0"
    by (rule replicate_eqI) (auto dest: set_takeWhileD)
  ultimately have "rev xs = replicate (length (takeWhile (\<lambda>x. x = 0) (rev xs))) 0 @
      dropWhile (\<lambda>x. x = 0) (rev xs)" by metis
  then have "xs = rev (dropWhile (\<lambda>x. x = 0) (rev xs)) @
      replicate (length (takeWhile (\<lambda>x. x = 0) (rev xs))) 0"
    by (metis rev_append rev_replicate rev_rev_ident)
  then show ?thesis unfolding normalized_eq by blast
qed

lemma limbs_val_normalized [simp]: "limbs_val (normalized xs) = limbs_val xs"
  by (metis normalized_decomp limbs_val_append limbs_val_replicate_zero mult_0_right add_0_right)

lemma length_normalized_le: "length (normalized xs) \<le> length xs"
  by (metis length_append le_add1 normalized_decomp)

lemma no_leading_zero_ge:
  assumes "no_leading_zero xs" "xs \<noteq> []"
  shows "2 ^ (64 * (length xs - 1)) \<le> limbs_val xs"
proof -
  from assms have last: "1 \<le> unat (last xs)"
    by (simp add: no_leading_zero_def Suc_leI unat_gt_0)
  have "limbs_val xs = limbs_val (butlast xs) + 2 ^ (64 * (length xs - 1)) * unat (last xs)"
    using assms(2) limbs_val_append [of "butlast xs" "[last xs]"] by simp
  with last show ?thesis by (metis mult_le_mono2 nat_mult_1_right trans_le_add2)
qed

lemma no_leading_zero_val_0: "no_leading_zero xs \<Longrightarrow> limbs_val xs = 0 \<longleftrightarrow> xs = []"
  using no_leading_zero_ge by fastforce

lemma normalized_Nil_iff [simp]: "normalized xs = [] \<longleftrightarrow> limbs_val xs = 0"
  using no_leading_zero_val_0 [OF no_leading_zero_normalized, of xs] by simp

lemma normalized_idem: "no_leading_zero xs \<Longrightarrow> normalized xs = xs"
  unfolding normalized_eq no_leading_zero_def
  by (cases xs rule: rev_cases) auto

lemma limbs_val_inject_same_length:
  "length xs = length ys \<Longrightarrow> limbs_val xs = limbs_val ys \<Longrightarrow> xs = ys"
proof (induction xs ys rule: list_induct2)
  case (Cons x xs y ys)
  have "unat x = limbs_val (x # xs) mod 2 ^ 64" "unat y = limbs_val (y # ys) mod 2 ^ 64"
    by (simp_all add: unat_u64_less)
  with Cons.prems have xy: "x = y" by (simp only: word_unat_eq_iff)
  with Cons.prems have "limbs_val xs = limbs_val ys" by simp
  with Cons.IH xy show ?case by simp
qed simp

section \<open>Comparison\<close>

lemma limbs_val_snoc: "limbs_val (xs @ [x]) = limbs_val xs + 2 ^ (64 * length xs) * unat x"
  by (simp add: limbs_val_append)

lemma high_limb_less:
  assumes "length xs = length ys" "x < (y :: u64)"
  shows "limbs_val (xs @ [x]) < limbs_val (ys @ [y])"
proof -
  have "limbs_val (xs @ [x]) < 2 ^ (64 * length xs) + 2 ^ (64 * length xs) * unat x"
    using limbs_val_less [of xs] by (simp add: limbs_val_snoc)
  also have "\<dots> = 2 ^ (64 * length xs) * (unat x + 1)" by simp
  also have "\<dots> \<le> 2 ^ (64 * length xs) * unat y"
    using assms(2) by (intro mult_le_mono) (auto simp: word_less_nat_alt)
  also have "\<dots> \<le> limbs_val (ys @ [y])" by (simp add: limbs_val_snoc assms(1))
  finally show ?thesis .
qed

lemma iter_cmp_rev:
  "length xs = length ys \<Longrightarrow>
     iter_cmp (rev xs) (rev ys) = cmp_nat (limbs_val xs) (limbs_val ys)"
proof (induction xs arbitrary: ys rule: rev_induct)
  case Nil
  then show ?case by (simp add: cmp_nat_def)
next
  case (snoc x xs)
  from snoc.prems obtain ys' y where ys: "ys = ys' @ [y]" and len: "length xs = length ys'"
    by (cases ys rule: rev_cases) auto
  consider "x < y" | "x = y" | "y < x" by fastforce
  then show ?case
  proof cases
    case 1
    then show ?thesis
      using high_limb_less [OF len 1] by (simp add: ys cmp_u64_def cmp_nat_def)
  next
    case 2
    then show ?thesis
      using snoc.IH [OF len] by (simp add: ys cmp_u64_def cmp_nat_def limbs_val_snoc len)
  next
    case 3
    then show ?thesis
      using high_limb_less [OF len [symmetric] 3] by (auto simp: ys cmp_u64_def cmp_nat_def)
  qed
qed

lemma shorter_is_less:
  assumes "no_leading_zero ys" "length xs < length ys"
  shows "limbs_val xs < limbs_val ys"
proof -
  have "limbs_val xs < 2 ^ (64 * length xs)" by (rule limbs_val_less)
  also have "\<dots> \<le> 2 ^ (64 * (length ys - 1))" using assms(2) by (intro power_increasing) auto
  also have "\<dots> \<le> limbs_val ys" using assms by (intro no_leading_zero_ge) auto
  finally show ?thesis .
qed

lemma cmp_abs_correct: "cmp_abs left right = cmp_nat (limbs_val left) (limbs_val right)"
proof -
  let ?l = "normalized left" and ?r = "normalized right"
  consider "length ?l < length ?r" | "length ?l = length ?r" | "length ?r < length ?l"
    by linarith
  then show ?thesis
  proof cases
    case 1
    with shorter_is_less [of ?r ?l] show ?thesis by (simp add: cmp_abs_def cmp_nat_def)
  next
    case 2
    with iter_cmp_rev [OF 2] show ?thesis by (simp add: cmp_abs_def cmp_nat_def)
  next
    case 3
    with shorter_is_less [of ?l ?r] show ?thesis by (auto simp: cmp_abs_def cmp_nat_def)
  qed
qed

section \<open>Double-width intermediates\<close>

lemma unat_ucast_u128 [simp]: "unat (ucast (x :: u64) :: u128) = unat x"
  by (simp add: unsigned_ucast_eq take_bit_nat_eq_self less_trans [OF unsigned_less])

lemma unat_u128_add: "unat a + unat b < 2 ^ 128 \<Longrightarrow> unat (a + b :: u128) = unat a + unat b"
  by (simp add: unat_word_ariths)

lemma unat_u128_mult: "unat a * unat b < 2 ^ 128 \<Longrightarrow> unat (a * b :: u128) = unat a * unat b"
  by (simp add: unat_word_ariths)

lemma unat_drop_bit_64: "unat (drop_bit 64 (x :: u128)) = unat x div 2 ^ 64"
  by (simp only: unat_drop_bit_eq drop_bit_eq_div [where 'a = nat])

lemma u128_split: "unat (x :: u128) = unat (ucast x :: u64) + 2 ^ 64 * unat (drop_bit 64 x)"
  by (simp only: unat_drop_bit_64 unsigned_ucast_eq take_bit_eq_mod [where 'a = nat]) simp

lemma unat_ucast_u64: "unat (x :: u128) < 2 ^ 64 \<Longrightarrow> unat (ucast x :: u64) = unat x"
  by (simp add: unsigned_ucast_eq take_bit_nat_eq_self)

section \<open>Addition\<close>

lemma add_abs_loop:
  assumes "fold (add_abs_step left right) [0..<n] ([], 0) = (out, carry)"
  shows "length out = n \<and> unat carry \<le> 1 \<and>
    limbs_val out + 2 ^ (64 * n) * unat carry =
      limbs_val (take n left) + limbs_val (take n right)"
  using assms
proof (induction n arbitrary: out carry)
  case (Suc n)
  obtain out' carry' where prev:
    "fold (add_abs_step left right) [0..<n] ([], 0) = (out', carry')"
    by (cases "fold (add_abs_step left right) [0..<n] ([], 0)")
  let ?a = "limb_or_zero left n" and ?b = "limb_or_zero right n"
  let ?sum = "ucast ?a + ucast ?b + carry' :: u128"
  from Suc.prems have "add_abs_step left right n (out', carry') = (out, carry)"
    by (simp add: prev)
  then have out: "out = out' @ [ucast ?sum]" and carry: "carry = drop_bit 64 ?sum"
    by (auto simp: add_abs_step_def Let_def)
  note IH = Suc.IH [OF prev]
  have bound: "unat ?a + unat ?b + unat carry' < 2 ^ 65"
    using IH unat_u64_less [of ?a] unat_u64_less [of ?b] by simp
  then have ab: "unat (ucast ?a + ucast ?b :: u128) = unat ?a + unat ?b"
    by (subst unat_u128_add) simp_all
  with bound have sum: "unat ?sum = unat ?a + unat ?b + unat carry'"
    by (subst unat_u128_add) simp_all
  then have "unat (ucast ?sum :: u64) + 2 ^ 64 * unat carry = unat ?a + unat ?b + unat carry'"
    using u128_split [of ?sum] carry by simp
  then have "2 ^ (64 * n) * (unat (ucast ?sum :: u64) + 2 ^ 64 * unat carry) =
      2 ^ (64 * n) * (unat ?a + unat ?b + unat carry')" by simp
  moreover have "unat carry \<le> 1"
    using bound sum by (simp add: carry unat_drop_bit_64)
  ultimately show ?case
    using IH by (simp add: out limbs_val_snoc limbs_val_take_Suc power_add algebra_simps)
qed simp

lemma limbs_val_add_abs: "limbs_val (add_abs left right) = limbs_val left + limbs_val right"
proof -
  let ?n = "max (length left) (length right)"
  obtain out carry where loop:
    "fold (add_abs_step left right) [0..<?n] ([], 0) = (out, carry)"
    by (cases "fold (add_abs_step left right) [0..<?n] ([], 0)")
  note inv = add_abs_loop [OF loop]
  have "unat (ucast carry :: u64) = unat carry"
    using inv by (intro unat_ucast_u64) simp
  then have "limbs_val (if carry \<noteq> 0 then out @ [ucast carry] else out) =
      limbs_val out + 2 ^ (64 * ?n) * unat carry"
    using inv by (cases "carry = 0") (simp_all add: limbs_val_snoc)
  also have "\<dots> = limbs_val left + limbs_val right"
    using inv by simp
  finally show ?thesis
    by (simp add: add_abs_def loop del: normalized_Nil_iff split del: if_split)
qed

lemma no_leading_zero_add_abs: "no_leading_zero (add_abs left right)"
  by (simp add: add_abs_def Let_def split: prod.split)

section \<open>Subtraction\<close>

lemma sub_abs_loop:
  assumes "fold (sub_abs_step left right) [0..<n] ([], 0) = (out, borrow)"
  shows "length out = n \<and> unat borrow \<le> 1 \<and>
    limbs_val out + limbs_val (take n right) =
      limbs_val (take n left) + 2 ^ (64 * n) * unat borrow"
  using assms
proof (induction n arbitrary: out borrow)
  case (Suc n)
  obtain out' borrow' where prev:
    "fold (sub_abs_step left right) [0..<n] ([], 0) = (out', borrow')"
    by (cases "fold (sub_abs_step left right) [0..<n] ([], 0)")
  note IH = Suc.IH [OF prev]
  define m where "m = (ucast (limb_or_zero left n) :: u128)"
  define s where "s = (ucast (limb_or_zero right n) + borrow' :: u128)"
  have um: "unat m < 2 ^ 64" "unat m = unat (limb_or_zero left n)"
    by (simp_all add: m_def unat_u64_less)
  have us: "unat s = unat (limb_or_zero right n) + unat borrow'"
    using IH unat_u64_less [of "limb_or_zero right n"]
    by (simp add: s_def) (subst unat_u128_add, simp_all)
  then have us_le: "unat s \<le> 2 ^ 64"
    using IH unat_u64_less [of "limb_or_zero right n"] by simp
  have step: "(out, borrow) =
      (if m \<ge> s then (out' @ [ucast (m - s)], 0)
       else (out' @ [ucast (push_bit 64 1 + m - s)], 1))"
  proof -
    from Suc.prems have "sub_abs_step left right n (out', borrow') = (out, borrow)"
      by (simp add: prev)
    then show ?thesis by (auto simp: sub_abs_step_def Let_def m_def s_def)
  qed
  have "\<exists>d :: u64. out = out' @ [d] \<and> unat borrow \<le> 1 \<and>
      unat d + unat s = unat m + 2 ^ 64 * unat borrow"
  proof (cases "m \<ge> s")
    case True
    then have "unat (m - s) = unat m - unat s" "unat s \<le> unat m"
      by (simp_all add: unat_sub word_le_nat_alt)
    with um have "unat (ucast (m - s) :: u64) = unat m - unat s"
      by (subst unat_ucast_u64) simp_all
    with True step \<open>unat s \<le> unat m\<close> show ?thesis by simp
  next
    case False
    then have lt: "unat m < unat s" by (simp add: word_le_nat_alt)
    have "unat (push_bit 64 1 + m :: u128) = 2 ^ 64 + unat m"
      using um by (subst unat_u128_add) simp_all
    then have "unat (push_bit 64 1 + m - s :: u128) = 2 ^ 64 + unat m - unat s"
      using us_le by (subst unat_sub) (simp_all add: word_le_nat_alt)
    moreover from this lt us_le have "unat (ucast (push_bit 64 1 + m - s) :: u64) =
        unat (push_bit 64 1 + m - s :: u128)"
      by (intro unat_ucast_u64) simp
    ultimately show ?thesis using False step us_le by simp
  qed
  then obtain d :: u64 where d: "out = out' @ [d]" "unat borrow \<le> 1"
      "unat d + unat s = unat m + 2 ^ 64 * unat borrow" by blast
  from d(3) have "2 ^ (64 * n) * (unat d + unat s) =
      2 ^ (64 * n) * (unat m + 2 ^ 64 * unat borrow)" by simp
  with IH d(1,2) show ?case
    by (simp add: limbs_val_snoc limbs_val_take_Suc um us power_add algebra_simps)
qed simp

lemma limbs_val_split: "limbs_val xs = limbs_val (take n xs) + 2 ^ (64 * n) * limbs_val (drop n xs)"
proof (cases "n \<le> length xs")
  case True
  then show ?thesis
    using limbs_val_append [of "take n xs" "drop n xs"] by (simp add: min_absorb2)
qed simp

lemma limbs_val_sub_abs:
  assumes "limbs_val right \<le> limbs_val left"
  shows "limbs_val (sub_abs left right) = limbs_val left - limbs_val right"
proof -
  let ?n = "length left"
  obtain out borrow where loop:
    "fold (sub_abs_step left right) [0..<?n] ([], 0) = (out, borrow)"
    by (cases "fold (sub_abs_step left right) [0..<?n] ([], 0)")
  note inv = sub_abs_loop [OF loop]
  from assms limbs_val_less [of left] have "limbs_val right < 2 ^ (64 * ?n)" by simp
  then have "2 ^ (64 * ?n) * limbs_val (drop ?n right) < 2 ^ (64 * ?n) * 1"
    using limbs_val_split [of right ?n] by linarith
  then have "limbs_val (drop ?n right) = 0" by simp
  with limbs_val_split [of right ?n] have right: "limbs_val right = limbs_val (take ?n right)"
    by simp
  have "limbs_val out < 2 ^ (64 * ?n)" using limbs_val_less [of out] inv by simp
  with inv assms right have "unat borrow = 0"
    by (cases "unat borrow") auto
  with inv right have "limbs_val out + limbs_val right = limbs_val left" by simp
  then show ?thesis by (simp add: sub_abs_def loop)
qed

lemma no_leading_zero_sub_abs: "no_leading_zero (sub_abs left right)"
  by (simp add: sub_abs_def)

section \<open>Multiplication\<close>

lemma mul_step_bound:
  assumes "a < (B::nat)" "b < B" "c < B" "d < B"
  shows "a * b + c + d < B * B"
proof -
  from assms obtain k where B: "B = Suc k" by (cases B) auto
  with assms have "a * b \<le> k * k" by (intro mult_le_mono) auto
  with assms B show ?thesis by simp
qed

lemma carry_into_next_limb:
  assumes "x + k * old = v + k * low" "k * s = k * low + k' * c" "s = old + (e::nat)"
  shows "x + k' * c = v + k * e"
  using assms by (simp add: distrib_left)

lemma mul_abs_inner_correct:
  assumes "index + length right \<le> length out" "unat carry < 2 ^ 64"
  shows "\<exists>out' carry'. mul_abs_inner l right index out carry = Some (out', carry') \<and>
    length out' = length out \<and> unat carry' < 2 ^ 64 \<and>
    limbs_val out' + 2 ^ (64 * (index + length right)) * unat carry' =
      limbs_val out + 2 ^ (64 * index) * (unat l * limbs_val right + unat carry)"
  using assms
proof (induction right arbitrary: index out carry)
  case Nil
  then show ?case by simp
next
  case (Cons r right)
  let ?o = "out ! index"
  let ?p = "ucast l * ucast r + ucast ?o + carry :: u128"
  have index: "index < length out" using Cons.prems by simp
  have bound: "unat l * unat r + unat ?o + unat carry < 2 ^ 64 * 2 ^ 64"
    using Cons.prems(2) unat_u64_less [of l] unat_u64_less [of r] unat_u64_less [of ?o]
    by (intro mul_step_bound) simp_all
  have lr: "unat (ucast l * ucast r :: u128) = unat l * unat r"
    using bound by (subst unat_u128_mult) simp_all
  have lro: "unat (ucast l * ucast r + ucast ?o :: u128) = unat l * unat r + unat ?o"
    using bound by (subst unat_u128_add) (simp_all add: lr)
  have p: "unat ?p = unat l * unat r + unat ?o + unat carry"
    using bound by (subst unat_u128_add) (simp_all add: lro)
  let ?c = "drop_bit 64 ?p"
  have c: "unat ?c < 2 ^ 64"
    using bound by (simp only: unat_drop_bit_64 p) (simp add: less_mult_imp_div_less)
  let ?out = "out[index := ucast ?p]"
  from Cons.IH [of "index + 1" ?out ?c] Cons.prems c obtain out' carry' where IH:
    "mul_abs_inner l right (index + 1) ?out ?c = Some (out', carry')"
    "length out' = length out" "unat carry' < 2 ^ 64"
    "limbs_val out' + 2 ^ (64 * (index + 1 + length right)) * unat carry' =
      limbs_val ?out + 2 ^ (64 * (index + 1)) * (unat l * limbs_val right + unat ?c)"
    by auto
  have "limbs_val ?out + 2 ^ (64 * index) * unat ?o =
      limbs_val out + 2 ^ (64 * index) * unat (ucast ?p :: u64)"
    by (rule limbs_val_update [OF index])
  moreover have "2 ^ (64 * index) * unat ?p =
      2 ^ (64 * index) * unat (ucast ?p :: u64) + 2 ^ (64 * (index + 1)) * unat ?c"
    by (subst u128_split [of ?p]) (simp add: power_add algebra_simps)
  ultimately have "limbs_val ?out + 2 ^ (64 * (index + 1)) * unat ?c =
      limbs_val out + 2 ^ (64 * index) * (unat l * unat r + unat carry)"
    by (rule carry_into_next_limb) (simp add: p)
  with IH(4) have "limbs_val out' + 2 ^ (64 * (index + 1 + length right)) * unat carry' =
      limbs_val out + 2 ^ (64 * index) * (unat l * limbs_val (r # right) + unat carry)"
    by (simp add: power_add algebra_simps)
  with IH(1-3) index show ?case
    by (simp add: vec_get_def Let_def)
qed

lemma mul_abs_carry_correct:
  assumes "limbs_val out + 2 ^ (64 * index) * unat carry < 2 ^ (64 * length out)"
    and "unat carry < 2 ^ 64"
  shows "\<exists>out'. mul_abs_carry out index carry = Some out' \<and> length out' = length out \<and>
    limbs_val out' = limbs_val out + 2 ^ (64 * index) * unat carry"
  using assms
proof (induction out index carry rule: mul_abs_carry.induct)
  case (1 out index carry)
  show ?case
  proof (cases "carry = 0")
    case True
    then show ?thesis by (simp add: mul_abs_carry.simps)
  next
    case False
    then have pos: "1 \<le> unat carry" by (simp add: Suc_leI unat_gt_0)
    have index: "index < length out"
    proof (rule ccontr)
      assume "\<not> index < length out"
      then have "(2::nat) ^ (64 * length out) \<le> 2 ^ (64 * index) * 1"
        by (simp add: power_increasing)
      also have "\<dots> \<le> 2 ^ (64 * index) * unat carry" using pos by (intro mult_le_mono) auto
      finally show False using "1.prems"(1) by simp
    qed
    let ?o = "out ! index"
    let ?sum = "ucast ?o + carry :: u128"
    let ?out = "out[index := ucast ?sum]"
    have sum: "unat ?sum = unat ?o + unat carry"
      using "1.prems"(2) unat_u64_less [of ?o] by (subst unat_u128_add) simp_all
    have c: "unat (drop_bit 64 ?sum) < 2 ^ 64"
      using "1.prems"(2) unat_u64_less [of ?o]
      by (simp only: unat_drop_bit_64 sum) (simp add: less_mult_imp_div_less)
    have "limbs_val ?out + 2 ^ (64 * index) * unat ?o =
        limbs_val out + 2 ^ (64 * index) * unat (ucast ?sum :: u64)"
      by (rule limbs_val_update [OF index])
    moreover have "2 ^ (64 * index) * unat ?sum = 2 ^ (64 * index) * unat (ucast ?sum :: u64) +
        2 ^ (64 * (index + 1)) * unat (drop_bit 64 ?sum)"
      by (subst u128_split [of ?sum]) (simp add: power_add algebra_simps)
    ultimately have total: "limbs_val ?out + 2 ^ (64 * (index + 1)) * unat (drop_bit 64 ?sum) =
        limbs_val out + 2 ^ (64 * index) * unat carry"
      by (rule carry_into_next_limb) (rule sum)
    have "\<exists>out'. mul_abs_carry ?out (index + 1) (drop_bit 64 ?sum) = Some out' \<and>
        length out' = length ?out \<and>
        limbs_val out' = limbs_val ?out + 2 ^ (64 * (index + 1)) * unat (drop_bit 64 ?sum)"
      using "1.IH" [OF False index refl] "1.prems"(1) c total by simp
    then show ?thesis
      using False index total by (simp add: mul_abs_carry.simps [of out index carry] Let_def)
  qed
qed

lemma mul_abs_outer_correct:
  assumes "i + length left + length right \<le> length out"
    and "limbs_val out < 2 ^ (64 * (i + length right))"
  shows "\<exists>out'. mul_abs_outer left right i out = Some out' \<and>
    limbs_val out' = limbs_val out + 2 ^ (64 * i) * (limbs_val left * limbs_val right)"
  using assms
proof (induction left arbitrary: i out)
  case Nil
  then show ?case by simp
next
  case (Cons l left)
  from mul_abs_inner_correct [of i right out 0 l] Cons.prems(1)
  obtain out1 carry where inner: "mul_abs_inner l right i out 0 = Some (out1, carry)"
    "length out1 = length out" "unat carry < 2 ^ 64"
    "limbs_val out1 + 2 ^ (64 * (i + length right)) * unat carry =
      limbs_val out + 2 ^ (64 * i) * (unat l * limbs_val right)"
    by auto
  have row: "limbs_val out + 2 ^ (64 * i) * (unat l * limbs_val right) <
      2 ^ (64 * (i + 1 + length right))"
  proof -
    have "2 ^ (64 * length right) + unat l * limbs_val right \<le>
        (unat l + 1) * 2 ^ (64 * length right)"
      using limbs_val_less [of right] by (simp add: less_imp_le)
    also have "\<dots> \<le> 2 ^ 64 * 2 ^ (64 * length right)"
      using unat_u64_less [of l] by (intro mult_le_mono) simp_all
    finally have "2 ^ (64 * length right) + unat l * limbs_val right \<le>
        2 ^ 64 * 2 ^ (64 * length right)" .
    then have le: "2 ^ (64 * i) * (2 ^ (64 * length right) + unat l * limbs_val right) \<le>
        2 ^ (64 * i) * (2 ^ 64 * 2 ^ (64 * length right))" by (rule mult_le_mono2)
    have "limbs_val out + 2 ^ (64 * i) * (unat l * limbs_val right) <
        2 ^ (64 * i) * (2 ^ (64 * length right) + unat l * limbs_val right)"
      using Cons.prems(2) by (simp only: distrib_left power_add)
    also note le
    also have "2 ^ (64 * i) * (2 ^ 64 * 2 ^ (64 * length right)) =
        (2::nat) ^ (64 * (i + 1 + length right))"
      by (simp only: power_add distrib_left mult.assoc mult_1_right)
    finally show ?thesis .
  qed
  have "limbs_val out + 2 ^ (64 * i) * (unat l * limbs_val right) < 2 ^ (64 * length out1)"
    using row by (rule less_le_trans) (use Cons.prems(1) inner(2) in \<open>auto intro!: power_increasing\<close>)
  then obtain out2 where carry: "mul_abs_carry out1 (i + length right) carry = Some out2"
    "length out2 = length out1"
    "limbs_val out2 = limbs_val out + 2 ^ (64 * i) * (unat l * limbs_val right)"
    using mul_abs_carry_correct [of out1 "i + length right" carry] inner(3,4) by auto
  from Cons.IH [of "i + 1" out2] Cons.prems(1) inner(2) carry(2,3) row obtain out3 where
    rest: "mul_abs_outer left right (i + 1) out2 = Some out3"
    "limbs_val out3 = limbs_val out2 + 2 ^ (64 * (i + 1)) * (limbs_val left * limbs_val right)"
    by (auto simp: algebra_simps)
  then show ?case
    using inner(1) carry by (simp add: power_add algebra_simps)
qed

lemma mul_abs_correct:
  "\<exists>out. mul_abs left right = Some out \<and> no_leading_zero out \<and>
     limbs_val out = limbs_val left * limbs_val right"
proof (cases "limbs_val left = 0 \<or> limbs_val right = 0")
  case True
  then show ?thesis by (auto simp: mul_abs_def no_leading_zero_def)
next
  case False
  from mul_abs_outer_correct [of 0 left right "replicate (length left + length right) 0"]
  obtain out where "mul_abs_outer left right 0 (replicate (length left + length right) 0) = Some out"
    "limbs_val out = limbs_val left * limbs_val right" by auto
  with False show ?thesis by (simp add: mul_abs_def)
qed

end
