(* ===== verification/Bigint_Division.thy ===== *)
theory Bigint_Division
  imports Bigint_Math
begin

text \<open>
  Bit-level operations and long division of \<^verbatim>\<open>bigint_math.rs\<close>: shifting, single bits, bit
  length, masks and the shift-subtract division loop, each shown to compute the operation of
  the same name on the denoted number.
\<close>

section \<open>Bits of the denoted number\<close>

lemma bit_low_high:
  assumes "a < (2::nat) ^ k"
  shows "bit (a + 2 ^ k * b) n \<longleftrightarrow> (if n < k then bit a n else bit b (n - k))"
proof (cases "n < k")
  case True
  have "take_bit k (a + 2 ^ k * b) = a" using assms by (simp add: take_bit_eq_mod)
  then have "bit a n \<longleftrightarrow> n < k \<and> bit (a + 2 ^ k * b) n"
    using bit_take_bit_iff [of k "a + 2 ^ k * b" n] by simp
  with True show ?thesis by simp
next
  case False
  have "drop_bit k (a + 2 ^ k * b) = b" using assms by (simp add: drop_bit_eq_div)
  then have "bit b (n - k) \<longleftrightarrow> bit (a + 2 ^ k * b) n"
    using bit_drop_bit_eq [of k "a + 2 ^ k * b"] False by (auto simp: fun_eq_iff)
  with False show ?thesis by simp
qed

lemma limb_or_zero_Cons:
  "limb_or_zero (x # xs) n = (if n = 0 then x else limb_or_zero xs (n - 1))"
  by (cases n) (simp_all add: limb_or_zero_def vec_get_def)

lemma bit_limbs_val:
  "bit (limbs_val xs) n \<longleftrightarrow> bit (limb_or_zero xs (n div 64)) (n mod 64)"
proof (induction xs arbitrary: n)
  case Nil
  then show ?case by (simp add: limb_or_zero_def vec_get_def)
next
  case (Cons x xs)
  have eq: "bit (limbs_val (x # xs)) n \<longleftrightarrow>
      (if n < 64 then bit (unat x) n else bit (limbs_val xs) (n - 64))"
    using bit_low_high [of "unat x" 64 "limbs_val xs" n] unat_u64_less [of x]
    by (simp split del: if_split)
  show ?case
  proof (cases "n < 64")
    case True
    then show ?thesis using eq by (simp add: limb_or_zero_Cons bit_unsigned_iff)
  next
    case False
    then have "(n - 64) div 64 = n div 64 - 1" "(n - 64) mod 64 = n mod 64" "n div 64 \<noteq> 0"
      by (simp_all add: le_div_geq le_mod_geq)
    with eq False Cons.IH [of "n - 64"] show ?thesis by (simp add: limb_or_zero_Cons)
  qed
qed

lemma bit_limb_length: "bit (w :: u64) n \<Longrightarrow> n < 64"
  using bit_imp_le_length [of w n] by simp

lemma test_bit_correct: "test_bit limbs b \<longleftrightarrow> bit (limbs_val limbs) b"
proof -
  have "drop_bit k v AND 1 = 1 \<longleftrightarrow> bit v k" for v :: u64 and k
    by (simp add: and_one_eq bit_iff_odd_drop_bit mod2_eq_if)
  then show ?thesis
    by (cases "b div 64 < length limbs")
      (simp_all add: test_bit_def bit_limbs_val limb_or_zero_def vec_get_def)
qed

lemma limb_or_zero_update:
  "i < length xs \<Longrightarrow> limb_or_zero (xs[i := v]) n = (if n = i then v else limb_or_zero xs n)"
  by (auto simp: limb_or_zero_def vec_get_def)

lemma limb_or_zero_pad: "limb_or_zero (xs @ replicate k 0) n = limb_or_zero xs n"
  by (auto simp: limb_or_zero_def vec_get_def nth_append)

lemma set_bit_correct: "limbs_val (set_bit_limbs limbs b) = set_bit b (limbs_val limbs)"
proof (rule bit_eqI)
  fix n
  let ?limb = "b div 64"
  define padded where "padded = (if length limbs \<le> ?limb
     then limbs @ replicate (?limb + 1 - length limbs) 0 else limbs)"
  have len: "?limb < length padded" by (simp add: padded_def)
  have get: "limb_or_zero padded k = limb_or_zero limbs k" for k
    unfolding padded_def by (simp add: limb_or_zero_pad)
  have nth: "padded ! ?limb = limb_or_zero padded ?limb"
    using len by (simp add: limb_or_zero_def vec_get_def)
  have "set_bit_limbs limbs b = padded[?limb := (padded ! ?limb) OR push_bit (b mod 64) 1]"
    by (simp add: set_bit_limbs_def padded_def Let_def)
  moreover have "n mod 64 = b mod 64 \<and> n div 64 = b div 64 \<longleftrightarrow> n = b"
    by (metis div_mult_mod_eq)
  ultimately show "bit (limbs_val (set_bit_limbs limbs b)) n = bit (set_bit b (limbs_val limbs)) n"
    using len by (auto simp: bit_limbs_val limb_or_zero_update nth get bit_simps)
qed

lemma bitand_abs_correct: "limbs_val (bitand_abs left right) = limbs_val left AND limbs_val right"
proof (rule bit_eqI)
  fix n
  show "bit (limbs_val (bitand_abs left right)) n = bit (limbs_val left AND limbs_val right) n"
    by (auto simp: bitand_abs_def bit_limbs_val bit_and_iff limb_or_zero_def vec_get_def)
qed

lemma limb_index_cases:
  fixes n q r :: nat
  assumes "r < 64"
  shows "n div 64 < q \<Longrightarrow> n < 64 * q + r" "q < n div 64 \<Longrightarrow> \<not> n < 64 * q + r"
    "n div 64 = q \<Longrightarrow> n mod 64 < r \<longleftrightarrow> n < 64 * q + r"
proof -
  show "n div 64 < q \<Longrightarrow> n < 64 * q + r" "q < n div 64 \<Longrightarrow> \<not> n < 64 * q + r"
    using assms by linarith+
  assume "n div 64 = q"
  then have "n = 64 * q + n mod 64" by (metis mult_div_mod_eq)
  then show "n mod 64 < r \<longleftrightarrow> n < 64 * q + r" by linarith
qed

lemma low_bits_mask_shape:
  assumes "r < 64" "bits = 64 * q + r"
  shows "low_bits_mask bits = replicate q (- 1) @ (if r = 0 then [] else [mask r])"
proof -
  have mask: "push_bit k 1 - 1 = (mask k :: u64)" for k
    by (simp add: mask_eq_exp_minus_1 push_bit_eq_mult)
  have "bits mod 64 = r" using assms by simp
  moreover have "(bits + 63) div 64 = (if r = 0 then q else Suc q)" using assms by auto
  moreover have "replicate (Suc q) (x :: u64) = replicate q x @ [x]" for x
    by (metis replicate_append_same replicate_Suc)
  ultimately show ?thesis
    using assms
    by (auto simp: low_bits_mask_def Let_def mask list_update_append mask_eq_exp_minus_1
        simp del: replicate_Suc)
qed

lemma low_bits_mask_correct: "limbs_val (low_bits_mask bits) = 2 ^ bits - 1"
proof -
  define q r where "q = bits div 64" and "r = bits mod 64"
  then have r: "r < 64" and bits: "bits = 64 * q + r" by simp_all
  have "bit (limbs_val (low_bits_mask bits)) n = bit (mask bits :: nat) n" for n
    unfolding low_bits_mask_shape [OF r bits] bit_limbs_val bit_mask_iff
    using limb_index_cases [OF r, where n = n and q = q] bits
    by (cases "n div 64" q rule: linorder_cases)
      (auto simp: limb_or_zero_def vec_get_def nth_append bit_mask_iff possible_bit_def)
  then have "limbs_val (low_bits_mask bits) = mask bits" by (rule bit_eqI)
  then show ?thesis by (simp add: mask_eq_exp_minus_1)
qed

section \<open>Bit length\<close>

lemma leading_zeros_top_bits_clear:
  assumes "64 - leading_zeros w \<le> k" "k < 64"
  shows "\<not> bit w k"
proof -
  let ?P = "\<lambda>i. \<not> bit w i" and ?xs = "rev [0..<64] :: nat list"
  have lt: "63 - k < length (takeWhile ?P ?xs)"
    using assms by (simp add: leading_zeros_def)
  then have "takeWhile ?P ?xs ! (63 - k) = ?xs ! (63 - k)" by (rule takeWhile_nth)
  also have "\<dots> = k" using assms(2) by (simp add: rev_nth)
  finally show ?thesis using nth_mem [OF lt] by (auto dest: set_takeWhileD)
qed

lemma bit_less_leading_zeros: "bit w k \<Longrightarrow> k < 64 - leading_zeros w"
  using leading_zeros_top_bits_clear [of w k] bit_limb_length [of w k] by (meson linorder_not_le)

lemma leading_zeros_less: "w \<noteq> 0 \<Longrightarrow> leading_zeros w < 64"
proof (rule ccontr)
  assume "\<not> leading_zeros w < 64"
  then have "\<not> bit w k" if "k < 64" for k using leading_zeros_top_bits_clear [of w k] that by simp
  then have "w = 0" by (auto simp: bit_eq_iff dest: bit_limb_length)
  moreover assume "w \<noteq> 0"
  ultimately show False by simp
qed

lemma leading_zeros_bit: "w \<noteq> 0 \<Longrightarrow> bit w (63 - leading_zeros w)"
proof -
  assume "w \<noteq> 0"
  then have "leading_zeros w < length (rev [0..<64] :: nat list)"
    by (simp add: leading_zeros_less)
  then show ?thesis
    using nth_length_takeWhile [of "\<lambda>i. \<not> bit w i" "rev [0..<64]"]
    by (simp add: leading_zeros_def rev_nth)
qed

lemma unat_less_leading_zeros: "unat w < 2 ^ (64 - leading_zeros w)"
proof -
  have "w = take_bit (64 - leading_zeros w) w"
    by (auto simp: bit_eq_iff bit_take_bit_iff dest: bit_less_leading_zeros)
  then have "unat w = take_bit (64 - leading_zeros w) (unat w)"
    by (metis unsigned_take_bit_eq)
  then show ?thesis by (metis take_bit_nat_less_exp)
qed

lemma unat_ge_leading_zeros: "w \<noteq> 0 \<Longrightarrow> 2 ^ (63 - leading_zeros w) \<le> unat w"
proof -
  assume "w \<noteq> 0"
  then have "bit (unat w) (63 - leading_zeros w)"
    using leading_zeros_bit bit_limb_length by (simp add: bit_unsigned_iff)
  then have "odd (unat w div 2 ^ (63 - leading_zeros w))" by (simp add: bit_iff_odd)
  then have "unat w div 2 ^ (63 - leading_zeros w) \<noteq> 0" by (metis even_zero)
  then show ?thesis by (simp add: div_eq_0_iff)
qed

lemma limbs_val_last:
  "xs \<noteq> [] \<Longrightarrow> limbs_val xs = limbs_val (butlast xs) + 2 ^ (64 * (length xs - 1)) * unat (last xs)"
  using limbs_val_snoc [of "butlast xs" "last xs"] by simp

lemma bit_length_upper: "limbs_val limbs < 2 ^ bit_length_abs limbs"
proof (cases "normalized limbs = []")
  case True
  then show ?thesis by (simp add: bit_length_abs_def)
next
  case False
  let ?n = "normalized limbs"
  have "limbs_val limbs = limbs_val (butlast ?n) + 2 ^ (64 * (length ?n - 1)) * unat (last ?n)"
    using limbs_val_last [OF False] by simp
  also have "\<dots> < 2 ^ (64 * (length ?n - 1)) * (1 + unat (last ?n))"
    using limbs_val_less [of "butlast ?n"] by simp
  also have "\<dots> \<le> 2 ^ (64 * (length ?n - 1)) * 2 ^ (64 - leading_zeros (last ?n))"
    using unat_less_leading_zeros [of "last ?n"] by (intro mult_le_mono) auto
  finally show ?thesis
    using False by (simp add: bit_length_abs_def Let_def power_add mult.commute)
qed

lemma bit_length_lower:
  assumes "limbs_val limbs \<noteq> 0"
  shows "2 ^ (bit_length_abs limbs - 1) \<le> limbs_val limbs"
proof -
  let ?n = "normalized limbs"
  have ne: "?n \<noteq> []" using assms by simp
  then have last: "last ?n \<noteq> 0"
    using no_leading_zero_normalized [of limbs] by (simp add: no_leading_zero_def)
  have "2 ^ (bit_length_abs limbs - 1) =
      2 ^ (64 * (length ?n - 1)) * (2::nat) ^ (63 - leading_zeros (last ?n))"
    using ne leading_zeros_less [OF last]
    by (simp add: bit_length_abs_def Let_def power_add [symmetric] mult.commute)
  also have "\<dots> \<le> 2 ^ (64 * (length ?n - 1)) * unat (last ?n)"
    using unat_ge_leading_zeros [OF last] by (rule mult_le_mono2)
  also have "\<dots> \<le> limbs_val limbs"
    using limbs_val_last [OF ne] by simp
  finally show ?thesis .
qed

lemma bit_length_le_iff: "bit_length_abs limbs \<le> w \<longleftrightarrow> limbs_val limbs < 2 ^ w"
proof
  assume "bit_length_abs limbs \<le> w"
  then have "(2::nat) ^ bit_length_abs limbs \<le> 2 ^ w" by simp
  with bit_length_upper [of limbs] show "limbs_val limbs < 2 ^ w" by linarith
next
  assume lt: "limbs_val limbs < 2 ^ w"
  show "bit_length_abs limbs \<le> w"
  proof (cases "limbs_val limbs = 0")
    case True
    then have "normalized limbs = []" by simp
    then show ?thesis by (simp add: bit_length_abs_def Let_def del: normalized_Nil_iff)
  next
    case False
    from bit_length_lower [OF this] lt have "(2::nat) ^ (bit_length_abs limbs - 1) < 2 ^ w"
      by linarith
    then have "bit_length_abs limbs - 1 < w" by (simp only: power_strict_increasing_iff)
    then show ?thesis by linarith
  qed
qed

section \<open>Left shift\<close>

lemma unat_shl_limb:
  assumes "bs < 64" "unat c < 2 ^ bs"
  shows "unat (push_bit bs l OR c :: u64) + 2 ^ 64 * (unat l div 2 ^ (64 - bs)) =
    unat l * 2 ^ bs + unat c"
proof -
  have "unat (take_bit bs c) = unat c"
    using assms(2) by (simp add: unsigned_take_bit_eq take_bit_nat_eq_self)
  then have "take_bit bs c = c" by (simp only: word_unat_eq_iff)
  then have c: "\<not> bit c n" if "bs \<le> n" for n
    using that by (metis bit_take_bit_iff linorder_not_le)
  have "push_bit bs l OR c = push_bit bs l + c"
    by (rule disjunctive_add_eq_or [symmetric]) (auto simp: bit_eq_iff bit_simps c)
  moreover have p: "unat (push_bit bs l) = 2 ^ bs * (unat l mod 2 ^ (64 - bs))"
  proof -
    have pow: "(2::nat) ^ 64 = 2 ^ bs * 2 ^ (64 - bs)"
      using assms(1) by (simp only: power_add [symmetric]) simp
    have "unat (push_bit bs l) = 2 ^ bs * unat l mod 2 ^ 64"
      by (simp only: unsigned_push_bit_eq push_bit_eq_mult [where 'a = nat]
          take_bit_eq_mod [where 'a = nat]) (simp add: mult.commute)
    also have "\<dots> = 2 ^ bs * (unat l mod 2 ^ (64 - bs))"
      by (simp only: pow mult_mod_right)
    finally show ?thesis .
  qed
  moreover have "2 ^ bs * (unat l mod 2 ^ (64 - bs)) + unat c < 2 ^ 64"
  proof -
    have "2 ^ bs * (unat l mod 2 ^ (64 - bs)) + unat c < 2 ^ bs * (unat l mod 2 ^ (64 - bs) + 1)"
      using assms(2) by simp
    also have "\<dots> \<le> 2 ^ bs * 2 ^ (64 - bs)" by (intro mult_le_mono) (simp_all add: Suc_leI)
    also have "\<dots> = 2 ^ 64" using assms(1) by (simp only: power_add [symmetric]) simp
    finally show ?thesis .
  qed
  ultimately have "unat (push_bit bs l OR c) = 2 ^ bs * (unat l mod 2 ^ (64 - bs)) + unat c"
    by (simp add: unat_word_ariths)
  moreover have "2 ^ 64 * (unat l div 2 ^ (64 - bs)) =
      2 ^ bs * (2 ^ (64 - bs) * (unat l div 2 ^ (64 - bs)))"
  proof -
    have "(2::nat) ^ 64 = 2 ^ bs * 2 ^ (64 - bs)"
      using assms(1) by (simp only: power_add [symmetric]) simp
    then show ?thesis by (simp only: mult.assoc)
  qed
  moreover have "2 ^ bs * (unat l mod 2 ^ (64 - bs)) +
      2 ^ bs * (2 ^ (64 - bs) * (unat l div 2 ^ (64 - bs))) = unat l * 2 ^ bs"
    by (simp only: distrib_left [symmetric] mod_mult_div_eq mult.commute)
  ultimately show ?thesis by linarith
qed

lemma unat_shl_carry:
  assumes "bs < 64"
  shows "unat (if bs = 0 then 0 else drop_bit (64 - bs) l :: u64) = unat l div 2 ^ (64 - bs)"
    "unat (if bs = 0 then 0 else drop_bit (64 - bs) l :: u64) < 2 ^ bs"
proof -
  show eq: "unat (if bs = 0 then 0 else drop_bit (64 - bs) l :: u64) = unat l div 2 ^ (64 - bs)"
    using unat_u64_less [of l] by (simp add: unat_drop_bit_eq drop_bit_eq_div [where 'a = nat])
  have "unat l < 2 ^ bs * 2 ^ (64 - bs)"
    using assms unat_u64_less [of l] by (simp only: power_add [symmetric]) simp
  then show "unat (if bs = 0 then 0 else drop_bit (64 - bs) l :: u64) < 2 ^ bs"
    by (simp only: eq) (simp add: less_mult_imp_div_less)
qed

lemma shl_abs_loop:
  assumes "fold (shl_abs_step shift limbs) [0..<n]
      (replicate (shift div 64 + length limbs + 1) 0, 0) = (out, carry)"
    and "n \<le> length limbs"
  shows "length out = shift div 64 + length limbs + 1 \<and> unat carry < 2 ^ (shift mod 64) \<and>
    (\<forall>k < length out. shift div 64 + n \<le> k \<longrightarrow> out ! k = 0) \<and>
    limbs_val out + 2 ^ (64 * (shift div 64 + n)) * unat carry =
      2 ^ shift * limbs_val (take n limbs)"
  using assms
proof (induction n arbitrary: out carry)
  case 0
  then show ?case by (auto simp: nth_Cons split: nat.split)
next
  case (Suc n)
  let ?ls = "shift div 64" and ?bs = "shift mod 64"
  obtain out' carry' where prev: "fold (shl_abs_step shift limbs) [0..<n]
      (replicate (?ls + length limbs + 1) 0, 0) = (out', carry')"
    by (cases "fold (shl_abs_step shift limbs) [0..<n] (replicate (?ls + length limbs + 1) 0, 0)")
  from Suc.prems have n: "n < length limbs" by simp
  note IH = Suc.IH [OF prev less_imp_le [OF n]]
  let ?l = "limbs ! n" and ?i = "n + ?ls"
  define low where "low = (push_bit ?bs ?l OR carry')"
  from Suc.prems(1) have "shl_abs_step shift limbs n (out', carry') = (out, carry)"
    by (simp only: fold_upt_Suc prev)
  then have out: "out = out'[?i := low]"
    and carry: "carry = (if ?bs = 0 then 0 else drop_bit (64 - ?bs) ?l)"
    by (auto simp: shl_abs_step_def Let_def low_def)
  have i: "?i < length out'" "out' ! ?i = 0" using IH n by auto
  have ucarry: "unat carry = unat ?l div 2 ^ (64 - ?bs)" "unat carry < 2 ^ ?bs"
    unfolding carry using unat_shl_carry [of ?bs ?l] by simp_all
  have limb: "unat low + 2 ^ 64 * unat carry = unat ?l * 2 ^ ?bs + unat carry'"
    using unat_shl_limb [of ?bs carry' ?l] IH by (simp only: low_def ucarry(1))
  have "limbs_val out + 2 ^ (64 * ?i) * unat (out' ! ?i) = limbs_val out' + 2 ^ (64 * ?i) * unat low"
    unfolding out by (rule limbs_val_update [OF i(1)])
  then have "limbs_val out + 2 ^ (64 * (?ls + Suc n)) * unat carry =
      limbs_val out' + 2 ^ (64 * ?i) * (unat low + 2 ^ 64 * unat carry)"
    using i(2) by (simp add: power_add distrib_left mult.assoc algebra_simps)
  also have "\<dots> = limbs_val out' + 2 ^ (64 * (?ls + n)) * unat carry' +
      2 ^ (64 * ?ls) * 2 ^ ?bs * (2 ^ (64 * n) * unat ?l)"
    unfolding limb by (simp add: power_add algebra_simps)
  also have "2 ^ (64 * ?ls) * 2 ^ ?bs = (2::nat) ^ shift" by (simp flip: power_add)
  also have "limbs_val out' + 2 ^ (64 * (?ls + n)) * unat carry' + 2 ^ shift * (2 ^ (64 * n) * unat ?l) =
      2 ^ shift * limbs_val (take (Suc n) limbs)"
    using IH n by (simp add: take_Suc_conv_app_nth limbs_val_snoc distrib_left)
  finally show ?case
    using IH ucarry(2) by (auto simp: out nth_list_update)
qed

lemma shl_abs_correct: "limbs_val (shl_abs limbs shift) = 2 ^ shift * limbs_val limbs"
proof (cases "normalized limbs = []")
  case True
  then show ?thesis by (simp add: shl_abs_def)
next
  case False
  let ?n = "normalized limbs" and ?ls = "shift div 64"
  obtain out carry where loop: "fold (shl_abs_step shift ?n) [0..<length ?n]
      (replicate (?ls + length ?n + 1) 0, 0) = (out, carry)"
    by (cases "fold (shl_abs_step shift ?n) [0..<length ?n] (replicate (?ls + length ?n + 1) 0, 0)")
  note inv = shl_abs_loop [OF loop order_refl]
  let ?k = "?ls + length ?n"
  have "limbs_val (out[?k := carry]) + 2 ^ (64 * ?k) * unat (out ! ?k) =
      limbs_val out + 2 ^ (64 * ?k) * unat carry"
    using inv by (intro limbs_val_update) simp
  moreover have "out ! ?k = 0" using inv by simp
  ultimately have "limbs_val (out[?k := carry]) = 2 ^ shift * limbs_val limbs"
    using inv by simp
  then show ?thesis using False loop by (simp add: shl_abs_def Let_def)
qed

lemma no_leading_zero_shl_abs: "no_leading_zero (shl_abs limbs shift)"
  by (auto simp: shl_abs_def Let_def no_leading_zero_def [of "[]"] split: prod.split)

section \<open>Division\<close>

lemma div_pow2_step: "(x::nat) div 2 ^ b = 2 * (x div 2 ^ Suc b) + (if bit x b then 1 else 0)"
proof -
  have "x div 2 ^ Suc b = x div 2 ^ b div 2" by (simp only: power_Suc2 div_mult2_eq)
  then show ?thesis by (simp add: bit_iff_odd)
qed

lemma set_bit_above_zeros:
  assumes "(q::nat) mod 2 ^ Suc b = 0"
  shows "set_bit b q = q + 2 ^ b"
proof -
  have "take_bit (Suc b) q = 0" using assms by (simp add: take_bit_eq_mod)
  then have "\<not> bit q b" by (metis bit_0_eq bit_take_bit_iff bot_apply bot_bool_def lessI)
  then show ?thesis by (simp add: set_bit_eq)
qed

lemma divmod_abs_step_correct:
  assumes "divmod_abs_step left right b (q, r) = (q', r')"
    and "limbs_val left div 2 ^ Suc b = limbs_val q div 2 ^ Suc b * limbs_val right + limbs_val r"
    and "limbs_val r < limbs_val right" "limbs_val q mod 2 ^ Suc b = 0"
  shows "limbs_val left div 2 ^ b = limbs_val q' div 2 ^ b * limbs_val right + limbs_val r' \<and>
    limbs_val r' < limbs_val right \<and> limbs_val q' mod 2 ^ b = 0"
proof -
  define r1 where "r1 = (if test_bit left b then set_bit_limbs (shl_abs r 1) 0 else shl_abs r 1)"
  have r1: "limbs_val r1 = 2 * limbs_val r + (if bit (limbs_val left) b then 1 else 0)"
    by (simp add: r1_def test_bit_correct set_bit_correct shl_abs_correct set_bit_eq bit_0)
  have out: "(q', r') = (if cmp_abs r1 right \<noteq> Less then (set_bit_limbs q b, sub_abs r1 right)
      else (q, r1))"
    using assms(1) by (simp add: divmod_abs_step_def Let_def r1_def split: if_splits)
  have cmp: "cmp_abs r1 right \<noteq> Less \<longleftrightarrow> limbs_val right \<le> limbs_val r1"
    by (simp add: cmp_abs_correct cmp_nat_def)
  obtain k where k: "limbs_val q = 2 ^ Suc b * k" using assms(4) by (auto elim: dvdE simp: mod_eq_0_iff_dvd)
  have qdiv: "limbs_val q div 2 ^ b = 2 * k" "limbs_val q div 2 ^ Suc b = k"
    "limbs_val q mod 2 ^ b = 0" "(limbs_val q + 2 ^ b) div 2 ^ b = 2 * k + 1"
    "(limbs_val q + 2 ^ b) mod 2 ^ b = 0"
    by (simp_all add: k mult.assoc)
  have left: "limbs_val left div 2 ^ b = 2 * k * limbs_val right + limbs_val r1"
    using div_pow2_step [of "limbs_val left" b] assms(2) by (simp only: r1 qdiv) simp
  show ?thesis
  proof (cases "limbs_val right \<le> limbs_val r1")
    case True
    with out cmp have "q' = set_bit_limbs q b" "r' = sub_abs r1 right" by simp_all
    with True have "limbs_val q' = limbs_val q + 2 ^ b" "limbs_val r' = limbs_val r1 - limbs_val right"
      by (simp_all add: set_bit_correct set_bit_above_zeros [OF assms(4)] limbs_val_sub_abs)
    moreover have "limbs_val r1 < 2 * limbs_val right" using r1 assms(3) by simp
    ultimately show ?thesis using True left qdiv by simp
  next
    case False
    with out cmp have "q' = q" "r' = r1" by simp_all
    with False left qdiv show ?thesis by simp
  qed
qed

lemma divmod_abs_loop:
  assumes "fold (divmod_abs_step left right) (rev [0..<m]) (q, r) = (q', r')"
    and "limbs_val left div 2 ^ m = limbs_val q div 2 ^ m * limbs_val right + limbs_val r"
    and "limbs_val r < limbs_val right" "limbs_val q mod 2 ^ m = 0"
  shows "limbs_val left = limbs_val q' * limbs_val right + limbs_val r' \<and>
    limbs_val r' < limbs_val right"
  using assms
proof (induction m arbitrary: q r)
  case 0
  then show ?case by simp
next
  case (Suc m)
  obtain q1 r1 where step: "divmod_abs_step left right m (q, r) = (q1, r1)"
    by (cases "divmod_abs_step left right m (q, r)")
  from Suc.prems(1) have "fold (divmod_abs_step left right) (rev [0..<m]) (q1, r1) = (q', r')"
    by (simp add: step)
  moreover note divmod_abs_step_correct [OF step Suc.prems(2-4)]
  ultimately show ?case by (intro Suc.IH) auto
qed

lemma divmod_abs_correct:
  assumes "divmod_abs left right = (quo, rem)" "limbs_val right \<noteq> 0"
  shows "limbs_val quo = limbs_val left div limbs_val right \<and>
    limbs_val rem = limbs_val left mod limbs_val right \<and>
    no_leading_zero quo \<and> no_leading_zero rem"
proof (cases "limbs_val left < limbs_val right")
  case True
  then have "quo = []" "rem = normalized left"
    using assms by (auto simp: divmod_abs_def Let_def cmp_abs_correct cmp_nat_def)
  with True show ?thesis by (simp add: no_leading_zero_def [of "[]"])
next
  case False
  let ?l = "normalized left" and ?r = "normalized right"
  obtain q r where loop: "fold (divmod_abs_step ?l ?r) (rev [0..<bit_length_abs ?l]) ([], []) = (q, r)"
    by (cases "fold (divmod_abs_step ?l ?r) (rev [0..<bit_length_abs ?l]) ([], [])")
  have "limbs_val ?l = limbs_val q * limbs_val ?r + limbs_val r \<and> limbs_val r < limbs_val ?r"
    using assms(2) bit_length_upper [of ?l] by (intro divmod_abs_loop [OF loop]) simp_all
  moreover have "cmp_abs ?l ?r \<noteq> Less" "?r \<noteq> []"
    using assms False by (auto simp: cmp_abs_correct cmp_nat_def)
  then have "quo = normalized q" "rem = normalized r"
    using assms(1) loop by (auto simp: divmod_abs_def Let_def)
  ultimately show ?thesis
    by (simp add: div_mult_self3 mult.commute)
qed

end
