(* ===== verification/Bigint_Value.thy ===== *)
theory Bigint_Value
  imports Bigint_Division
begin

text \<open>
  The owned signed-magnitude integer \<open>BigIntValue\<close> of \<^verbatim>\<open>term/bigint_math.rs\<close> and the
  ordering functions of \<^verbatim>\<open>term/compare/bigint.rs\<close>. \<open>big_int\<close> is the mathematical
  integer a value denotes; \<open>big_ok\<close> is the representation invariant (no leading zero limb, no
  negative zero). The arithmetic laws of the interface are collected in the locale
  \<open>signed_integer_arithmetic\<close>, which the model of the code interprets. \<open>i64\<close> values are
  integers in the signed 64-bit range.
\<close>

section \<open>Definitions\<close>

record BigIntValue =
  negative :: bool
  limbs :: "u64 list"

definition is_zero :: "BigIntValue \<Rightarrow> bool" where
  "is_zero v \<longleftrightarrow> limbs v = []"

definition is_negative :: "BigIntValue \<Rightarrow> bool" where
  "is_negative v \<longleftrightarrow> negative v \<and> \<not> is_zero v"

definition normalize :: "BigIntValue \<Rightarrow> BigIntValue" where
  "normalize v =
     (let v = v\<lparr>limbs := normalize_limbs (limbs v)\<rparr>
      in if limbs v = [] then v\<lparr>negative := False\<rparr> else v)"

definition big_new :: "bool \<Rightarrow> u64 list \<Rightarrow> BigIntValue" where
  "big_new neg ls = normalize \<lparr>negative = neg, limbs = ls\<rparr>"

definition big_zero :: BigIntValue where
  "big_zero = \<lparr>negative = False, limbs = []\<rparr>"

definition big_from_i64 :: "int \<Rightarrow> BigIntValue" where
  "big_from_i64 value =
     (let magnitude = word_of_int \<bar>value\<bar> :: u64
      in if magnitude = 0 then big_zero
         else \<lparr>negative = value < 0, limbs = [magnitude]\<rparr>)"

definition i64_try_from :: "u64 \<Rightarrow> int option" where
  "i64_try_from w = (if uint w < 2 ^ 63 then Some (uint w) else None)"

definition to_small_i64 :: "BigIntValue \<Rightarrow> int option" where
  "to_small_i64 v =
     (case limbs v of
        [] \<Rightarrow> Some 0
      | [limb] \<Rightarrow>
          if is_negative v then
            (if limb = word_of_int (2 ^ 63 - 1) + 1 then Some (- (2 ^ 63))
             else map_option uminus (i64_try_from limb))
          else i64_try_from limb
      | _ \<Rightarrow> None)"

definition sub_signed :: "u64 list \<Rightarrow> u64 list \<Rightarrow> BigIntValue" where
  "sub_signed positive negative_magnitude =
     (case cmp_abs positive negative_magnitude of
        Greater \<Rightarrow> big_new False (sub_abs positive negative_magnitude)
      | Equal \<Rightarrow> big_zero
      | Less \<Rightarrow> big_new True (sub_abs negative_magnitude positive))"

definition big_add :: "BigIntValue \<Rightarrow> BigIntValue \<Rightarrow> BigIntValue" where
  "big_add a b =
     (case (is_negative a, is_negative b) of
        (True, True) \<Rightarrow> big_new True (add_abs (limbs a) (limbs b))
      | (False, False) \<Rightarrow> big_new False (add_abs (limbs a) (limbs b))
      | (False, True) \<Rightarrow> sub_signed (limbs a) (limbs b)
      | (True, False) \<Rightarrow> sub_signed (limbs b) (limbs a))"

definition big_sub :: "BigIntValue \<Rightarrow> BigIntValue \<Rightarrow> BigIntValue" where
  "big_sub a b = big_add a (big_new (\<not> is_negative b) (limbs b))"

definition big_mul :: "BigIntValue \<Rightarrow> BigIntValue \<Rightarrow> BigIntValue option" where
  "big_mul a b =
     map_option (big_new (is_negative a \<noteq> is_negative b)) (mul_abs (limbs a) (limbs b))"

definition big_divmod :: "BigIntValue \<Rightarrow> BigIntValue \<Rightarrow> (BigIntValue \<times> BigIntValue) option" where
  "big_divmod a b =
     (if is_zero b then None
      else
        let (quo, rem) = divmod_abs (limbs a) (limbs b)
        in Some (big_new (is_negative a \<noteq> is_negative b) quo, big_new (is_negative a) rem))"

definition big_negate :: "BigIntValue \<Rightarrow> BigIntValue" where
  "big_negate a = big_new (\<not> is_negative a) (limbs a)"

definition big_abs :: "BigIntValue \<Rightarrow> BigIntValue" where
  "big_abs a = big_new False (limbs a)"

definition shl_bits :: "BigIntValue \<Rightarrow> nat \<Rightarrow> BigIntValue" where
  "shl_bits a shift = big_new (is_negative a) (shl_abs (limbs a) shift)"

definition bit_length :: "BigIntValue \<Rightarrow> nat" where
  "bit_length a = bit_length_abs (limbs a)"

text \<open>Ordering, from \<^verbatim>\<open>compare/bigint.rs\<close>.\<close>

definition compare_small_magnitude :: "u64 \<Rightarrow> u64 list \<Rightarrow> Ordering" where
  "compare_small_magnitude left right_limbs =
     (case cmp_nat (length right_limbs) 1 of
        Less \<Rightarrow> cmp_u64 left 0
      | Equal \<Rightarrow> cmp_u64 left (right_limbs ! 0)
      | Greater \<Rightarrow> Less)"

definition compare_small_int_to_bigint_value :: "int \<Rightarrow> BigIntValue \<Rightarrow> Ordering" where
  "compare_small_int_to_bigint_value small big =
     (case (small < 0, is_negative big) of
        (True, False) \<Rightarrow> Less
      | (False, True) \<Rightarrow> Greater
      | (False, False) \<Rightarrow> compare_small_magnitude (word_of_int \<bar>small\<bar>) (limbs big)
      | (True, True) \<Rightarrow>
          ordering_reverse (compare_small_magnitude (word_of_int \<bar>small\<bar>) (limbs big)))"

definition compare_bigint_values_owned :: "BigIntValue \<Rightarrow> BigIntValue \<Rightarrow> Ordering" where
  "compare_bigint_values_owned left right =
     (case (is_negative left, is_negative right) of
        (True, False) \<Rightarrow> Less
      | (False, True) \<Rightarrow> Greater
      | (False, False) \<Rightarrow> cmp_abs (limbs left) (limbs right)
      | (True, True) \<Rightarrow> ordering_reverse (cmp_abs (limbs left) (limbs right)))"

text \<open>
  The comparison of two heap bignums works on the sign word and the limb slice of each box; a
  box is modelled by the same record, without the invariant.
\<close>

definition compare_magnitude :: "u64 list \<Rightarrow> u64 list \<Rightarrow> Ordering" where
  "compare_magnitude left right =
     (case cmp_nat (length left) (length right) of
        Equal \<Rightarrow> iter_cmp (rev left) (rev right)
      | order \<Rightarrow> order)"

definition compare_bigint_limbs :: "BigIntValue \<Rightarrow> BigIntValue \<Rightarrow> Ordering" where
  "compare_bigint_limbs left right =
     (let left_limbs = normalized (limbs left); right_limbs = normalized (limbs right);
          left_negative = (negative left \<and> left_limbs \<noteq> []);
          right_negative = (negative right \<and> right_limbs \<noteq> [])
      in case (left_negative, right_negative) of
           (True, False) \<Rightarrow> Less
         | (False, True) \<Rightarrow> Greater
         | (False, False) \<Rightarrow> compare_magnitude left_limbs right_limbs
         | (True, True) \<Rightarrow> ordering_reverse (compare_magnitude left_limbs right_limbs))"

section \<open>Denotation and representation invariant\<close>

definition big_int :: "BigIntValue \<Rightarrow> int" where
  "big_int v = (if negative v then - int (limbs_val (limbs v)) else int (limbs_val (limbs v)))"

definition big_ok :: "BigIntValue \<Rightarrow> bool" where
  "big_ok v \<longleftrightarrow> no_leading_zero (limbs v) \<and> (limbs v = [] \<longrightarrow> \<not> negative v)"

definition cmp_int :: "int \<Rightarrow> int \<Rightarrow> Ordering" where
  "cmp_int a b = (if a < b then Less else if a = b then Equal else Greater)"

lemma big_new_simps [simp]:
  "limbs (big_new neg ls) = normalized ls"
  "negative (big_new neg ls) \<longleftrightarrow> neg \<and> limbs_val ls \<noteq> 0"
  by (simp_all add: big_new_def normalize_def Let_def)

lemma big_ok_big_new [simp]: "big_ok (big_new neg ls)"
  by (simp add: big_ok_def)

lemma big_ok_big_zero [simp]: "big_ok big_zero" and big_int_big_zero [simp]: "big_int big_zero = 0"
  by (simp_all add: big_ok_def big_int_def big_zero_def no_leading_zero_def)

lemma big_int_big_new [simp]:
  "big_int (big_new neg ls) = (if neg then - int (limbs_val ls) else int (limbs_val ls))"
  by (auto simp: big_int_def)

lemma is_zero_iff: "big_ok v \<Longrightarrow> is_zero v \<longleftrightarrow> big_int v = 0"
  by (auto simp: is_zero_def big_ok_def big_int_def no_leading_zero_val_0)

lemma is_negative_iff: "big_ok v \<Longrightarrow> is_negative v \<longleftrightarrow> big_int v < 0"
  using no_leading_zero_val_0 [of "limbs v"]
  by (auto simp: is_negative_def is_zero_def big_ok_def big_int_def)

lemma big_int_signed:
  "big_ok v \<Longrightarrow> big_int v = (if is_negative v then - int (limbs_val (limbs v)) else int (limbs_val (limbs v)))"
  by (auto simp: is_negative_def is_zero_def big_int_def)

lemma magnitude: "limbs_val (limbs v) = nat \<bar>big_int v\<bar>"
  by (simp add: big_int_def)

lemma big_int_inject: "big_ok a \<Longrightarrow> big_ok b \<Longrightarrow> big_int a = big_int b \<Longrightarrow> a = b"
proof -
  assume a: "big_ok a" and b: "big_ok b" and eq: "big_int a = big_int b"
  then have val: "limbs_val (limbs a) = limbs_val (limbs b)" by (simp add: magnitude)
  have "length (limbs a) = length (limbs b)"
    using shorter_is_less [of "limbs b" "limbs a"] shorter_is_less [of "limbs a" "limbs b"] a b val
    by (fastforce simp: big_ok_def)
  with val have limbs: "limbs a = limbs b" by (rule limbs_val_inject_same_length [rotated])
  moreover have "negative a = negative b"
    using a b eq limbs no_leading_zero_val_0 [of "limbs b"]
    by (auto simp: big_ok_def big_int_def split: if_splits)
  ultimately show "a = b" by simp
qed

lemma cmp_int_nat: "cmp_nat a b = cmp_int (int a) (int b)"
  by (simp add: cmp_nat_def cmp_int_def)

lemma cmp_int_reverse: "ordering_reverse (cmp_int a b) = cmp_int (- a) (- b)"
  by (simp add: cmp_int_def)

section \<open>The operations on integers\<close>

lemma sub_signed_ok [simp]: "big_ok (sub_signed p n)"
  by (simp add: sub_signed_def split: Ordering.split)

lemma big_int_sub_signed [simp]:
  "big_int (sub_signed p n) = int (limbs_val p) - int (limbs_val n)"
  by (auto simp: sub_signed_def cmp_abs_correct cmp_nat_def limbs_val_sub_abs)

lemma big_ok_big_add [simp]: "big_ok (big_add a b)"
  by (simp add: big_add_def split: bool.split)

lemma big_int_big_add: "big_ok a \<Longrightarrow> big_ok b \<Longrightarrow> big_int (big_add a b) = big_int a + big_int b"
  by (simp add: big_add_def big_int_signed [of a] big_int_signed [of b] limbs_val_add_abs
      split: bool.split)

lemma big_int_big_negate: "big_ok a \<Longrightarrow> big_int (big_negate a) = - big_int a"
  by (simp add: big_negate_def big_int_signed [of a])

lemma big_int_big_abs: "big_int (big_abs a) = \<bar>big_int a\<bar>"
  by (simp add: big_abs_def magnitude)

lemma big_sub_negate: "big_sub a b = big_add a (big_negate b)"
  by (simp add: big_sub_def big_negate_def)

lemma big_ok_big_negate [simp]: "big_ok (big_negate a)"
  by (simp add: big_negate_def)

lemma big_int_big_sub: "big_ok a \<Longrightarrow> big_ok b \<Longrightarrow> big_int (big_sub a b) = big_int a - big_int b"
  by (simp add: big_sub_negate big_int_big_add big_int_big_negate)

lemma big_mul_total:
  "big_ok a \<Longrightarrow> big_ok b \<Longrightarrow>
     \<exists>p. big_mul a b = Some p \<and> big_ok p \<and> big_int p = big_int a * big_int b"
  using mul_abs_correct [of "limbs a" "limbs b"]
  by (auto simp: big_mul_def big_int_signed [of a] big_int_signed [of b])

definition trunc_quot :: "int \<Rightarrow> int \<Rightarrow> int" where
  "trunc_quot a b = sgn a * sgn b * (\<bar>a\<bar> div \<bar>b\<bar>)"

lemma trunc_quot_rem: "a - trunc_quot a b * b = sgn a * (\<bar>a\<bar> mod \<bar>b\<bar>)"
proof -
  have "\<bar>a\<bar> mod \<bar>b\<bar> = \<bar>a\<bar> - \<bar>b\<bar> * (\<bar>a\<bar> div \<bar>b\<bar>)" by (simp add: minus_mult_div_eq_mod)
  then have "sgn a * (\<bar>a\<bar> mod \<bar>b\<bar>) = sgn a * \<bar>a\<bar> - sgn a * (\<bar>a\<bar> div \<bar>b\<bar>) * \<bar>b\<bar>"
    by (simp add: right_diff_distrib mult.assoc mult.commute)
  moreover have "sgn a * \<bar>a\<bar> = a" by (rule sgn_mult_abs)
  moreover have "trunc_quot a b * b = sgn a * (\<bar>a\<bar> div \<bar>b\<bar>) * (sgn b * b)"
    by (simp add: trunc_quot_def)
  moreover have "sgn b * b = \<bar>b\<bar>" by (simp add: abs_sgn mult.commute)
  ultimately show ?thesis by simp
qed

lemma big_divmod_None: "big_ok b \<Longrightarrow> big_divmod a b = None \<longleftrightarrow> big_int b = 0"
  by (simp add: big_divmod_def is_zero_iff split: prod.split)

lemma big_divmod_Some:
  assumes "big_ok a" "big_ok b" "big_divmod a b = Some (q, r)"
  shows "big_ok q \<and> big_ok r \<and> big_int q = trunc_quot (big_int a) (big_int b) \<and>
    big_int r = big_int a - trunc_quot (big_int a) (big_int b) * big_int b"
proof -
  obtain quo rem where dm: "divmod_abs (limbs a) (limbs b) = (quo, rem)"
    by (cases "divmod_abs (limbs a) (limbs b)")
  from assms have nz: "big_int b \<noteq> 0" "limbs_val (limbs b) \<noteq> 0"
    by (auto simp: big_divmod_def is_zero_iff magnitude split: if_splits)
  from assms(3) dm have q: "q = big_new (is_negative a \<noteq> is_negative b) quo"
    and r: "r = big_new (is_negative a) rem"
    by (auto simp: big_divmod_def split: if_splits)
  note vals = divmod_abs_correct [OF dm nz(2)]
  have quo: "int (limbs_val quo) = \<bar>big_int a\<bar> div \<bar>big_int b\<bar>"
    and rem: "int (limbs_val rem) = \<bar>big_int a\<bar> mod \<bar>big_int b\<bar>"
    using vals nz(1)
    by (simp_all add: magnitude nat_div_distrib [symmetric] nat_mod_distrib [symmetric]
        pos_imp_zdiv_nonneg_iff)
  have "big_int q = trunc_quot (big_int a) (big_int b)"
    using nz(1) quo by (cases "big_int a = 0")
      (auto simp: q trunc_quot_def is_negative_iff [OF assms(1)] is_negative_iff [OF assms(2)] sgn_if)
  moreover have "big_int r = sgn (big_int a) * (\<bar>big_int a\<bar> mod \<bar>big_int b\<bar>)"
    using rem by (cases "big_int a = 0") (auto simp: r is_negative_iff [OF assms(1)] sgn_if)
  ultimately show ?thesis by (simp add: q r trunc_quot_rem)
qed

section \<open>Machine-word conversions and ordering\<close>

lemma unat_word_of_abs:
  assumes "- (2 ^ 63) \<le> i" "i < 2 ^ 63"
  shows "int (unat (word_of_int \<bar>i\<bar> :: u64)) = \<bar>i\<bar>"
proof -
  have "uint (word_of_int \<bar>i\<bar> :: u64) = \<bar>i\<bar>"
    using assms by (intro word_of_int_inverse [OF refl]) auto
  then show ?thesis by simp
qed

lemma big_from_i64_correct:
  assumes "- (2 ^ 63) \<le> i" "i < 2 ^ 63"
  shows "big_ok (big_from_i64 i)" "big_int (big_from_i64 i) = i"
proof -
  define w where "w = (word_of_int \<bar>i\<bar> :: u64)"
  have m: "int (unat w) = \<bar>i\<bar>" using unat_word_of_abs [OF assms] by (simp only: w_def)
  have zero: "w = 0 \<longleftrightarrow> i = 0"
    using m by (metis abs_0_eq of_nat_0_eq_iff unat_eq_zero)
  show "big_ok (big_from_i64 i)"
    by (auto simp: big_from_i64_def Let_def big_ok_def big_zero_def no_leading_zero_def)
  show "big_int (big_from_i64 i) = i"
  proof (cases "i = 0")
    case True
    then show ?thesis by (simp add: big_from_i64_def)
  next
    case False
    then have "big_from_i64 i = \<lparr>negative = i < 0, limbs = [w]\<rparr>"
      using zero by (simp add: big_from_i64_def Let_def w_def)
    then show ?thesis using m by (simp add: big_int_def)
  qed
qed

lemma two_limbs_ge: "no_leading_zero (x # y # ys) \<Longrightarrow> 2 ^ 64 \<le> limbs_val (x # y # ys)"
proof -
  assume nlz: "no_leading_zero (x # y # ys)"
  have "(2::nat) ^ 64 \<le> 2 ^ (64 * (length (x # y # ys) - 1))"
    by (intro power_increasing) auto
  also have "\<dots> \<le> limbs_val (x # y # ys)" by (rule no_leading_zero_ge [OF nlz]) simp
  finally show ?thesis .
qed

lemma to_small_i64_correct:
  assumes "big_ok v"
  shows "to_small_i64 v =
    (if - (2 ^ 63) \<le> big_int v \<and> big_int v < 2 ^ 63 then Some (big_int v) else None)"
proof (cases "limbs v")
  case Nil
  then show ?thesis by (simp add: to_small_i64_def big_int_def)
next
  case (Cons limb rest)
  show ?thesis
  proof (cases rest)
    case Nil
    have eq: "limb = 9223372036854775808 \<longleftrightarrow> uint limb = 9223372036854775808"
      by (simp add: word_uint_eq_iff)
    have nn: "- uint limb < 9223372036854775808" "- 9223372036854775808 \<le> uint limb"
      using uint_nonnegative [of limb] by linarith+
    have neg: "is_negative v = negative v" using Cons by (simp add: is_negative_def is_zero_def)
    have bi: "big_int v = (if negative v then - uint limb else uint limb)"
      using Cons Nil by (simp add: big_int_def)
    have ts: "to_small_i64 v =
        (if negative v then
           (if uint limb = 9223372036854775808 then Some (- (2 ^ 63))
            else if uint limb < 2 ^ 63 then Some (- uint limb) else None)
         else if uint limb < 2 ^ 63 then Some (uint limb) else None)"
      using Cons Nil eq by (simp add: to_small_i64_def neg i64_try_from_def)
    show ?thesis unfolding ts bi using nn by (cases "negative v") auto
  next
    case more: (Cons y ys)
    with Cons assms have "2 ^ 64 \<le> limbs_val (limbs v)"
      using two_limbs_ge [of limb y ys] by (simp only: big_ok_def)
    then have "2 ^ 64 \<le> \<bar>big_int v\<bar>" by (simp add: big_int_def)
    then show ?thesis using Cons more by (auto simp: to_small_i64_def)
  qed
qed

lemma compare_bigint_values_owned_correct:
  assumes "big_ok a" "big_ok b"
  shows "compare_bigint_values_owned a b = cmp_int (big_int a) (big_int b)"
proof -
  have "big_int a = (if is_negative a then - int (limbs_val (limbs a)) else int (limbs_val (limbs a)))"
    "big_int b = (if is_negative b then - int (limbs_val (limbs b)) else int (limbs_val (limbs b)))"
    using assms by (simp_all only: big_int_signed)
  moreover have "is_negative a \<Longrightarrow> big_int a < 0" "is_negative b \<Longrightarrow> big_int b < 0"
    using assms by (simp_all add: is_negative_iff)
  ultimately show ?thesis
    by (cases "is_negative a"; cases "is_negative b")
      (auto simp: compare_bigint_values_owned_def cmp_abs_correct cmp_int_nat cmp_int_reverse cmp_int_def)
qed

lemma compare_magnitude_normalized:
  "compare_magnitude (normalized a) (normalized b) = cmp_abs a b"
  by (simp add: compare_magnitude_def cmp_abs_def Let_def)

lemma compare_bigint_limbs_owned:
  "compare_bigint_limbs a b =
     compare_bigint_values_owned (big_new (negative a) (limbs a)) (big_new (negative b) (limbs b))"
proof -
  have "cmp_abs (normalized x) (normalized y) = cmp_abs x y" for x y
    by (simp add: cmp_abs_correct)
  then show ?thesis
    by (simp add: compare_bigint_limbs_def compare_bigint_values_owned_def Let_def is_negative_def
        is_zero_def compare_magnitude_normalized split: bool.split)
qed

lemma compare_small_magnitude_correct:
  "no_leading_zero ls \<Longrightarrow> compare_small_magnitude w ls = cmp_nat (unat w) (limbs_val ls)"
proof (cases ls)
  case (Cons x rest)
  assume nlz: "no_leading_zero ls"
  show ?thesis
  proof (cases rest)
    case Nil
    then show ?thesis using Cons
      by (simp add: compare_small_magnitude_def cmp_nat_def cmp_u64_def word_less_nat_alt word_unat_eq_iff)
  next
    case more: (Cons y ys)
    then have "2 ^ 64 \<le> limbs_val ls" using nlz two_limbs_ge Cons by simp
    then have "unat w < limbs_val ls" using unat_u64_less [of w] by simp
    then show ?thesis using Cons more by (simp add: compare_small_magnitude_def cmp_nat_def)
  qed
qed (simp add: compare_small_magnitude_def cmp_nat_def cmp_u64_def word_less_nat_alt unat_eq_zero)

lemma compare_small_int_to_bigint_value_correct:
  assumes "big_ok b" "- (2 ^ 63) \<le> i" "i < 2 ^ 63"
  shows "compare_small_int_to_bigint_value i b = cmp_int i (big_int b)"
proof -
  have "compare_small_magnitude (word_of_int \<bar>i\<bar>) (limbs b) = cmp_int \<bar>i\<bar> (int (limbs_val (limbs b)))"
    using assms(1) compare_small_magnitude_correct [of "limbs b" "word_of_int \<bar>i\<bar>"]
      unat_word_of_abs [OF assms(2,3)]
    by (simp add: big_ok_def cmp_int_nat)
  moreover have "big_int b = (if is_negative b then - int (limbs_val (limbs b)) else int (limbs_val (limbs b)))"
    using assms(1) by (rule big_int_signed)
  moreover have "is_negative b \<Longrightarrow> big_int b < 0" using assms(1) by (simp add: is_negative_iff)
  ultimately show ?thesis
    by (cases "i < 0"; cases "is_negative b")
      (auto simp: compare_small_int_to_bigint_value_def cmp_int_reverse cmp_int_def)
qed

section \<open>The arithmetic interface\<close>

text \<open>
  What the arithmetic BIFs and the literal loader rely on: each operation is total on
  well-formed values, keeps them well formed and computes the integer operation, and a
  well-formed value is determined by the integer it denotes. The algebraic facts about
  representations follow once and for all inside the locale.
\<close>

locale signed_integer_arithmetic =
  fixes ok :: "'v \<Rightarrow> bool"
    and den :: "'v \<Rightarrow> int"
    and add :: "'v \<Rightarrow> 'v \<Rightarrow> 'v"
    and sub :: "'v \<Rightarrow> 'v \<Rightarrow> 'v"
    and mul :: "'v \<Rightarrow> 'v \<Rightarrow> 'v option"
    and divmod :: "'v \<Rightarrow> 'v \<Rightarrow> ('v \<times> 'v) option"
  assumes inject: "ok a \<Longrightarrow> ok b \<Longrightarrow> den a = den b \<Longrightarrow> a = b"
    and add_law: "ok a \<Longrightarrow> ok b \<Longrightarrow> ok (add a b) \<and> den (add a b) = den a + den b"
    and sub_law: "ok a \<Longrightarrow> ok b \<Longrightarrow> ok (sub a b) \<and> den (sub a b) = den a - den b"
    and mul_law: "ok a \<Longrightarrow> ok b \<Longrightarrow> \<exists>p. mul a b = Some p \<and> ok p \<and> den p = den a * den b"
    and divmod_zero: "ok b \<Longrightarrow> divmod a b = None \<longleftrightarrow> den b = 0"
    and divmod_law: "ok a \<Longrightarrow> ok b \<Longrightarrow> divmod a b = Some (q, r) \<Longrightarrow>
      ok q \<and> ok r \<and> den q = trunc_quot (den a) (den b) \<and> den r = den a - trunc_quot (den a) (den b) * den b"
begin

lemma add_commute: "ok a \<Longrightarrow> ok b \<Longrightarrow> add a b = add b a"
  by (rule inject) (simp_all add: add_law)

lemma add_assoc: "ok a \<Longrightarrow> ok b \<Longrightarrow> ok c \<Longrightarrow> add (add a b) c = add a (add b c)"
  by (rule inject) (simp_all add: add_law)

lemma sub_add_cancel: "ok a \<Longrightarrow> ok b \<Longrightarrow> add (sub a b) b = a"
  by (rule inject) (simp_all add: add_law sub_law)

lemma mul_commute: "ok a \<Longrightarrow> ok b \<Longrightarrow> mul a b = mul b a"
  using mul_law [of a b] mul_law [of b a] by (auto simp: mult.commute intro!: inject)

lemma divmod_reconstructs:
  assumes "ok a" "ok b" "divmod a b = Some (q, r)"
  shows "\<exists>p. mul q b = Some p \<and> add p r = a"
proof -
  note dm = divmod_law [OF assms]
  with assms(2) obtain p where p: "mul q b = Some p" "ok p" "den p = den q * den b"
    using mul_law [of q b] by auto
  have "add p r = a"
    using dm p assms(1) by (intro inject) (simp_all add: add_law)
  with p(1) show ?thesis by blast
qed

end

interpretation big: signed_integer_arithmetic big_ok big_int big_add big_sub big_mul big_divmod
proof unfold_locales
  fix a b q r
  assume "big_ok a" "big_ok b"
  then show "big_ok (big_sub a b) \<and> big_int (big_sub a b) = big_int a - big_int b"
    by (simp add: big_int_big_sub) (simp add: big_sub_def)
qed (blast intro: big_int_inject | simp add: big_int_big_add big_mul_total big_divmod_None |
     drule (2) big_divmod_Some)+

section \<open>Properties\<close>

text \<open>
  C24. Bignum addition, subtraction, multiplication, negation and absolute value compute the
  integer operations: for well-formed operands the multiplication never indexes out of range, every
  result is well formed (normalised limbs, no negative zero) and denotes the exact integer sum,
  difference, product, opposite and absolute value. No intermediate 128-bit carry wraps.
\<close>

theorem bigint_ring_operations_exact:
  assumes "big_ok a" "big_ok b"
  shows "big_ok (big_add a b) \<and> big_int (big_add a b) = big_int a + big_int b \<and>
    big_ok (big_sub a b) \<and> big_int (big_sub a b) = big_int a - big_int b \<and>
    big_ok (big_negate a) \<and> big_int (big_negate a) = - big_int a \<and>
    big_ok (big_abs a) \<and> big_int (big_abs a) = \<bar>big_int a\<bar> \<and>
    (\<exists>p. big_mul a b = Some p \<and> big_ok p \<and> big_int p = big_int a * big_int b)"
  using assms big.sub_law [OF assms] big_mul_total [OF assms]
  by (simp add: big_int_big_add big_int_big_negate big_int_big_abs) (simp add: big_abs_def)

theorem bigint_ring_operations_exact_witness:
  "big_int (big_sub (big_new False [0, 1]) (big_new False [1])) = 2 ^ 64 - 1"
  using bigint_ring_operations_exact [of "big_new False [0, 1]" "big_new False [1]"] by simp

text \<open>
  C8. Bignum division is truncating integer division: it returns \<open>None\<close> exactly for a zero
  divisor, otherwise the quotient rounds towards zero, the remainder takes the sign of the
  dividend and is smaller than the divisor in magnitude, and multiplying the quotient by the
  divisor and adding the remainder with the code's own operations gives back the dividend
  limb for limb.
\<close>

theorem bigint_divmod_truncates:
  assumes "big_ok a" "big_ok b"
  shows "(big_divmod a b = None \<longleftrightarrow> big_int b = 0) \<and>
    (\<forall>q r. big_divmod a b = Some (q, r) \<longrightarrow>
       big_int q = sgn (big_int a) * sgn (big_int b) * (\<bar>big_int a\<bar> div \<bar>big_int b\<bar>) \<and>
       \<bar>big_int r\<bar> < \<bar>big_int b\<bar> \<and> (big_int r \<noteq> 0 \<longrightarrow> sgn (big_int r) = sgn (big_int a)) \<and>
       (\<exists>p. big_mul q b = Some p \<and> big_add p r = a))"
proof -
  have "big_int q = sgn (big_int a) * sgn (big_int b) * (\<bar>big_int a\<bar> div \<bar>big_int b\<bar>) \<and>
      \<bar>big_int r\<bar> < \<bar>big_int b\<bar> \<and> (big_int r \<noteq> 0 \<longrightarrow> sgn (big_int r) = sgn (big_int a)) \<and>
      (\<exists>p. big_mul q b = Some p \<and> big_add p r = a)"
    if dm: "big_divmod a b = Some (q, r)" for q r
  proof -
    have nz: "big_int b \<noteq> 0" using dm big_divmod_None [OF assms(2), of a] by auto
    then have lt: "\<bar>big_int a\<bar> mod \<bar>big_int b\<bar> < \<bar>big_int b\<bar>" by simp
    from big_divmod_Some [OF assms dm]
    have r: "big_int r = sgn (big_int a) * (\<bar>big_int a\<bar> mod \<bar>big_int b\<bar>)"
      by (simp add: trunc_quot_rem)
    have "\<bar>big_int r\<bar> < \<bar>big_int b\<bar>" using lt nz
      by (auto simp: r abs_mult abs_sgn_eq)
    moreover have "big_int r \<noteq> 0 \<longrightarrow> sgn (big_int r) = sgn (big_int a)"
    proof -
      have "0 \<le> \<bar>big_int a\<bar> mod \<bar>big_int b\<bar>" using nz by simp
      then show ?thesis
        by (cases "\<bar>big_int a\<bar> mod \<bar>big_int b\<bar> = 0") (simp_all add: r sgn_mult)
    qed
    ultimately show ?thesis
      using big_divmod_Some [OF assms dm] big.divmod_reconstructs [OF assms dm]
      by (simp add: trunc_quot_def)
  qed
  with big_divmod_None [OF assms(2), of a] show ?thesis by blast
qed

theorem bigint_divmod_truncates_witness:
  "\<exists>q r. big_divmod (big_new True [7]) (big_new False [2]) = Some (q, r) \<and> big_int q = - 3"
proof -
  note spec = bigint_divmod_truncates [of "big_new True [7]" "big_new False [2]"]
  then have "big_divmod (big_new True [7]) (big_new False [2]) \<noteq> None" by simp
  then obtain q r where qr: "big_divmod (big_new True [7]) (big_new False [2]) = Some (q, r)" by auto
  with spec have "big_int q = - 3" by simp
  with qr show ?thesis by blast
qed

text \<open>
  C35. Bignum ordering is the integer ordering: the comparison of owned values, the comparison
  of heap boxes (which normalises first, so it holds without the representation invariant) and
  the comparison of a machine integer with a bignum all return the order of the denoted
  integers.
\<close>

theorem bigint_ordering_exact:
  "(big_ok a \<and> big_ok b \<longrightarrow> compare_bigint_values_owned a b = cmp_int (big_int a) (big_int b)) \<and>
   compare_bigint_limbs a b = cmp_int (big_int a) (big_int b) \<and>
   (big_ok b \<and> - (2 ^ 63) \<le> i \<and> i < 2 ^ 63 \<longrightarrow>
      compare_small_int_to_bigint_value i b = cmp_int i (big_int b))"
proof -
  have "compare_bigint_limbs a b =
      cmp_int (big_int (big_new (negative a) (limbs a))) (big_int (big_new (negative b) (limbs b)))"
    by (simp add: compare_bigint_limbs_owned compare_bigint_values_owned_correct)
  then have "compare_bigint_limbs a b = cmp_int (big_int a) (big_int b)"
    by (simp add: big_int_def)
  then show ?thesis
    by (simp add: compare_bigint_values_owned_correct compare_small_int_to_bigint_value_correct)
qed

theorem bigint_ordering_exact_witness:
  "compare_bigint_values_owned (big_new True [1, 1]) (big_new False [5]) = Less \<and>
   compare_small_int_to_bigint_value (- 7) (big_new True [0, 1]) = Greater"
  using bigint_ordering_exact [of "big_new True [1, 1]" "big_new False [5]" 0]
    bigint_ordering_exact [of "big_new True [1, 1]" "big_new True [0, 1]" "- 7"]
  by (simp add: cmp_int_def)

text \<open>
  The machine-integer boundary is exact in both directions: every signed 64-bit integer
  (the minimum included) becomes a well-formed bignum denoting it, and a well-formed bignum is
  demoted to a machine integer exactly when it fits, to the integer it denotes.
\<close>

lemma bigint_i64_boundary:
  "(- (2 ^ 63) \<le> i \<and> i < 2 ^ 63 \<longrightarrow>
      big_ok (big_from_i64 i) \<and> big_int (big_from_i64 i) = i \<and> to_small_i64 (big_from_i64 i) = Some i) \<and>
   (big_ok v \<longrightarrow> to_small_i64 v =
      (if - (2 ^ 63) \<le> big_int v \<and> big_int v < 2 ^ 63 then Some (big_int v) else None))"
  using big_from_i64_correct [of i] to_small_i64_correct [of v] to_small_i64_correct [of "big_from_i64 i"]
  by auto

lemma bigint_i64_boundary_witness:
  "to_small_i64 (big_from_i64 (- (2 ^ 63))) = Some (- (2 ^ 63)) \<and>
   to_small_i64 (big_new False [0, 1]) = None"
  using bigint_i64_boundary [of "- (2 ^ 63)" "big_new False [0, 1]"] by simp

text \<open>
  Shifts and masks are exact at every width: \<open>shl_bits\<close> multiplies by a power of two,
  \<open>bit_length\<close> is the least width that holds the magnitude, and \<open>bitand_abs\<close> with
  \<open>low_bits_mask\<close> reduces a magnitude modulo a power of two.
\<close>

lemma bigint_shift_and_mask_exact:
  "big_int (shl_bits a n) = big_int a * 2 ^ n \<and>
   (\<bar>big_int a\<bar> < 2 ^ w \<longleftrightarrow> bit_length a \<le> w) \<and>
   limbs_val (bitand_abs ls (low_bits_mask w)) = limbs_val ls mod 2 ^ w"
proof -
  have "\<bar>big_int a\<bar> < 2 ^ w \<longleftrightarrow> bit_length a \<le> w"
    by (auto simp: bit_length_def bit_length_le_iff big_int_def simp flip: of_nat_power)
  moreover have "limbs_val (bitand_abs ls (low_bits_mask w)) = limbs_val ls mod 2 ^ w"
    by (simp only: bitand_abs_correct low_bits_mask_correct flip: take_bit_eq_mod)
      (simp only: take_bit_eq_mask mask_eq_exp_minus_1)
  moreover have "big_int (shl_bits a n) = big_int a * 2 ^ n"
    by (auto simp: shl_bits_def shl_abs_correct big_int_def is_negative_def is_zero_def)
  ultimately show ?thesis by blast
qed

end
