(* ===== verification/Bigint_Convert.thy ===== *)
theory Bigint_Convert
  imports Bigint_Value
begin

text \<open>
  Byte-level and radix-string conversions of bignums
  (\<^verbatim>\<open>crates/beamr/src/term/bigint_convert.rs\<close>). A \<open>&str\<close> is its UTF-8 byte list, as the
  source reads it with \<open>as_bytes\<close>. The digit loop of \<open>to_string_radix\<close> is a partial function
  whose \<open>None\<close> is non-termination; it is shown to return for every radix the caller admits.
  The lemmas give the integer each byte or digit string denotes, and the properties are the
  two round trips and the meaning of two's-complement operands.
\<close>

section \<open>Definitions\<close>

definition MIN_RADIX :: u32 where "MIN_RADIX = 2"
definition MAX_RADIX :: u32 where "MAX_RADIX = 36"

text \<open>\<open>u64::from_le_bytes\<close>, \<open>u64::to_le_bytes\<close> and \<open>chunks(8)\<close> of the standard library.\<close>

fun bytes_le_val :: "u8 list \<Rightarrow> nat" where
  "bytes_le_val [] = 0"
| "bytes_le_val (b # bs) = unat b + 256 * bytes_le_val bs"

definition from_le_bytes :: "u8 list \<Rightarrow> u64" where
  "from_le_bytes bs = word_of_nat (bytes_le_val bs)"

definition to_le_bytes :: "u64 \<Rightarrow> u8 list" where
  "to_le_bytes w = map (\<lambda>i. ucast (drop_bit (8 * i) w)) [0..<8]"

function chunks8 :: "'a list \<Rightarrow> 'a list list" where
  "chunks8 xs = (if xs = [] then [] else take 8 xs # chunks8 (drop 8 xs))"
  by auto
termination by (relation "measure length") auto

declare chunks8.simps [simp del]

definition from_sign_magnitude_le :: "bool \<Rightarrow> u8 list \<Rightarrow> BigIntValue" where
  "from_sign_magnitude_le neg magnitude_le =
     big_new neg
       (map (\<lambda>chunk. from_le_bytes (chunk @ replicate (8 - length chunk) 0)) (chunks8 magnitude_le))"

definition to_sign_magnitude_le :: "BigIntValue \<Rightarrow> bool \<times> u8 list" where
  "to_sign_magnitude_le v =
     (let bytes = concat (map to_le_bytes (limbs v))
      in (is_negative v, rev (dropWhile (\<lambda>b. b = 0) (rev bytes))))"

text \<open>The carry loop of \<open>negate_twos_complement_be\<close>, over the bytes from the last to the first.\<close>

fun increment_le :: "u8 list \<Rightarrow> u8 list" where
  "increment_le [] = []"
| "increment_le (b # bs) = (if b + 1 = 0 then (b + 1) # increment_le bs else (b + 1) # bs)"

definition negate_twos_complement_be :: "u8 list \<Rightarrow> u8 list" where
  "negate_twos_complement_be bytes = rev (increment_le (rev (map (\<lambda>b. NOT b) bytes)))"

definition from_twos_complement_be :: "u8 list \<Rightarrow> BigIntValue" where
  "from_twos_complement_be bytes =
     (let neg = (case bytes of [] \<Rightarrow> False | b # _ \<Rightarrow> b AND 0x80 \<noteq> 0);
          magnitude = (if neg then negate_twos_complement_be bytes else bytes)
      in from_sign_magnitude_le neg (rev magnitude))"

definition div_small_step :: "u64 \<Rightarrow> u64 \<Rightarrow> u64 list \<times> u128 \<Rightarrow> u64 list \<times> u128" where
  "div_small_step divisor limb = (\<lambda>(out, remainder).
     let v = push_bit 64 remainder OR ucast limb
     in (ucast (v div ucast divisor) # out, v mod ucast divisor))"

definition div_small_in_place :: "u64 list \<Rightarrow> u64 \<Rightarrow> u64 list \<times> u64" where
  "div_small_in_place ls divisor =
     (let (out, remainder) = fold (div_small_step divisor) (rev ls) ([], 0)
      in (rev (dropWhile (\<lambda>l. l = 0) (rev out)), ucast remainder))"

fun mul_small_loop :: "u64 list \<Rightarrow> u64 \<Rightarrow> u128 \<Rightarrow> u64 list" where
  "mul_small_loop [] factor carry = (if carry \<noteq> 0 then [ucast carry] else [])"
| "mul_small_loop (limb # rest) factor carry =
     (let v = ucast limb * ucast factor + carry
      in ucast v # mul_small_loop rest factor (drop_bit 64 v))"

definition mul_small_add_in_place :: "u64 list \<Rightarrow> u64 \<Rightarrow> u64 \<Rightarrow> u64 list" where
  "mul_small_add_in_place ls factor addend = mul_small_loop ls factor (ucast addend)"

definition ascii_digit :: "u8 \<Rightarrow> u8" where
  "ascii_digit d = (if d < 10 then 48 + d else 65 + (d - 10))"

text \<open>\<open>char::from(byte).to_digit(radix)\<close> for a radix in \<open>2..=36\<close>.\<close>

definition to_digit :: "u32 \<Rightarrow> u8 \<Rightarrow> u32 option" where
  "to_digit radix b =
     (let d = (if 48 \<le> b \<and> b \<le> 57 then Some (ucast b - 48)
               else if 65 \<le> b \<and> b \<le> 90 then Some (ucast b - 65 + 10)
               else if 97 \<le> b \<and> b \<le> 122 then Some (ucast b - 97 + 10)
               else None)
      in case d of None \<Rightarrow> None | Some d \<Rightarrow> if d < radix then Some d else None)"

partial_function (option) radix_digits :: "u64 \<Rightarrow> u64 list \<Rightarrow> u8 list \<Rightarrow> u8 list option" where
  "radix_digits radix ls digits =
     (if ls = [] then Some digits
      else let (ls', remainder) = div_small_in_place ls radix
           in radix_digits radix ls' (digits @ [ascii_digit (ucast remainder)]))"

text \<open>
  The result of \<open>to_string_radix\<close> is the source's \<open>Option<String>\<close> under the option of the
  digit loop.
\<close>

definition to_string_radix :: "BigIntValue \<Rightarrow> u32 \<Rightarrow> u8 list option option" where
  "to_string_radix v radix =
     (if \<not> (MIN_RADIX \<le> radix \<and> radix \<le> MAX_RADIX) then Some None
      else let ls = normalized (limbs v) in
        if ls = [] then Some (Some [48])
        else map_option
               (\<lambda>digits. Some (rev (if is_negative v then digits @ [45] else digits)))
               (radix_digits (ucast radix) ls []))"

fun parse_digits :: "u32 \<Rightarrow> u64 list \<Rightarrow> u8 list \<Rightarrow> u64 list option" where
  "parse_digits radix ls [] = Some ls"
| "parse_digits radix ls (b # bs) =
     (case to_digit radix b of
        None \<Rightarrow> None
      | Some d \<Rightarrow> parse_digits radix (mul_small_add_in_place ls (ucast radix) (ucast d)) bs)"

definition from_str_radix :: "u8 list \<Rightarrow> u32 \<Rightarrow> BigIntValue option" where
  "from_str_radix chars radix =
     (if \<not> (MIN_RADIX \<le> radix \<and> radix \<le> MAX_RADIX) then None
      else let (neg, digits) =
                 (case chars of
                    [] \<Rightarrow> (False, [])
                  | b # rest \<Rightarrow> if b = 45 then (True, rest)
                                else if b = 43 then (False, rest) else (False, chars))
           in if digits = [] then None
              else map_option (big_new neg) (parse_digits radix [] digits))"

section \<open>Little-endian bytes\<close>

lemma bytes_le_val_append:
  "bytes_le_val (xs @ ys) = bytes_le_val xs + 256 ^ length xs * bytes_le_val ys"
  by (induction xs) (simp_all add: algebra_simps)

lemma bytes_le_val_replicate [simp]: "bytes_le_val (replicate n 0) = 0"
  by (induction n) simp_all

lemma unat_u8_less: "unat (b :: u8) < 256"
  using unsigned_less [where ?'a = nat and ?'b = 8, of b] by simp

lemma bytes_le_val_less: "bytes_le_val bs < 256 ^ length bs"
proof (induction bs)
  case (Cons b bs)
  then have "unat b + 256 * bytes_le_val bs < 256 * 256 ^ length bs"
    using unat_u8_less [of b] by linarith
  then show ?case by simp
qed simp

lemma unat_from_le_bytes: "length bs \<le> 8 \<Longrightarrow> unat (from_le_bytes bs) = bytes_le_val bs"
proof -
  assume "length bs \<le> 8"
  then have "(256::nat) ^ length bs \<le> 256 ^ 8" by (intro power_increasing) simp_all
  then have "bytes_le_val bs < 2 ^ 64" using bytes_le_val_less [of bs] by simp
  then show ?thesis by (simp add: from_le_bytes_def unsigned_of_nat take_bit_nat_eq_self)
qed

lemma limbs_val_chunks:
  "limbs_val (map (\<lambda>chunk. from_le_bytes (chunk @ replicate (8 - length chunk) 0)) (chunks8 bs)) =
     bytes_le_val bs"
proof (induction bs rule: chunks8.induct)
  case (1 xs)
  show ?case
  proof (cases "xs = []")
    case True
    then show ?thesis by (simp add: chunks8.simps)
  next
    case False
    have "bytes_le_val xs =
        bytes_le_val (take 8 xs) + 256 ^ length (take 8 xs) * bytes_le_val (drop 8 xs)"
      using bytes_le_val_append [of "take 8 xs" "drop 8 xs"] by simp
    also have "256 ^ length (take 8 xs) * bytes_le_val (drop 8 xs) = 2 ^ 64 * bytes_le_val (drop 8 xs)"
      by (cases "length xs < 8") (simp_all add: min_def)
    finally show ?thesis
      using 1 [OF False] False chunks8.simps [of xs]
      by (simp add: unat_from_le_bytes bytes_le_val_append)
  qed
qed

lemma big_int_from_sign_magnitude_le:
  "big_int (from_sign_magnitude_le neg bs) =
     (if neg then - int (bytes_le_val bs) else int (bytes_le_val bs))"
  by (simp add: from_sign_magnitude_le_def limbs_val_chunks)

lemma big_ok_from_sign_magnitude_le [simp]: "big_ok (from_sign_magnitude_le neg bs)"
  by (simp add: from_sign_magnitude_le_def)

lemma unat_drop_bit_u64: "unat (drop_bit n (w :: u64)) = unat w div 2 ^ n"
  by (simp only: unat_drop_bit_eq drop_bit_eq_div [where 'a = nat])

lemma bytes_le_val_drop: "bytes_le_val (map (\<lambda>i. ucast (drop_bit (8 * i) (w :: u64)) :: u8) [k..<k + n]) =
    unat (drop_bit (8 * k) w) mod 256 ^ n"
proof (induction n arbitrary: k)
  case (Suc n)
  let ?d = "unat (drop_bit (8 * k) w)"
  have hd: "unat (ucast (drop_bit (8 * k) w) :: u8) = ?d mod 256"
    by (simp add: unsigned_ucast_eq take_bit_eq_mod)
  have tl: "unat (drop_bit (8 * Suc k) w) = ?d div 256"
    by (simp only: unat_drop_bit_u64 mult_Suc_right power_add div_mult2_eq add.commute [of 8]) simp
  have "map (\<lambda>i. ucast (drop_bit (8 * i) w) :: u8) [k..<k + Suc n] =
      ucast (drop_bit (8 * k) w) # map (\<lambda>i. ucast (drop_bit (8 * i) w)) [Suc k..<Suc k + n]"
    by (simp add: upt_rec)
  then have "bytes_le_val (map (\<lambda>i. ucast (drop_bit (8 * i) w) :: u8) [k..<k + Suc n]) =
      ?d mod 256 + 256 * (?d div 256 mod 256 ^ n)"
    by (simp only: bytes_le_val.simps hd Suc.IH tl)
  also have "\<dots> = ?d mod 256 ^ Suc n"
    by (simp add: mod_mult2_eq)
  finally show ?case .
qed simp

lemma bytes_le_val_to_le_bytes [simp]: "bytes_le_val (to_le_bytes w) = unat w"
  using bytes_le_val_drop [of w 0 8] unat_u64_less [of w] by (simp add: to_le_bytes_def)

lemma length_to_le_bytes [simp]: "length (to_le_bytes w) = 8"
  by (simp add: to_le_bytes_def)

lemma bytes_le_val_limbs: "bytes_le_val (concat (map to_le_bytes ls)) = limbs_val ls"
  by (induction ls) (simp_all add: bytes_le_val_append)

lemma bytes_le_val_trim: "bytes_le_val (rev (dropWhile (\<lambda>b. b = 0) (rev bs))) = bytes_le_val bs"
proof (induction bs rule: rev_induct)
  case (snoc b bs)
  then show ?case by (simp add: bytes_le_val_append)
qed simp

lemma to_sign_magnitude_le_val:
  "bytes_le_val (snd (to_sign_magnitude_le v)) = limbs_val (limbs v)"
  "fst (to_sign_magnitude_le v) = is_negative v"
  by (simp_all add: to_sign_magnitude_le_def bytes_le_val_trim bytes_le_val_limbs Let_def)

lemma to_sign_magnitude_le_minimal:
  "snd (to_sign_magnitude_le v) \<noteq> [] \<Longrightarrow> last (snd (to_sign_magnitude_le v)) \<noteq> 0"
  using hd_dropWhile [of "\<lambda>b. b = 0" "rev (concat (map to_le_bytes (limbs v)))"]
  by (simp only: to_sign_magnitude_le_def Let_def snd_conv last_rev rev_is_Nil_conv not_False_eq_True)

section \<open>Two's complement\<close>

text \<open>The signed integer a big-endian two's-complement byte string denotes.\<close>

definition twos_complement_be_val :: "u8 list \<Rightarrow> int" where
  "twos_complement_be_val bs =
     (let u = int (bytes_le_val (rev bs)) in
      if bs \<noteq> [] \<and> 128 \<le> unat (hd bs) then u - 256 ^ length bs else u)"

lemma unat_not_u8: "unat (NOT b :: u8) = 255 - unat b"
proof -
  have self: "take_bit 8 (uint b) = uint b"
    using unsigned_less [where ?'a = int and ?'b = 8, of b] by (simp add: take_bit_int_eq_self)
  have "uint (NOT b) = mask 8 - uint b"
    by (simp add: unsigned_not_eq take_bit_not_eq_mask_diff self)
  then have "int (unat (NOT b) + unat b) = int 255"
    by (simp add: mask_eq_exp_minus_1)
  then have "unat (NOT b) + unat b = 255" by (simp only: of_nat_eq_iff)
  then show ?thesis by linarith
qed

lemma bytes_le_val_not: "bytes_le_val (map (\<lambda>b. NOT b) bs) = 256 ^ length bs - 1 - bytes_le_val bs"
proof (induction bs)
  case (Cons b bs)
  then show ?case
    using unat_u8_less [of b] bytes_le_val_less [of bs] by (simp add: unat_not_u8 algebra_simps)
qed simp

lemma bytes_le_val_increment: "bytes_le_val (increment_le bs) = (bytes_le_val bs + 1) mod 256 ^ length bs"
proof (induction bs)
  case (Cons b bs)
  show ?case
  proof (cases "b + 1 = 0")
    case True
    then have "b = - 1" by (simp add: eq_neg_iff_add_eq_0)
    then have "unat b = 255" by (simp add: unsigned_minus_1_eq_mask mask_eq_exp_minus_1)
    then have "unat b + 256 * bytes_le_val bs + 1 = 256 * (bytes_le_val bs + 1)" by simp
    then have "(bytes_le_val (b # bs) + 1) mod 256 ^ length (b # bs) =
        256 * ((bytes_le_val bs + 1) mod 256 ^ length bs)"
      by (simp only: bytes_le_val.simps list.size(4) power_Suc add_Suc_right add_0_right mod_mult_mult1)
    then show ?thesis using True Cons.IH by simp
  next
    case False
    then have eq: "unat (b + 1) = unat b + 1"
      using unat_u8_less [of b] by (metis unatSuc add.commute Suc_eq_plus1)
    have "unat b + 1 < 256" using unat_u8_less [of "b + 1"] by (simp add: eq)
    then have "unat b + 256 * bytes_le_val bs + 1 < 256 * 256 ^ length bs"
      using bytes_le_val_less [of bs] by linarith
    then show ?thesis using False by (simp add: eq)
  qed
qed simp

lemma high_bit_u8: "b AND 0x80 \<noteq> (0 :: u8) \<longleftrightarrow> 128 \<le> unat b"
proof -
  have "b AND 0x80 \<noteq> 0 \<longleftrightarrow> bit b 7"
    using bit_iff_and_push_bit_not_eq_0 [of b 7] by simp
  also have "\<dots> \<longleftrightarrow> odd (unat b div 128)"
    using bit_unsigned_iff [where ?'a = nat, of b 7] by (simp add: bit_iff_odd [of "unat b"])
  also have "\<dots> \<longleftrightarrow> 128 \<le> unat b"
  proof (cases "128 \<le> unat b")
    case True
    then have "unat b div 128 = 1" using unat_u8_less [of b] by (intro div_nat_eqI) simp_all
    with True show ?thesis by simp
  qed simp
  finally show ?thesis .
qed

lemma big_int_from_twos_complement_be:
  "big_int (from_twos_complement_be bs) = twos_complement_be_val bs"
proof (cases "bs \<noteq> [] \<and> 128 \<le> unat (hd bs)")
  case True
  then obtain b rest where bs: "bs = b # rest" and high: "128 \<le> unat b" by (cases bs) auto
  then have neg: "b AND 0x80 \<noteq> 0" by (simp only: high_bit_u8)
  let ?u = "bytes_le_val (rev bs)"
  have le: "?u < 256 ^ length bs" using bytes_le_val_less [of "rev bs"] by simp
  have pos: "0 < ?u" using high by (simp add: bs bytes_le_val_append)
  have "rev (map (\<lambda>b. NOT b) bs) = map (\<lambda>b. NOT b) (rev bs)" by (simp add: rev_map)
  then have "bytes_le_val (rev (negate_twos_complement_be bs)) =
      (256 ^ length bs - 1 - ?u + 1) mod 256 ^ length bs"
    by (simp only: negate_twos_complement_be_def rev_rev_ident bytes_le_val_increment
        bytes_le_val_not length_map length_rev)
  also have "256 ^ length bs - 1 - ?u + 1 = 256 ^ length bs - ?u" using le by linarith
  finally have "bytes_le_val (rev (negate_twos_complement_be bs)) = 256 ^ length bs - ?u"
    using pos le by simp
  then have "big_int (from_twos_complement_be bs) = - int (256 ^ length bs - ?u)"
    using neg by (simp add: from_twos_complement_be_def bs big_int_from_sign_magnitude_le)
  then show ?thesis using True le by (simp add: twos_complement_be_val_def Let_def of_nat_diff)
next
  case False
  then have "(case bs of [] \<Rightarrow> False | b # _ \<Rightarrow> b AND 0x80 \<noteq> 0) = False"
    by (cases bs) (simp_all only: list.case high_bit_u8 list.sel, simp)
  then show ?thesis
    unfolding from_twos_complement_be_def Let_def twos_complement_be_val_def
    using False by (simp add: big_int_from_sign_magnitude_le)
qed

section \<open>Short division and multiplication\<close>

lemma unat_push_or:
  assumes "unat r < 2 ^ 64"
  shows "unat (push_bit 64 r OR ucast (x :: u64) :: u128) = unat r * 2 ^ 64 + unat x"
proof -
  have "push_bit 64 r OR ucast x = push_bit 64 r + (ucast x :: u128)"
    by (rule disjunctive_add_eq_or [symmetric]) (auto simp: bit_eq_iff bit_simps dest: bit_limb_length)
  moreover have "unat (push_bit 64 r) = unat r * 2 ^ 64"
    using assms by (simp add: push_bit_eq_mult unat_u128_mult mult.commute)
  ultimately show ?thesis
    using assms unat_u64_less [of x] by (simp add: unat_u128_add)
qed

lemma div_small_loop:
  assumes d: "0 < unat d" and loop: "fold (div_small_step d) (rev ls) ([], 0) = (out, r)"
  shows "limbs_val ls = limbs_val out * unat d + unat r \<and> unat r < unat d"
  using loop
proof (induction ls arbitrary: out r)
  case (Cons x xs)
  obtain out' r' where IH: "fold (div_small_step d) (rev xs) ([], 0) = (out', r')" by fastforce
  from Cons.IH [OF this] have xs: "limbs_val xs = limbs_val out' * unat d + unat r'" "unat r' < unat d"
    by auto
  then have "unat r' < 2 ^ 64" using unat_u64_less [of d] by simp
  let ?v = "push_bit 64 r' OR ucast x :: u128"
  have v: "unat ?v = unat r' * 2 ^ 64 + unat x" using unat_push_or [OF \<open>unat r' < 2 ^ 64\<close>] .
  have "(unat r' + 1) * 2 ^ 64 \<le> unat d * 2 ^ 64" using xs(2) by (intro mult_right_mono) simp_all
  then have "unat ?v < unat d * 2 ^ 64" using v unat_u64_less [of x] by simp
  then have q: "unat (ucast (?v div ucast d) :: u64) = unat ?v div unat d"
    by (simp add: unat_ucast_u64 unat_div less_mult_imp_div_less mult.commute)
  have step: "out = ucast (?v div ucast d) # out'" "r = ?v mod ucast d"
    using Cons.prems IH by (simp_all, simp_all add: div_small_step_def Let_def)
  have "limbs_val (x # xs) = unat ?v + 2 ^ 64 * limbs_val out' * unat d"
    by (simp add: v xs(1) algebra_simps)
  also have "unat ?v = unat ?v div unat d * unat d + unat r"
    by (simp add: step(2) unat_mod)
  finally show ?case
    using d by (simp add: step q unat_mod algebra_simps)
qed (use d in simp)

lemma trim_eq_normalized: "rev (dropWhile (\<lambda>l. l = 0) (rev ls)) = normalized ls"
  by (simp add: normalized_eq)

lemma div_small_in_place_correct:
  assumes "0 < unat d" "div_small_in_place ls d = (ls', r)"
  shows "limbs_val ls' = limbs_val ls div unat d" "unat r = limbs_val ls mod unat d"
    "no_leading_zero ls'"
proof -
  obtain out rr where loop: "fold (div_small_step d) (rev ls) ([], 0) = (out, rr)" by fastforce
  with div_small_loop [OF assms(1) this]
  have "limbs_val ls = limbs_val out * unat d + unat rr" "unat rr < unat d" by auto
  moreover have "ls' = normalized out" "r = ucast rr"
    using assms(2) loop by (simp_all add: div_small_in_place_def trim_eq_normalized)
  moreover have "unat rr < 2 ^ 64" using calculation(2) unat_u64_less [of d] by simp
  ultimately show "limbs_val ls' = limbs_val ls div unat d" "unat r = limbs_val ls mod unat d"
    "no_leading_zero ls'"
    by (simp_all add: unat_ucast_u64)
qed

lemma mul_small_loop_correct:
  "unat carry < 2 ^ 64 \<Longrightarrow> limbs_val (mul_small_loop ls f carry) = limbs_val ls * unat f + unat carry"
proof (induction ls arbitrary: carry)
  case Nil
  then show ?case by (simp add: unat_ucast_u64)
next
  case (Cons x xs)
  let ?v = "ucast x * ucast f + carry :: u128"
  have b: "unat x * unat f + unat carry < 2 ^ 64 * 2 ^ 64"
    using mul_step_bound [of "unat x" "2 ^ 64" "unat f" "unat carry" 0]
      unat_u64_less [of x] unat_u64_less [of f] Cons.prems by simp
  then have "unat (ucast x * ucast f :: u128) = unat x * unat f"
    by (subst unat_u128_mult) simp_all
  with b have v: "unat ?v = unat x * unat f + unat carry"
    by (subst unat_u128_add) simp_all
  then have "unat ?v div 2 ^ 64 < 2 ^ 64" using b by (intro less_mult_imp_div_less) simp
  then have "unat (drop_bit 64 ?v) < 2 ^ 64" by (simp only: unat_drop_bit_64)
  from Cons.IH [OF this] show ?case
    using v u128_split [of ?v] by (simp add: Let_def algebra_simps)
qed

lemma mul_small_add_in_place_correct:
  "limbs_val (mul_small_add_in_place ls f a) = limbs_val ls * unat f + unat a"
  using unat_u64_less [of a] by (simp add: mul_small_add_in_place_def mul_small_loop_correct)

section \<open>Digits\<close>

lemma unat_ucast_u32: "unat (ucast (x :: u32) :: u64) = unat x"
proof -
  have "unat x < 2 ^ 64" using unsigned_less [where ?'a = nat and ?'b = 32, of x] by simp
  then show ?thesis by (simp add: unsigned_ucast_eq take_bit_nat_eq_self)
qed

text \<open>The number a big-endian digit string denotes.\<close>

definition radix_val :: "nat \<Rightarrow> nat list \<Rightarrow> nat" where
  "radix_val r ds = foldl (\<lambda>a d. a * r + d) 0 ds"

lemma radix_val_snoc: "radix_val r (ds @ [d]) = radix_val r ds * r + d"
  by (simp add: radix_val_def)

lemma parse_digits_None_iff:
  "parse_digits radix ls bs = None \<longleftrightarrow> (\<exists>b\<in>set bs. to_digit radix b = None)"
  by (induction bs arbitrary: ls) (auto split: option.splits)

lemma parse_digits_val:
  assumes "parse_digits radix ls bs = Some ls'"
  shows "limbs_val ls' =
    foldl (\<lambda>a d. a * unat radix + d) (limbs_val ls) (map (\<lambda>b. unat (the (to_digit radix b))) bs)"
  using assms
proof (induction bs arbitrary: ls)
  case (Cons b bs)
  then obtain d where d: "to_digit radix b = Some d"
    and rest: "parse_digits radix (mul_small_add_in_place ls (ucast radix) (ucast d)) bs = Some ls'"
    by (auto split: option.splits)
  from Cons.IH [OF rest] d show ?case
    by (simp add: mul_small_add_in_place_correct unat_ucast_u32)
qed simp

lemma radix_range: "MIN_RADIX \<le> radix \<and> radix \<le> MAX_RADIX \<longleftrightarrow> 2 \<le> unat radix \<and> unat radix \<le> 36"
  by (simp add: MIN_RADIX_def MAX_RADIX_def word_le_nat_alt)

lemma ascii_digit_of_nat:
  "k < 36 \<Longrightarrow> ascii_digit (of_nat k) = of_nat (if k < 10 then 48 + k else 55 + k)"
  by (simp add: ascii_digit_def word_less_nat_alt unsigned_of_nat take_bit_nat_eq_self)

lemma ascii_digit_of_nat_no_sign:
  "k < 36 \<Longrightarrow> ascii_digit (of_nat k) \<noteq> 45 \<and> ascii_digit (of_nat k) \<noteq> 43"
  by (simp add: ascii_digit_of_nat word_unat_eq_iff unsigned_of_nat take_bit_nat_eq_self)

lemma to_digit_of_nat:
  assumes "k < 36"
  shows "to_digit radix (ascii_digit (of_nat k)) = (if of_nat k < radix then Some (of_nat k) else None)"
proof -
  let ?c = "if k < 10 then 48 + k else 55 + k"
  have c: "unat (of_nat ?c :: u8) = ?c" using assms by (simp add: unsigned_of_nat take_bit_nat_eq_self)
  have "(ucast (of_nat ?c :: u8) :: u32) = of_nat (unat (of_nat ?c :: u8))" by simp
  then have w: "(ucast (of_nat ?c :: u8) :: u32) = of_nat ?c" by (simp only: c)
  show ?thesis
    unfolding ascii_digit_of_nat [OF assms] to_digit_def Let_def w
    using assms by (simp add: word_le_nat_alt c)
qed

text \<open>
  The digit loop returns for every radix of at least two, and its digits, most significant
  first once reversed, denote the magnitude.
\<close>

lemma radix_digits_correct:
  assumes "2 \<le> unat radix" "unat radix \<le> 36"
  shows "no_leading_zero ls \<Longrightarrow> \<exists>ds. radix_digits radix ls acc = Some (acc @ map (\<lambda>d. ascii_digit (of_nat d)) ds) \<and>
    radix_val (unat radix) (rev ds) = limbs_val ls \<and> (\<forall>d\<in>set ds. d < unat radix) \<and> (ds = [] \<longleftrightarrow> ls = [])"
proof (induction "limbs_val ls" arbitrary: ls acc rule: less_induct)
  case less
  show ?case
  proof (cases "ls = []")
    case True
    then show ?thesis by (intro exI [of _ "[]"]) (simp add: radix_digits.simps radix_val_def)
  next
    case False
    obtain ls' r where div: "div_small_in_place ls radix = (ls', r)" by fastforce
    have "0 < unat radix" using assms by simp
    note d = div_small_in_place_correct [OF this div]
    from False less.prems have "limbs_val ls \<noteq> 0" by (simp add: no_leading_zero_val_0)
    then have "limbs_val ls' < limbs_val ls" using d(1) assms by simp
    from less.hyps [OF this d(3)] obtain ds where
      IH: "radix_digits radix ls' (acc @ [ascii_digit (ucast r)]) =
             Some ((acc @ [ascii_digit (ucast r)]) @ map (\<lambda>d. ascii_digit (of_nat d)) ds)"
        "radix_val (unat radix) (rev ds) = limbs_val ls'" "\<forall>d\<in>set ds. d < unat radix"
      by blast
    have "ucast r = (of_nat (unat r) :: u8)" by simp
    moreover have "unat r < unat radix" using d(2) assms by simp
    ultimately show ?thesis
      using False div IH d(1,2)
      by (intro exI [of _ "unat r # ds"]) (subst radix_digits.simps, simp add: radix_val_snoc)
  qed
qed

lemma parse_digits_of_digits:
  assumes "2 \<le> unat radix" "unat radix \<le> 36" "\<forall>d\<in>set ds. d < unat radix"
  shows "\<exists>ls. parse_digits radix [] (map (\<lambda>d. ascii_digit (of_nat d)) ds) = Some ls \<and>
    limbs_val ls = radix_val (unat radix) ds"
proof -
  have dig: "to_digit radix (ascii_digit (of_nat d)) = Some (of_nat d) \<and> unat (of_nat d :: u32) = d"
    if "d \<in> set ds" for d
  proof -
    have "d < unat radix" "d < 36" using that assms by (auto dest: bspec)
    moreover from this have "unat (of_nat d :: u32) = d" by (simp add: unsigned_of_nat take_bit_nat_eq_self)
    ultimately show ?thesis by (simp add: to_digit_of_nat word_less_nat_alt)
  qed
  then have "parse_digits radix [] (map (\<lambda>d. ascii_digit (of_nat d)) ds) \<noteq> None"
    by (subst parse_digits_None_iff) auto
  then obtain ls where ls: "parse_digits radix [] (map (\<lambda>d. ascii_digit (of_nat d)) ds) = Some ls" by blast
  have "map (\<lambda>b. unat (the (to_digit radix b))) (map (\<lambda>d. ascii_digit (of_nat d)) ds) = ds"
    using dig by (simp add: map_idI)
  with parse_digits_val [OF ls] have "limbs_val ls = radix_val (unat radix) ds"
    by (simp only: radix_val_def limbs_val.simps)
  with ls show ?thesis by blast
qed

lemma round_trip_in_range:
  assumes ok: "big_ok v" and r: "2 \<le> unat radix" "unat radix \<le> 36"
  shows "\<exists>s. to_string_radix v radix = Some (Some s) \<and> s \<noteq> [] \<and> from_str_radix s radix = Some v"
proof (cases "limbs v = []")
  case True
  have "to_digit radix (ascii_digit (of_nat 0)) = Some 0"
    using r by (simp only: to_digit_of_nat) (simp add: word_less_nat_alt)
  then have "to_digit radix 48 = Some 0" by (simp add: ascii_digit_def)
  moreover have "big_new False [] = v"
    using True ok by (intro big_int_inject) (simp_all add: big_int_def big_ok_def)
  ultimately show ?thesis
    using True r
    by (simp add: to_string_radix_def from_str_radix_def radix_range normalized_eq
        mul_small_add_in_place_def)
next
  case False
  have nlz: "no_leading_zero (limbs v)" using ok by (simp add: big_ok_def)
  have ur: "unat (ucast radix :: u64) = unat radix" by (rule unat_ucast_u32)
  let ?dig = "\<lambda>d. ascii_digit (of_nat d)"
  obtain ds where ds: "radix_digits (ucast radix) (limbs v) [] = Some (map ?dig ds)"
      "radix_val (unat radix) (rev ds) = limbs_val (limbs v)" "\<forall>d\<in>set ds. d < unat radix" "ds \<noteq> []"
    using radix_digits_correct [of "ucast radix" "limbs v" "[]"] nlz False r by (auto simp: ur)
  let ?digits = "map ?dig (rev ds)"
  let ?s = "if is_negative v then 45 # ?digits else ?digits"
  have print: "to_string_radix v radix = Some (Some ?s)"
    using ds False nlz r by (simp add: to_string_radix_def radix_range normalized_idem Let_def rev_map)
  obtain ls where ls: "parse_digits radix [] ?digits = Some ls" "limbs_val ls = limbs_val (limbs v)"
    using parse_digits_of_digits [OF r, of "rev ds"] ds by auto
  obtain d rest where hd: "rev ds = d # rest" using ds(4) by (cases "rev ds") auto
  then have "d < 36" using ds(3) r by (metis in_set_conv_decomp_first le_trans not_le set_rev list.set_intros(1))
  then have hd_sign: "?dig d \<noteq> 45" "?dig d \<noteq> 43" by (simp_all add: ascii_digit_of_nat_no_sign)
  have "from_str_radix ?s radix = Some (big_new (is_negative v) ls)"
  proof (cases "is_negative v")
    case True
    then show ?thesis
      using ls(1) hd r by (simp add: from_str_radix_def radix_range)
  next
    case False
    then show ?thesis
      using ls(1) hd hd_sign r by (simp add: from_str_radix_def radix_range)
  qed
  moreover have "big_new (is_negative v) ls = v"
    using ok ls(2) by (intro big_int_inject) (simp_all add: big_int_signed)
  ultimately show ?thesis using print hd by auto
qed

section \<open>Properties\<close>

text \<open>
  C32. Printing then parsing an integer gives it back: for every canonical bignum and every
  radix from 2 to 36 \<open>to_string_radix\<close> returns (its digit loop ends) a non-empty string that
  \<open>from_str_radix\<close> reads as exactly that bignum, and outside that range both refuse.
\<close>

theorem radix_string_round_trip:
  assumes "big_ok v"
  shows "(2 \<le> unat radix \<and> unat radix \<le> 36 \<longrightarrow>
      (\<exists>s. to_string_radix v radix = Some (Some s) \<and> s \<noteq> [] \<and> from_str_radix s radix = Some v)) \<and>
    (\<not> (2 \<le> unat radix \<and> unat radix \<le> 36) \<longrightarrow>
      to_string_radix v radix = Some None \<and> from_str_radix chars radix = None)"
proof -
  have "\<not> (2 \<le> unat radix \<and> unat radix \<le> 36) \<longrightarrow>
      to_string_radix v radix = Some None \<and> from_str_radix chars radix = None"
    by (simp add: to_string_radix_def from_str_radix_def radix_range)
  with round_trip_in_range [OF assms] show ?thesis by blast
qed

theorem radix_string_round_trip_witness:
  "\<exists>s. to_string_radix (big_new True [0, 1]) 10 = Some (Some s) \<and>
     from_str_radix s 10 = Some (big_new True [0, 1]) \<and> from_str_radix [49] 37 = None"
  using radix_string_round_trip [of "big_new True [0, 1]" 10 "[49]"]
    radix_string_round_trip [of "big_new True [0, 1]" 37 "[49]"] by auto

text \<open>
  The parser accepts exactly the documented strings and computes their value: with the
  radix in range and one optional sign removed, it refuses an empty digit string and any byte
  that is not a digit of the radix (in either letter case), and otherwise returns the signed
  positional value of the digits.
\<close>

lemma from_str_radix_meaning:
  assumes "2 \<le> unat radix" "unat radix \<le> 36"
    and "(sign, digits) = (case chars of [] \<Rightarrow> (False, [])
          | b # rest \<Rightarrow>
            if b = 45 then (True, rest) else if b = 43 then (False, rest) else (False, chars))"
  shows "(digits = [] \<or> (\<exists>b\<in>set digits. to_digit radix b = None) \<longrightarrow>
      from_str_radix chars radix = None) \<and>
    (digits \<noteq> [] \<and> (\<forall>b\<in>set digits. to_digit radix b \<noteq> None) \<longrightarrow>
      (\<exists>v. from_str_radix chars radix = Some v \<and> big_ok v \<and>
        big_int v = (if sign then -1 else 1) *
          int (radix_val (unat radix) (map (\<lambda>b. unat (the (to_digit radix b))) digits))))"
proof -
  have eq: "from_str_radix chars radix =
      (if digits = [] then None else map_option (big_new sign) (parse_digits radix [] digits))"
    using assms by (cases chars) (auto simp: from_str_radix_def radix_range split: if_splits)
  show ?thesis
  proof (cases "digits = [] \<or> (\<exists>b\<in>set digits. to_digit radix b = None)")
    case True
    then show ?thesis using eq parse_digits_None_iff [of radix "[]" digits] by auto
  next
    case False
    then obtain ls where ls: "parse_digits radix [] digits = Some ls"
      using parse_digits_None_iff [of radix "[]" digits] by (metis option.exhaust)
    then show ?thesis using False eq parse_digits_val [OF ls] by (auto simp: radix_val_def)
  qed
qed

lemma from_str_radix_meaning_witness:
  "\<exists>v. from_str_radix [45, 102, 70] 16 = Some v \<and> big_int v = - 255"
  using from_str_radix_meaning [of 16 True "[102, 70]" "[45, 102, 70]"]
  by (auto simp: to_digit_def radix_val_def)

text \<open>
  The byte encodings of integers are exact: decoding a big-endian two's-complement
  operand of any width gives the integer it denotes, and the sign-and-magnitude encoding
  round-trips every canonical bignum with no superfluous high byte.
\<close>

lemma byte_conversions_exact:
  assumes "big_ok v"
  shows "big_int (from_twos_complement_be bs) = twos_complement_be_val bs \<and>
    from_sign_magnitude_le (fst (to_sign_magnitude_le v)) (snd (to_sign_magnitude_le v)) = v \<and>
    (snd (to_sign_magnitude_le v) \<noteq> [] \<longrightarrow> last (snd (to_sign_magnitude_le v)) \<noteq> 0)"
  using assms to_sign_magnitude_le_minimal [of v]
  by (auto intro!: big_int_inject simp: big_int_from_twos_complement_be
      big_int_from_sign_magnitude_le to_sign_magnitude_le_val big_int_signed)

lemma byte_conversions_exact_witness:
  "big_int (from_twos_complement_be [0xFF, 0x00]) = - 256 \<and>
   from_sign_magnitude_le (fst (to_sign_magnitude_le (big_new True [5])))
     (snd (to_sign_magnitude_le (big_new True [5]))) = big_new True [5]"
  using byte_conversions_exact [of "big_new True [5]" "[0xFF, 0x00]"]
  by (simp add: twos_complement_be_val_def)

end
