(* ===== verification/Term_Word.thy ===== *)
theory Term_Word
  imports Beamr_Prelude
begin

text \<open>
  The tagged machine word of \<^verbatim>\<open>crates/beamr/src/term/mod.rs\<close>: a term is one 64-bit
  word whose low three bits are the primary tag. An \<open>i64\<close> is a \<^typ>\<open>u64\<close> bit pattern read
  with \<^const>\<open>sint\<close> (Rust's \<open>as u64\<close> keeps the bits). The lemmas show that the immediate
  constructors and the accessors are inverse, which values the checked constructors refuse,
  what the unchecked constructor does to an out-of-range value in a release build, and that
  no two tags can be confused.
\<close>

section \<open>Definitions\<close>

definition TAG_BITS :: nat where "TAG_BITS = 3"
definition TAG_MASK :: u64 where "TAG_MASK = 7"
definition PAYLOAD_BITS :: nat where "PAYLOAD_BITS = 61"

definition SMALL_INT_TAG :: u64 where "SMALL_INT_TAG = 0"
definition ATOM_TAG :: u64 where "ATOM_TAG = 1"
definition PID_TAG :: u64 where "PID_TAG = 2"
definition NIL_TAG :: u64 where "NIL_TAG = 3"
definition BOXED_TAG :: u64 where "BOXED_TAG = 4"
definition LIST_TAG :: u64 where "LIST_TAG = 5"

definition SMALL_INT_MIN :: int where "SMALL_INT_MIN = - (2 ^ (PAYLOAD_BITS - 1))"
definition SMALL_INT_MAX :: int where "SMALL_INT_MAX = 2 ^ (PAYLOAD_BITS - 1) - 1"
definition UNSIGNED_PAYLOAD_MAX :: nat where "UNSIGNED_PAYLOAD_MAX = 2 ^ PAYLOAD_BITS - 1"

lemmas tag_defs [rust_simps] =
  TAG_BITS_def TAG_MASK_def PAYLOAD_BITS_def SMALL_INT_TAG_def ATOM_TAG_def PID_TAG_def
  NIL_TAG_def BOXED_TAG_def LIST_TAG_def SMALL_INT_MIN_def SMALL_INT_MAX_def
  UNSIGNED_PAYLOAD_MAX_def

datatype Tag = SmallIntTag | AtomTag | PidTag | NilTag | BoxedTag | ListTag

definition NIL :: u64 where "NIL = NIL_TAG"

text \<open>\<open>Term::small_int\<close> as a release build runs it: the debug assertion is compiled out.\<close>

definition small_int :: "u64 \<Rightarrow> u64" where
  "small_int v = (push_bit TAG_BITS v OR SMALL_INT_TAG)"

definition try_small_int :: "u64 \<Rightarrow> u64 option" where
  "try_small_int v =
     (if sint v < SMALL_INT_MIN \<or> sint v > SMALL_INT_MAX then None
      else Some (push_bit TAG_BITS v OR SMALL_INT_TAG))"

definition atom_term :: "u32 \<Rightarrow> u64" where
  "atom_term a = (push_bit TAG_BITS (ucast a) OR ATOM_TAG)"

definition pid_term :: "u64 \<Rightarrow> u64" where
  "pid_term p = (push_bit TAG_BITS p OR PID_TAG)"

definition try_pid :: "u64 \<Rightarrow> u64 option" where
  "try_pid p =
     (if unat p > UNSIGNED_PAYLOAD_MAX then None
      else Some (push_bit TAG_BITS p OR PID_TAG))"

definition tag :: "u64 \<Rightarrow> Tag" where
  "tag t =
     (let b = t AND TAG_MASK in
      if b = SMALL_INT_TAG then SmallIntTag
      else if b = ATOM_TAG then AtomTag
      else if b = PID_TAG then PidTag
      else if b = NIL_TAG then (if t = NIL then NilTag else BoxedTag)
      else if b = BOXED_TAG then BoxedTag
      else if b = LIST_TAG then ListTag
      else BoxedTag)"

definition is_small_int :: "u64 \<Rightarrow> bool" where "is_small_int t \<longleftrightarrow> tag t = SmallIntTag"
definition is_atom :: "u64 \<Rightarrow> bool" where "is_atom t \<longleftrightarrow> tag t = AtomTag"
definition is_local_pid :: "u64 \<Rightarrow> bool" where "is_local_pid t \<longleftrightarrow> tag t = PidTag"
definition is_nil :: "u64 \<Rightarrow> bool" where "is_nil t \<longleftrightarrow> t = NIL"
definition is_boxed :: "u64 \<Rightarrow> bool" where "is_boxed t \<longleftrightarrow> tag t = BoxedTag"
definition is_list :: "u64 \<Rightarrow> bool" where "is_list t \<longleftrightarrow> tag t = ListTag"

definition as_small_int :: "u64 \<Rightarrow> u64 option" where
  "as_small_int t = (if is_small_int t then Some (signed_drop_bit TAG_BITS t) else None)"

definition as_atom :: "u64 \<Rightarrow> u32 option" where
  "as_atom t = (if is_atom t then Some (ucast (drop_bit TAG_BITS t)) else None)"

definition as_pid :: "u64 \<Rightarrow> u64 option" where
  "as_pid t = (if is_local_pid t then Some (drop_bit TAG_BITS t) else None)"

text \<open>
  \<open>tagged_ptr\<close> in a release build, and its two callers. A heap address is the address word
  itself; alignment is a hypothesis of the lemmas, as in the source it is the caller's duty.
\<close>

definition tagged_ptr :: "u64 \<Rightarrow> u64 \<Rightarrow> u64" where
  "tagged_ptr ptr tg = (ptr OR tg)"

definition boxed_ptr :: "u64 \<Rightarrow> u64" where "boxed_ptr ptr = tagged_ptr ptr BOXED_TAG"
definition list_ptr :: "u64 \<Rightarrow> u64" where "list_ptr ptr = tagged_ptr ptr LIST_TAG"

definition heap_ptr :: "u64 \<Rightarrow> u64 option" where
  "heap_ptr t = (if is_boxed t \<or> is_list t then Some (t AND NOT TAG_MASK) else None)"

section \<open>Low bits and payload\<close>

lemma low_bits_push: "(push_bit 3 v OR k) AND 7 = (k AND 7 :: u64)"
proof -
  have "(7::u64) = mask 3" by (simp add: mask_eq_exp_minus_1)
  then show ?thesis
    by (auto simp: bit_eq_iff bit_simps)
qed

lemma drop_bit_push: "drop_bit 3 (push_bit 3 v) = (take_bit 61 v :: u64)"
  by (auto simp: bit_eq_iff bit_simps)

lemma drop_small_tag [simp]:
  "drop_bit 3 (0::u64) = 0" "drop_bit 3 (1::u64) = 0" "drop_bit 3 (2::u64) = 0"
  "drop_bit 3 (3::u64) = 0" "drop_bit 3 (4::u64) = 0" "drop_bit 3 (5::u64) = 0"
  by simp_all

lemma sint_signed_drop_push:
  "sint (signed_drop_bit 3 (push_bit 3 v :: u64)) = signed_take_bit 60 (sint v)"
proof (rule bit_eqI)
  fix n :: nat
  have "n < 60 \<or> n = 60 \<or> 60 < n" by linarith
  then show "bit (sint (signed_drop_bit 3 (push_bit 3 v :: u64))) n =
      bit (signed_take_bit 60 (sint v)) n"
    by (auto simp: bit_simps min_def)
qed

lemma signed_take_bit_60_in_range:
  "- (2 ^ 60) \<le> k \<Longrightarrow> k \<le> 2 ^ 60 - 1 \<Longrightarrow> signed_take_bit 60 k = (k::int)"
  by (simp add: signed_take_bit_int_eq_self)

lemma push_or_zero_tag: "(push_bit 3 v OR 0 :: u64) = push_bit 3 v"
  by simp

section \<open>Tags of the constructors\<close>

lemma tag_small_int [simp]: "tag (small_int v) = SmallIntTag"
  using low_bits_push [of v 0] by (simp add: tag_def small_int_def tag_defs Let_def)

lemma tag_atom_term [simp]: "tag (atom_term a) = AtomTag"
  using low_bits_push [of "ucast a" 1] by (simp add: tag_def atom_term_def tag_defs Let_def)

lemma tag_pid_term [simp]: "tag (pid_term p) = PidTag"
  using low_bits_push [of p 2] by (simp add: tag_def pid_term_def tag_defs Let_def)

lemma tag_NIL [simp]: "tag NIL = NilTag"
  by (simp add: tag_def NIL_def tag_defs Let_def)

lemma aligned_or_low:
  assumes "ptr AND 7 = (0::u64)"
  shows "(ptr OR k) AND 7 = k AND 7" "k AND NOT 7 = 0 \<Longrightarrow> (ptr OR k) AND NOT 7 = ptr"
proof -
  show "(ptr OR k) AND 7 = k AND 7"
    using assms by (simp add: bit.conj_disj_distrib2)
  assume "k AND NOT 7 = 0"
  moreover have "ptr AND NOT 7 = ptr"
    using assms bit.conj_disj_distrib [of ptr 7 "NOT 7"] by simp
  ultimately show "(ptr OR k) AND NOT 7 = ptr"
    by (simp add: bit.conj_disj_distrib2)
qed

lemma tag_boxed_ptr [simp]: "ptr AND TAG_MASK = 0 \<Longrightarrow> tag (boxed_ptr ptr) = BoxedTag"
  using aligned_or_low(1) [of ptr 4]
  by (simp add: tag_def boxed_ptr_def tagged_ptr_def tag_defs Let_def)

lemma tag_list_ptr [simp]: "ptr AND TAG_MASK = 0 \<Longrightarrow> tag (list_ptr ptr) = ListTag"
  using aligned_or_low(1) [of ptr 5]
  by (simp add: tag_def list_ptr_def tagged_ptr_def tag_defs Let_def)

lemma try_small_int_eq:
  "try_small_int v =
     (if SMALL_INT_MIN \<le> sint v \<and> sint v \<le> SMALL_INT_MAX then Some (small_int v) else None)"
  by (auto simp: try_small_int_def small_int_def)

lemma as_small_int_small_int:
  "as_small_int (small_int v) = Some (signed_drop_bit 3 (push_bit 3 v))"
  by (simp add: as_small_int_def is_small_int_def) (simp add: small_int_def tag_defs)

lemma take_bit_61_id: "unat p < 2 ^ 61 \<Longrightarrow> take_bit 61 p = (p :: u64)"
  by (simp add: word_unat_eq_iff unsigned_take_bit_eq take_bit_nat_eq_self)

section \<open>Properties\<close>

text \<open>
  The checked small-integer constructor and accessor are exact: \<open>try_small_int\<close>
  accepts precisely the signed 61-bit range, and an accepted value comes back unchanged from
  \<open>as_small_int\<close>, whose word carries the small-integer tag.
\<close>

lemma try_small_int_round_trip:
  "(try_small_int v = None \<longleftrightarrow> sint v < - (2 ^ 60) \<or> 2 ^ 60 \<le> sint v) \<and>
   (\<forall>t. try_small_int v = Some t \<longrightarrow> as_small_int t = Some v \<and> tag t = SmallIntTag)"
proof -
  have range: "try_small_int v = None \<longleftrightarrow> sint v < - (2 ^ 60) \<or> 2 ^ 60 \<le> sint v"
    by (auto simp: try_small_int_eq tag_defs)
  have "as_small_int t = Some v \<and> tag t = SmallIntTag" if "try_small_int v = Some t" for t
  proof -
    from that have t: "t = small_int v" and "- (2 ^ 60) \<le> sint v" "sint v \<le> 2 ^ 60 - 1"
      by (auto simp: try_small_int_eq tag_defs split: if_splits)
    then have "sint (signed_drop_bit 3 (push_bit 3 v :: u64)) = sint v"
      by (simp only: sint_signed_drop_push signed_take_bit_60_in_range)
    then have "signed_drop_bit 3 (push_bit 3 v :: u64) = v"
      by (simp only: signed_word_eqI)
    then show ?thesis by (simp add: t as_small_int_small_int)
  qed
  with range show ?thesis by blast
qed

lemma try_small_int_round_trip_witness:
  "\<exists>t. try_small_int (- 5) = Some t \<and> as_small_int t = Some (- 5)"
proof -
  have "try_small_int (- 5) \<noteq> None"
    by (simp add: try_small_int_def tag_defs)
  with try_small_int_round_trip [of "- 5"] show ?thesis by blast
qed

text \<open>
  In a release build the unchecked constructor never panics and never produces another
  kind of term: the value read back is the 61-bit two's-complement truncation of the argument,
  for every 64-bit argument.
\<close>

lemma small_int_release_truncates:
  "\<exists>w. as_small_int (small_int v) = Some w \<and> sint w = signed_take_bit 60 (sint v)"
  by (simp add: as_small_int_small_int sint_signed_drop_push)

text \<open>
  Atoms, local pids and heap pointers round-trip through their tagged word: every atom
  index, every pid up to the unsigned payload maximum (and \<open>try_pid\<close> refuses exactly the
  others), and every aligned heap address under either pointer tag.
\<close>

lemma immediate_and_pointer_round_trip:
  "as_atom (atom_term a) = Some a \<and>
   (try_pid p = None \<longleftrightarrow> 2 ^ 61 \<le> unat p) \<and>
   (unat p < 2 ^ 61 \<longrightarrow> try_pid p = Some (pid_term p) \<and> as_pid (pid_term p) = Some p) \<and>
   (ptr AND TAG_MASK = 0 \<longrightarrow>
      heap_ptr (boxed_ptr ptr) = Some ptr \<and> heap_ptr (list_ptr ptr) = Some ptr)"
proof -
  have atom: "as_atom (atom_term a) = Some a"
  proof -
    have "ucast (take_bit 61 (ucast a :: u64)) = a"
      by (rule bit_word_eqI) (auto simp: bit_simps)
    then show ?thesis
      by (simp add: as_atom_def is_atom_def) (simp add: atom_term_def tag_defs drop_bit_push)
  qed
  have pid: "as_pid (pid_term p) = Some p" if "unat p < 2 ^ 61"
    using take_bit_61_id [OF that]
    by (simp add: as_pid_def is_local_pid_def) (simp add: pid_term_def tag_defs drop_bit_push)
  have ptr: "heap_ptr (boxed_ptr ptr) = Some ptr \<and> heap_ptr (list_ptr ptr) = Some ptr"
    if "ptr AND TAG_MASK = 0"
    using that aligned_or_low(2) [of ptr 4] aligned_or_low(2) [of ptr 5]
    by (simp add: heap_ptr_def is_boxed_def is_list_def)
      (simp add: boxed_ptr_def list_ptr_def tagged_ptr_def tag_defs)
  have chk: "try_pid p = None \<longleftrightarrow> 2 ^ 61 \<le> unat p"
    "unat p < 2 ^ 61 \<longrightarrow> try_pid p = Some (pid_term p)"
    by (auto simp: try_pid_def pid_term_def tag_defs)
  from atom pid ptr chk show ?thesis by blast
qed

lemma immediate_and_pointer_round_trip_witness:
  "try_pid 42 = Some (pid_term 42) \<and> as_pid (pid_term 42) = Some 42 \<and>
   heap_ptr (boxed_ptr 4096) = Some 4096"
  using immediate_and_pointer_round_trip [of 0 42 4096] by (simp add: TAG_MASK_def)

end
