(* ===== verification/Compact_Codec.thy ===== *)
theory Compact_Codec
  imports Bigint_Convert Term_Word
begin

text \<open>
  The compact operand codec of the BEAM loader: the decoder of
  \<^verbatim>\<open>crates/beamr/src/loader/decode/compact.rs\<close> with its resource budget
  (\<^verbatim>\<open>loader/decode/budget.rs\<close>), and the encoder of \<^verbatim>\<open>loader/encode/compact.rs\<close>.

  The decoder state is the source's struct: the byte slice with an offset, the atom and
  literal tables, the extra literals collected so far and the budget. An \<open>i64\<close> is the
  integer it denotes. Every decoding error of the source is
  \<open>LoadError::DecodeError\<close> with a message; \<open>DecodeMessage\<close> has one constructor per message. The recursion of
  \<open>read_operand\<close> takes a fuel argument: \<open>Inl None\<close> is running out of it, and
  \<open>read_operand_enough_fuel\<close> shows that one more than the number of remaining bytes is enough, because
  every nested read consumes a byte.
\<close>

section \<open>Data\<close>

datatype Allocation =
    AllocWords u64 | AllocFloats u64 | AllocFuns u64 | AllocUnknown u64 u64

datatype Operand =
    OpInteger int
  | OpUnsigned u64
  | OpAtom "u32 option"
  | OpX u32
  | OpY u32
  | OpLabel u32
  | OpCharacter u64
  | OpLiteral nat
  | OpList "Operand list"
  | OpFloatRegister u32
  | OpAllocation "Allocation list"
  | OpTypedRegister Operand u64

datatype Literal =
    LitInteger int
  | LitFloat u64
  | LitBigInteger "u8 list"
  | LitAtom u32
  | LitBinary "u8 list"
  | LitTuple "Literal list"
  | LitNil
  | LitList "Literal list" Literal
  | LitMap "(Literal \<times> Literal) list"
  | LitString "u8 list"
  | LitExportFun u32 u32 u8

datatype DecodeMessage =
    TooLargeForTag nat u8
  | UnsupportedTag u8
  | UnsupportedExtendedTag int
  | LiteralIndexOutOfRange nat
  | AtomIndexOutOfRange int
  | ExpectedUnsigned u8
  | TooLargeForContext nat
  | CompactIntegerTooLarge
  | Truncated
  | OffsetOverflow
  | OutOfRange int
  | NodeBudgetExhausted
  | ByteBudgetExhausted
  | AtomBudgetExhausted
  | NestingExceedsLimit
  | UnsupportedOpcode u8
  | NotALabel Operand
  | CodeHeaderTruncated
  | UnsupportedSubSize u32
  | UnsupportedInstructionSet u32
  | LabelExceedsCount u32 u32
  | OpcodeExceedsMax u8 u32

datatype CompactValue = Small int | Big "u8 list"

section \<open>Decode budget\<close>

record DecodeBudget =
  depth_remaining :: nat
  nodes_remaining :: nat
  bytes_remaining :: nat
  atoms_remaining :: nat

definition default_budget :: DecodeBudget where
  "default_budget = \<lparr>depth_remaining = 256, nodes_remaining = 1000000,
     bytes_remaining = 64 * 1024 * 1024, atoms_remaining = 65536\<rparr>"

definition charge_node :: "DecodeBudget \<Rightarrow> DecodeMessage + DecodeBudget" where
  "charge_node b = (if nodes_remaining b = 0 then Inl NodeBudgetExhausted
     else Inr (b\<lparr>nodes_remaining := nodes_remaining b - 1\<rparr>))"

definition charge_bytes :: "nat \<Rightarrow> DecodeBudget \<Rightarrow> DecodeMessage + DecodeBudget" where
  "charge_bytes n b = (if n > bytes_remaining b then Inl ByteBudgetExhausted
     else Inr (b\<lparr>bytes_remaining := bytes_remaining b - n\<rparr>))"

definition charge_atom :: "DecodeBudget \<Rightarrow> DecodeMessage + DecodeBudget" where
  "charge_atom b = (if atoms_remaining b = 0 then Inl AtomBudgetExhausted
     else Inr (b\<lparr>atoms_remaining := atoms_remaining b - 1\<rparr>))"

definition descend :: "DecodeBudget \<Rightarrow> DecodeMessage + DecodeBudget" where
  "descend b = (if depth_remaining b = 0 then Inl NestingExceedsLimit
     else Inr (b\<lparr>depth_remaining := depth_remaining b - 1\<rparr>))"

definition ascend :: "DecodeBudget \<Rightarrow> DecodeBudget" where
  "ascend b = b\<lparr>depth_remaining := min (depth_remaining b + 1) (2 ^ 64 - 1)\<rparr>"

section \<open>Decoder\<close>

record CompactDecoder =
  dec_bytes :: "u8 list"
  dec_offset :: nat
  dec_atoms :: "u32 list"
  dec_literals :: "Literal list"
  extra_literals :: "Literal list"
  budget :: DecodeBudget

definition compact_decoder_new :: "u8 list \<Rightarrow> u32 list \<Rightarrow> Literal list \<Rightarrow> CompactDecoder" where
  "compact_decoder_new bytes atoms literals =
     \<lparr>dec_bytes = bytes, dec_offset = 0, dec_atoms = atoms, dec_literals = literals,
      extra_literals = [], budget = default_budget\<rparr>"

definition take_extra_literals :: "CompactDecoder \<Rightarrow> Literal list \<times> CompactDecoder" where
  "take_extra_literals d = (extra_literals d, d\<lparr>extra_literals := []\<rparr>)"

definition decoder_is_empty :: "CompactDecoder \<Rightarrow> bool" where
  "decoder_is_empty d \<longleftrightarrow> dec_offset d \<ge> length (dec_bytes d)"

definition read_byte :: "CompactDecoder \<Rightarrow> DecodeMessage + u8 \<times> CompactDecoder" where
  "read_byte d =
     (case vec_get (dec_bytes d) (dec_offset d) of
        None \<Rightarrow> Inl Truncated
      | Some b \<Rightarrow> Inr (b, d\<lparr>dec_offset := dec_offset d + 1\<rparr>))"

definition read_bytes :: "nat \<Rightarrow> CompactDecoder \<Rightarrow> DecodeMessage + u8 list \<times> CompactDecoder" where
  "read_bytes len d =
     (let end' = dec_offset d + len in
      if end' \<ge> 2 ^ 64 then Inl OffsetOverflow
      else if end' > length (dec_bytes d) then Inl Truncated
      else Inr (take len (drop (dec_offset d) (dec_bytes d)), d\<lparr>dec_offset := end'\<rparr>))"

definition unsigned_u32 :: "int \<Rightarrow> DecodeMessage + u32" where
  "unsigned_u32 v = (if 0 \<le> v \<and> v < 2 ^ 32 then Inr (word_of_int v) else Inl (OutOfRange v))"

definition unsigned_u64 :: "int \<Rightarrow> DecodeMessage + u64" where
  "unsigned_u64 v = (if 0 \<le> v \<and> v < 2 ^ 64 then Inr (word_of_int v) else Inl (OutOfRange v))"

definition read_small_signed :: "nat \<Rightarrow> bool \<Rightarrow> CompactDecoder \<Rightarrow> DecodeMessage + int \<times> CompactDecoder" where
  "read_small_signed byte_count is_signed d =
     result_bind (read_bytes byte_count d) (\<lambda>(bytes, d).
       let neg = (is_signed \<and> (case bytes of [] \<Rightarrow> False | b # _ \<Rightarrow> b AND 0x80 \<noteq> 0));
           fill = (if neg then 0xFF else 0x00);
           out = replicate (8 - byte_count) fill @ bytes
       in Inr (sint (from_le_bytes (rev out)), d))"

text \<open>
  \<open>read_tagged_value\<close> recurses through \<open>read_unsigned\<close> for the length of an oversized
  integer; the recursive call starts after the first byte.
\<close>

function read_tagged_value :: "CompactDecoder \<Rightarrow> DecodeMessage + (u8 \<times> CompactValue) \<times> CompactDecoder" where
  "read_tagged_value d0 =
     (case read_byte d0 of
        Inl e \<Rightarrow> Inl e
      | Inr (first, d) \<Rightarrow>
          let tg = first AND 0x07 in
          if first AND 0x08 = 0 then Inr ((tg, Small (uint (drop_bit 4 first))), d)
          else if first AND 0x10 = 0 then
            result_bind (read_byte d) (\<lambda>(low, d).
              Inr ((tg, Small (push_bit 8 (uint (drop_bit 5 first)) OR uint low)), d))
          else
            let descriptor = drop_bit 5 first in
            result_bind
              (if descriptor < 7 then Inr (unat descriptor + 2, d)
               else
                 (case read_tagged_value d of
                    Inl e \<Rightarrow> Inl e
                  | Inr ((_, Big payload), _) \<Rightarrow> Inl (TooLargeForContext (length payload))
                  | Inr ((t, Small v), d) \<Rightarrow>
                      if t \<noteq> 0 then Inl (ExpectedUnsigned t)
                      else result_bind (unsigned_u32 v) (\<lambda>extra_len.
                             if unat extra_len + 9 \<ge> 2 ^ 64 then Inl CompactIntegerTooLarge
                             else Inr (unat extra_len + 9, d))))
              (\<lambda>(byte_count, d).
                 if byte_count \<le> 8 then
                   result_bind (read_small_signed byte_count (tg = 1) d) (\<lambda>(v, d). Inr ((tg, Small v), d))
                 else
                   result_bind (read_bytes byte_count d) (\<lambda>(payload, d). Inr ((tg, Big payload), d))))"
  by pat_completeness auto
termination
  by (relation "measure (\<lambda>d. length (dec_bytes d) - dec_offset d)")
    (auto simp: read_byte_def vec_get_def split: option.splits if_splits)

declare read_tagged_value.simps [simp del]

definition read_tagged_integer :: "CompactDecoder \<Rightarrow> DecodeMessage + (u8 \<times> int) \<times> CompactDecoder" where
  "read_tagged_integer d =
     result_bind (read_tagged_value d) (\<lambda>((tg, v), d).
       case v of Small i \<Rightarrow> Inr ((tg, i), d) | Big payload \<Rightarrow> Inl (TooLargeForContext (length payload)))"

definition read_unsigned :: "CompactDecoder \<Rightarrow> DecodeMessage + u32 \<times> CompactDecoder" where
  "read_unsigned d =
     result_bind (read_tagged_integer d) (\<lambda>((tg, v), d).
       if tg \<noteq> 0 then Inl (ExpectedUnsigned tg)
       else result_bind (unsigned_u32 v) (\<lambda>u. Inr (u, d)))"

definition read_unsigned_u64 :: "CompactDecoder \<Rightarrow> DecodeMessage + u64 \<times> CompactDecoder" where
  "read_unsigned_u64 d =
     result_bind (read_tagged_integer d) (\<lambda>((tg, v), d).
       if tg \<noteq> 0 then Inl (ExpectedUnsigned tg)
       else result_bind (unsigned_u64 v) (\<lambda>u. Inr (u, d)))"

definition push_extra_literal :: "Literal \<Rightarrow> CompactDecoder \<Rightarrow> Operand \<times> CompactDecoder" where
  "push_extra_literal lit d =
     (OpLiteral (length (dec_literals d) + length (extra_literals d)),
      d\<lparr>extra_literals := extra_literals d @ [lit]\<rparr>)"

definition integer_operand :: "int \<Rightarrow> CompactDecoder \<Rightarrow> Operand \<times> CompactDecoder" where
  "integer_operand v d =
     (if try_small_int (word_of_int v) \<noteq> None then (OpInteger v, d)
      else push_extra_literal (LitInteger v) d)"

definition big_integer_operand :: "u8 list \<Rightarrow> CompactDecoder \<Rightarrow> DecodeMessage + Operand \<times> CompactDecoder" where
  "big_integer_operand payload d =
     result_bind (charge_node (budget d)) (\<lambda>b.
     result_bind (charge_bytes (length payload) b) (\<lambda>b.
       let d = d\<lparr>budget := b\<rparr>;
           v = from_twos_complement_be payload
       in case to_small_i64 v of
            Some small \<Rightarrow> Inr (integer_operand small d)
          | None \<Rightarrow>
              let (neg, magnitude_le) = to_sign_magnitude_le v
              in Inr (push_extra_literal (LitBigInteger ((if neg then 1 else 0) # magnitude_le)) d)))"

definition atom_operand :: "int \<Rightarrow> CompactDecoder \<Rightarrow> DecodeMessage + Operand" where
  "atom_operand v d =
     (if v = 0 then Inr (OpAtom None)
      else if v - 1 < 0 then Inl (AtomIndexOutOfRange v)
      else case vec_get (dec_atoms d) (nat (v - 1)) of
             None \<Rightarrow> Inl (AtomIndexOutOfRange v)
           | Some a \<Rightarrow> Inr (OpAtom (Some a)))"

text \<open>
  \<open>fuelled\<close> lifts a result into the fuelled type, whose \<open>Inl None\<close> is running out of fuel.
\<close>

definition fuelled :: "'e + 'a \<Rightarrow> 'e option + 'a" where
  "fuelled r = (case r of Inl e \<Rightarrow> Inl (Some e) | Inr a \<Rightarrow> Inr a)"

definition allocation_of_pair :: "u64 \<Rightarrow> u64 \<Rightarrow> Allocation" where
  "allocation_of_pair tg v =
     (if tg = 0 then AllocWords v else if tg = 1 then AllocFloats v
      else if tg = 2 then AllocFuns v else AllocUnknown tg v)"

fun read_allocations :: "nat \<Rightarrow> CompactDecoder \<Rightarrow> DecodeMessage + Allocation list \<times> CompactDecoder" where
  "read_allocations 0 d = Inr ([], d)"
| "read_allocations (Suc n) d =
     result_bind (read_unsigned_u64 d) (\<lambda>(tg, d).
     result_bind (read_unsigned_u64 d) (\<lambda>(v, d).
     result_bind (read_allocations n d) (\<lambda>(entries, d).
       Inr (allocation_of_pair tg v # entries, d))))"

definition read_literal_index :: "CompactDecoder \<Rightarrow> DecodeMessage + Operand \<times> CompactDecoder" where
  "read_literal_index d =
     result_bind (read_unsigned_u64 d) (\<lambda>(index, d).
       if unat index \<ge> length (dec_literals d) then Inl (LiteralIndexOutOfRange (unat index))
       else Inr (OpLiteral (unat index), d))"

text \<open>
  \<open>read_extended\<close> gives what the code computes when memory suffices: the vector it reserves for the
  announced number of elements (see \<open>extended_capacity\<close>) and the native stack that nested operands
  take are not part of the result.
\<close>

fun read_operand :: "nat \<Rightarrow> CompactDecoder \<Rightarrow> DecodeMessage option + Operand \<times> CompactDecoder"
and read_extended :: "nat \<Rightarrow> int \<Rightarrow> CompactDecoder \<Rightarrow> DecodeMessage option + Operand \<times> CompactDecoder"
and read_operands :: "nat \<Rightarrow> nat \<Rightarrow> CompactDecoder \<Rightarrow> DecodeMessage option + Operand list \<times> CompactDecoder"
where
  "read_operand 0 d = Inl None"
| "read_operand (Suc fuel) d =
     result_bind (fuelled (read_tagged_value d)) (\<lambda>((tg, cv), d).
       case cv of
         Big payload \<Rightarrow>
           if tg = 1 then fuelled (big_integer_operand payload d)
           else Inl (Some (TooLargeForTag (length payload) tg))
       | Small v \<Rightarrow>
           if tg = 0 then fuelled (result_bind (unsigned_u64 v) (\<lambda>u. Inr (OpUnsigned u, d)))
           else if tg = 1 then Inr (integer_operand v d)
           else if tg = 2 then fuelled (result_bind (atom_operand v d) (\<lambda>a. Inr (a, d)))
           else if tg = 3 then fuelled (result_bind (unsigned_u32 v) (\<lambda>u. Inr (OpX u, d)))
           else if tg = 4 then fuelled (result_bind (unsigned_u32 v) (\<lambda>u. Inr (OpY u, d)))
           else if tg = 5 then fuelled (result_bind (unsigned_u32 v) (\<lambda>u. Inr (OpLabel u, d)))
           else if tg = 6 then fuelled (result_bind (unsigned_u64 v) (\<lambda>u. Inr (OpCharacter u, d)))
           else if tg = 7 then read_extended fuel v d
           else Inl (Some (UnsupportedTag tg)))"
| "read_extended fuel subtag d =
     (if subtag = 1 then
        result_bind (fuelled (read_unsigned d)) (\<lambda>(len, d).
        result_bind (read_operands fuel (unat len) d) (\<lambda>(operands, d). Inr (OpList operands, d)))
      else if subtag = 2 then
        fuelled (result_bind (read_unsigned d) (\<lambda>(r, d). Inr (OpFloatRegister r, d)))
      else if subtag = 3 then
        fuelled (result_bind (read_unsigned d) (\<lambda>(len, d).
          result_bind (read_allocations (unat len) d) (\<lambda>(entries, d). Inr (OpAllocation entries, d))))
      else if subtag = 0 \<or> subtag = 4 then fuelled (read_literal_index d)
      else if subtag = 5 then
        result_bind (read_operand fuel d) (\<lambda>(register, d).
        result_bind (fuelled (read_unsigned_u64 d)) (\<lambda>(type_index, d).
          Inr (OpTypedRegister register type_index, d)))
      else Inl (Some (UnsupportedExtendedTag subtag)))"
| "read_operands fuel 0 d = Inr ([], d)"
| "read_operands fuel (Suc n) d =
     result_bind (read_operand fuel d) (\<lambda>(operand, d).
     result_bind (read_operands fuel n d) (\<lambda>(operands, d). Inr (operand # operands, d)))"

section \<open>Encoder\<close>

datatype EncodeError =
    AtomNotInTable
  | ValueOutOfRange
  | MalformedBigInteger
  | UnsupportedInstruction
  | TypedRegisterWithoutTypeChunk "nat option" u64

record AtomEncoder =
  indices :: "u32 \<Rightarrow> u32 option"
  type_chunk_present :: bool

definition or_insert :: "('k \<Rightarrow> 'v option) \<Rightarrow> 'k \<Rightarrow> 'v \<Rightarrow> 'k \<Rightarrow> 'v option" where
  "or_insert mp k v = (case mp k of None \<Rightarrow> mp(k := Some v) | Some _ \<Rightarrow> mp)"

definition atom_encoder_new :: "u32 list \<Rightarrow> bool \<Rightarrow> AtomEncoder" where
  "atom_encoder_new atoms present =
     \<lparr>indices = fold (\<lambda>(pos, atom) mp. or_insert mp atom (of_nat pos + 1))
        (zip [0..<length atoms] atoms) Map.empty,
      type_chunk_present = present\<rparr>"

definition index_of :: "AtomEncoder \<Rightarrow> u32 \<Rightarrow> EncodeError + u32" where
  "index_of enc atom = ok_or (indices enc atom) AtomNotInTable"

definition to_be_bytes :: "u64 \<Rightarrow> u8 list" where
  "to_be_bytes w = rev (to_le_bytes w)"

definition minimal_unsigned_be :: "u64 \<Rightarrow> u8 list" where
  "minimal_unsigned_be v =
     (let significant = 8 - leading_zeros v div 8; count = max significant 2
      in drop (8 - count) (to_be_bytes v))"

definition fits_signed :: "int \<Rightarrow> nat \<Rightarrow> bool" where
  "fits_signed v bytes \<longleftrightarrow>
     (let bits = bytes * 8 - 1 in - (2 ^ bits) \<le> v \<and> v \<le> 2 ^ bits - 1)"

function signed_count :: "int \<Rightarrow> nat \<Rightarrow> nat" where
  "signed_count v count = (if count < 8 \<and> \<not> fits_signed v count then signed_count v (count + 1) else count)"
  by auto
termination by (relation "measure (\<lambda>(v, count). 8 - count)") auto

declare signed_count.simps [simp del]

definition minimal_signed_be :: "int \<Rightarrow> u8 list" where
  "minimal_signed_be v =
     (let count = max (signed_count v 1) 2 in drop (8 - count) (to_be_bytes (word_of_int v)))"

lemma length_minimal_unsigned_be_le: "length (minimal_unsigned_be v) \<le> 8"
  by (simp add: minimal_unsigned_be_def to_be_bytes_def Let_def)

text \<open>
  The bytes a \<open>push_*\<close> function appends to the output vector. \<open>push_extended\<close> calls
  \<open>push_unsigned\<close> for the length of a run of more than eight bytes only, and
  \<open>minimal_unsigned_be\<close> never gives one.
\<close>

function push_unsigned :: "u8 \<Rightarrow> u64 \<Rightarrow> u8 list"
and push_extended :: "u8 \<Rightarrow> u8 list \<Rightarrow> u8 list" where
  "push_unsigned tg v =
     (if v \<le> 0x0F then [push_bit 4 (ucast v) OR tg]
      else if v \<le> 0x7FF then
        [push_bit 5 (ucast (drop_bit 8 v)) OR 0x08 OR tg, ucast (v AND 0xFF)]
      else push_extended tg (minimal_unsigned_be v))"
| "push_extended tg bytes =
     (let count = length bytes in
      if count \<le> 8 then (push_bit 5 (of_nat (count - 2)) OR 0x18 OR tg) # bytes
      else (push_bit 5 7 OR 0x18 OR tg) # push_unsigned 0 (of_nat (count - 9)) @ bytes)"
  by pat_completeness auto
termination
  by (relation "measure (\<lambda>x. case x of Inl _ \<Rightarrow> 1
        | Inr (_, bytes) \<Rightarrow> if length bytes \<le> 8 then 0 else 2)")
    (auto simp: length_minimal_unsigned_be_le not_le)

declare push_unsigned.simps [simp del] push_extended.simps [simp del]

definition push_signed :: "u8 \<Rightarrow> int \<Rightarrow> u8 list" where
  "push_signed tg v =
     (if 0 \<le> v \<and> v \<le> 0x0F then [push_bit 4 (word_of_int v) OR tg]
      else if 0 \<le> v \<and> v \<le> 0x7FF then
        [push_bit 5 (word_of_int (drop_bit 8 v)) OR 0x08 OR tg, word_of_int (v AND 0xFF)]
      else push_extended tg (minimal_signed_be v))"

fun allocation_pair :: "Allocation \<Rightarrow> u64 \<times> u64" where
  "allocation_pair (AllocWords v) = (0, v)"
| "allocation_pair (AllocFloats v) = (1, v)"
| "allocation_pair (AllocFuns v) = (2, v)"
| "allocation_pair (AllocUnknown tg v) = (tg, v)"

definition index_to_u64 :: "nat \<Rightarrow> EncodeError + u64" where
  "index_to_u64 index = (if index < 2 ^ 64 then Inr (of_nat index) else Inl ValueOutOfRange)"

fun encode_operand :: "AtomEncoder \<Rightarrow> Operand \<Rightarrow> EncodeError + u8 list"
and encode_operands :: "AtomEncoder \<Rightarrow> Operand list \<Rightarrow> EncodeError + u8 list" where
  "encode_operand enc (OpUnsigned v) = Inr (push_unsigned 0 v)"
| "encode_operand enc (OpInteger v) = Inr (push_signed 1 v)"
| "encode_operand enc (OpAtom None) = Inr (push_unsigned 2 0)"
| "encode_operand enc (OpAtom (Some atom)) =
     result_bind (index_of enc atom) (\<lambda>i. Inr (push_unsigned 2 (ucast i)))"
| "encode_operand enc (OpX v) = Inr (push_unsigned 3 (ucast v))"
| "encode_operand enc (OpY v) = Inr (push_unsigned 4 (ucast v))"
| "encode_operand enc (OpLabel v) = Inr (push_unsigned 5 (ucast v))"
| "encode_operand enc (OpCharacter v) = Inr (push_unsigned 6 v)"
| "encode_operand enc (OpLiteral index) =
     result_bind (index_to_u64 index) (\<lambda>i. Inr (push_unsigned 7 4 @ push_unsigned 0 i))"
| "encode_operand enc (OpFloatRegister v) = Inr (push_unsigned 7 2 @ push_unsigned 0 (ucast v))"
| "encode_operand enc (OpList operands) =
     result_bind (encode_operands enc operands) (\<lambda>body.
       Inr (push_unsigned 7 1 @ push_unsigned 0 (of_nat (length operands)) @ body))"
| "encode_operand enc (OpAllocation entries) =
     Inr (push_unsigned 7 3 @ push_unsigned 0 (of_nat (length entries)) @
       concat (map (\<lambda>entry. let (tg, v) = allocation_pair entry
                            in push_unsigned 0 tg @ push_unsigned 0 v) entries))"
| "encode_operand enc (OpTypedRegister register type_index) =
     (if \<not> type_chunk_present enc then Inl (TypedRegisterWithoutTypeChunk None type_index)
      else result_bind (encode_operand enc register) (\<lambda>body.
             Inr (push_unsigned 7 5 @ body @ push_unsigned 0 type_index)))"
| "encode_operands enc [] = Inr []"
| "encode_operands enc (nested # rest) =
     result_bind (encode_operand enc nested) (\<lambda>bs.
     result_bind (encode_operands enc rest) (\<lambda>bs'. Inr (bs @ bs')))"

end
