(* ===== verification/Compact_Roundtrip.thy ===== *)
theory Compact_Roundtrip
  imports Compact_Codec
begin

text \<open>
  Correctness of the compact operand codec: the bit layout of the head byte, the payload
  bytes of the multi-byte forms, the round trip of every operand through encoder and decoder,
  and that the decoder always ends within its fuel.
\<close>

section \<open>Head bytes\<close>

lemma all_less_8:
  "(\<forall>n<8. P n) \<longleftrightarrow> P 0 \<and> P 1 \<and> P 2 \<and> P 3 \<and> P 4 \<and> P 5 \<and> P 6 \<and> P (7::nat)"
proof -
  have "n < 8 \<longleftrightarrow> n = 0 \<or> n = 1 \<or> n = 2 \<or> n = 3 \<or> n = 4 \<or> n = 5 \<or> n = 6 \<or> n = (7::nat)" for n
    by auto
  then show ?thesis by metis
qed

lemma word8_eq_iff:
  "x = (y :: u8) \<longleftrightarrow> (bit x 0 = bit y 0) \<and> (bit x 1 = bit y 1) \<and> (bit x 2 = bit y 2) \<and>
     (bit x 3 = bit y 3) \<and> (bit x 4 = bit y 4) \<and> (bit x 5 = bit y 5) \<and> (bit x 6 = bit y 6) \<and>
     (bit x 7 = bit y 7)"
proof -
  have "x = y \<longleftrightarrow> (\<forall>n<8. bit x n = bit y n)"
    by (auto intro: bit_word_eqI)
  then show ?thesis by (simp only: all_less_8)
qed

lemma high_bits_clear: "unat (x :: u8) < 2 ^ k \<Longrightarrow> k \<le> n \<Longrightarrow> \<not> bit x n"
proof -
  assume "unat x < 2 ^ k" "k \<le> n"
  then have "unat x < 2 ^ n" by (meson less_le_trans one_le_numeral power_increasing)
  then have "\<not> bit (unat x) n" by (simp add: bit_iff_odd)
  then show ?thesis by (simp add: bit_unsigned_iff)
qed

lemma head_one_byte:
  fixes x tg :: u8
  assumes "unat x < 16" "unat tg < 8"
  shows "(push_bit 4 x OR tg) AND 7 = tg" "(push_bit 4 x OR tg) AND 8 = 0"
    "drop_bit 4 (push_bit 4 x OR tg) = x"
  using high_bits_clear [of x 4] high_bits_clear [of tg 3] assms
  by (simp_all add: word8_eq_iff bit_simps)

lemma head_two_bytes:
  fixes x tg :: u8
  assumes "unat x < 8" "unat tg < 8"
  shows "(push_bit 5 x OR 8 OR tg) AND 7 = tg" "(push_bit 5 x OR 8 OR tg) AND 8 \<noteq> 0"
    "(push_bit 5 x OR 8 OR tg) AND 16 = 0" "drop_bit 5 (push_bit 5 x OR 8 OR tg) = x"
  using high_bits_clear [of x 3] high_bits_clear [of tg 3] assms
  by (simp_all add: word8_eq_iff bit_simps)

lemma head_extended:
  fixes x tg :: u8
  assumes "unat x < 8" "unat tg < 8"
  shows "(push_bit 5 x OR 24 OR tg) AND 7 = tg" "(push_bit 5 x OR 24 OR tg) AND 8 \<noteq> 0"
    "(push_bit 5 x OR 24 OR tg) AND 16 \<noteq> 0" "drop_bit 5 (push_bit 5 x OR 24 OR tg) = x"
  using high_bits_clear [of x 3] high_bits_clear [of tg 3] assms
  by (simp_all add: word8_eq_iff bit_simps)

section \<open>Reading from the remaining input\<close>

definition rest :: "CompactDecoder \<Rightarrow> u8 list" where
  "rest d = drop (dec_offset d) (dec_bytes d)"

definition advance :: "nat \<Rightarrow> CompactDecoder \<Rightarrow> CompactDecoder" where
  "advance n d = d\<lparr>dec_offset := dec_offset d + n\<rparr>"

text \<open>A byte slice is shorter than the address space.\<close>

definition slice_ok :: "CompactDecoder \<Rightarrow> bool" where
  "slice_ok d \<longleftrightarrow> length (dec_bytes d) < 2 ^ 64"

lemma advance_simps [simp]:
  "dec_bytes (advance n d) = dec_bytes d" "dec_atoms (advance n d) = dec_atoms d"
  "dec_literals (advance n d) = dec_literals d" "extra_literals (advance n d) = extra_literals d"
  "budget (advance n d) = budget d" "dec_offset (advance n d) = dec_offset d + n"
  "slice_ok (advance n d) = slice_ok d" "advance m (advance n d) = advance (n + m) d"
  "advance 0 d = d"
  by (simp_all add: advance_def slice_ok_def add.assoc)

lemma rest_advance: "rest (advance n d) = drop n (rest d)"
  by (simp add: rest_def add.commute)

lemma rest_advance_append [simp]: "rest d = xs @ ys \<Longrightarrow> rest (advance (length xs) d) = ys"
  by (simp add: rest_advance)

lemma read_byte_Cons: "rest d = b # r \<Longrightarrow> read_byte d = Inr (b, advance 1 d)"
proof -
  assume r: "rest d = b # r"
  then have "dec_offset d < length (dec_bytes d)"
    unfolding rest_def by (metis drop_eq_Nil linorder_not_less list.distinct(1))
  with r show ?thesis
    by (simp add: read_byte_def vec_get_def rest_def advance_def nth_via_drop)
qed

lemma read_bytes_append:
  assumes "slice_ok d" "rest d = bs @ r" "bs \<noteq> []"
  shows "read_bytes (length bs) d = Inr (bs, advance (length bs) d)"
proof -
  have "length (bs @ r) = length (dec_bytes d) - dec_offset d"
    using assms(2) by (metis length_drop rest_def)
  moreover have "0 < length bs" using assms(3) by simp
  ultimately have "dec_offset d + length bs \<le> length (dec_bytes d)"
    unfolding length_append by linarith
  then show ?thesis
    using assms by (simp add: read_bytes_def slice_ok_def rest_def advance_def Let_def)
qed

section \<open>Payload bytes\<close>

lemma length_to_be_bytes [simp]: "length (to_be_bytes w) = 8"
  by (simp add: to_be_bytes_def)

lemma low_bytes_val:
  "k \<le> 8 \<Longrightarrow> bytes_le_val (rev (drop (8 - k) (to_be_bytes w))) = unat w mod 256 ^ k"
proof -
  assume k: "k \<le> 8"
  have "take k [0..<8] = [0..<0 + k]" using k by simp
  then have "rev (drop (8 - k) (to_be_bytes w)) = map (\<lambda>i. ucast (drop_bit (8 * i) w)) [0..<0 + k]"
    using k by (simp add: to_be_bytes_def to_le_bytes_def rev_drop take_map)
  then show ?thesis using bytes_le_val_drop [of w 0 k] by simp
qed

lemma bytes_le_val_pad:
  "bytes_le_val (rev (replicate n b @ bs)) = bytes_le_val (rev bs) + 256 ^ length bs * bytes_le_val (replicate n b)"
  by (simp add: bytes_le_val_append)

lemma bytes_le_val_ones: "bytes_le_val (replicate n 255) = 256 ^ n - 1"
proof -
  have "bytes_le_val (replicate n 255) + 1 = 256 ^ n" by (induction n) simp_all
  then show ?thesis by linarith
qed

lemma read_small_signed_append:
  assumes "slice_ok d" "rest d = bs @ r" "2 \<le> length bs"
  shows "read_small_signed (length bs) is_signed d =
    Inr (sint (word_of_nat (bytes_le_val (rev bs) +
        (if is_signed \<and> 128 \<le> unat (hd bs)
         then 256 ^ length bs * (256 ^ (8 - length bs) - 1) else 0)) :: u64),
      advance (length bs) d)"
proof -
  from assms(3) obtain b bs' where bs: "bs = b # bs'" by (cases bs) auto
  have rb: "read_bytes (length bs) d = Inr (bs, advance (length bs) d)"
    using assms by (intro read_bytes_append) auto
  show ?thesis
  proof (cases "is_signed \<and> 128 \<le> unat b")
    case True
    then have "b AND 0x80 \<noteq> 0" by (simp only: high_bit_u8)
    then show ?thesis
      using True bytes_le_val_pad [of "8 - length bs" 255 bs]
      unfolding read_small_signed_def rb by (simp add: bs from_le_bytes_def bytes_le_val_ones)
  next
    case False
    with high_bit_u8 [of b] have "\<not> (is_signed \<and> b AND 0x80 \<noteq> 0)" by blast
    then show ?thesis
      using False bytes_le_val_pad [of "8 - length bs" 0 bs]
      unfolding read_small_signed_def rb by (auto simp: bs from_le_bytes_def)
  qed
qed

lemma minimal_unsigned_be_props:
  assumes "0x7FF < v"
  shows "2 \<le> length (minimal_unsigned_be v)" "length (minimal_unsigned_be v) \<le> 8"
    "bytes_le_val (rev (minimal_unsigned_be v)) = unat v"
proof -
  let ?c = "max (8 - leading_zeros v div 8) 2"
  have c: "2 \<le> ?c" "?c \<le> 8" by auto
  then show "2 \<le> length (minimal_unsigned_be v)" "length (minimal_unsigned_be v) \<le> 8"
    by (simp_all add: minimal_unsigned_be_def Let_def)
  have "64 - leading_zeros v \<le> 8 * ?c" by linarith
  then have "(2::nat) ^ (64 - leading_zeros v) \<le> 2 ^ (8 * ?c)" by (intro power_increasing) simp_all
  then have "unat v < 256 ^ ?c"
    using unat_less_leading_zeros [of v] by (simp add: power_mult)
  then show "bytes_le_val (rev (minimal_unsigned_be v)) = unat v"
    using low_bytes_val [OF c(2), of v] by (simp add: minimal_unsigned_be_def Let_def)
qed

lemma hd_high_bit:
  "bs \<noteq> [] \<Longrightarrow> 128 \<le> unat (hd bs) \<longleftrightarrow> 128 * 256 ^ (length bs - 1) \<le> bytes_le_val (rev bs)"
proof (cases bs)
  case (Cons b r)
  have val: "bytes_le_val (rev bs) = bytes_le_val (rev r) + 256 ^ length r * unat b"
    by (simp add: Cons bytes_le_val_append)
  have less: "bytes_le_val (rev r) < 256 ^ length r" using bytes_le_val_less [of "rev r"] by simp
  show ?thesis
  proof (cases "128 \<le> unat b")
    case True
    then have "256 ^ length r * 128 \<le> 256 ^ length r * unat b" by (rule mult_le_mono2)
    with val have "256 ^ length r * 128 \<le> bytes_le_val (rev bs)" by linarith
    then have "128 * 256 ^ (length bs - 1) \<le> bytes_le_val (rev bs)"
      by (simp add: Cons mult.commute)
    with True show ?thesis by (simp add: Cons)
  next
    case False
    then have "256 ^ length r * (unat b + 1) \<le> 256 ^ length r * 128" by (intro mult_le_mono2) simp
    with val less have "\<not> 256 ^ length r * 128 \<le> bytes_le_val (rev bs)"
      unfolding distrib_left by linarith
    then have "\<not> 128 * 256 ^ (length bs - 1) \<le> bytes_le_val (rev bs)"
      by (simp add: Cons mult.commute)
    with False show ?thesis by (simp add: Cons)
  qed
qed simp

lemma fits_signed_mono:
  assumes "fits_signed v c" "c \<le> c'" "1 \<le> c"
  shows "fits_signed v c'"
proof -
  have "(2::int) ^ (c * 8 - 1) \<le> 2 ^ (c' * 8 - 1)" using assms by (intro power_increasing) simp_all
  with assms(1) show ?thesis unfolding fits_signed_def Let_def by linarith
qed

lemma signed_count_props:
  "c \<le> 8 \<Longrightarrow> c \<le> signed_count v c \<and> signed_count v c \<le> 8 \<and>
     (fits_signed v 8 \<longrightarrow> fits_signed v (signed_count v c))"
proof (induction v c rule: signed_count.induct)
  case (1 v c)
  show ?case
  proof (cases "c < 8 \<and> \<not> fits_signed v c")
    case True
    then show ?thesis using 1 by (subst (1 2 3) signed_count.simps) auto
  next
    case False
    with 1(2) have "c = 8 \<or> fits_signed v c" by auto
    with False show ?thesis using 1(2) by (subst (1 2 3) signed_count.simps) auto
  qed
qed

lemma sign_extend:
  assumes fits: "fits_signed v c" and c: "1 \<le> c" "c \<le> 8"
    and u: "int u = v mod 256 ^ c"
  shows "sint (word_of_nat (u + (if 128 * 256 ^ (c - 1) \<le> u then 256 ^ c * (256 ^ (8 - c) - 1) else 0)) :: u64) = v"
proof -
  obtain m where m: "c = Suc m" using c by (cases c) auto
  have pow: "(2::int) ^ (c * 8 - 1) = 128 * 256 ^ m"
  proof -
    have "c * 8 - 1 = 7 + 8 * m" using m by simp
    then have "(2::int) ^ (c * 8 - 1) = 2 ^ 7 * 2 ^ (8 * m)" by (simp only: power_add)
    then show ?thesis by (simp add: power_mult)
  qed
  have range: "- (128 * 256 ^ m) \<le> v" "v < 128 * 256 ^ m"
    using fits pow by (simp_all add: fits_signed_def Let_def)
  have big: "(128::int) * 256 ^ m \<le> 2 ^ 63"
  proof -
    have "(256::int) ^ m \<le> 256 ^ 7" using c m by (intro power_increasing) simp_all
    then show ?thesis by simp
  qed
  have split: "(256::int) ^ c * (256 ^ (8 - c) - 1) = 2 ^ 64 - 256 ^ c"
    using c by (simp add: right_diff_distrib power_add [symmetric])
  have "word_of_nat (u + (if 128 * 256 ^ (c - 1) \<le> u then 256 ^ c * (256 ^ (8 - c) - 1) else 0)) =
      (word_of_int v :: u64)"
  proof (cases "v < 0")
    case True
    have "v mod 256 ^ c = v + 256 ^ c"
    proof -
      have "(v + 256 ^ c) mod 256 ^ c = v + 256 ^ c"
        using True range m by (intro mod_pos_pos_trivial) simp_all
      then show ?thesis by simp
    qed
    then have "int u = v + 256 ^ c" using u by simp
    then have "int (128 * 256 ^ (c - 1)) \<le> int u" using range m by simp
    then have ge: "128 * 256 ^ (c - 1) \<le> u" by (simp only: of_nat_le_iff)
    have "int (u + 256 ^ c * (256 ^ (8 - c) - 1)) = v + 2 ^ 64"
      using split \<open>int u = v + 256 ^ c\<close> by (simp add: of_nat_diff)
    then have "word_of_int (int (u + 256 ^ c * (256 ^ (8 - c) - 1))) = (word_of_int v :: u64)"
      by (simp only: of_int_add) simp
    then show ?thesis using ge by (simp only: of_int_of_nat_eq if_True)
  next
    case False
    then have "v mod 256 ^ c = v" using range m by (intro mod_pos_pos_trivial) simp_all
    then have iu: "int u = v" using u by simp
    then have "int u < int (128 * 256 ^ (c - 1))" using range m by simp
    then have "\<not> 128 * 256 ^ (c - 1) \<le> u" by (simp only: of_nat_less_iff not_le)
    moreover have "word_of_int (int u) = (word_of_int v :: u64)" by (simp only: iu)
    ultimately show ?thesis by (simp only: of_int_of_nat_eq if_False add_0_right)
  qed
  then show ?thesis
    using range big by (simp add: signed_of_int signed_take_bit_int_eq_self)
qed

lemma minimal_signed_be_props:
  assumes "- (2 ^ 63) \<le> v" "v < 2 ^ 63"
  shows "2 \<le> length (minimal_signed_be v)" "length (minimal_signed_be v) \<le> 8"
    "int (bytes_le_val (rev (minimal_signed_be v))) = v mod 256 ^ length (minimal_signed_be v)"
    "fits_signed v (length (minimal_signed_be v))"
proof -
  let ?c = "max (signed_count v 1) 2"
  have "fits_signed v 8" using assms by (simp add: fits_signed_def)
  with signed_count_props [of 1 v] have c: "2 \<le> ?c" "?c \<le> 8" "fits_signed v (signed_count v 1)"
    "1 \<le> signed_count v 1" by auto
  have len: "length (minimal_signed_be v) = ?c" using c by (simp add: minimal_signed_be_def Let_def)
  with c show "2 \<le> length (minimal_signed_be v)" "length (minimal_signed_be v) \<le> 8" by simp_all
  show "fits_signed v (length (minimal_signed_be v))"
    unfolding len by (rule fits_signed_mono [OF c(3) _ c(4)]) simp
  have "(2::int) ^ 64 = 256 ^ ?c * 256 ^ (8 - ?c)"
    using c by (simp add: power_add [symmetric])
  then have "(256::int) ^ ?c dvd 2 ^ 64" by (metis dvd_triv_left)
  then have "v mod 2 ^ 64 mod 256 ^ ?c = v mod 256 ^ ?c" by (rule mod_mod_cancel)
  moreover have "int (unat (word_of_int v :: u64)) = v mod 2 ^ 64"
    by (simp add: unsigned_of_int take_bit_eq_mod)
  ultimately show "int (bytes_le_val (rev (minimal_signed_be v))) = v mod 256 ^ length (minimal_signed_be v)"
    unfolding len using low_bytes_val [OF c(2), of "word_of_int v"]
    by (simp add: minimal_signed_be_def Let_def of_nat_mod)
qed

section \<open>Tagged values\<close>

lemma read_tagged_descriptor:
  assumes "read_byte d = Inr (h, d')" "h AND 8 \<noteq> 0" "h AND 16 \<noteq> 0" "h AND 7 = tg"
    "drop_bit 5 h = x" "x < 7" "unat x + 2 = n" "n \<le> 8"
    "read_small_signed n (tg = 1) d' = Inr (v, d'')"
  shows "read_tagged_value d = Inr ((tg, Small v), d'')"
  unfolding read_tagged_value.simps [of d] assms(1)
  using assms(2-9) by (simp add: Let_def)

lemma read_tagged_extended:
  assumes ok: "slice_ok d" and inp: "rest d = push_extended tg bs @ r"
    and len: "2 \<le> length bs" "length bs \<le> 8" and tg: "unat tg < 8"
  shows "read_tagged_value d =
    Inr ((tg, Small (sint (word_of_nat (bytes_le_val (rev bs) +
        (if tg = 1 \<and> 128 \<le> unat (hd bs)
         then 256 ^ length bs * (256 ^ (8 - length bs) - 1) else 0)) :: u64))),
      advance (length (push_extended tg bs)) d)"
proof -
  let ?x = "of_nat (length bs - 2) :: u8"
  have ux: "unat ?x = length bs - 2"
    using len by (simp only: unsigned_of_nat) (simp add: take_bit_nat_eq_self)
  then have x: "unat ?x < 8" "?x < 7" using len by (simp_all add: word_less_nat_alt)
  let ?h = "push_bit 5 ?x OR 24 OR tg"
  have pe: "push_extended tg bs = ?h # bs" using len by (simp add: push_extended.simps)
  have head: "read_byte d = Inr (?h, advance 1 d)" using inp pe by (intro read_byte_Cons) simp
  have tail: "rest (advance 1 d) = bs @ r" using inp pe by (simp add: rest_advance)
  note h = head_extended [OF x(1) tg]
  have cnt: "unat ?x + 2 = length bs" using ux len by simp
  have adv: "advance (length bs) (advance 1 d) = advance (length (push_extended tg bs)) d"
    by (simp add: pe)
  show ?thesis
    by (rule read_tagged_descriptor [OF head h(2,3,1,4) x(2) cnt len(2)])
      (subst read_small_signed_append [OF _ tail len(1)], use ok adv in simp_all)
qed

lemma read_tagged_one_byte:
  assumes "rest d = (push_bit 4 x OR tg) # r" "unat x < 16" "unat tg < 8"
  shows "read_tagged_value d = Inr ((tg, Small (uint x)), advance 1 d)"
  unfolding read_tagged_value.simps [of d] read_byte_Cons [OF assms(1)]
  using head_one_byte [OF assms(2,3)] by (simp add: Let_def)

lemma push_8_or: "push_bit 8 a OR uint (l :: u8) = a * 256 + uint l"
proof -
  have "push_bit 8 a OR uint l = push_bit 8 a + uint l"
    by (rule disjunctive_add_eq_or [symmetric])
      (auto simp: bit_eq_iff bit_simps dest: bit_imp_le_length)
  then show ?thesis by (simp add: push_bit_eq_mult)
qed

lemma read_tagged_two_bytes:
  assumes "rest d = (push_bit 5 x OR 8 OR tg) # low # r" "unat x < 8" "unat tg < 8"
  shows "read_tagged_value d = Inr ((tg, Small (uint x * 256 + uint low)), advance 2 d)"
proof -
  have "rest (advance 1 d) = low # r" using assms(1) by (simp add: rest_advance)
  from read_byte_Cons [OF this] have "read_byte (advance 1 d) = Inr (low, advance 2 d)"
    by (simp add: numeral_2_eq_2)
  then show ?thesis
    unfolding read_tagged_value.simps [of d] read_byte_Cons [OF assms(1)]
    using head_two_bytes [OF assms(2,3)] by (simp add: Let_def push_8_or)
qed

text \<open>Every unsigned payload below \<open>2 ^ 63\<close> reads back under every tag but the signed one.\<close>

lemma sint_small: "n < 2 ^ 63 \<Longrightarrow> sint (word_of_nat n :: u64) = int n"
proof -
  assume "n < 2 ^ 63"
  then have "int n < int (2 ^ 63)" by (simp only: of_nat_less_iff)
  moreover have "sint (word_of_int (int n) :: u64) = signed_take_bit 63 (int n)"
    by (simp only: signed_of_int) simp
  ultimately show ?thesis
    by (simp only: of_int_of_nat_eq) (simp add: signed_take_bit_int_eq_self)
qed

lemma read_push_unsigned:
  assumes ok: "slice_ok d" and inp: "rest d = push_unsigned tg v @ r"
    and tg: "unat tg < 8" "tg \<noteq> 1" and v: "unat v < 2 ^ 63"
  shows "read_tagged_value d = Inr ((tg, Small (uint v)), advance (length (push_unsigned tg v)) d)"
proof -
  consider "unat v \<le> 15" | "15 < unat v" "unat v \<le> 2047" | "2047 < unat v" by linarith
  then show ?thesis
  proof cases
    case 1
    then have p: "push_unsigned tg v = [push_bit 4 (ucast v) OR tg]"
      by (simp add: push_unsigned.simps word_le_nat_alt)
    have u: "unat (ucast v :: u8) = unat v"
      using 1 by (simp add: unsigned_ucast_eq take_bit_nat_eq_self)
    then have "int (unat (ucast v :: u8)) = int (unat v)" by simp
    then have "uint (ucast v :: u8) = uint v" by simp
    moreover have "read_tagged_value d = Inr ((tg, Small (uint (ucast v :: u8))), advance 1 d)"
      using inp 1 u tg by (intro read_tagged_one_byte [of _ _ _ r]) (simp_all add: p)
    ultimately show ?thesis by (simp add: p)
  next
    case 2
    then have p: "push_unsigned tg v = [push_bit 5 (ucast (drop_bit 8 v)) OR 8 OR tg, ucast (v AND 0xFF)]"
      by (simp add: push_unsigned.simps word_le_nat_alt)
    let ?x = "ucast (drop_bit 8 v) :: u8" and ?low = "ucast (v AND 0xFF) :: u8"
    have x: "unat ?x = unat v div 256"
      using 2 by (simp add: unsigned_ucast_eq unat_drop_bit_u64 take_bit_nat_eq_self)
    have "v AND 0xFF = take_bit 8 v" by (simp add: take_bit_eq_mask mask_eq_exp_minus_1)
    then have low: "unat ?low = unat v mod 256"
      by (simp add: unsigned_ucast_eq unsigned_take_bit_eq) (simp add: take_bit_eq_mod)
    have "uint ?x * 256 + uint ?low = int (unat ?x * 256 + unat ?low)" by simp
    also have "\<dots> = uint v" using x low by simp
    finally have val: "uint ?x * 256 + uint ?low = uint v" .
    have "unat ?x < 8" using x 2 by simp
    then have "read_tagged_value d = Inr ((tg, Small (uint ?x * 256 + uint ?low)), advance 2 d)"
      using inp tg by (intro read_tagged_two_bytes [of _ _ _ _ r]) (simp_all add: p)
    then show ?thesis using val by (simp add: p numeral_2_eq_2)
  next
    case 3
    then have p: "push_unsigned tg v = push_extended tg (minimal_unsigned_be v)"
      by (simp add: push_unsigned.simps word_le_nat_alt)
    have "0x7FF < v" using 3 by (simp add: word_less_nat_alt)
    note mp = minimal_unsigned_be_props [OF this]
    show ?thesis
      using read_tagged_extended [OF ok inp [unfolded p] mp(1,2) tg(1)] tg(2) v sint_small [of "unat v"]
      by (simp add: mp(3) p)
  qed
qed

lemma read_push_signed:
  assumes ok: "slice_ok d" and inp: "rest d = push_signed 1 v @ r"
    and v: "- (2 ^ 63) \<le> v" "v < 2 ^ 63"
  shows "read_tagged_value d = Inr ((1, Small v), advance (length (push_signed 1 v)) d)"
proof -
  consider "0 \<le> v" "v \<le> 15" | "15 < v" "v \<le> 2047" | "v < 0 \<or> 2047 < v" by linarith
  then show ?thesis
  proof cases
    case 1
    then have p: "push_signed 1 v = [push_bit 4 (word_of_int v) OR 1]"
      by (simp add: push_signed_def)
    have u: "uint (word_of_int v :: u8) = v"
      using 1 by (simp add: unsigned_of_int take_bit_int_eq_self)
    then have "unat (word_of_int v :: u8) < 16" using 1 by (simp add: unat_eq_nat_uint)
    then have "read_tagged_value d = Inr ((1, Small (uint (word_of_int v :: u8))), advance 1 d)"
      using inp by (intro read_tagged_one_byte [of _ _ _ r]) (simp_all add: p)
    then show ?thesis by (simp add: p u)
  next
    case 2
    then have p: "push_signed 1 v =
        [push_bit 5 (word_of_int (drop_bit 8 v)) OR 8 OR 1, word_of_int (v AND 0xFF)]"
      by (simp add: push_signed_def)
    let ?x = "word_of_int (drop_bit 8 v) :: u8" and ?low = "word_of_int (v AND 0xFF) :: u8"
    have x: "uint ?x = v div 256"
      using 2 by (simp add: unsigned_of_int drop_bit_eq_div take_bit_int_eq_self)
    have "v AND 0xFF = v mod 256" using take_bit_eq_mask [of 8 v] by (simp add: mask_eq_exp_minus_1 take_bit_eq_mod)
    then have low: "uint ?low = v mod 256"
      by (simp add: unsigned_of_int take_bit_int_eq_self)
    have val: "uint ?x * 256 + uint ?low = v" unfolding x low by simp
    have "unat ?x < 8" using 2 by (simp add: unat_eq_nat_uint x)
    then have "read_tagged_value d = Inr ((1, Small (uint ?x * 256 + uint ?low)), advance 2 d)"
      using inp by (intro read_tagged_two_bytes [of _ _ _ _ r]) (simp_all add: p)
    then show ?thesis using val by (simp add: p numeral_2_eq_2)
  next
    case 3
    then have p: "push_signed 1 v = push_extended 1 (minimal_signed_be v)"
      by (auto simp: push_signed_def)
    note mp = minimal_signed_be_props [OF v]
    let ?bs = "minimal_signed_be v"
    have "?bs \<noteq> []" using mp(1) by auto
    note hd = hd_high_bit [OF this]
    show ?thesis
      using read_tagged_extended [OF ok inp [unfolded p] mp(1,2)] sign_extend [OF mp(4) _ mp(2) mp(3)] mp(1)
      by (simp add: hd p)
  qed
qed

section \<open>Operands\<close>

lemma read_unsigned_u64_push:
  assumes "slice_ok d" "rest d = push_unsigned 0 v @ r" "unat v < 2 ^ 63"
  shows "read_unsigned_u64 d = Inr (v, advance (length (push_unsigned 0 v)) d)"
proof -
  have "uint v < 2 ^ 64" using unsigned_less [where ?'a = int and ?'b = 64, of v] by simp
  then show ?thesis
    using read_push_unsigned [OF assms(1,2) _ _ assms(3)]
    by (simp add: read_unsigned_u64_def read_tagged_integer_def unsigned_u64_def)
qed

lemma read_unsigned_push:
  assumes "slice_ok d" "rest d = push_unsigned 0 v @ r" "unat v < 2 ^ 32"
  shows "read_unsigned d = Inr (ucast v, advance (length (push_unsigned 0 v)) d)"
proof -
  have "int (unat v) < int (2 ^ 32)" using assms(3) by (simp only: of_nat_less_iff)
  then have "uint v < 2 ^ 32" by simp
  moreover have "unat v < 2 ^ 63" using assms(3) by simp
  ultimately show ?thesis
    using read_push_unsigned [OF assms(1,2)]
    by (simp add: read_unsigned_def read_tagged_integer_def unsigned_u32_def)
qed

lemma push_unsigned_nonempty [simp]: "push_unsigned tg v \<noteq> []"
  by (simp add: push_unsigned.simps push_extended.simps Let_def)

lemma encoder_indices:
  "indices (atom_encoder_new (xs @ [x]) present) =
     or_insert (indices (atom_encoder_new xs present)) x (of_nat (length xs) + 1)"
  by (simp add: atom_encoder_new_def)

lemma index_of_sound:
  "indices (atom_encoder_new atoms present) a = Some i \<Longrightarrow>
     \<exists>p<length atoms. i = of_nat p + 1 \<and> atoms ! p = a"
proof (induction atoms arbitrary: i rule: rev_induct)
  case (snoc x xs)
  from snoc.prems consider "indices (atom_encoder_new xs present) a = Some i"
    | "a = x" "i = of_nat (length xs) + 1"
    by (auto simp: encoder_indices or_insert_def split: option.splits if_splits)
  then show ?case
  proof cases
    case 1
    from snoc.IH [OF this] obtain p where "p < length xs" "i = of_nat p + 1" "xs ! p = a" by blast
    then show ?thesis by (intro exI [of _ p]) (simp add: nth_append)
  next
    case 2
    then show ?thesis by (intro exI [of _ "length xs"]) simp
  qed
qed (simp add: atom_encoder_new_def)

lemma index_of_complete:
  "a \<in> set atoms \<Longrightarrow> \<exists>i. indices (atom_encoder_new atoms present) a = Some i"
  by (induction atoms rule: rev_induct)
    (auto simp: encoder_indices or_insert_def split: option.splits)

lemma index_of_atom:
  assumes "a \<in> set atoms" "length atoms < 2 ^ 32"
  shows "\<exists>p i. index_of (atom_encoder_new atoms present) a = Inr i \<and> unat i = Suc p \<and>
    p < length atoms \<and> atoms ! p = a"
proof -
  obtain i where i: "indices (atom_encoder_new atoms present) a = Some i"
    using index_of_complete [OF assms(1)] by blast
  then obtain p where p: "p < length atoms" "i = of_nat p + 1" "atoms ! p = a"
    using index_of_sound by blast
  then have "unat i = unat (of_nat (Suc p) :: u32)" by (simp add: add.commute)
  also have "\<dots> = Suc p"
    using p assms(2) by (simp only: unsigned_of_nat) (simp add: take_bit_nat_eq_self)
  finally show ?thesis using i p by (auto simp: index_of_def)
qed

text \<open>
  The operands that the wire form can carry: integers in the small range, unsigned payloads
  below \<open>2 ^ 63\<close>, atoms and literal indices of the module's tables, nested counts of 32 bits,
  and unknown allocation tags that are not the known ones.
\<close>

fun allocation_ok :: "Allocation \<Rightarrow> bool" where
  "allocation_ok (AllocUnknown tg v) \<longleftrightarrow> 3 \<le> unat tg \<and> unat tg < 2 ^ 63 \<and> unat v < 2 ^ 63"
| "allocation_ok entry \<longleftrightarrow> unat (snd (allocation_pair entry)) < 2 ^ 63"

fun operand_ok :: "u32 list \<Rightarrow> Literal list \<Rightarrow> bool \<Rightarrow> Operand \<Rightarrow> bool" where
  "operand_ok atoms lits present (OpInteger v) \<longleftrightarrow> SMALL_INT_MIN \<le> v \<and> v \<le> SMALL_INT_MAX"
| "operand_ok atoms lits present (OpUnsigned v) \<longleftrightarrow> unat v < 2 ^ 63"
| "operand_ok atoms lits present (OpAtom a) \<longleftrightarrow> (case a of None \<Rightarrow> True | Some a \<Rightarrow> a \<in> set atoms)"
| "operand_ok atoms lits present (OpCharacter v) \<longleftrightarrow> unat v < 2 ^ 63"
| "operand_ok atoms lits present (OpLiteral i) \<longleftrightarrow> i < length lits"
| "operand_ok atoms lits present (OpList ops) \<longleftrightarrow>
     length ops < 2 ^ 32 \<and> (\<forall>op\<in>set ops. operand_ok atoms lits present op)"
| "operand_ok atoms lits present (OpAllocation es) \<longleftrightarrow> length es < 2 ^ 32 \<and> (\<forall>e\<in>set es. allocation_ok e)"
| "operand_ok atoms lits present (OpTypedRegister reg t) \<longleftrightarrow>
     present \<and> unat t < 2 ^ 63 \<and> operand_ok atoms lits present reg"
| "operand_ok atoms lits present _ \<longleftrightarrow> True"

text \<open>Reading the bytes \<open>bs\<close> at the front of any input gives the operand and consumes exactly them.\<close>

definition reads :: "u32 list \<Rightarrow> Literal list \<Rightarrow> u8 list \<Rightarrow> Operand \<Rightarrow> bool" where
  "reads atoms lits bs op \<longleftrightarrow> bs \<noteq> [] \<and>
     (\<forall>d r fuel. slice_ok d \<longrightarrow> dec_atoms d = atoms \<longrightarrow> dec_literals d = lits \<longrightarrow>
        rest d = bs @ r \<longrightarrow> length bs \<le> fuel \<longrightarrow> read_operand fuel d = Inr (op, advance (length bs) d))"

lemma fuelled_simps [simp]: "fuelled (Inr a) = Inr a" "fuelled (Inl e) = Inl (Some e)"
  by (simp_all add: fuelled_def)

lemma readsI:
  assumes "bs \<noteq> []"
    and "\<And>d r fuel. slice_ok d \<Longrightarrow> dec_atoms d = atoms \<Longrightarrow> dec_literals d = lits \<Longrightarrow> rest d = bs @ r \<Longrightarrow>
      length bs \<le> Suc fuel \<Longrightarrow> read_operand (Suc fuel) d = Inr (op, advance (length bs) d)"
  shows "reads atoms lits bs op"
  unfolding reads_def
proof (intro conjI allI impI)
  fix d :: CompactDecoder and r fuel
  assume *: "slice_ok d" "dec_atoms d = atoms" "dec_literals d = lits" "rest d = bs @ r" "length bs \<le> fuel"
  with assms(1) obtain f where "fuel = Suc f" by (cases fuel) auto
  with assms(2) * show "read_operand fuel d = Inr (op, advance (length bs) d)" by blast
qed (fact assms(1))

lemma reads_simple:
  assumes "unat tg < 8" "tg \<noteq> 1" "unat v < 2 ^ 63"
    and "\<And>d fuel. dec_atoms d = atoms \<Longrightarrow> dec_literals d = lits \<Longrightarrow>
      (\<And>d'. read_tagged_value d = Inr ((tg, Small (uint v)), d') \<Longrightarrow> d' = advance (length (push_unsigned tg v)) d \<Longrightarrow>
         read_operand (Suc fuel) d = Inr (op, d'))"
  shows "reads atoms lits (push_unsigned tg v) op"
  by (rule readsI) (use assms read_push_unsigned in auto)

lemma uint_ucast_u32: "uint (ucast (v :: u32) :: u64) = uint v" "word_of_int (uint v) = v"
  "unat (ucast v :: u64) < 2 ^ 32"
proof -
  have "int (unat (ucast v :: u64)) = int (unat v)" by (simp only: unat_ucast_u32)
  then show "uint (ucast v :: u64) = uint v" by simp
  show "unat (ucast v :: u64) < 2 ^ 32"
    using unsigned_less [where ?'a = nat and ?'b = 32, of v] by (simp add: unat_ucast_u32)
qed simp

lemma uint_u32_less: "uint (v :: u32) < 4294967296"
  using unsigned_less [where ?'a = int and ?'b = 32, of v] by simp

lemma reads_register:
  "reads atoms lits (push_unsigned 3 (ucast v)) (OpX v)"
  "reads atoms lits (push_unsigned 4 (ucast v)) (OpY v)"
  "reads atoms lits (push_unsigned 5 (ucast v)) (OpLabel v)"
  using uint_ucast_u32 [of v] uint_u32_less [of v]
  by (auto intro!: reads_simple simp: unsigned_u32_def)

lemma reads_u64:
  assumes "unat v < 2 ^ 63"
  shows "reads atoms lits (push_unsigned 0 v) (OpUnsigned v)"
    "reads atoms lits (push_unsigned 6 v) (OpCharacter v)"
proof -
  have "uint v < 18446744073709551616" using unsigned_less [where ?'a = int and ?'b = 64, of v] by simp
  with assms show "reads atoms lits (push_unsigned 0 v) (OpUnsigned v)"
    "reads atoms lits (push_unsigned 6 v) (OpCharacter v)"
    by (auto intro!: reads_simple simp: unsigned_u64_def)
qed

lemma reads_integer:
  assumes "SMALL_INT_MIN \<le> v" "v \<le> SMALL_INT_MAX"
  shows "reads atoms lits (push_signed 1 v) (OpInteger v)"
proof (rule readsI)
  show "push_signed 1 v \<noteq> []" by (simp add: push_signed_def push_extended.simps Let_def)
  have r: "- (2 ^ 63) \<le> v" "v < 2 ^ 63" using assms by (simp_all add: tag_defs)
  then have "sint (word_of_int v :: u64) = v"
    by (simp add: signed_of_int signed_take_bit_int_eq_self)
  then have small: "try_small_int (word_of_int v) \<noteq> None"
    using assms by (simp add: try_small_int_def)
  fix d :: CompactDecoder and r' fuel
  assume "slice_ok d" "rest d = push_signed 1 v @ r'"
  from read_push_signed [OF this r] small
  show "read_operand (Suc fuel) d = Inr (OpInteger v, advance (length (push_signed 1 v)) d)"
    by (simp add: integer_operand_def)
qed

lemma reads_atom:
  assumes "a \<in> set atoms" "length atoms < 2 ^ 32"
  shows "\<exists>bs. encode_operand (atom_encoder_new atoms present) (OpAtom (Some a)) = Inr bs \<and>
    reads atoms lits bs (OpAtom (Some a))"
proof -
  from index_of_atom [OF assms] obtain p i where
    i: "index_of (atom_encoder_new atoms present) a = Inr i" "unat i = Suc p" "p < length atoms" "atoms ! p = a"
    by blast
  have "uint i = int (Suc p)" using i(2) by (metis uint_nat)
  moreover have "unat (ucast i :: u64) < 2 ^ 63" using uint_ucast_u32(3) [of i] by simp
  ultimately have "reads atoms lits (push_unsigned 2 (ucast i)) (OpAtom (Some a))"
    using i(3,4) uint_ucast_u32 [of i]
    by (auto intro!: reads_simple simp: atom_operand_def vec_get_def)
  then show ?thesis using i(1) by simp
qed

lemma reads_atom_none: "reads atoms lits (push_unsigned 2 0) (OpAtom None)"
  by (auto intro!: reads_simple simp: atom_operand_def)

lemma read_operand_extended:
  assumes "slice_ok d" "rest d = push_unsigned 7 k @ r" "unat k \<le> 15"
  shows "read_operand (Suc fuel) d = read_extended fuel (uint k) (advance 1 d)"
    "rest (advance 1 d) = r" "length (push_unsigned 7 k) = 1"
proof -
  show len: "length (push_unsigned 7 k) = 1"
    using assms(3) by (simp add: push_unsigned.simps word_le_nat_alt)
  then show "rest (advance 1 d) = r" using assms(2) by (metis rest_advance_append)
  show "read_operand (Suc fuel) d = read_extended fuel (uint k) (advance 1 d)"
    using read_push_unsigned [OF assms(1,2)] assms(3) len by simp
qed

lemma ucast_u32_u64_u32: "ucast (ucast (v :: u32) :: u64) = v"
  by (rule bit_word_eqI) (auto simp: bit_simps)

lemma reads_literal:
  assumes "i < length lits" "length lits < 2 ^ 63"
  shows "reads atoms lits (push_unsigned 7 4 @ push_unsigned 0 (of_nat i)) (OpLiteral i)"
proof (rule readsI)
  fix d :: CompactDecoder and r fuel
  assume d: "slice_ok d" "dec_atoms d = atoms" "dec_literals d = lits"
    and inp: "rest d = (push_unsigned 7 4 @ push_unsigned 0 (of_nat i)) @ r"
  have i: "unat (of_nat i :: u64) = i"
    using assms by (simp add: unsigned_of_nat take_bit_nat_eq_self)
  note ext = read_operand_extended [OF d(1) inp [unfolded append_assoc], simplified]
  have "read_unsigned_u64 (advance 1 d) =
      Inr (of_nat i, advance (length (push_unsigned 0 (of_nat i))) (advance 1 d))"
    by (rule read_unsigned_u64_push) (use d ext i assms in simp_all)
  then show "read_operand (Suc fuel) d =
      Inr (OpLiteral i, advance (length (push_unsigned 7 4 @ push_unsigned 0 (of_nat i))) d)"
    using ext d i assms by (simp add: read_literal_index_def)
qed simp

lemma reads_float_register:
  "reads atoms lits (push_unsigned 7 2 @ push_unsigned 0 (ucast v)) (OpFloatRegister v)"
proof (rule readsI)
  fix d :: CompactDecoder and r fuel
  assume d: "slice_ok d"
    and inp: "rest d = (push_unsigned 7 2 @ push_unsigned 0 (ucast v)) @ r"
  note ext = read_operand_extended [OF d inp [unfolded append_assoc], simplified]
  have "read_unsigned (advance 1 d) =
      Inr (ucast (ucast v :: u64), advance (length (push_unsigned 0 (ucast v))) (advance 1 d))"
    by (rule read_unsigned_push) (use d ext uint_ucast_u32(3) [of v] in simp_all)
  then show "read_operand (Suc fuel) d =
      Inr (OpFloatRegister v, advance (length (push_unsigned 7 2 @ push_unsigned 0 (ucast v))) d)"
    using ext ucast_u32_u64_u32 [of v] by simp
qed simp

lemma read_allocations_push:
  assumes "\<forall>e\<in>set es. allocation_ok e" "slice_ok d"
    and "rest d = concat (map (\<lambda>e. let (tg, v) = allocation_pair e in push_unsigned 0 tg @ push_unsigned 0 v) es) @ r"
  shows "read_allocations (length es) d =
    Inr (es, advance (length (concat (map (\<lambda>e. let (tg, v) = allocation_pair e in push_unsigned 0 tg @ push_unsigned 0 v) es))) d)"
  using assms
proof (induction es arbitrary: d)
  case (Cons e es)
  obtain tg v where e: "allocation_pair e = (tg, v)" by fastforce
  have ok: "unat tg < 2 ^ 63" "unat v < 2 ^ 63" "allocation_of_pair tg v = e"
  proof -
    have "allocation_ok e" using Cons.prems by simp
    then show "unat tg < 2 ^ 63" "unat v < 2 ^ 63" "allocation_of_pair tg v = e"
      using e by (cases e; auto simp: allocation_of_pair_def)+
  qed
  let ?a = "push_unsigned 0 tg" and ?b = "push_unsigned 0 v"
  let ?d1 = "advance (length ?a) d"
  let ?d2 = "advance (length ?b) ?d1"
  have r1: "rest ?d1 = ?b @ concat (map (\<lambda>e. let (tg, v) = allocation_pair e in push_unsigned 0 tg @ push_unsigned 0 v) es) @ r"
    using Cons.prems(3) by (simp add: e rest_advance)
  have "read_unsigned_u64 d = Inr (tg, ?d1)"
    by (rule read_unsigned_u64_push) (use Cons.prems e ok in simp_all)
  moreover have "read_unsigned_u64 ?d1 = Inr (v, ?d2)"
    by (rule read_unsigned_u64_push [OF _ r1]) (use Cons.prems ok in simp_all)
  moreover note Cons.IH [of ?d2]
  ultimately show ?case
    using Cons.prems r1 ok e by (simp add: rest_advance add.assoc)
qed simp

lemma reads_allocation:
  assumes "length es < 2 ^ 32" "\<forall>e\<in>set es. allocation_ok e"
  shows "\<exists>bs. encode_operand enc (OpAllocation es) = Inr bs \<and> reads atoms lits bs (OpAllocation es)"
proof -
  let ?body = "concat (map (\<lambda>e. let (tg, v) = allocation_pair e in push_unsigned 0 tg @ push_unsigned 0 v) es)"
  let ?len = "push_unsigned 0 (of_nat (length es))"
  have n: "unat (of_nat (length es) :: u64) = length es" "unat (of_nat (length es) :: u32) = length es"
    using assms(1) by (simp_all add: unsigned_of_nat take_bit_nat_eq_self)
  have "reads atoms lits (push_unsigned 7 3 @ ?len @ ?body) (OpAllocation es)"
  proof (rule readsI)
    fix d :: CompactDecoder and r fuel
    assume d: "slice_ok d" and inp: "rest d = (push_unsigned 7 3 @ ?len @ ?body) @ r"
    note ext = read_operand_extended [OF d inp [unfolded append_assoc], simplified]
    have "read_unsigned (advance 1 d) =
        Inr (ucast (of_nat (length es) :: u64), advance (length ?len) (advance 1 d))"
      by (rule read_unsigned_push) (use d ext n assms in simp_all)
    moreover have "(ucast (of_nat (length es) :: u64) :: u32) = of_nat (length es)"
      using n assms(1) by (simp add: word_unat_eq_iff unsigned_ucast_eq take_bit_nat_eq_self)
    moreover have "read_allocations (length es) (advance (length ?len) (advance 1 d)) =
        Inr (es, advance (length ?body) (advance (length ?len) (advance 1 d)))"
    proof (rule read_allocations_push [OF assms(2)])
      have "rest (advance 1 d) = ?len @ ?body @ r" using ext(2) by simp
      then show "rest (advance (length ?len) (advance 1 d)) = ?body @ r" by (rule rest_advance_append)
    qed (use d in simp)
    ultimately show "read_operand (Suc fuel) d =
        Inr (OpAllocation es, advance (length (push_unsigned 7 3 @ ?len @ ?body)) d)"
      using ext n by (simp add: add.assoc)
  qed simp
  then show ?thesis by simp
qed

lemma reads_typed:
  assumes "reads atoms lits bs reg" "unat t < 2 ^ 63"
  shows "reads atoms lits (push_unsigned 7 5 @ bs @ push_unsigned 0 t) (OpTypedRegister reg t)"
proof (rule readsI)
  fix d :: CompactDecoder and r fuel
  assume d: "slice_ok d" "dec_atoms d = atoms" "dec_literals d = lits"
    and inp: "rest d = (push_unsigned 7 5 @ bs @ push_unsigned 0 t) @ r"
    and fuel: "length (push_unsigned 7 5 @ bs @ push_unsigned 0 t) \<le> Suc fuel"
  note ext = read_operand_extended [OF d(1) inp [unfolded append_assoc], simplified]
  let ?d1 = "advance (length bs) (advance 1 d)"
  have "read_operand fuel (advance 1 d) = Inr (reg, ?d1)"
    using assms(1) d ext fuel unfolding reads_def by simp
  moreover have "read_unsigned_u64 ?d1 = Inr (t, advance (length (push_unsigned 0 t)) ?d1)"
  proof (rule read_unsigned_u64_push)
    have "rest (advance 1 d) = bs @ push_unsigned 0 t @ r" using ext(2) by simp
    then show "rest ?d1 = push_unsigned 0 t @ r" by (rule rest_advance_append)
  qed (use d assms(2) in simp_all)
  ultimately show "read_operand (Suc fuel) d =
      Inr (OpTypedRegister reg t, advance (length (push_unsigned 7 5 @ bs @ push_unsigned 0 t)) d)"
    using ext by (simp add: add.assoc)
qed simp

lemma read_operands_push:
  assumes "list_all2 (reads atoms lits) bss ops" "slice_ok d" "dec_atoms d = atoms"
    "dec_literals d = lits" "rest d = concat bss @ r" "length (concat bss) \<le> fuel"
  shows "read_operands fuel (length ops) d = Inr (ops, advance (length (concat bss)) d)"
  using assms
proof (induction bss ops arbitrary: d rule: list_all2_induct)
  case (Cons bs bss op ops)
  have "read_operand fuel d = Inr (op, advance (length bs) d)"
    using Cons.hyps Cons.prems unfolding reads_def by simp
  moreover have "read_operands fuel (length ops) (advance (length bs) d) =
      Inr (ops, advance (length (concat bss)) (advance (length bs) d))"
    using Cons.prems by (intro Cons.IH) (simp_all add: rest_advance)
  ultimately show ?case by simp
qed simp

lemma reads_list:
  assumes "list_all2 (reads atoms lits) bss ops" "length ops < 2 ^ 32"
  shows "reads atoms lits (push_unsigned 7 1 @ push_unsigned 0 (of_nat (length ops)) @ concat bss) (OpList ops)"
proof (rule readsI)
  let ?len = "push_unsigned 0 (of_nat (length ops))"
  fix d :: CompactDecoder and r fuel
  assume d: "slice_ok d" "dec_atoms d = atoms" "dec_literals d = lits"
    and inp: "rest d = (push_unsigned 7 1 @ ?len @ concat bss) @ r"
    and fuel: "length (push_unsigned 7 1 @ ?len @ concat bss) \<le> Suc fuel"
  have n: "unat (of_nat (length ops) :: u64) = length ops" "unat (of_nat (length ops) :: u32) = length ops"
    using assms(2) by (simp_all add: unsigned_of_nat take_bit_nat_eq_self)
  note ext = read_operand_extended [OF d(1) inp [unfolded append_assoc], simplified]
  have "read_unsigned (advance 1 d) =
      Inr (ucast (of_nat (length ops) :: u64), advance (length ?len) (advance 1 d))"
    by (rule read_unsigned_push) (use d ext n assms in simp_all)
  moreover have "(ucast (of_nat (length ops) :: u64) :: u32) = of_nat (length ops)"
    using n assms(2) by (simp add: word_unat_eq_iff unsigned_ucast_eq take_bit_nat_eq_self)
  moreover have "read_operands fuel (length ops) (advance (length ?len) (advance 1 d)) =
      Inr (ops, advance (length (concat bss)) (advance (length ?len) (advance 1 d)))"
  proof (rule read_operands_push [OF assms(1)])
    have "rest (advance 1 d) = ?len @ concat bss @ r" using ext(2) by simp
    then show "rest (advance (length ?len) (advance 1 d)) = concat bss @ r" by (rule rest_advance_append)
  qed (use d fuel ext(3) in simp_all)
  ultimately show "read_operand (Suc fuel) d =
      Inr (OpList ops, advance (length (push_unsigned 7 1 @ ?len @ concat bss)) d)"
    using ext n by (simp add: add.assoc)
qed simp

lemma encode_operand_reads:
  assumes "length atoms < 2 ^ 32" "length lits < 2 ^ 63" "operand_ok atoms lits present op"
  shows "\<exists>bs. encode_operand (atom_encoder_new atoms present) op = Inr bs \<and> reads atoms lits bs op"
  using assms(3)
proof (induction op)
  case (OpAtom a)
  then show ?case using assms(1) reads_atom reads_atom_none by (cases a) auto
next
  case (OpLiteral i)
  then have "i < 2 ^ 64" using assms(2) by simp
  then show ?case using OpLiteral reads_literal [of i lits] assms(2) by (simp add: index_to_u64_def)
next
  case (OpList ops)
  let ?enc = "atom_encoder_new atoms present"
  have "\<exists>bss. encode_operands ?enc ops = Inr (concat bss) \<and> list_all2 (reads atoms lits) bss ops"
    using OpList
  proof (induction ops)
    case Nil
    then show ?case by (intro exI [of _ "[]"]) simp
  next
    case (Cons op ops)
    then obtain bs bss where "encode_operand ?enc op = Inr bs" "reads atoms lits bs op"
      "encode_operands ?enc ops = Inr (concat bss)" "list_all2 (reads atoms lits) bss ops" by fastforce
    then show ?case by (intro exI [of _ "bs # bss"]) simp
  qed
  then show ?case using OpList.prems reads_list by fastforce
next
  case (OpAllocation es)
  then show ?case using reads_allocation by simp
next
  case (OpTypedRegister reg t)
  then show ?case using reads_typed by (fastforce simp: atom_encoder_new_def)
qed (simp_all add: reads_integer reads_u64 reads_register reads_float_register)

section \<open>Progress of the decoder\<close>

definition remaining :: "CompactDecoder \<Rightarrow> nat" where
  "remaining d = length (dec_bytes d) - dec_offset d"

lemma read_byte_progress: "read_byte d = Inr (b, d') \<Longrightarrow> remaining d' < remaining d"
  by (auto simp: read_byte_def remaining_def vec_get_def split: option.splits if_splits)

lemma read_bytes_progress: "read_bytes n d = Inr (bs, d') \<Longrightarrow> remaining d' \<le> remaining d"
  by (auto simp: read_bytes_def remaining_def Let_def split: if_splits)

lemma read_small_signed_progress:
  "read_small_signed n sg d = Inr (v, d') \<Longrightarrow> remaining d' \<le> remaining d"
  by (auto simp: read_small_signed_def result_bind_eq_Inr_conv Let_def split: prod.splits
      dest: read_bytes_progress)

lemma read_tagged_value_progress:
  "read_tagged_value d = Inr (x, d') \<Longrightarrow> remaining d' < remaining d"
proof (induction d arbitrary: x d' rule: read_tagged_value.induct)
  case (1 d0)
  from "1.prems" obtain first d where first: "read_byte d0 = Inr (first, d)"
    by (subst (asm) read_tagged_value.simps) (auto split: sum.splits)
  from read_byte_progress [OF first] have lt: "remaining d < remaining d0" .
  note IH = "1.IH" [OF first refl refl]
  show ?case
    using "1.prems" first lt IH
    by (subst (asm) read_tagged_value.simps)
      (auto simp: Let_def result_bind_eq_Inr_conv unsigned_u32_def
        dest!: read_byte_progress read_small_signed_progress read_bytes_progress
        split: if_splits sum.splits CompactValue.splits,
       meson le_less_trans less_trans)
qed

lemma read_tagged_integer_progress:
  "read_tagged_integer d = Inr (x, d') \<Longrightarrow> remaining d' < remaining d"
  by (cases "read_tagged_value d")
    (auto simp: read_tagged_integer_def dest: read_tagged_value_progress
      split: CompactValue.splits prod.splits)

lemma read_unsigned_progress:
  "read_unsigned d = Inr (x, d') \<Longrightarrow> remaining d' < remaining d"
  "read_unsigned_u64 d = Inr (y, d') \<Longrightarrow> remaining d' < remaining d"
  by (auto simp: read_unsigned_def read_unsigned_u64_def result_bind_eq_Inr_conv
      dest: read_tagged_integer_progress split: if_splits)

lemma read_allocations_progress:
  "read_allocations n d = Inr (es, d') \<Longrightarrow> remaining d' \<le> remaining d"
proof (induction n arbitrary: d es)
  case (Suc n)
  from Suc.prems obtain tg d1 v d2 es' where
    steps: "read_unsigned_u64 d = Inr (tg, d1)" "read_unsigned_u64 d1 = Inr (v, d2)"
      "read_allocations n d2 = Inr (es', d')"
    by (auto simp: result_bind_eq_Inr_conv)
  with Suc.IH [OF steps(3)] read_unsigned_progress(2) [OF steps(1)]
    read_unsigned_progress(2) [OF steps(2)] show ?case by linarith
qed simp

lemma fuelled_Inr [simp]: "fuelled r = Inr x \<longleftrightarrow> r = Inr x"
  by (cases r) simp_all

lemma fuelled_not_fuel [simp]: "fuelled r \<noteq> Inl None"
  by (cases r) simp_all

lemma integer_operand_remaining [simp]: "remaining (snd (integer_operand v d)) = remaining d"
  by (simp add: integer_operand_def push_extra_literal_def remaining_def)

lemma big_integer_operand_progress:
  "big_integer_operand p d = Inr (op, d') \<Longrightarrow> remaining d' = remaining d"
proof -
  assume a: "big_integer_operand p d = Inr (op, d')"
  have "remaining (d\<lparr>budget := b\<rparr>) = remaining d" for b by (simp add: remaining_def)
  with a show ?thesis
    using integer_operand_remaining
    by (fastforce simp: big_integer_operand_def result_bind_eq_Inr_conv Let_def push_extra_literal_def
        remaining_def split: option.splits prod.splits dest: arg_cong [where f = snd])
qed

lemma read_progress:
  "read_operand fuel d = Inr (op, d') \<Longrightarrow> remaining d' < remaining d"
  "read_extended fuel k d = Inr (op, d') \<Longrightarrow> remaining d' < remaining d"
  "read_operands fuel n d = Inr (ops, d') \<Longrightarrow> remaining d' \<le> remaining d"
proof (induction fuel d and fuel k d and fuel n d arbitrary: op d' and op d' and ops d'
    rule: read_operand_read_extended_read_operands.induct)
  case (2 fuel d)
  from "2.prems" obtain tg cv d1 where tv: "read_tagged_value d = Inr ((tg, cv), d1)"
    by (auto simp: result_bind_eq_Inr_conv)
  from read_tagged_value_progress [OF tv] have lt: "remaining d1 < remaining d" .
  have io: "integer_operand v d1 = (op, d') \<Longrightarrow> remaining d' = remaining d1" for v
    using integer_operand_remaining [of v d1] by simp
  show ?case
  proof (cases cv)
    case (Small v)
    show ?thesis
    proof (cases "tg = 7")
      case True
      then have "read_extended fuel v d1 = Inr (op, d')" using "2.prems" by (simp add: tv Small)
      from "2.IH" [OF refl _ _ _ _ _ _ _ refl this] lt show ?thesis by simp
    next
      case False
      then have "remaining d' = remaining d1"
        using "2.prems"
        by (auto simp: tv Small result_bind_eq_Inr_conv dest: io split: if_splits)
      with lt show ?thesis by linarith
    qed
  next
    case (Big payload)
    then have "big_integer_operand payload d1 = Inr (op, d')"
      using "2.prems" by (simp add: tv split: if_splits)
    from big_integer_operand_progress [OF this] lt show ?thesis by linarith
  qed
next
  case (3 fuel k d)
  have lst: "k = 1 \<Longrightarrow> read_operands fuel (unat len) d1 = Inr (ops, d2) \<Longrightarrow> remaining d2 \<le> remaining d1"
    for len :: u32 and d1 ops d2 using "3.IH"(1) by blast
  have reg: "k = 5 \<Longrightarrow> read_operand fuel d = Inr (a, b) \<Longrightarrow> remaining b < remaining d"
    for a b using "3.IH"(2) by simp
  from "3.prems" show ?case
    by (auto simp: result_bind_eq_Inr_conv read_literal_index_def split: if_splits
        dest!: read_unsigned_progress lst reg read_allocations_progress)
next
  case (5 fuel n d)
  from "5.prems" obtain op1 d1 ops1 where
    steps: "read_operand fuel d = Inr (op1, d1)" "read_operands fuel n d1 = Inr (ops1, d')"
    by (auto simp: result_bind_eq_Inr_conv)
  from "5.IH"(1) [OF steps(1)] "5.IH"(2) [OF steps(2)] show ?case by linarith
qed simp_all

lemma enough_fuel:
  "remaining d < fuel \<Longrightarrow> read_operand fuel d \<noteq> Inl None"
  "remaining d < fuel \<Longrightarrow> read_extended fuel k d \<noteq> Inl None"
  "remaining d < fuel \<Longrightarrow> read_operands fuel n d \<noteq> Inl None"
proof (induction fuel d and fuel k d and fuel n d
    rule: read_operand_read_extended_read_operands.induct)
  case (2 fuel d)
  show ?case
  proof (cases "read_tagged_value d")
    case (Inr x)
    then obtain tg cv d1 where tv: "read_tagged_value d = Inr ((tg, cv), d1)" by (cases x) auto
    from read_tagged_value_progress [OF this] have le: "remaining d1 < fuel" using "2.prems" by simp
    have "tg = 7 \<Longrightarrow> cv = Small v \<Longrightarrow> read_extended fuel v d1 \<noteq> Inl None" for v
      using "2.IH" [OF refl _ _ _ _ _ _ _ refl le] by simp
    then show ?thesis by (simp add: tv split: CompactValue.split)
  qed simp
next
  case (3 fuel k d)
  have lst: "read_operands fuel (unat len) d1 \<noteq> Inl None"
    if "k = 1" "read_unsigned d = Inr (len, d1)" for len d1
    using "3.IH"(1) [OF that(1), of d1] "3.prems" read_unsigned_progress(1) [OF that(2)] by simp
  have reg: "read_operand fuel d \<noteq> Inl None" if "k = 5"
    using "3.IH"(2) that "3.prems" by simp
  show ?case
    using lst reg by (auto simp: result_bind_eq_Inl_conv)
next
  case (5 fuel n d)
  show ?case
  proof (cases "read_operand fuel d")
    case (Inl e)
    then show ?thesis using "5.IH"(1) "5.prems" by simp
  next
    case (Inr x)
    then obtain op1 d1 where st: "read_operand fuel d = Inr (op1, d1)" by (cases x) auto
    from read_progress(1) [OF this] "5.prems" have "remaining d1 < fuel" by linarith
    then have "read_operands fuel n d1 \<noteq> Inl None" using "5.IH"(2) by blast
    then show ?thesis by (cases "read_operands fuel n d1") (auto simp: st)
  qed
qed simp_all

section \<open>Integer operands\<close>

text \<open>The integer an operand denotes against the module's literals followed by the extra ones.\<close>

definition literal_int :: "Literal \<Rightarrow> int option" where
  "literal_int lit = (case lit of
     LitInteger v \<Rightarrow> Some v
   | LitBigInteger (sg # mag) \<Rightarrow>
       Some (if sg = 0 then int (bytes_le_val mag) else - int (bytes_le_val mag))
   | _ \<Rightarrow> None)"

definition operand_int :: "CompactDecoder \<Rightarrow> Operand \<Rightarrow> int option" where
  "operand_int d op = (case op of
     OpInteger v \<Rightarrow> Some v
   | OpLiteral i \<Rightarrow> Option.bind (vec_get (dec_literals d @ extra_literals d) i) literal_int
   | _ \<Rightarrow> None)"

lemma operand_int_push:
  "push_extra_literal lit d = (op, d') \<Longrightarrow> operand_int d' op = literal_int lit"
  by (auto simp: push_extra_literal_def operand_int_def vec_get_def nth_append)

lemma operand_int_integer_operand:
  "integer_operand v d = (op, d') \<Longrightarrow> operand_int d' op = Some v"
proof (cases "try_small_int (word_of_int v) = None")
  case True
  assume "integer_operand v d = (op, d')"
  with True have "push_extra_literal (LitInteger v) d = (op, d')" by (simp add: integer_operand_def)
  from operand_int_push [OF this] show ?thesis by (simp add: literal_int_def)
qed (auto simp: integer_operand_def operand_int_def)

lemma operand_int_big:
  assumes "big_integer_operand payload d = Inr (op, d')"
  shows "operand_int d' op = Some (twos_complement_be_val payload)"
proof -
  let ?v = "from_twos_complement_be payload"
  have ok: "big_ok ?v" by (simp add: from_twos_complement_be_def Let_def)
  have val: "big_int ?v = twos_complement_be_val payload" by (rule big_int_from_twos_complement_be)
  from assms obtain b1 b2 where
    "charge_node (budget d) = Inr b1" "charge_bytes (length payload) b1 = Inr b2"
    by (auto simp: big_integer_operand_def result_bind_eq_Inr_conv)
  note charged = assms [unfolded big_integer_operand_def this(1) result_bind_Inr this(2) Let_def]
  show ?thesis
  proof (cases "to_small_i64 ?v")
    case (Some small)
    then have "small = big_int ?v" by (auto simp: to_small_i64_correct [OF ok] split: if_splits)
    moreover have "integer_operand small (d\<lparr>budget := b2\<rparr>) = (op, d')" using charged Some by simp
    ultimately show ?thesis using operand_int_integer_operand val by simp
  next
    case None
    with charged have "push_extra_literal (LitBigInteger ((if fst (to_sign_magnitude_le ?v) then 1 else 0) #
           snd (to_sign_magnitude_le ?v))) (d\<lparr>budget := b2\<rparr>) = (op, d')"
      by (simp add: case_prod_unfold)
    from operand_int_push [OF this] show ?thesis
      by (simp add: literal_int_def to_sign_magnitude_le_val val [symmetric] big_int_signed [OF ok])
  qed
qed

lemma length_push_le: "length (push_unsigned tg v) \<le> 9" "length (push_signed tg i) \<le> 9"
proof -
  have "length (push_extended tg bs) \<le> 9" if "length bs \<le> 8" for bs
    using that by (simp add: push_extended.simps)
  moreover have "length (minimal_signed_be i) \<le> 8" by (simp add: minimal_signed_be_def Let_def)
  ultimately show "length (push_unsigned tg v) \<le> 9" "length (push_signed tg i) \<le> 9"
    using length_minimal_unsigned_be_le [of v] by (simp_all add: push_unsigned.simps push_signed_def)
qed

section \<open>Properties\<close>

text \<open>
  C25. The encoder and the decoder are inverse on every operand the wire form can carry: the
  encoder succeeds, and decoding its bytes in front of any further input gives the identical
  operand and leaves exactly that input, nested lists, allocation lists and typed registers
  included.
\<close>

theorem compact_operand_round_trip:
  assumes "operand_ok atoms lits present op" "length atoms < 2 ^ 32" "length lits < 2 ^ 63"
  shows "\<exists>bs. encode_operand (atom_encoder_new atoms present) op = Inr bs \<and> bs \<noteq> [] \<and>
    (\<forall>d r. slice_ok d \<and> dec_atoms d = atoms \<and> dec_literals d = lits \<and> rest d = bs @ r \<longrightarrow>
       read_operand (Suc (remaining d)) d = Inr (op, advance (length bs) d) \<and>
       rest (advance (length bs) d) = r)"
proof -
  obtain bs where bs: "encode_operand (atom_encoder_new atoms present) op = Inr bs" "reads atoms lits bs op"
    using encode_operand_reads [OF assms(2,3,1)] by blast
  have "read_operand (Suc (remaining d)) d = Inr (op, advance (length bs) d) \<and> rest (advance (length bs) d) = r"
    if "slice_ok d" "dec_atoms d = atoms" "dec_literals d = lits" "rest d = bs @ r" for d r
  proof -
    have "length (rest d) = remaining d" by (simp add: rest_def remaining_def)
    then have "length bs \<le> Suc (remaining d)" using that(4) by simp
    then show ?thesis using bs(2) that unfolding reads_def by (simp del: read_operand.simps)
  qed
  with bs show ?thesis unfolding reads_def by blast
qed

theorem compact_operand_round_trip_witness:
  "\<exists>bs. encode_operand (atom_encoder_new [7, 9] True)
        (OpList [OpAtom (Some 9), OpTypedRegister (OpX 3) 5, OpInteger (- 70000)]) = Inr bs \<and>
     read_operand (Suc (length bs)) (compact_decoder_new bs [7, 9] []) =
       Inr (OpList [OpAtom (Some 9), OpTypedRegister (OpX 3) 5, OpInteger (- 70000)],
            advance (length bs) (compact_decoder_new bs [7, 9] []))"
proof -
  let ?op = "OpList [OpAtom (Some 9), OpTypedRegister (OpX 3) 5, OpInteger (- 70000)]"
  have "operand_ok [7, 9] [] True ?op" by (simp add: tag_defs)
  then obtain bs where bs: "encode_operand (atom_encoder_new [7, 9] True) ?op = Inr bs"
    and dec: "\<forall>d r. slice_ok d \<and> dec_atoms d = [7, 9] \<and> dec_literals d = [] \<and> rest d = bs @ r \<longrightarrow>
       read_operand (Suc (remaining d)) d = Inr (?op, advance (length bs) d) \<and>
       rest (advance (length bs) d) = r"
    using compact_operand_round_trip [of "[7, 9]" "[]" True ?op] by auto
  have "bs = concat [push_unsigned 7 1 @ push_unsigned 0 3, push_unsigned 2 2,
      push_unsigned 7 5 @ push_unsigned 3 3 @ push_unsigned 0 5, push_signed 1 (- 70000)]"
    using bs by (simp add: atom_encoder_new_def index_of_def or_insert_def upt_rec)
  then have "length bs \<le> 72"
    using length_push_le(1) [of 7 1] length_push_le(1) [of 0 3] length_push_le(1) [of 2 2]
      length_push_le(1) [of 7 5] length_push_le(1) [of 3 3] length_push_le(1) [of 0 5]
      length_push_le(2) [of 1 "- 70000"] by simp
  then have "slice_ok (compact_decoder_new bs [7, 9] [])"
    "rest (compact_decoder_new bs [7, 9] []) = bs @ []"
    "remaining (compact_decoder_new bs [7, 9] []) = length bs"
    "dec_atoms (compact_decoder_new bs [7, 9] []) = [7, 9]"
    "dec_literals (compact_decoder_new bs [7, 9] []) = []"
    by (simp_all add: compact_decoder_new_def slice_ok_def rest_def remaining_def)
  with dec bs show ?thesis by metis
qed

text \<open>
  C36. Decoding always ends and always makes progress: with one unit of fuel more than the
  remaining bytes the decoder never runs out of it, whatever the bytes, and a successful read
  consumes at least one byte.
\<close>

theorem read_operand_enough_fuel:
  "read_operand (Suc (remaining d)) d \<noteq> Inl None \<and>
   (read_operand fuel d = Inr (op, d') \<longrightarrow> remaining d' < remaining d)"
  using enough_fuel(1) [of d "Suc (remaining d)"] read_progress(1) [of fuel d op d'] by blast

theorem read_operand_enough_fuel_witness:
  "\<exists>op d'. read_operand 1 (compact_decoder_new [0x53] [] []) = Inr (op, d') \<and> remaining d' < 1"
proof -
  have "read_operand 1 (compact_decoder_new [0x53] [] []) =
      Inr (OpX 5, (compact_decoder_new [0x53] [] [])\<lparr>dec_offset := 1\<rparr>)"
    by (simp add: compact_decoder_new_def read_tagged_value.simps read_byte_def vec_get_def unsigned_u32_def)
  with read_operand_enough_fuel [of "compact_decoder_new [0x53] [] []" 1 "OpX 5"
      "(compact_decoder_new [0x53] [] [])\<lparr>dec_offset := 1\<rparr>"]
  show ?thesis by (simp add: remaining_def compact_decoder_new_def)
qed

text \<open>
  Integer operands keep their value at every width: a payload of more than eight bytes,
  and a value outside the small-integer range, become an extra literal whose number is the
  operand's index, and the integer denoted is the two's-complement value of the payload.
\<close>

lemma integer_operand_exact:
  "(integer_operand v d = (op, d') \<longrightarrow> operand_int d' op = Some v) \<and>
   (big_integer_operand payload d = Inr (op, d') \<longrightarrow>
      operand_int d' op = Some (twos_complement_be_val payload))"
  using operand_int_integer_operand [of v d op d'] operand_int_big [of payload d op d'] by blast

lemma integer_operand_exact_witness:
  "operand_int (snd (integer_operand (2 ^ 62) (compact_decoder_new [] [] [])))
     (fst (integer_operand (2 ^ 62) (compact_decoder_new [] [] []))) = Some (2 ^ 62)"
  using integer_operand_exact [of "2 ^ 62" "compact_decoder_new [] [] []"] by simp

text \<open>
  The encoder is not the inverse of the decoder above the signed range: an unsigned or
  character operand of \<open>2 ^ 63\<close> or more is encoded without error, and the decoder reads the
  eight payload bytes as a negative \<open>i64\<close> and refuses them.
\<close>

lemma unsigned_operand_above_i64_refused:
  assumes "2 ^ 63 \<le> unat v" "slice_ok d" "rest d = push_unsigned 0 v @ r"
  shows "encode_operand enc (OpUnsigned v) = Inr (push_unsigned 0 v) \<and>
    read_operand (Suc fuel) d = Inl (Some (OutOfRange (uint v - 2 ^ 64)))"
proof -
  have big: "0x7FF < v" using assms(1) by (simp add: word_less_nat_alt)
  note mp = minimal_unsigned_be_props [OF big]
  have p: "push_unsigned 0 v = push_extended 0 (minimal_unsigned_be v)"
    using assms(1) by (simp add: push_unsigned.simps word_le_nat_alt)
  have iv: "int (2 ^ 63) \<le> int (unat v)" using assms(1) by (simp only: of_nat_le_iff)
  have "uint v < 2 ^ 64" using unsigned_less [where ?'a = int and ?'b = 64, of v] by simp
  moreover have "(2 :: int) ^ 63 \<le> uint v" using iv by simp
  ultimately have "sint (word_of_int (uint v - 2 ^ 64) :: u64) = uint v - 2 ^ 64"
    by (simp add: signed_of_int signed_take_bit_int_eq_self del: of_int_diff)
  moreover have "word_of_int (uint v - 2 ^ 64) = v" by (simp only: of_int_diff) simp
  ultimately have "sint v = uint v - 2 ^ 64" by (simp only:)
  then show ?thesis
    using read_tagged_extended [OF assms(2) assms(3) [unfolded p] mp(1,2)] \<open>uint v < 2 ^ 64\<close>
    by (simp add: mp(3) unsigned_u64_def)
qed

lemma unsigned_operand_above_i64_refused_witness:
  "read_operand 9 (compact_decoder_new (push_unsigned 0 (2 ^ 63)) [] []) =
     Inl (Some (OutOfRange (- (2 ^ 63))))"
proof -
  let ?d = "compact_decoder_new (push_unsigned 0 (2 ^ 63)) [] []"
  have "slice_ok ?d" "rest ?d = push_unsigned 0 (2 ^ 63) @ []"
    using length_push_le(1) [of 0 "2 ^ 63"]
    by (simp_all add: compact_decoder_new_def slice_ok_def rest_def)
  then have "read_operand (Suc 8) ?d = Inl (Some (OutOfRange (uint (2 ^ 63 :: u64) - 2 ^ 64)))"
    using unsigned_operand_above_i64_refused [of "2 ^ 63" ?d "[]" "atom_encoder_new [] True" 8]
    by simp
  then show ?thesis by simp
qed

end
