(* ===== verification/Code_Codec.thy ===== *)
theory Code_Codec
  imports Compact_Roundtrip
begin

text \<open>
  Instructions of a BEAM module: the \<open>Instruction\<close> type of
  \<^verbatim>\<open>crates/beamr/src/loader/decode/instruction.rs\<close>, the arity table of
  \<^verbatim>\<open>decode/opcode.rs\<close>, the instruction and \<open>Code\<close> chunk decoder of \<^verbatim>\<open>decode/code.rs\<close>, and the
  encoder of \<^verbatim>\<open>encode/opcodes.rs\<close> and \<^verbatim>\<open>encode/code.rs\<close>. Constructors carry the
  prefix \<open>I_\<close>; fields are positional in the source's order.
\<close>

section \<open>Data\<close>

datatype TypeTestOp =
    IsInteger | IsFloat | IsNumber | IsAtom | IsPid | IsReference | IsPort | IsNil | IsBinary
  | IsList | IsNonemptyList | IsTuple | IsFunction | IsBoolean | IsFunction2 | IsBitstr | IsMap

datatype ComparisonOp = CmpLt | CmpGe | CmpEq | CmpNe | CmpEqExact | CmpNeExact

datatype BifOp = Bif0 | Bif1 | Bif2 | GcBif1 | GcBif2 | GcBif3

datatype BinaryOp =
    BsGetInteger2 | BsGetFloat2 | BsGetBinary2 | BsSkipBits2 | BsTestTail2 | BsTestUnit
  | BsMatchString | BsInitWritable | BsGetUtf8 | BsSkipUtf8 | BsGetUtf16 | BsSkipUtf16
  | BsGetUtf32 | BsSkipUtf32 | BsGetTail | BsStartMatch3 | BsGetPosition | BsSetPosition
  | BsStartMatch4 | BsCreateBin | BsMatch

datatype MapOp = PutMapAssoc | PutMapExact | HasMapFields | GetMapElements

datatype (plugins only: size) Instruction =
    I_Label u32
  | I_FuncInfo Operand Operand Operand
  | I_Move Operand Operand
  | I_Call Operand Operand
  | I_CallOnly Operand Operand
  | I_CallExt Operand Operand
  | I_CallExtOnly Operand Operand
  | I_Fmove Operand Operand
  | I_Fconv Operand Operand
  | I_Fadd Operand Operand Operand Operand
  | I_Fsub Operand Operand Operand Operand
  | I_Fmul Operand Operand Operand Operand
  | I_Fdiv Operand Operand Operand Operand
  | I_Fnegate Operand Operand Operand
  | I_CallLast Operand Operand Operand
  | I_CallExtLast Operand Operand Operand
  | I_Return
  | I_Allocate Operand Operand
  | I_AllocateHeap Operand Operand Operand
  | I_AllocateZero Operand Operand
  | I_Deallocate Operand
  | I_TestHeap Operand Operand
  | I_PutList Operand Operand Operand
  | I_PutTuple2 Operand Operand
  | I_GetTupleElement Operand Operand Operand
  | I_GetList Operand Operand Operand
  | I_GetHd Operand Operand
  | I_GetTl Operand Operand
  | I_TypeTest TypeTestOp Operand Operand
  | I_Comparison ComparisonOp Operand Operand Operand
  | I_TestArity Operand Operand Operand
  | I_IsTaggedTuple Operand Operand Operand Operand
  | I_SelectVal Operand Operand Operand
  | I_SelectTupleArity Operand Operand Operand
  | I_Jump Operand
  | I_Bif BifOp "Operand list"
  | I_Send
  | I_RemoveMessage
  | I_Timeout
  | I_LoopRec Operand Operand
  | I_LoopRecEnd Operand
  | I_Wait Operand
  | I_WaitTimeout Operand Operand
  | I_RecvMarkerReserve Operand
  | I_RecvMarkerBind Operand Operand
  | I_RecvMarkerClear Operand
  | I_RecvMarkerUse Operand
  | I_Catch Operand Operand
  | I_CatchEnd Operand
  | I_Try Operand Operand
  | I_TryEnd Operand
  | I_TryCase Operand
  | I_TryCaseEnd Operand
  | I_BinaryOp BinaryOp "Operand list"
  | I_MapOp MapOp "Operand list"
  | I_MakeFun "Operand list"
  | I_CallFun Operand
  | I_CallFun2 Operand Operand Operand
  | I_Apply Operand
  | I_ApplyLast Operand Operand
  | I_Badmatch Operand
  | I_Badrecord Operand
  | I_CaseEnd Operand
  | I_IfEnd
  | I_Raise Operand Operand
  | I_RawRaise
  | I_Line Operand
  | I_Trim Operand Operand
  | I_OnLoad
  | I_BuildStacktrace
  | I_Swap Operand Operand
  | I_InitYregs Operand
  | I_NifStart
  | I_UpdateRecord "Operand list"
  | I_Generic u8 string "Operand list"

section \<open>Decoder\<close>

definition opcode_arity :: "u8 \<Rightarrow> DecodeMessage + nat" where
  "opcode_arity opcode =
     (let n = unat opcode in
      if n = 1 then Inr 1
      else if n = 2 then Inr 3
      else if n = 4 then Inr 2
      else if n = 5 then Inr 3
      else if n = 6 then Inr 2
      else if n = 7 then Inr 2
      else if n = 8 then Inr 3
      else if n = 9 then Inr 2
      else if n = 10 then Inr 4
      else if n = 11 then Inr 5
      else if n = 12 then Inr 2
      else if n = 13 then Inr 3
      else if n = 14 then Inr 2
      else if n = 16 then Inr 2
      else if n = 18 then Inr 1
      else if n = 19 \<or> n = 20 \<or> n = 21 \<or> n = 22 \<or> n = 73 \<or> n = 133 \<or> n = 149 \<or> n = 160 \<or> n = 161 \<or> n = 179 then Inr 0
      else if n = 23 then Inr 2
      else if n = 24 then Inr 1
      else if n = 25 then Inr 1
      else if n = 26 then Inr 2
      else if 39 \<le> n \<and> n \<le> 44 then Inr 3
      else if 45 \<le> n \<and> n \<le> 53 then Inr 2
      else if 55 \<le> n \<and> n \<le> 57 then Inr 2
      else if n = 58 then Inr 3
      else if n = 59 then Inr 3
      else if n = 60 then Inr 3
      else if n = 61 then Inr 1
      else if n = 62 then Inr 2
      else if n = 63 then Inr 1
      else if n = 64 then Inr 2
      else if n = 65 then Inr 3
      else if n = 66 then Inr 3
      else if n = 67 then Inr 3
      else if n = 69 then Inr 3
      else if n = 72 then Inr 1
      else if n = 74 then Inr 1
      else if n = 75 then Inr 1
      else if n = 77 then Inr 2
      else if n = 78 then Inr 2
      else if n = 96 then Inr 2
      else if n = 97 then Inr 2
      else if 98 \<le> n \<and> n \<le> 101 then Inr 4
      else if n = 102 then Inr 3
      else if n = 103 then Inr 1
      else if n = 104 then Inr 2
      else if n = 105 then Inr 1
      else if n = 106 then Inr 1
      else if n = 107 then Inr 1
      else if n = 108 then Inr 2
      else if n = 112 then Inr 1
      else if n = 113 then Inr 2
      else if n = 114 then Inr 2
      else if n = 115 then Inr 3
      else if n = 117 then Inr 7
      else if n = 118 then Inr 7
      else if n = 119 then Inr 7
      else if n = 120 then Inr 5
      else if n = 121 then Inr 3
      else if n = 124 then Inr 5
      else if n = 125 then Inr 6
      else if n = 129 then Inr 2
      else if n = 131 then Inr 3
      else if n = 132 then Inr 4
      else if n = 136 then Inr 2
      else if n = 138 then Inr 5
      else if n = 139 then Inr 4
      else if n = 140 then Inr 5
      else if n = 141 then Inr 4
      else if n = 142 then Inr 5
      else if n = 143 then Inr 4
      else if n = 152 then Inr 7
      else if n = 153 then Inr 1
      else if n = 154 then Inr 5
      else if n = 155 then Inr 5
      else if n = 156 then Inr 2
      else if n = 157 then Inr 3
      else if n = 158 then Inr 3
      else if n = 159 then Inr 4
      else if n = 162 then Inr 2
      else if n = 163 then Inr 2
      else if n = 164 then Inr 2
      else if n = 165 then Inr 3
      else if n = 166 then Inr 4
      else if n = 167 then Inr 3
      else if n = 168 then Inr 2
      else if n = 169 then Inr 2
      else if n = 170 then Inr 4
      else if n = 171 then Inr 3
      else if n = 172 then Inr 1
      else if n = 173 then Inr 2
      else if 174 \<le> n \<and> n \<le> 176 then Inr 1
      else if n = 177 then Inr 6
      else if n = 178 then Inr 3
      else if n = 180 then Inr 1
      else if n = 181 then Inr 5
      else if n = 182 then Inr 3
      else if n = 183 then Inr 2
      else if n = 184 then Inr 4
      else Inl (UnsupportedOpcode opcode))"

definition comparison :: "ComparisonOp \<Rightarrow> Operand list \<Rightarrow> Instruction" where
  "comparison op ops = I_Comparison op (ops ! 0) (ops ! 1) (ops ! 2)"

definition type_test :: "TypeTestOp \<Rightarrow> Operand list \<Rightarrow> Instruction" where
  "type_test op ops = I_TypeTest op (ops ! 0) (ops ! 1)"

definition binary_op :: "BinaryOp \<Rightarrow> Operand list \<Rightarrow> Instruction" where
  "binary_op op ops = I_BinaryOp op ops"

definition map_op :: "MapOp \<Rightarrow> Operand list \<Rightarrow> Instruction" where
  "map_op op ops = I_MapOp op ops"

definition expect_u32 :: "Operand \<Rightarrow> DecodeMessage + u32" where
  "expect_u32 operand = (case operand of
     OpInteger v \<Rightarrow> if 0 \<le> v \<and> v < 2 ^ 32 then Inr (word_of_int v) else Inl (OutOfRange v)
   | OpUnsigned v \<Rightarrow> if unat v < 2 ^ 32 then Inr (ucast v) else Inl (OutOfRange (uint v))
   | OpLabel v \<Rightarrow> Inr v
   | other \<Rightarrow> Inl (NotALabel other))"

definition assemble_high :: "u8 \<Rightarrow> Operand list \<Rightarrow> DecodeMessage + Instruction" where
  "assemble_high opcode ops =
     (if opcode = 129 then Inr (type_test IsBitstr ops)
      else if opcode = 131 then Inr (binary_op BsTestUnit ops)
      else if opcode = 132 then Inr (binary_op BsMatchString ops)
      else if opcode = 133 then Inr (binary_op BsInitWritable ops)
      else if opcode = 136 then Inr (I_Trim (ops ! 0) (ops ! 1))
      else if opcode = 138 then Inr (binary_op BsGetUtf8 ops)
      else if opcode = 139 then Inr (binary_op BsSkipUtf8 ops)
      else if opcode = 140 then Inr (binary_op BsGetUtf16 ops)
      else if opcode = 141 then Inr (binary_op BsSkipUtf16 ops)
      else if opcode = 142 then Inr (binary_op BsGetUtf32 ops)
      else if opcode = 143 then Inr (binary_op BsSkipUtf32 ops)
      else if opcode = 149 then Inr (I_OnLoad)
      else if opcode = 152 then Inr (I_Bif GcBif3 ops)
      else if opcode = 153 then Inr (I_Line (ops ! 0))
      else if opcode = 154 then Inr (map_op PutMapAssoc ops)
      else if opcode = 155 then Inr (map_op PutMapExact ops)
      else if opcode = 156 then Inr (type_test IsMap ops)
      else if opcode = 157 then Inr (map_op HasMapFields ops)
      else if opcode = 158 then Inr (map_op GetMapElements ops)
      else if opcode = 159 then Inr (I_IsTaggedTuple (ops ! 0) (ops ! 1) (ops ! 2) (ops ! 3))
      else if opcode = 160 then Inr (I_BuildStacktrace)
      else if opcode = 161 then Inr (I_RawRaise)
      else if opcode = 162 then Inr (I_GetHd (ops ! 0) (ops ! 1))
      else if opcode = 163 then Inr (I_GetTl (ops ! 0) (ops ! 1))
      else if opcode = 164 then Inr (I_PutTuple2 (ops ! 0) (ops ! 1))
      else if opcode = 165 then Inr (binary_op BsGetTail ops)
      else if opcode = 166 then Inr (binary_op BsStartMatch3 ops)
      else if opcode = 167 then Inr (binary_op BsGetPosition ops)
      else if opcode = 168 then Inr (binary_op BsSetPosition ops)
      else if opcode = 169 then Inr (I_Swap (ops ! 0) (ops ! 1))
      else if opcode = 170 then Inr (binary_op BsStartMatch4 ops)
      else if opcode = 171 then Inr (I_MakeFun ops)
      else if opcode = 172 then Inr (I_InitYregs (ops ! 0))
      else if opcode = 173 then Inr (I_RecvMarkerBind (ops ! 0) (ops ! 1))
      else if opcode = 174 then Inr (I_RecvMarkerClear (ops ! 0))
      else if opcode = 175 then Inr (I_RecvMarkerReserve (ops ! 0))
      else if opcode = 176 then Inr (I_RecvMarkerUse (ops ! 0))
      else if opcode = 177 then Inr (binary_op BsCreateBin ops)
      else if opcode = 178 then Inr (I_CallFun2 (ops ! 0) (ops ! 1) (ops ! 2))
      else if opcode = 179 then Inr (I_NifStart)
      else if opcode = 180 then Inr (I_Badrecord (ops ! 0))
      else if opcode = 181 then Inr (I_UpdateRecord ops)
      else if opcode = 182 then Inr (binary_op BsMatch ops)
      else if opcode = 183 then Inr (I_Generic opcode ''executable_line'' ops)
      else if opcode = 184 then Inr (I_Generic opcode ''debug_line'' ops)
      else Inl (UnsupportedOpcode opcode))"

definition assemble_mid :: "u8 \<Rightarrow> Operand list \<Rightarrow> DecodeMessage + Instruction" where
  "assemble_mid opcode ops =
     (if opcode = 62 then Inr (I_Catch (ops ! 0) (ops ! 1))
      else if opcode = 63 then Inr (I_CatchEnd (ops ! 0))
      else if opcode = 64 then Inr (I_Move (ops ! 0) (ops ! 1))
      else if opcode = 65 then Inr (I_GetList (ops ! 0) (ops ! 1) (ops ! 2))
      else if opcode = 66 then Inr (I_GetTupleElement (ops ! 0) (ops ! 1) (ops ! 2))
      else if opcode = 67 then Inr (I_Generic opcode ''set_tuple_element'' ops)
      else if opcode = 69 then Inr (I_PutList (ops ! 0) (ops ! 1) (ops ! 2))
      else if opcode = 72 then Inr (I_Badmatch (ops ! 0))
      else if opcode = 73 then Inr (I_IfEnd)
      else if opcode = 74 then Inr (I_CaseEnd (ops ! 0))
      else if opcode = 75 then Inr (I_CallFun (ops ! 0))
      else if opcode = 77 then Inr (type_test IsFunction ops)
      else if opcode = 78 then Inr (I_CallExtOnly (ops ! 0) (ops ! 1))
      else if opcode = 96 then Inr (I_Fmove (ops ! 0) (ops ! 1))
      else if opcode = 97 then Inr (I_Fconv (ops ! 0) (ops ! 1))
      else if opcode = 98 then Inr (I_Fadd (ops ! 0) (ops ! 1) (ops ! 2) (ops ! 3))
      else if opcode = 99 then Inr (I_Fsub (ops ! 0) (ops ! 1) (ops ! 2) (ops ! 3))
      else if opcode = 100 then Inr (I_Fmul (ops ! 0) (ops ! 1) (ops ! 2) (ops ! 3))
      else if opcode = 101 then Inr (I_Fdiv (ops ! 0) (ops ! 1) (ops ! 2) (ops ! 3))
      else if opcode = 102 then Inr (I_Fnegate (ops ! 0) (ops ! 1) (ops ! 2))
      else if opcode = 103 then Inr (I_MakeFun ops)
      else if opcode = 104 then Inr (I_Try (ops ! 0) (ops ! 1))
      else if opcode = 105 then Inr (I_TryEnd (ops ! 0))
      else if opcode = 106 then Inr (I_TryCase (ops ! 0))
      else if opcode = 107 then Inr (I_TryCaseEnd (ops ! 0))
      else if opcode = 108 then Inr (I_Raise (ops ! 0) (ops ! 1))
      else if opcode = 112 then Inr (I_Apply (ops ! 0))
      else if opcode = 113 then Inr (I_ApplyLast (ops ! 0) (ops ! 1))
      else if opcode = 114 then Inr (type_test IsBoolean ops)
      else if opcode = 115 then Inr (I_TypeTest IsFunction2 (ops ! 0) (OpList [ops ! 1, ops ! 2]))
      else if opcode = 117 then Inr (binary_op BsGetInteger2 ops)
      else if opcode = 118 then Inr (binary_op BsGetFloat2 ops)
      else if opcode = 119 then Inr (binary_op BsGetBinary2 ops)
      else if opcode = 120 then Inr (binary_op BsSkipBits2 ops)
      else if opcode = 121 then Inr (binary_op BsTestTail2 ops)
      else if opcode = 124 then Inr (I_Bif GcBif1 ops)
      else if opcode = 125 then Inr (I_Bif GcBif2 ops)
      else assemble_high opcode ops)"

definition assemble :: "u8 \<Rightarrow> Operand list \<Rightarrow> DecodeMessage + Instruction" where
  "assemble opcode ops =
     (if opcode = 1 then map_sum id I_Label (expect_u32 (ops ! 0))
      else if opcode = 2 then Inr (I_FuncInfo (ops ! 0) (ops ! 1) (ops ! 2))
      else if opcode = 4 then Inr (I_Call (ops ! 0) (ops ! 1))
      else if opcode = 5 then Inr (I_CallLast (ops ! 0) (ops ! 1) (ops ! 2))
      else if opcode = 6 then Inr (I_CallOnly (ops ! 0) (ops ! 1))
      else if opcode = 7 then Inr (I_CallExt (ops ! 0) (ops ! 1))
      else if opcode = 8 then Inr (I_CallExtLast (ops ! 0) (ops ! 1) (ops ! 2))
      else if opcode = 9 then Inr (I_Bif Bif0 ops)
      else if opcode = 10 then Inr (I_Bif Bif1 ops)
      else if opcode = 11 then Inr (I_Bif Bif2 ops)
      else if opcode = 12 then Inr (I_Allocate (ops ! 0) (ops ! 1))
      else if opcode = 13 then Inr (I_AllocateHeap (ops ! 0) (ops ! 1) (ops ! 2))
      else if opcode = 14 then Inr (I_AllocateZero (ops ! 0) (ops ! 1))
      else if opcode = 16 then Inr (I_TestHeap (ops ! 0) (ops ! 1))
      else if opcode = 18 then Inr (I_Deallocate (ops ! 0))
      else if opcode = 19 then Inr (I_Return)
      else if opcode = 20 then Inr (I_Send)
      else if opcode = 21 then Inr (I_RemoveMessage)
      else if opcode = 22 then Inr (I_Timeout)
      else if opcode = 23 then Inr (I_LoopRec (ops ! 0) (ops ! 1))
      else if opcode = 24 then Inr (I_LoopRecEnd (ops ! 0))
      else if opcode = 25 then Inr (I_Wait (ops ! 0))
      else if opcode = 26 then Inr (I_WaitTimeout (ops ! 0) (ops ! 1))
      else if opcode = 39 then Inr (comparison CmpLt ops)
      else if opcode = 40 then Inr (comparison CmpGe ops)
      else if opcode = 41 then Inr (comparison CmpEq ops)
      else if opcode = 42 then Inr (comparison CmpNe ops)
      else if opcode = 43 then Inr (comparison CmpEqExact ops)
      else if opcode = 44 then Inr (comparison CmpNeExact ops)
      else if opcode = 45 then Inr (type_test IsInteger ops)
      else if opcode = 46 then Inr (type_test IsFloat ops)
      else if opcode = 47 then Inr (type_test IsNumber ops)
      else if opcode = 48 then Inr (type_test IsAtom ops)
      else if opcode = 49 then Inr (type_test IsPid ops)
      else if opcode = 50 then Inr (type_test IsReference ops)
      else if opcode = 51 then Inr (type_test IsPort ops)
      else if opcode = 52 then Inr (type_test IsNil ops)
      else if opcode = 53 then Inr (type_test IsBinary ops)
      else if opcode = 55 then Inr (type_test IsList ops)
      else if opcode = 56 then Inr (type_test IsNonemptyList ops)
      else if opcode = 57 then Inr (type_test IsTuple ops)
      else if opcode = 58 then Inr (I_TestArity (ops ! 0) (ops ! 1) (ops ! 2))
      else if opcode = 59 then Inr (I_SelectVal (ops ! 0) (ops ! 1) (ops ! 2))
      else if opcode = 60 then Inr (I_SelectTupleArity (ops ! 0) (ops ! 1) (ops ! 2))
      else if opcode = 61 then Inr (I_Jump (ops ! 0))
      else assemble_mid opcode ops)"

definition read_instr_operands :: "nat \<Rightarrow> CompactDecoder \<Rightarrow> DecodeMessage option + Operand list \<times> CompactDecoder" where
  "read_instr_operands arity d = read_operands (Suc (remaining d)) arity d"

definition decode_instruction :: "u8 \<Rightarrow> CompactDecoder \<Rightarrow> DecodeMessage option + Instruction \<times> CompactDecoder" where
  "decode_instruction opcode d =
     result_bind (fuelled (opcode_arity opcode)) (\<lambda>arity.
     result_bind (read_instr_operands arity d) (\<lambda>(ops, d).
     result_bind (fuelled (assemble opcode ops)) (\<lambda>instruction. Inr (instruction, d))))"

section \<open>Encoder\<close>

primrec comparison_opcode :: "ComparisonOp \<Rightarrow> u8" where
  "comparison_opcode CmpLt = 39"
| "comparison_opcode CmpGe = 40"
| "comparison_opcode CmpEq = 41"
| "comparison_opcode CmpNe = 42"
| "comparison_opcode CmpEqExact = 43"
| "comparison_opcode CmpNeExact = 44"

primrec type_test_opcode :: "TypeTestOp \<Rightarrow> u8" where
  "type_test_opcode IsInteger = 45"
| "type_test_opcode IsFloat = 46"
| "type_test_opcode IsNumber = 47"
| "type_test_opcode IsAtom = 48"
| "type_test_opcode IsPid = 49"
| "type_test_opcode IsReference = 50"
| "type_test_opcode IsPort = 51"
| "type_test_opcode IsNil = 52"
| "type_test_opcode IsBinary = 53"
| "type_test_opcode IsList = 55"
| "type_test_opcode IsNonemptyList = 56"
| "type_test_opcode IsTuple = 57"
| "type_test_opcode IsFunction = 77"
| "type_test_opcode IsBoolean = 114"
| "type_test_opcode IsFunction2 = 115"
| "type_test_opcode IsBitstr = 129"
| "type_test_opcode IsMap = 156"

primrec bif_opcode :: "BifOp \<Rightarrow> u8" where
  "bif_opcode Bif0 = 9"
| "bif_opcode Bif1 = 10"
| "bif_opcode Bif2 = 11"
| "bif_opcode GcBif1 = 124"
| "bif_opcode GcBif2 = 125"
| "bif_opcode GcBif3 = 152"

primrec binary_opcode :: "BinaryOp \<Rightarrow> u8" where
  "binary_opcode BsGetInteger2 = 117"
| "binary_opcode BsGetFloat2 = 118"
| "binary_opcode BsGetBinary2 = 119"
| "binary_opcode BsSkipBits2 = 120"
| "binary_opcode BsTestTail2 = 121"
| "binary_opcode BsTestUnit = 131"
| "binary_opcode BsMatchString = 132"
| "binary_opcode BsInitWritable = 133"
| "binary_opcode BsGetUtf8 = 138"
| "binary_opcode BsSkipUtf8 = 139"
| "binary_opcode BsGetUtf16 = 140"
| "binary_opcode BsSkipUtf16 = 141"
| "binary_opcode BsGetUtf32 = 142"
| "binary_opcode BsSkipUtf32 = 143"
| "binary_opcode BsGetTail = 165"
| "binary_opcode BsStartMatch3 = 166"
| "binary_opcode BsGetPosition = 167"
| "binary_opcode BsSetPosition = 168"
| "binary_opcode BsStartMatch4 = 170"
| "binary_opcode BsCreateBin = 177"
| "binary_opcode BsMatch = 182"

primrec map_opcode :: "MapOp \<Rightarrow> u8" where
  "map_opcode PutMapAssoc = 154"
| "map_opcode PutMapExact = 155"
| "map_opcode HasMapFields = 157"
| "map_opcode GetMapElements = 158"

primrec instruction_opcode :: "Instruction \<Rightarrow> EncodeError + u8" where
  "instruction_opcode (I_Label x1) = Inr 1"
| "instruction_opcode (I_FuncInfo x1 x2 x3) = Inr 2"
| "instruction_opcode (I_Move x1 x2) = Inr 64"
| "instruction_opcode (I_Call x1 x2) = Inr 4"
| "instruction_opcode (I_CallOnly x1 x2) = Inr 6"
| "instruction_opcode (I_CallExt x1 x2) = Inr 7"
| "instruction_opcode (I_CallExtOnly x1 x2) = Inr 78"
| "instruction_opcode (I_Fmove x1 x2) = Inr 96"
| "instruction_opcode (I_Fconv x1 x2) = Inr 97"
| "instruction_opcode (I_Fadd x1 x2 x3 x4) = Inr 98"
| "instruction_opcode (I_Fsub x1 x2 x3 x4) = Inr 99"
| "instruction_opcode (I_Fmul x1 x2 x3 x4) = Inr 100"
| "instruction_opcode (I_Fdiv x1 x2 x3 x4) = Inr 101"
| "instruction_opcode (I_Fnegate x1 x2 x3) = Inr 102"
| "instruction_opcode (I_CallLast x1 x2 x3) = Inr 5"
| "instruction_opcode (I_CallExtLast x1 x2 x3) = Inr 8"
| "instruction_opcode I_Return = Inr 19"
| "instruction_opcode (I_Allocate x1 x2) = Inr 12"
| "instruction_opcode (I_AllocateHeap x1 x2 x3) = Inr 13"
| "instruction_opcode (I_AllocateZero x1 x2) = Inr 14"
| "instruction_opcode (I_Deallocate x1) = Inr 18"
| "instruction_opcode (I_TestHeap x1 x2) = Inr 16"
| "instruction_opcode (I_PutList x1 x2 x3) = Inr 69"
| "instruction_opcode (I_PutTuple2 x1 x2) = Inr 164"
| "instruction_opcode (I_GetTupleElement x1 x2 x3) = Inr 66"
| "instruction_opcode (I_GetList x1 x2 x3) = Inr 65"
| "instruction_opcode (I_GetHd x1 x2) = Inr 162"
| "instruction_opcode (I_GetTl x1 x2) = Inr 163"
| "instruction_opcode (I_TypeTest x1 x2 x3) = Inr (type_test_opcode x1)"
| "instruction_opcode (I_Comparison x1 x2 x3 x4) = Inr (comparison_opcode x1)"
| "instruction_opcode (I_TestArity x1 x2 x3) = Inr 58"
| "instruction_opcode (I_IsTaggedTuple x1 x2 x3 x4) = Inr 159"
| "instruction_opcode (I_SelectVal x1 x2 x3) = Inr 59"
| "instruction_opcode (I_SelectTupleArity x1 x2 x3) = Inr 60"
| "instruction_opcode (I_Jump x1) = Inr 61"
| "instruction_opcode (I_Bif x1 x2) = Inr (bif_opcode x1)"
| "instruction_opcode I_Send = Inr 20"
| "instruction_opcode I_RemoveMessage = Inr 21"
| "instruction_opcode I_Timeout = Inr 22"
| "instruction_opcode (I_LoopRec x1 x2) = Inr 23"
| "instruction_opcode (I_LoopRecEnd x1) = Inr 24"
| "instruction_opcode (I_Wait x1) = Inr 25"
| "instruction_opcode (I_WaitTimeout x1 x2) = Inr 26"
| "instruction_opcode (I_RecvMarkerReserve x1) = Inr 175"
| "instruction_opcode (I_RecvMarkerBind x1 x2) = Inr 173"
| "instruction_opcode (I_RecvMarkerClear x1) = Inr 174"
| "instruction_opcode (I_RecvMarkerUse x1) = Inr 176"
| "instruction_opcode (I_Catch x1 x2) = Inr 62"
| "instruction_opcode (I_CatchEnd x1) = Inr 63"
| "instruction_opcode (I_Try x1 x2) = Inr 104"
| "instruction_opcode (I_TryEnd x1) = Inr 105"
| "instruction_opcode (I_TryCase x1) = Inr 106"
| "instruction_opcode (I_TryCaseEnd x1) = Inr 107"
| "instruction_opcode (I_BinaryOp x1 x2) = Inr (binary_opcode x1)"
| "instruction_opcode (I_MapOp x1 x2) = Inr (map_opcode x1)"
| "instruction_opcode (I_MakeFun x1) =
     (if length x1 = 1 then Inr 103 else if length x1 = 3 then Inr 171 else Inl UnsupportedInstruction)"
| "instruction_opcode (I_CallFun x1) = Inr 75"
| "instruction_opcode (I_CallFun2 x1 x2 x3) = Inr 178"
| "instruction_opcode (I_Apply x1) = Inr 112"
| "instruction_opcode (I_ApplyLast x1 x2) = Inr 113"
| "instruction_opcode (I_Badmatch x1) = Inr 72"
| "instruction_opcode (I_Badrecord x1) = Inr 180"
| "instruction_opcode (I_CaseEnd x1) = Inr 74"
| "instruction_opcode I_IfEnd = Inr 73"
| "instruction_opcode (I_Raise x1 x2) = Inr 108"
| "instruction_opcode I_RawRaise = Inr 161"
| "instruction_opcode (I_Line x1) = Inr 153"
| "instruction_opcode (I_Trim x1 x2) = Inr 136"
| "instruction_opcode I_OnLoad = Inr 149"
| "instruction_opcode I_BuildStacktrace = Inr 160"
| "instruction_opcode (I_Swap x1 x2) = Inr 169"
| "instruction_opcode (I_InitYregs x1) = Inr 172"
| "instruction_opcode I_NifStart = Inr 179"
| "instruction_opcode (I_UpdateRecord x1) = Inr 181"
| "instruction_opcode (I_Generic x1 x2 x3) = Inr x1"

fun emit :: "AtomEncoder \<Rightarrow> Operand list \<Rightarrow> EncodeError + u8 list" where
  "emit enc [] = Inr []"
| "emit enc (operand # tl_ops) =
     result_bind (encode_operand enc operand) (\<lambda>bs.
     result_bind (emit enc tl_ops) (\<lambda>bs'. Inr (bs @ bs')))"

primrec encode_instr_operands :: "AtomEncoder \<Rightarrow> Instruction \<Rightarrow> EncodeError + u8 list" where
  "encode_instr_operands enc (I_Label x1) = Inr (push_unsigned 0 (ucast x1))"
| "encode_instr_operands enc (I_FuncInfo x1 x2 x3) = emit enc [x1, x2, x3]"
| "encode_instr_operands enc (I_Move x1 x2) = emit enc [x1, x2]"
| "encode_instr_operands enc (I_Call x1 x2) = emit enc [x1, x2]"
| "encode_instr_operands enc (I_CallOnly x1 x2) = emit enc [x1, x2]"
| "encode_instr_operands enc (I_CallExt x1 x2) = emit enc [x1, x2]"
| "encode_instr_operands enc (I_CallExtOnly x1 x2) = emit enc [x1, x2]"
| "encode_instr_operands enc (I_Fmove x1 x2) = emit enc [x1, x2]"
| "encode_instr_operands enc (I_Fconv x1 x2) = emit enc [x1, x2]"
| "encode_instr_operands enc (I_Fadd x1 x2 x3 x4) = emit enc [x1, x2, x3, x4]"
| "encode_instr_operands enc (I_Fsub x1 x2 x3 x4) = emit enc [x1, x2, x3, x4]"
| "encode_instr_operands enc (I_Fmul x1 x2 x3 x4) = emit enc [x1, x2, x3, x4]"
| "encode_instr_operands enc (I_Fdiv x1 x2 x3 x4) = emit enc [x1, x2, x3, x4]"
| "encode_instr_operands enc (I_Fnegate x1 x2 x3) = emit enc [x1, x2, x3]"
| "encode_instr_operands enc (I_CallLast x1 x2 x3) = emit enc [x1, x2, x3]"
| "encode_instr_operands enc (I_CallExtLast x1 x2 x3) = emit enc [x1, x2, x3]"
| "encode_instr_operands enc I_Return = Inr []"
| "encode_instr_operands enc (I_Allocate x1 x2) = emit enc [x1, x2]"
| "encode_instr_operands enc (I_AllocateHeap x1 x2 x3) = emit enc [x1, x2, x3]"
| "encode_instr_operands enc (I_AllocateZero x1 x2) = emit enc [x1, x2]"
| "encode_instr_operands enc (I_Deallocate x1) = emit enc [x1]"
| "encode_instr_operands enc (I_TestHeap x1 x2) = emit enc [x1, x2]"
| "encode_instr_operands enc (I_PutList x1 x2 x3) = emit enc [x1, x2, x3]"
| "encode_instr_operands enc (I_PutTuple2 x1 x2) = emit enc [x1, x2]"
| "encode_instr_operands enc (I_GetTupleElement x1 x2 x3) = emit enc [x1, x2, x3]"
| "encode_instr_operands enc (I_GetList x1 x2 x3) = emit enc [x1, x2, x3]"
| "encode_instr_operands enc (I_GetHd x1 x2) = emit enc [x1, x2]"
| "encode_instr_operands enc (I_GetTl x1 x2) = emit enc [x1, x2]"
| "encode_instr_operands enc (I_TypeTest x1 x2 x3) =
     (if x1 = IsFunction2 then
        (case x3 of
           OpList pair \<Rightarrow>
             if length pair \<noteq> 2 then Inl UnsupportedInstruction
             else emit enc [x2, pair ! 0, pair ! 1]
         | _ \<Rightarrow> Inl UnsupportedInstruction)
      else emit enc [x2, x3])"
| "encode_instr_operands enc (I_Comparison x1 x2 x3 x4) = emit enc [x2, x3, x4]"
| "encode_instr_operands enc (I_TestArity x1 x2 x3) = emit enc [x1, x2, x3]"
| "encode_instr_operands enc (I_IsTaggedTuple x1 x2 x3 x4) = emit enc [x1, x2, x3, x4]"
| "encode_instr_operands enc (I_SelectVal x1 x2 x3) = emit enc [x1, x2, x3]"
| "encode_instr_operands enc (I_SelectTupleArity x1 x2 x3) = emit enc [x1, x2, x3]"
| "encode_instr_operands enc (I_Jump x1) = emit enc [x1]"
| "encode_instr_operands enc (I_Bif x1 x2) = emit enc x2"
| "encode_instr_operands enc I_Send = Inr []"
| "encode_instr_operands enc I_RemoveMessage = Inr []"
| "encode_instr_operands enc I_Timeout = Inr []"
| "encode_instr_operands enc (I_LoopRec x1 x2) = emit enc [x1, x2]"
| "encode_instr_operands enc (I_LoopRecEnd x1) = emit enc [x1]"
| "encode_instr_operands enc (I_Wait x1) = emit enc [x1]"
| "encode_instr_operands enc (I_WaitTimeout x1 x2) = emit enc [x1, x2]"
| "encode_instr_operands enc (I_RecvMarkerReserve x1) = emit enc [x1]"
| "encode_instr_operands enc (I_RecvMarkerBind x1 x2) = emit enc [x1, x2]"
| "encode_instr_operands enc (I_RecvMarkerClear x1) = emit enc [x1]"
| "encode_instr_operands enc (I_RecvMarkerUse x1) = emit enc [x1]"
| "encode_instr_operands enc (I_Catch x1 x2) = emit enc [x1, x2]"
| "encode_instr_operands enc (I_CatchEnd x1) = emit enc [x1]"
| "encode_instr_operands enc (I_Try x1 x2) = emit enc [x1, x2]"
| "encode_instr_operands enc (I_TryEnd x1) = emit enc [x1]"
| "encode_instr_operands enc (I_TryCase x1) = emit enc [x1]"
| "encode_instr_operands enc (I_TryCaseEnd x1) = emit enc [x1]"
| "encode_instr_operands enc (I_BinaryOp x1 x2) = emit enc x2"
| "encode_instr_operands enc (I_MapOp x1 x2) = emit enc x2"
| "encode_instr_operands enc (I_MakeFun x1) = emit enc x1"
| "encode_instr_operands enc (I_CallFun x1) = emit enc [x1]"
| "encode_instr_operands enc (I_CallFun2 x1 x2 x3) = emit enc [x1, x2, x3]"
| "encode_instr_operands enc (I_Apply x1) = emit enc [x1]"
| "encode_instr_operands enc (I_ApplyLast x1 x2) = emit enc [x1, x2]"
| "encode_instr_operands enc (I_Badmatch x1) = emit enc [x1]"
| "encode_instr_operands enc (I_Badrecord x1) = emit enc [x1]"
| "encode_instr_operands enc (I_CaseEnd x1) = emit enc [x1]"
| "encode_instr_operands enc I_IfEnd = Inr []"
| "encode_instr_operands enc (I_Raise x1 x2) = emit enc [x1, x2]"
| "encode_instr_operands enc I_RawRaise = Inr []"
| "encode_instr_operands enc (I_Line x1) = emit enc [x1]"
| "encode_instr_operands enc (I_Trim x1 x2) = emit enc [x1, x2]"
| "encode_instr_operands enc I_OnLoad = Inr []"
| "encode_instr_operands enc I_BuildStacktrace = Inr []"
| "encode_instr_operands enc (I_Swap x1 x2) = emit enc [x1, x2]"
| "encode_instr_operands enc (I_InitYregs x1) = emit enc [x1]"
| "encode_instr_operands enc I_NifStart = Inr []"
| "encode_instr_operands enc (I_UpdateRecord x1) = emit enc x1"
| "encode_instr_operands enc (I_Generic x1 x2 x3) = emit enc x3"

definition encode_instruction :: "AtomEncoder \<Rightarrow> Instruction \<Rightarrow> EncodeError + u8 list" where
  "encode_instruction enc instruction =
     result_bind (instruction_opcode instruction) (\<lambda>opcode.
     result_bind (encode_instr_operands enc instruction) (\<lambda>bs. Inr (opcode # bs)))"

section \<open>Code chunk\<close>

text \<open>The partial opcode map that the decoder uses for its \<open>opcode_max\<close> check.\<close>

definition checked_opcode :: "Instruction \<Rightarrow> u8 option" where
  "checked_opcode instruction = (case instruction of
     I_Label _ \<Rightarrow> Some 1 | I_FuncInfo _ _ _ \<Rightarrow> Some 2 | I_Call _ _ \<Rightarrow> Some 4
   | I_CallLast _ _ _ \<Rightarrow> Some 5 | I_CallOnly _ _ \<Rightarrow> Some 6 | I_CallExt _ _ \<Rightarrow> Some 7
   | I_CallExtLast _ _ _ \<Rightarrow> Some 8 | I_CallExtOnly _ _ \<Rightarrow> Some 78 | I_Fmove _ _ \<Rightarrow> Some 96
   | I_Fconv _ _ \<Rightarrow> Some 97 | I_Fadd _ _ _ _ \<Rightarrow> Some 98 | I_Fsub _ _ _ _ \<Rightarrow> Some 99
   | I_Fmul _ _ _ _ \<Rightarrow> Some 100 | I_Fdiv _ _ _ _ \<Rightarrow> Some 101 | I_Fnegate _ _ _ \<Rightarrow> Some 102
   | I_RecvMarkerBind _ _ \<Rightarrow> Some 173 | I_RecvMarkerClear _ \<Rightarrow> Some 174
   | I_RecvMarkerReserve _ \<Rightarrow> Some 175 | I_RecvMarkerUse _ \<Rightarrow> Some 176
   | I_IsTaggedTuple _ _ _ _ \<Rightarrow> Some 159 | I_Generic opcode _ _ \<Rightarrow> Some opcode
   | _ \<Rightarrow> None)"

lemma decode_instruction_progress:
  "decode_instruction opcode d = Inr (i, d') \<Longrightarrow> remaining d' \<le> remaining d"
  by (auto simp: decode_instruction_def read_instr_operands_def result_bind_eq_Inr_conv dest: read_progress(3))

text \<open>
  The instruction loop; \<open>Inl None\<close> never arises (\<open>decode_loop_total\<close>), because every operand
  read has enough fuel.
\<close>

function decode_loop :: "CompactDecoder \<Rightarrow> DecodeMessage option + Instruction list \<times> CompactDecoder" where
  "decode_loop d =
     (if decoder_is_empty d then Inr ([], d)
      else case read_byte d of
          Inl e \<Rightarrow> Inl (Some e)
        | Inr (opcode, d1) \<Rightarrow>
            if opcode = 3 then Inr ([], d1)
            else case decode_instruction opcode d1 of
                Inl e \<Rightarrow> Inl e
              | Inr (instruction, d2) \<Rightarrow>
                  (case decode_loop d2 of
                     Inl e \<Rightarrow> Inl e
                   | Inr (instructions, d3) \<Rightarrow> Inr (instruction # instructions, d3)))"
  by auto
termination
  by (relation "measure remaining") (auto dest!: read_byte_progress decode_instruction_progress)

declare decode_loop.simps [simp del]

definition decode_instructions ::
  "u8 list \<Rightarrow> u32 list \<Rightarrow> Literal list \<Rightarrow> DecodeMessage option + Instruction list \<times> Literal list" where
  "decode_instructions code_bytes atoms literals =
     result_bind (decode_loop (compact_decoder_new code_bytes atoms literals)) (\<lambda>(instructions, d).
       Inr (instructions, fst (take_extra_literals d)))"

text \<open>\<open>u32::from_be_bytes\<close> of four bytes at an offset, and its inverse.\<close>

definition u32_from_be :: "u8 list \<Rightarrow> u32" where
  "u32_from_be bs = word_of_nat (bytes_le_val (rev bs))"

definition u32_to_be :: "u32 \<Rightarrow> u8 list" where
  "u32_to_be w = rev (map (\<lambda>i. ucast (drop_bit (8 * i) w)) [0..<4])"

definition read_u32 :: "u8 list \<Rightarrow> nat \<Rightarrow> DecodeMessage + u32" where
  "read_u32 bytes offset =
     (if offset + 4 \<le> length bytes then Inr (u32_from_be (take 4 (drop offset bytes)))
      else Inl CodeHeaderTruncated)"

fun check_labels :: "u32 \<Rightarrow> Instruction list \<Rightarrow> DecodeMessage + unit" where
  "check_labels label_count [] = Inr ()"
| "check_labels label_count (instruction # later) =
     (case instruction of
        I_Label label \<Rightarrow>
          if label > label_count then Inl (LabelExceedsCount label label_count)
          else check_labels label_count later
      | _ \<Rightarrow> check_labels label_count later)"

definition max_opcode :: "Instruction list \<Rightarrow> u8 option" where
  "max_opcode instructions =
     (case List.map_filter checked_opcode instructions of
        [] \<Rightarrow> None
      | x # xs \<Rightarrow> Some (fold max xs x))"

definition decode_code_chunk ::
  "u8 list \<Rightarrow> u32 list \<Rightarrow> Literal list \<Rightarrow> DecodeMessage option + Instruction list \<times> Literal list" where
  "decode_code_chunk bytes atoms literals =
     (if length bytes < 20 then Inl (Some CodeHeaderTruncated)
      else
        result_bind (fuelled (read_u32 bytes 0)) (\<lambda>sub_size.
        result_bind (fuelled (read_u32 bytes 4)) (\<lambda>instruction_set.
        result_bind (fuelled (read_u32 bytes 8)) (\<lambda>opcode_max.
        result_bind (fuelled (read_u32 bytes 12)) (\<lambda>label_count.
        result_bind (fuelled (read_u32 bytes 16)) (\<lambda>_.
          if sub_size \<noteq> 16 then Inl (Some (UnsupportedSubSize sub_size))
          else if instruction_set \<noteq> 0 then Inl (Some (UnsupportedInstructionSet instruction_set))
          else
            result_bind (decode_instructions (drop 20 bytes) atoms literals) (\<lambda>(instructions, extra).
            result_bind (fuelled (check_labels label_count instructions)) (\<lambda>_.
              case max_opcode instructions of
                Some max_seen \<Rightarrow>
                  if ucast max_seen > opcode_max then Inl (Some (OpcodeExceedsMax max_seen opcode_max))
                  else Inr (instructions, extra)
              | None \<Rightarrow> Inr (instructions, extra)))))))))"

fun at_instruction :: "nat \<Rightarrow> EncodeError \<Rightarrow> EncodeError" where
  "at_instruction index (TypedRegisterWithoutTypeChunk _ type_index) =
     TypedRegisterWithoutTypeChunk (Some index) type_index"
| "at_instruction index e = e"

record CodeHeader =
  hdr_opcode_max :: u32
  hdr_label_count :: u32
  hdr_function_count :: u32

fun encode_body ::
  "AtomEncoder \<Rightarrow> nat \<Rightarrow> Instruction list \<Rightarrow> CodeHeader \<times> u8 list \<Rightarrow> EncodeError + CodeHeader \<times> u8 list" where
  "encode_body enc index [] st = Inr st"
| "encode_body enc index (instruction # later) (hdr, body) =
     result_bind (instruction_opcode instruction) (\<lambda>opcode.
       let hdr = hdr\<lparr>hdr_opcode_max := max (hdr_opcode_max hdr) (ucast opcode)\<rparr>;
           hdr = (case instruction of
                    I_Label label \<Rightarrow> hdr\<lparr>hdr_label_count := max (hdr_label_count hdr) label\<rparr>
                  | I_FuncInfo _ _ _ \<Rightarrow> hdr\<lparr>hdr_function_count := hdr_function_count hdr + 1\<rparr>
                  | _ \<Rightarrow> hdr)
       in case encode_instruction enc instruction of
            Inl e \<Rightarrow> Inl (at_instruction index e)
          | Inr bs \<Rightarrow> encode_body enc (index + 1) later (hdr, body @ bs))"

definition encode_code_chunk :: "AtomEncoder \<Rightarrow> Instruction list \<Rightarrow> EncodeError + u8 list" where
  "encode_code_chunk enc instructions =
     result_bind (encode_body enc 0 instructions
         (\<lparr>hdr_opcode_max = 0, hdr_label_count = 0, hdr_function_count = 0\<rparr>, [])) (\<lambda>(hdr, body).
       Inr (u32_to_be 16 @ u32_to_be 0 @ u32_to_be (hdr_opcode_max hdr) @
         u32_to_be (hdr_label_count hdr) @ u32_to_be (hdr_function_count hdr) @ body))"

end
