(* ===== verification/Code_Roundtrip.thy ===== *)
theory Code_Roundtrip
  imports Code_Codec
begin

text \<open>
  Correctness of the instruction and \<open>Code\<close> chunk codec. \<open>wire_operands\<close> is the operand list of an
  instruction on the wire and \<open>wire_ok\<close> the shapes that exist there (the operand counts of the
  opcode table, the passthrough opcodes with their names). Every such instruction survives
  encoding and decoding, and so does a whole chunk with its derived header.
\<close>

section \<open>Shapes\<close>

primrec wire_operands :: "Instruction \<Rightarrow> Operand list" where
  "wire_operands (I_Label x1) = [OpUnsigned (ucast x1)]"
| "wire_operands (I_FuncInfo x1 x2 x3) = [x1, x2, x3]"
| "wire_operands (I_Move x1 x2) = [x1, x2]"
| "wire_operands (I_Call x1 x2) = [x1, x2]"
| "wire_operands (I_CallOnly x1 x2) = [x1, x2]"
| "wire_operands (I_CallExt x1 x2) = [x1, x2]"
| "wire_operands (I_CallExtOnly x1 x2) = [x1, x2]"
| "wire_operands (I_Fmove x1 x2) = [x1, x2]"
| "wire_operands (I_Fconv x1 x2) = [x1, x2]"
| "wire_operands (I_Fadd x1 x2 x3 x4) = [x1, x2, x3, x4]"
| "wire_operands (I_Fsub x1 x2 x3 x4) = [x1, x2, x3, x4]"
| "wire_operands (I_Fmul x1 x2 x3 x4) = [x1, x2, x3, x4]"
| "wire_operands (I_Fdiv x1 x2 x3 x4) = [x1, x2, x3, x4]"
| "wire_operands (I_Fnegate x1 x2 x3) = [x1, x2, x3]"
| "wire_operands (I_CallLast x1 x2 x3) = [x1, x2, x3]"
| "wire_operands (I_CallExtLast x1 x2 x3) = [x1, x2, x3]"
| "wire_operands I_Return = []"
| "wire_operands (I_Allocate x1 x2) = [x1, x2]"
| "wire_operands (I_AllocateHeap x1 x2 x3) = [x1, x2, x3]"
| "wire_operands (I_AllocateZero x1 x2) = [x1, x2]"
| "wire_operands (I_Deallocate x1) = [x1]"
| "wire_operands (I_TestHeap x1 x2) = [x1, x2]"
| "wire_operands (I_PutList x1 x2 x3) = [x1, x2, x3]"
| "wire_operands (I_PutTuple2 x1 x2) = [x1, x2]"
| "wire_operands (I_GetTupleElement x1 x2 x3) = [x1, x2, x3]"
| "wire_operands (I_GetList x1 x2 x3) = [x1, x2, x3]"
| "wire_operands (I_GetHd x1 x2) = [x1, x2]"
| "wire_operands (I_GetTl x1 x2) = [x1, x2]"
| "wire_operands (I_TypeTest x1 x2 x3) =
     (if x1 = IsFunction2 then (case x3 of OpList pair \<Rightarrow> x2 # pair | _ \<Rightarrow> []) else [x2, x3])"
| "wire_operands (I_Comparison x1 x2 x3 x4) = [x2, x3, x4]"
| "wire_operands (I_TestArity x1 x2 x3) = [x1, x2, x3]"
| "wire_operands (I_IsTaggedTuple x1 x2 x3 x4) = [x1, x2, x3, x4]"
| "wire_operands (I_SelectVal x1 x2 x3) = [x1, x2, x3]"
| "wire_operands (I_SelectTupleArity x1 x2 x3) = [x1, x2, x3]"
| "wire_operands (I_Jump x1) = [x1]"
| "wire_operands (I_Bif x1 x2) = x2"
| "wire_operands I_Send = []"
| "wire_operands I_RemoveMessage = []"
| "wire_operands I_Timeout = []"
| "wire_operands (I_LoopRec x1 x2) = [x1, x2]"
| "wire_operands (I_LoopRecEnd x1) = [x1]"
| "wire_operands (I_Wait x1) = [x1]"
| "wire_operands (I_WaitTimeout x1 x2) = [x1, x2]"
| "wire_operands (I_RecvMarkerReserve x1) = [x1]"
| "wire_operands (I_RecvMarkerBind x1 x2) = [x1, x2]"
| "wire_operands (I_RecvMarkerClear x1) = [x1]"
| "wire_operands (I_RecvMarkerUse x1) = [x1]"
| "wire_operands (I_Catch x1 x2) = [x1, x2]"
| "wire_operands (I_CatchEnd x1) = [x1]"
| "wire_operands (I_Try x1 x2) = [x1, x2]"
| "wire_operands (I_TryEnd x1) = [x1]"
| "wire_operands (I_TryCase x1) = [x1]"
| "wire_operands (I_TryCaseEnd x1) = [x1]"
| "wire_operands (I_BinaryOp x1 x2) = x2"
| "wire_operands (I_MapOp x1 x2) = x2"
| "wire_operands (I_MakeFun x1) = x1"
| "wire_operands (I_CallFun x1) = [x1]"
| "wire_operands (I_CallFun2 x1 x2 x3) = [x1, x2, x3]"
| "wire_operands (I_Apply x1) = [x1]"
| "wire_operands (I_ApplyLast x1 x2) = [x1, x2]"
| "wire_operands (I_Badmatch x1) = [x1]"
| "wire_operands (I_Badrecord x1) = [x1]"
| "wire_operands (I_CaseEnd x1) = [x1]"
| "wire_operands I_IfEnd = []"
| "wire_operands (I_Raise x1 x2) = [x1, x2]"
| "wire_operands I_RawRaise = []"
| "wire_operands (I_Line x1) = [x1]"
| "wire_operands (I_Trim x1 x2) = [x1, x2]"
| "wire_operands I_OnLoad = []"
| "wire_operands I_BuildStacktrace = []"
| "wire_operands (I_Swap x1 x2) = [x1, x2]"
| "wire_operands (I_InitYregs x1) = [x1]"
| "wire_operands I_NifStart = []"
| "wire_operands (I_UpdateRecord x1) = x1"
| "wire_operands (I_Generic x1 x2 x3) = x3"

definition wire_ok :: "Instruction \<Rightarrow> bool" where
  "wire_ok i = (case i of
     I_Bif op ops \<Rightarrow> opcode_arity (bif_opcode op) = Inr (length ops)
   | I_BinaryOp op ops \<Rightarrow> opcode_arity (binary_opcode op) = Inr (length ops)
   | I_MapOp op ops \<Rightarrow> opcode_arity (map_opcode op) = Inr (length ops)
   | I_MakeFun ops \<Rightarrow> length ops = 1 \<or> length ops = 3
   | I_UpdateRecord ops \<Rightarrow> length ops = 5
   | I_Generic opcode name ops \<Rightarrow>
       opcode = 67 \<and> name = ''set_tuple_element'' \<and> length ops = 3 \<or>
       opcode = 183 \<and> name = ''executable_line'' \<and> length ops = 2 \<or>
       opcode = 184 \<and> name = ''debug_line'' \<and> length ops = 4
   | I_TypeTest op _ v \<Rightarrow> op = IsFunction2 \<longrightarrow> (case v of OpList pair \<Rightarrow> length pair = 2 | _ \<Rightarrow> False)
   | _ \<Rightarrow> True)"

lemma length_2_nth: "length pair = 2 \<Longrightarrow> [pair ! 0, pair ! Suc 0] = pair"
  by (cases pair; cases "tl pair") auto

lemmas assemble_defs = assemble_def assemble_mid_def assemble_high_def comparison_def type_test_def
  binary_op_def map_op_def

lemma emit_unsigned: "emit enc [OpUnsigned v] = Inr (push_unsigned 0 v)"
  by simp

lemma encode_wire_operands:
  "wire_ok i \<Longrightarrow> encode_instr_operands enc i = emit enc (wire_operands i)"
proof (cases i)
  case (I_TypeTest op fail v)
  assume "wire_ok i"
  show ?thesis
  proof (cases "op = IsFunction2")
    case True
    with I_TypeTest \<open>wire_ok i\<close> obtain pair where pair: "v = OpList pair" "length pair = 2"
      by (auto simp: wire_ok_def split: Operand.splits)
    have "emit enc [fail, pair ! 0, pair ! 1] = emit enc (fail # pair)"
      using length_2_nth [OF pair(2)] by (metis One_nat_def)
    with pair True I_TypeTest show ?thesis by (simp del: emit.simps)
  qed (simp add: I_TypeTest)
qed (simp_all add: emit_unsigned)

lemma expect_u32_unsigned: "expect_u32 (OpUnsigned (ucast (l :: u32))) = Inr l"
  using unsigned_less [where ?'a = nat and ?'b = 32, of l] ucast_u32_u64_u32 [of l]
  by (simp add: expect_u32_def unat_ucast_u32)

definition shape_ok :: "Instruction \<Rightarrow> bool" where
  "shape_ok i = (case instruction_opcode i of
     Inl _ \<Rightarrow> False
   | Inr opcode \<Rightarrow> opcode \<noteq> 3 \<and>
       opcode_arity opcode = Inr (length (wire_operands i)) \<and> assemble opcode (wire_operands i) = Inr i)"

lemma shape_okD:
  "shape_ok i \<Longrightarrow> \<exists>opcode. instruction_opcode i = Inr opcode \<and> opcode \<noteq> 3 \<and>
     opcode_arity opcode = Inr (length (wire_operands i)) \<and> assemble opcode (wire_operands i) = Inr i"
  by (auto simp: shape_ok_def split: sum.splits)

lemma shape_TypeTest: "wire_ok (I_TypeTest op fail v) \<Longrightarrow> shape_ok (I_TypeTest op fail v)"
proof (cases "op = IsFunction2")
  case True
  assume "wire_ok (I_TypeTest op fail v)"
  with True obtain a b where "v = OpList [a, b]"
    by (auto simp: wire_ok_def numeral_2_eq_2 length_Suc_conv split: Operand.splits)
  with True show ?thesis by (simp add: shape_ok_def assemble_defs opcode_arity_def Let_def)
next
  case False
  then show ?thesis by (cases op) (simp_all add: shape_ok_def assemble_defs opcode_arity_def Let_def)
qed

lemma shape_Bif: "wire_ok (I_Bif op ops) \<Longrightarrow> shape_ok (I_Bif op ops)"
  by (cases op) (simp_all add: shape_ok_def wire_ok_def assemble_defs)

lemma shape_BinaryOp: "wire_ok (I_BinaryOp op ops) \<Longrightarrow> shape_ok (I_BinaryOp op ops)"
  by (cases op) (simp_all add: shape_ok_def wire_ok_def assemble_defs)

lemma shape_MapOp: "wire_ok (I_MapOp op ops) \<Longrightarrow> shape_ok (I_MapOp op ops)"
  by (cases op) (simp_all add: shape_ok_def wire_ok_def assemble_defs)

lemma shape_Comparison: "shape_ok (I_Comparison op a b c)"
  by (cases op) (simp_all add: shape_ok_def assemble_defs opcode_arity_def Let_def)

lemma shape_MakeFun: "wire_ok (I_MakeFun ops) \<Longrightarrow> shape_ok (I_MakeFun ops)"
  by (cases "length ops = 1")
    (simp_all add: shape_ok_def wire_ok_def assemble_defs opcode_arity_def Let_def)

lemma shape_UpdateRecord: "wire_ok (I_UpdateRecord ops) \<Longrightarrow> shape_ok (I_UpdateRecord ops)"
  by (simp add: shape_ok_def wire_ok_def assemble_defs opcode_arity_def Let_def)

lemma shape_Generic:
  assumes "wire_ok (I_Generic opcode name ops)"
  shows "shape_ok (I_Generic opcode name ops)"
proof -
  consider "opcode = 67" "name = ''set_tuple_element''" "length ops = 3"
    | "opcode = 183" "name = ''executable_line''" "length ops = 2"
    | "opcode = 184" "name = ''debug_line''" "length ops = 4"
    using assms by (auto simp: wire_ok_def)
  then show ?thesis
    by cases (simp_all add: shape_ok_def assemble_defs opcode_arity_def Let_def)
qed

lemmas shape_families = shape_TypeTest shape_Bif shape_BinaryOp shape_MapOp shape_Comparison
  shape_MakeFun shape_UpdateRecord shape_Generic

lemma wire_ok_shape: "wire_ok i \<Longrightarrow> shape_ok i"
  by (cases i)
    (simp_all only: shape_families,
     simp_all add: shape_ok_def assemble_defs opcode_arity_def Let_def expect_u32_unsigned)

section \<open>Instructions\<close>

lemma emit_reads:
  assumes "length atoms < 2 ^ 32" "length lits < 2 ^ 63" "\<forall>op\<in>set ops. operand_ok atoms lits present op"
  shows "\<exists>bss. emit (atom_encoder_new atoms present) ops = Inr (concat bss) \<and> list_all2 (reads atoms lits) bss ops"
  using assms(3)
proof (induction ops)
  case Nil
  then show ?case by (intro exI [of _ "[]"]) simp
next
  case (Cons op ops)
  then obtain bss where "emit (atom_encoder_new atoms present) ops = Inr (concat bss)"
    "list_all2 (reads atoms lits) bss ops" by auto
  moreover obtain bs where "encode_operand (atom_encoder_new atoms present) op = Inr bs" "reads atoms lits bs op"
    using encode_operand_reads [OF assms(1,2)] Cons.prems by (meson list.set_intros(1))
  ultimately show ?case by (intro exI [of _ "bs # bss"]) simp
qed

definition instruction_ok :: "u32 list \<Rightarrow> Literal list \<Rightarrow> bool \<Rightarrow> Instruction \<Rightarrow> bool" where
  "instruction_ok atoms lits present i \<longleftrightarrow>
     wire_ok i \<and> (\<forall>op\<in>set (wire_operands i). operand_ok atoms lits present op)"

text \<open>The bytes \<open>bs\<close> are one instruction: its opcode, not \<open>int_code_end\<close>, and its operands.\<close>

definition reads_instruction :: "u32 list \<Rightarrow> Literal list \<Rightarrow> u8 list \<Rightarrow> Instruction \<Rightarrow> bool" where
  "reads_instruction atoms lits bs i \<longleftrightarrow>
     (\<exists>opcode tl_bytes. bs = opcode # tl_bytes \<and> instruction_opcode i = Inr opcode \<and> opcode \<noteq> 3 \<and>
       (\<forall>d r. slice_ok d \<longrightarrow> dec_atoms d = atoms \<longrightarrow> dec_literals d = lits \<longrightarrow> rest d = tl_bytes @ r \<longrightarrow>
          decode_instruction opcode d = Inr (i, advance (length tl_bytes) d)))"

lemma encode_instruction_reads:
  assumes "length atoms < 2 ^ 32" "length lits < 2 ^ 63" "instruction_ok atoms lits present i"
  shows "\<exists>bs. encode_instruction (atom_encoder_new atoms present) i = Inr bs \<and> reads_instruction atoms lits bs i"
proof -
  have ok: "wire_ok i" "\<forall>op\<in>set (wire_operands i). operand_ok atoms lits present op"
    using assms(3) by (simp_all add: instruction_ok_def)
  obtain opcode where oc: "instruction_opcode i = Inr opcode" "opcode \<noteq> 3"
    "opcode_arity opcode = Inr (length (wire_operands i))" "assemble opcode (wire_operands i) = Inr i"
    using shape_okD [OF wire_ok_shape [OF ok(1)]] by blast
  obtain bss where bss: "emit (atom_encoder_new atoms present) (wire_operands i) = Inr (concat bss)"
    "list_all2 (reads atoms lits) bss (wire_operands i)"
    using emit_reads [OF assms(1,2) ok(2)] by blast
  have "decode_instruction opcode d = Inr (i, advance (length (concat bss)) d)"
    if "slice_ok d" "dec_atoms d = atoms" "dec_literals d = lits" "rest d = concat bss @ r" for d r
  proof -
    have "length (rest d) = remaining d" by (simp add: rest_def remaining_def)
    then have "length (concat bss) \<le> Suc (remaining d)" using that(4) by simp
    from read_operands_push [OF bss(2) that this] show ?thesis
      by (simp add: decode_instruction_def read_instr_operands_def oc)
  qed
  moreover have "encode_instruction (atom_encoder_new atoms present) i = Inr (opcode # concat bss)"
    by (simp add: encode_instruction_def oc encode_wire_operands [OF ok(1)] bss(1))
  ultimately show ?thesis using oc(1,2) by (auto simp: reads_instruction_def)
qed

section \<open>The instruction stream\<close>

lemma decode_loop_end: "rest d = [] \<Longrightarrow> decode_loop d = Inr ([], d)"
  by (simp add: decode_loop.simps [of d] decoder_is_empty_def rest_def)

lemma not_empty_rest: "rest d = b # r \<Longrightarrow> \<not> decoder_is_empty d"
  by (metis decoder_is_empty_def drop_all list.distinct(1) rest_def)

lemma decode_loop_reads:
  assumes "list_all2 (reads_instruction atoms lits) bss is" "slice_ok d" "dec_atoms d = atoms"
    "dec_literals d = lits" "rest d = concat bss"
  shows "decode_loop d = Inr (is, advance (length (concat bss)) d)"
  using assms
proof (induction bss "is" arbitrary: d rule: list_all2_induct)
  case Nil
  then show ?case by (simp add: decode_loop_end)
next
  case (Cons bs bss i "is")
  from Cons.hyps(1) obtain opcode tl_bytes where bs: "bs = opcode # tl_bytes" "opcode \<noteq> 3"
    and dec: "\<And>d r. slice_ok d \<Longrightarrow> dec_atoms d = atoms \<Longrightarrow> dec_literals d = lits \<Longrightarrow> rest d = tl_bytes @ r \<Longrightarrow>
      decode_instruction opcode d = Inr (i, advance (length tl_bytes) d)"
    unfolding reads_instruction_def by blast
  let ?d1 = "advance 1 d" and ?d2 = "advance (length tl_bytes) (advance 1 d)"
  have r0: "rest d = opcode # tl_bytes @ concat bss" using Cons.prems(4) bs(1) by simp
  then have r1: "rest ?d1 = tl_bytes @ concat bss" by (simp add: rest_advance)
  have "decode_instruction opcode ?d1 = Inr (i, ?d2)" by (rule dec) (use Cons.prems r1 in auto)
  moreover have "decode_loop ?d2 = Inr (is, advance (length (concat bss)) ?d2)"
    by (rule Cons.IH) (use Cons.prems rest_advance_append [OF r1] in simp_all)
  ultimately show ?case
    using not_empty_rest [OF r0] read_byte_Cons [OF r0] bs
    by (simp add: decode_loop.simps [of d] add.assoc)
qed

lemma decode_instruction_total: "decode_instruction opcode d \<noteq> Inl None"
  using enough_fuel(3) [of d "Suc (remaining d)"]
  by (auto simp: decode_instruction_def read_instr_operands_def result_bind_def fuelled_def split: sum.splits)
    (metis not_None_eq)

lemma decode_loop_total: "decode_loop d \<noteq> Inl None"
proof (induction d rule: decode_loop.induct)
  case (1 d)
  show ?case
  proof (cases "decoder_is_empty d")
    case False
    then show ?thesis
      using decode_instruction_total "1.IH" [OF False _ refl _ _ refl]
      by (simp add: decode_loop.simps [of d] split: sum.split prod.split) (metis not_None_eq)
  qed (simp add: decode_loop.simps [of d])
qed

section \<open>The header\<close>

lemma ucast_drop_u32: "(ucast (drop_bit n (w :: u32)) :: u8) = ucast (drop_bit n (ucast w :: u64))"
  by (rule bit_word_eqI) (auto simp: bit_simps dest: bit_imp_le_length)

lemma length_u32_to_be [simp]: "length (u32_to_be w) = 4"
  by (simp add: u32_to_be_def)

lemma u32_from_to_be [simp]: "u32_from_be (u32_to_be w) = w"
proof -
  have "bytes_le_val (rev (u32_to_be w)) = unat w"
    using bytes_le_val_drop [of "ucast w" 0 4] unsigned_less [where ?'a = nat and ?'b = 32, of w]
    by (simp add: u32_to_be_def ucast_drop_u32 unat_ucast_u32)
  then show ?thesis by (simp add: u32_from_be_def)
qed

lemma read_u32_at:
  "length pre = offset \<Longrightarrow> read_u32 (pre @ u32_to_be w @ post) offset = Inr w"
  by (simp add: read_u32_def)

lemma checked_opcode_sound: "checked_opcode i = Some opcode \<Longrightarrow> instruction_opcode i = Inr opcode"
  by (cases i) (simp_all add: checked_opcode_def)

definition header_covers :: "CodeHeader \<Rightarrow> Instruction \<Rightarrow> bool" where
  "header_covers hdr i \<longleftrightarrow>
     (\<forall>opcode. instruction_opcode i = Inr opcode \<longrightarrow> ucast opcode \<le> hdr_opcode_max hdr) \<and>
     (\<forall>l. i = I_Label l \<longrightarrow> l \<le> hdr_label_count hdr)"

definition next_header :: "u8 \<Rightarrow> Instruction \<Rightarrow> CodeHeader \<Rightarrow> CodeHeader" where
  "next_header opcode i hdr =
     (let hdr = hdr\<lparr>hdr_opcode_max := max (hdr_opcode_max hdr) (ucast opcode)\<rparr>
      in case i of
           I_Label label \<Rightarrow> hdr\<lparr>hdr_label_count := max (hdr_label_count hdr) label\<rparr>
         | I_FuncInfo _ _ _ \<Rightarrow> hdr\<lparr>hdr_function_count := hdr_function_count hdr + 1\<rparr>
         | _ \<Rightarrow> hdr)"

lemma encode_body_Cons:
  "instruction_opcode i = Inr opcode \<Longrightarrow> encode_instruction enc i = Inr bs \<Longrightarrow>
   encode_body enc index (i # is) (hdr, body) = encode_body enc (index + 1) is (next_header opcode i hdr, body @ bs)"
  by (simp add: next_header_def Let_def)

lemma next_header_covers:
  assumes "instruction_opcode i = Inr opcode"
  shows "header_covers (next_header opcode i hdr) i"
    "hdr_opcode_max hdr \<le> hdr_opcode_max (next_header opcode i hdr)"
    "hdr_label_count hdr \<le> hdr_label_count (next_header opcode i hdr)"
  using assms by (cases i; simp add: header_covers_def next_header_def)+

lemma header_covers_mono:
  "header_covers hdr i \<Longrightarrow> hdr_opcode_max hdr \<le> hdr_opcode_max hdr' \<Longrightarrow>
   hdr_label_count hdr \<le> hdr_label_count hdr' \<Longrightarrow> header_covers hdr' i"
  by (auto simp: header_covers_def intro: order_trans)

lemma encode_body_reads:
  assumes "length atoms < 2 ^ 32" "length lits < 2 ^ 63" "\<forall>i\<in>set is. instruction_ok atoms lits present i"
  shows "\<exists>bss hdr'. encode_body (atom_encoder_new atoms present) index is (hdr, body) = Inr (hdr', body @ concat bss) \<and>
    list_all2 (reads_instruction atoms lits) bss is \<and> (\<forall>i\<in>set is. header_covers hdr' i) \<and>
    hdr_opcode_max hdr \<le> hdr_opcode_max hdr' \<and> hdr_label_count hdr \<le> hdr_label_count hdr'"
  using assms(3)
proof (induction "is" arbitrary: index hdr body)
  case Nil
  show ?case by (rule exI [of _ "[]"]) simp
next
  case (Cons i "is")
  obtain bs where bs: "encode_instruction (atom_encoder_new atoms present) i = Inr bs" "reads_instruction atoms lits bs i"
    using encode_instruction_reads [OF assms(1,2)] Cons.prems by (meson list.set_intros(1))
  then obtain opcode where oc: "instruction_opcode i = Inr opcode" by (auto simp: reads_instruction_def)
  let ?hdr = "next_header opcode i hdr"
  from Cons obtain bss hdr' where ih:
    "encode_body (atom_encoder_new atoms present) (index + 1) is (?hdr, body @ bs) = Inr (hdr', (body @ bs) @ concat bss)"
    "list_all2 (reads_instruction atoms lits) bss is" "\<forall>i\<in>set is. header_covers hdr' i"
    "hdr_opcode_max ?hdr \<le> hdr_opcode_max hdr'" "hdr_label_count ?hdr \<le> hdr_label_count hdr'"
    by (meson list.set_intros(2))
  note nh = next_header_covers [OF oc, of hdr]
  show ?case
    using encode_body_Cons [OF oc bs(1)] ih bs(2) header_covers_mono [OF nh(1) ih(4,5)]
      order_trans [OF nh(2) ih(4)] order_trans [OF nh(3) ih(5)]
    by (intro exI [of _ "bs # bss"] exI [of _ hdr']) (simp del: encode_body.simps)
qed

lemma check_labels_covered: "\<forall>i\<in>set is. header_covers hdr i \<Longrightarrow> check_labels (hdr_label_count hdr) is = Inr ()"
proof (induction "is")
  case (Cons i "is")
  then show ?case by (cases i) (simp_all add: header_covers_def not_less)
qed simp

lemma fold_max_mem: "fold max xs (x :: 'a :: linorder) \<in> set (x # xs)"
  by (induction xs arbitrary: x) (auto simp: max_def)

lemma max_opcode_covered:
  assumes "\<forall>i\<in>set is. header_covers hdr i" "max_opcode is = Some m"
  shows "ucast m \<le> hdr_opcode_max hdr"
proof -
  from assms(2) have "m \<in> set (List.map_filter checked_opcode is)"
    using fold_max_mem by (force simp: max_opcode_def split: list.splits)
  then obtain i where "i \<in> set is" "checked_opcode i = Some m"
    by (auto simp: List.map_filter_def)
  with assms(1) checked_opcode_sound [of i m] show ?thesis by (simp add: header_covers_def)
qed

lemma fuelled_eq_Inr: "fuelled r = Inr a \<longleftrightarrow> r = Inr a"
  by (cases r) simp_all

lemma ucast_u8_mono: "a \<le> b \<Longrightarrow> (ucast (a :: u8) :: u32) \<le> ucast b"
  using unsigned_less [where ?'a = nat and ?'b = 8, of a] unsigned_less [where ?'a = nat and ?'b = 8, of b]
  by (simp add: word_le_nat_alt unsigned_ucast_eq take_bit_nat_eq_self)

lemma decode_code_chunk_parts:
  "decode_code_chunk (u32_to_be 16 @ u32_to_be 0 @ u32_to_be om @ u32_to_be lc @ u32_to_be fc @ body) atoms lits =
     result_bind (decode_instructions body atoms lits) (\<lambda>(instructions, extra).
     result_bind (fuelled (check_labels lc instructions)) (\<lambda>_.
       case max_opcode instructions of
         Some max_seen \<Rightarrow>
           if ucast max_seen > om then Inl (Some (OpcodeExceedsMax max_seen om))
           else Inr (instructions, extra)
       | None \<Rightarrow> Inr (instructions, extra)))"
proof -
  let ?bytes = "u32_to_be 16 @ u32_to_be 0 @ u32_to_be om @ u32_to_be lc @ u32_to_be fc @ body"
  have "read_u32 ?bytes 0 = Inr 16" "read_u32 ?bytes 4 = Inr 0" "read_u32 ?bytes 8 = Inr om"
    "read_u32 ?bytes 12 = Inr lc" "read_u32 ?bytes 16 = Inr fc"
    using read_u32_at [of "[]"] read_u32_at [of "u32_to_be 16"] read_u32_at [of "u32_to_be 16 @ u32_to_be 0"]
      read_u32_at [of "u32_to_be 16 @ u32_to_be 0 @ u32_to_be om"]
      read_u32_at [of "u32_to_be 16 @ u32_to_be 0 @ u32_to_be om @ u32_to_be lc"]
    by simp_all
  moreover have "drop 20 ?bytes = body" by simp
  ultimately show ?thesis unfolding decode_code_chunk_def by simp
qed

lemma check_labels_sound:
  "check_labels label_count is = Inr () \<Longrightarrow> I_Label l \<in> set is \<Longrightarrow> l \<le> label_count"
proof (induction "is")
  case (Cons i "is")
  then show ?case by (cases i) (auto split: if_splits)
qed simp

lemma fold_max_ge: "y \<in> set (x # xs) \<Longrightarrow> y \<le> fold max xs (x :: 'a :: linorder)"
  by (metis List.finite_set Max.set_eq_fold Max_ge)

lemma max_opcode_ge:
  assumes "i \<in> set is" "checked_opcode i = Some opcode"
  shows "\<exists>m. max_opcode is = Some m \<and> opcode \<le> m"
proof -
  have "opcode \<in> set (List.map_filter checked_opcode is)" using assms by (force simp: List.map_filter_def)
  then show ?thesis using fold_max_ge by (fastforce simp: max_opcode_def split: list.split)
qed

text \<open>
  Instruction encoding is undone by decoding: every instruction with the operand counts of
  the opcode table and encodable operands is written as an opcode byte followed by operand
  bytes, and decoding that opcode over those bytes, whatever follows them, gives the instruction
  back and consumes exactly its bytes.
\<close>

lemma instruction_round_trip:
  assumes "instruction_ok atoms lits present i" "length atoms < 2 ^ 32" "length lits < 2 ^ 63"
  shows "\<exists>opcode bs. encode_instruction (atom_encoder_new atoms present) i = Inr (opcode # bs) \<and> opcode \<noteq> 3 \<and>
    (\<forall>d r. slice_ok d \<and> dec_atoms d = atoms \<and> dec_literals d = lits \<and> rest d = bs @ r \<longrightarrow>
       decode_instruction opcode d = Inr (i, advance (length bs) d) \<and> rest (advance (length bs) d) = r)"
proof -
  from encode_instruction_reads [OF assms(2,3,1)] obtain opcode bs where
    "encode_instruction (atom_encoder_new atoms present) i = Inr (opcode # bs)" "opcode \<noteq> 3"
    "\<And>d r. slice_ok d \<Longrightarrow> dec_atoms d = atoms \<Longrightarrow> dec_literals d = lits \<Longrightarrow> rest d = bs @ r \<Longrightarrow>
       decode_instruction opcode d = Inr (i, advance (length bs) d)"
    unfolding reads_instruction_def by blast
  then show ?thesis by (intro exI [of _ opcode] exI [of _ bs]) auto
qed

lemma instruction_round_trip_witness:
  "\<exists>opcode bs. encode_instruction (atom_encoder_new [7] False) (I_TypeTest IsFunction2 (OpLabel 4) (OpList [OpX 1, OpY 0])) =
     Inr (opcode # bs) \<and> opcode = 115"
proof -
  let ?i = "I_TypeTest IsFunction2 (OpLabel 4) (OpList [OpX 1, OpY 0])"
  have ok: "instruction_ok [7] [] False ?i" by (simp add: instruction_ok_def wire_ok_def)
  obtain opcode bs where e: "encode_instruction (atom_encoder_new [7] False) ?i = Inr (opcode # bs)"
    using instruction_round_trip [OF ok] by auto
  then have "opcode = 115" by (auto simp: encode_instruction_def result_bind_eq_Inr_conv simp del: encode_instr_operands.simps)
  with e show ?thesis by blast
qed

lemma code_chunk_encodes:
  assumes "\<forall>i\<in>set is. instruction_ok atoms lits present i" "length atoms < 2 ^ 32" "length lits < 2 ^ 63"
  shows "\<exists>bs. encode_code_chunk (atom_encoder_new atoms present) is = Inr bs \<and>
    (length bs < 2 ^ 64 \<longrightarrow> decode_code_chunk bs atoms lits = Inr (is, []))"
proof -
  let ?hdr0 = "\<lparr>hdr_opcode_max = 0, hdr_label_count = 0, hdr_function_count = 0\<rparr>"
  obtain bss hdr where enc: "encode_body (atom_encoder_new atoms present) 0 is (?hdr0, []) = Inr (hdr, concat bss)"
    and bss: "list_all2 (reads_instruction atoms lits) bss is" and cov: "\<forall>i\<in>set is. header_covers hdr i"
    using encode_body_reads [OF assms(2,3,1), of 0 ?hdr0 "[]"] by auto
  let ?d = "compact_decoder_new (concat bss) atoms lits"
  let ?bs = "u32_to_be 16 @ u32_to_be 0 @ u32_to_be (hdr_opcode_max hdr) @
    u32_to_be (hdr_label_count hdr) @ u32_to_be (hdr_function_count hdr) @ concat bss"
  have "decode_code_chunk ?bs atoms lits = Inr (is, [])" if "length ?bs < 2 ^ 64"
  proof -
    have "decode_loop ?d = Inr (is, advance (length (concat bss)) ?d)"
      by (rule decode_loop_reads [OF bss]) (use that in \<open>simp_all add: compact_decoder_new_def slice_ok_def rest_def\<close>)
    then have "decode_instructions (concat bss) atoms lits = Inr (is, [])"
      by (simp add: decode_instructions_def take_extra_literals_def compact_decoder_new_def advance_def)
    then show ?thesis
      using check_labels_covered [OF cov] max_opcode_covered [OF cov]
      unfolding decode_code_chunk_parts by (auto split: option.splits)
  qed
  then show ?thesis using enc by (simp add: encode_code_chunk_def)
qed

text \<open>
  The \<open>Code\<close> chunk writer produces what the loader accepts: for encodable instructions the
  chunk is written without error, its derived header passes the loader's \<open>label_count\<close> and
  \<open>opcode_max\<close> checks, and decoding gives the same instructions and no extra literals.
\<close>

lemma code_chunk_round_trip:
  assumes "\<forall>i\<in>set is. instruction_ok atoms lits present i" "length atoms < 2 ^ 32" "length lits < 2 ^ 63"
  shows "\<exists>bs. encode_code_chunk (atom_encoder_new atoms present) is = Inr bs \<and>
    (length bs < 2 ^ 64 \<longrightarrow> decode_code_chunk bs atoms lits = Inr (is, []))"
  by (rule code_chunk_encodes [OF assms])

lemma code_chunk_round_trip_witness:
  "\<exists>bs. encode_code_chunk (atom_encoder_new [7] False) [I_Label 1, I_Move (OpInteger 5) (OpX 0), I_Return] = Inr bs \<and>
     decode_code_chunk bs [7] [] = Inr ([I_Label 1, I_Move (OpInteger 5) (OpX 0), I_Return], [])"
proof -
  let ?is = "[I_Label 1, I_Move (OpInteger 5) (OpX 0), I_Return]"
  have "\<forall>i\<in>set ?is. instruction_ok [7] [] False i" by (simp add: instruction_ok_def wire_ok_def tag_defs)
  from code_chunk_round_trip [OF this] obtain bs where
    bs: "encode_code_chunk (atom_encoder_new [7] False) ?is = Inr bs"
    "length bs < 2 ^ 64 \<longrightarrow> decode_code_chunk bs [7] [] = Inr (?is, [])" by auto
  have "length bs = 26"
    using bs(1) by (auto simp: encode_code_chunk_def encode_instruction_def push_unsigned.simps push_signed_def
        push_extended.simps Let_def)
  with bs show ?thesis by simp
qed

text \<open>
  C31. The \<open>Code\<close> chunk decoder always returns, with instructions or with an error, and what it
  accepts respects the declared header: at least twenty bytes, sub-size 16, instruction set 0, no
  label above \<open>label_count\<close>, and no checked opcode above \<open>opcode_max\<close>.
\<close>

theorem code_chunk_decoder_sound:
  "decode_code_chunk bytes atoms lits \<noteq> Inl None \<and>
   (decode_code_chunk bytes atoms lits = Inr (is, extra) \<longrightarrow>
      20 \<le> length bytes \<and> read_u32 bytes 0 = Inr 16 \<and> read_u32 bytes 4 = Inr 0 \<and>
      (\<forall>l. I_Label l \<in> set is \<longrightarrow> l \<le> u32_from_be (take 4 (drop 12 bytes))) \<and>
      (\<forall>i opcode. i \<in> set is \<longrightarrow> checked_opcode i = Some opcode \<longrightarrow>
         ucast opcode \<le> u32_from_be (take 4 (drop 8 bytes))))"
proof -
  have "decode_code_chunk bytes atoms lits \<noteq> Inl None"
    using decode_loop_total [of "compact_decoder_new (drop 20 bytes) atoms lits"]
    by (auto simp: decode_code_chunk_def decode_instructions_def result_bind_def fuelled_def
        split: sum.splits option.splits if_splits prod.splits)
  moreover have "20 \<le> length bytes \<and> read_u32 bytes 0 = Inr 16 \<and> read_u32 bytes 4 = Inr 0 \<and>
      check_labels (u32_from_be (take 4 (drop 12 bytes))) is = Inr () \<and>
      (\<forall>m. max_opcode is = Some m \<longrightarrow> ucast m \<le> u32_from_be (take 4 (drop 8 bytes)))"
    if "decode_code_chunk bytes atoms lits = Inr (is, extra)"
    using that
    by (auto simp: decode_code_chunk_def result_bind_eq_Inr_conv read_u32_def fuelled_eq_Inr
        split: option.splits if_splits)
  ultimately show ?thesis
    using check_labels_sound max_opcode_ge ucast_u8_mono by (meson order_trans)
qed

theorem code_chunk_decoder_sound_witness:
  "decode_code_chunk [0,0,0,16, 0,0,0,0, 0,0,0,255, 0,0,0,3, 0,0,0,0, 1, 0x10, 19] [] [] =
     Inr ([I_Label 1, I_Return], []) \<and>
   (1 :: u32) \<le> u32_from_be (take 4 (drop 12 [0,0,0,16, 0,0,0,0, 0,0,0,255, 0,0,0,3, 0,0,0,0, 1, 0x10, 19]))"
proof -
  let ?bytes = "[0,0,0,16, 0,0,0,0, 0,0,0,255, 0,0,0,3, 0,0,0,0, 1, 0x10, 19] :: u8 list"
  have dec: "decode_code_chunk ?bytes [] [] = Inr ([I_Label 1, I_Return], [])"
    by (simp add: decode_code_chunk_def read_u32_def u32_from_be_def decode_instructions_def decode_loop.simps
        decoder_is_empty_def compact_decoder_new_def read_byte_def vec_get_def decode_instruction_def
        opcode_arity_def Let_def read_instr_operands_def remaining_def read_tagged_value.simps unsigned_u64_def
        assemble_defs expect_u32_def take_extra_literals_def max_opcode_def List.map_filter_def checked_opcode_def)
  with code_chunk_decoder_sound [of ?bytes "[]" "[]" "[I_Label 1, I_Return]" "[]"]
  show ?thesis by simp
qed

end
