(* ===== verification/Mailbox.thy ===== *)
theory Mailbox
  imports Beamr_Prelude "HOL-Library.Multiset" "HOL-Library.Sublist"
begin

text \<open>
  Process mailboxes (\<^verbatim>\<open>crates/beamr/src/mailbox/mod.rs\<close>) and selective receive
  (\<^verbatim>\<open>mailbox/selective.rs\<close>). The arrival queue shared with senders and the owner's scan list are
  lists in queue order; a message is its term word (the trace carrier of the optional
  telemetry feature is left out). The matcher of \<open>receive\<close> is an \<open>FnMut\<close>, so it threads a
  state.

  The abstract mailbox is one queue, the scan list followed by the arrivals. The locale
  \<open>fifo_mailbox\<close> states what the owner relies on, and its interpretation discharges it for
  the two-queue implementation. A step relation interleaves senders with the owner.
\<close>

section \<open>Definitions\<close>

record Mailbox =
  arrival :: "u64 list"
  scan_list :: "u64 list"
  save_pointer :: nat
  recv_marker :: "(u64 \<times> nat) option"

definition mailbox_new :: Mailbox where
  "mailbox_new = \<lparr>arrival = [], scan_list = [], save_pointer = 0, recv_marker = None\<rparr>"

definition mailbox_clone :: "Mailbox \<Rightarrow> Mailbox" where
  "mailbox_clone mb = mb\<lparr>arrival := []\<rparr>"

definition message_count :: "Mailbox \<Rightarrow> nat" where
  "message_count mb = length (arrival mb) + length (scan_list mb)"

definition mailbox_is_empty :: "Mailbox \<Rightarrow> bool" where
  "mailbox_is_empty mb \<longleftrightarrow> message_count mb = 0"

text \<open>The loop pops one arrival at a time and appends it to the scan list.\<close>

fun drain_loop :: "u64 list \<Rightarrow> u64 list \<Rightarrow> u64 list" where
  "drain_loop [] scanned = scanned"
| "drain_loop (msg # queue) scanned = drain_loop queue (scanned @ [msg])"

definition drain_arrival :: "Mailbox \<Rightarrow> Mailbox" where
  "drain_arrival mb = mb\<lparr>arrival := [], scan_list := drain_loop (arrival mb) (scan_list mb)\<rparr>"

definition current_message :: "Mailbox \<Rightarrow> u64 option \<times> Mailbox" where
  "current_message mb =
     (let mb = drain_arrival mb in (vec_get (scan_list mb) (save_pointer mb), mb))"

definition advance_save_pointer :: "Mailbox \<Rightarrow> Mailbox" where
  "advance_save_pointer mb =
     mb\<lparr>save_pointer := min (min (save_pointer mb + 1) (2 ^ 64 - 1)) (length (scan_list mb))\<rparr>"

definition remove_current_message :: "Mailbox \<Rightarrow> u64 option \<times> Mailbox" where
  "remove_current_message mb =
     (let mb = drain_arrival mb in
      case vec_get (scan_list mb) (save_pointer mb) of
        None \<Rightarrow> (None, mb)
      | Some matched \<Rightarrow>
          (Some matched,
           mb\<lparr>scan_list := vec_remove (save_pointer mb) (scan_list mb), save_pointer := 0\<rparr>))"

definition reset_save_pointer :: "Mailbox \<Rightarrow> Mailbox" where
  "reset_save_pointer mb = mb\<lparr>save_pointer := 0\<rparr>"

definition reserve_save_marker :: "Mailbox \<Rightarrow> nat \<times> Mailbox" where
  "reserve_save_marker mb = (let mb = drain_arrival mb in (length (scan_list mb), mb))"

definition set_save_pointer :: "nat \<Rightarrow> Mailbox \<Rightarrow> Mailbox" where
  "set_save_pointer marker mb =
     (let mb = drain_arrival mb in mb\<lparr>save_pointer := min marker (length (scan_list mb))\<rparr>)"

definition bind_recv_marker :: "u64 \<Rightarrow> nat \<Rightarrow> Mailbox \<Rightarrow> Mailbox" where
  "bind_recv_marker key marker mb =
     (let mb = drain_arrival mb in
      mb\<lparr>recv_marker := Some (key, min marker (length (scan_list mb)))\<rparr>)"

definition use_recv_marker :: "u64 \<Rightarrow> Mailbox \<Rightarrow> bool \<times> Mailbox" where
  "use_recv_marker key mb =
     (case recv_marker mb of
        None \<Rightarrow> (False, mb)
      | Some (bound_key, marker) \<Rightarrow>
          if bound_key \<noteq> key then (False, mb) else (True, set_save_pointer marker mb))"

definition clear_recv_marker :: "u64 \<Rightarrow> Mailbox \<Rightarrow> Mailbox" where
  "clear_recv_marker key mb =
     (case recv_marker mb of
        Some (bound_key, _) \<Rightarrow> if bound_key = key then mb\<lparr>recv_marker := None\<rparr> else mb
      | None \<Rightarrow> mb)"

definition push_owned :: "u64 \<Rightarrow> Mailbox \<Rightarrow> Mailbox" where
  "push_owned msg mb = mb\<lparr>scan_list := scan_list mb @ [msg]\<rparr>"

text \<open>
  \<open>enqueue_copied\<close> runs on a sender: it appends to the shared arrival queue and then
  notifies; the second component says whether a wake notifier is attached and so was run.
\<close>

definition enqueue_copied :: "bool \<Rightarrow> u64 \<Rightarrow> Mailbox \<Rightarrow> Mailbox \<times> bool" where
  "enqueue_copied has_wake msg mb = (mb\<lparr>arrival := arrival mb @ [msg]\<rparr>, has_wake)"

text \<open>The scan loop of \<open>receive\<close>: the index of the first accepted message from \<open>index\<close> on.\<close>

function receive_scan ::
  "('s \<Rightarrow> u64 \<Rightarrow> bool \<times> 's) \<Rightarrow> u64 list \<Rightarrow> nat \<Rightarrow> 's \<Rightarrow> nat option \<times> 's" where
  "receive_scan matches scanned index s =
     (if index < length scanned then
        let (hit, s) = matches s (scanned ! index)
        in if hit then (Some index, s) else receive_scan matches scanned (index + 1) s
      else (None, s))"
  by auto
termination by (relation "measure (\<lambda>(_, scanned, index, _). length scanned - index)") auto

declare receive_scan.simps [simp del]

definition receive ::
  "('s \<Rightarrow> u64 \<Rightarrow> bool \<times> 's) \<Rightarrow> 's \<Rightarrow> Mailbox \<Rightarrow> u64 option \<times> 's \<times> Mailbox" where
  "receive matches s mb =
     (let mb = drain_arrival mb;
          start = min (save_pointer mb) (length (scan_list mb))
      in case receive_scan matches (scan_list mb) start s of
           (Some index, s) \<Rightarrow>
             (Some (scan_list mb ! index), s,
              mb\<lparr>scan_list := vec_remove index (scan_list mb), save_pointer := 0\<rparr>)
         | (None, s) \<Rightarrow> (None, s, mb\<lparr>save_pointer := length (scan_list mb)\<rparr>))"

section \<open>The abstract queue\<close>

definition contents :: "Mailbox \<Rightarrow> u64 list" where
  "contents mb = scan_list mb @ arrival mb"

lemma drain_loop_append [simp]: "drain_loop queue scanned = scanned @ queue"
  by (induction queue scanned rule: drain_loop.induct) simp_all

lemma drain_arrival_simps [simp]:
  "scan_list (drain_arrival mb) = contents mb" "arrival (drain_arrival mb) = []"
  "save_pointer (drain_arrival mb) = save_pointer mb" "recv_marker (drain_arrival mb) = recv_marker mb"
  "contents (drain_arrival mb) = contents mb"
  by (simp_all add: drain_arrival_def contents_def)

lemma message_count_contents: "message_count mb = length (contents mb)"
  by (simp add: message_count_def contents_def)

lemma contents_simps [simp]:
  "contents (mb\<lparr>save_pointer := n\<rparr>) = contents mb" "contents (mb\<lparr>recv_marker := r\<rparr>) = contents mb"
  "contents mailbox_new = []" "contents (fst (enqueue_copied w msg mb)) = contents mb @ [msg]"
  "arrival mb = [] \<Longrightarrow> contents (push_owned msg mb) = contents mb @ [msg]"
  "contents (set_save_pointer n mb) = contents mb" "contents (bind_recv_marker k n mb) = contents mb"
  "contents (advance_save_pointer mb) = contents mb" "contents (reset_save_pointer mb) = contents mb"
  "contents (clear_recv_marker k mb) = contents mb" "contents (snd (use_recv_marker k mb)) = contents mb"
  "contents (snd (current_message mb)) = contents mb" "contents (snd (reserve_save_marker mb)) = contents mb"
  by (auto simp: contents_def mailbox_new_def enqueue_copied_def push_owned_def set_save_pointer_def
      bind_recv_marker_def advance_save_pointer_def reset_save_pointer_def clear_recv_marker_def
      use_recv_marker_def current_message_def reserve_save_marker_def drain_arrival_def Let_def
      split: option.splits)

text \<open>The stateless matcher that accepts the messages of a predicate, logging what it tests.\<close>

definition logging_matcher :: "(u64 \<Rightarrow> bool) \<Rightarrow> u64 list \<Rightarrow> u64 \<Rightarrow> bool \<times> u64 list" where
  "logging_matcher p tested msg = (p msg, tested @ [msg])"

lemma receive_scan_logging:
  "receive_scan (logging_matcher p) xs i tested =
     (case position p (drop i xs) of
        Some j \<Rightarrow> (Some (i + j), tested @ take (Suc j) (drop i xs))
      | None \<Rightarrow> (None, tested @ drop i xs))"
proof (induction "logging_matcher p" xs i tested rule: receive_scan.induct)
  case (1 xs i tested)
  show ?case
  proof (cases "i < length xs")
    case True
    then have d: "drop i xs = xs ! i # drop (Suc i) xs" by (simp add: Cons_nth_drop_Suc)
    show ?thesis
      using 1 [OF True refl] True
      by (subst receive_scan.simps, cases "p (xs ! i)"; cases "position p (drop (Suc i) xs)")
        (simp_all add: d logging_matcher_def Let_def del: position_None_iff)
  qed (simp add: receive_scan.simps)
qed

text \<open>What \<open>receive\<close> does, on the abstract queue.\<close>

lemma receive_cases:
  fixes mb p tested
  defines "q \<equiv> contents mb" and "start \<equiv> min (save_pointer mb) (length (contents mb))"
  shows "receive (logging_matcher p) tested mb =
    (case position p (drop start q) of
       Some j \<Rightarrow> (Some (q ! (start + j)), tested @ take (Suc j) (drop start q),
          mb\<lparr>arrival := [], scan_list := vec_remove (start + j) q, save_pointer := 0\<rparr>)
     | None \<Rightarrow> (None, tested @ drop start q,
          mb\<lparr>arrival := [], scan_list := q, save_pointer := length q\<rparr>))"
proof -
  have d: "drain_arrival mb = mb\<lparr>arrival := [], scan_list := q\<rparr>"
    by (simp add: drain_arrival_def q_def contents_def)
  show ?thesis
    unfolding receive_def Let_def d q_def [symmetric] start_def [symmetric]
    by (cases "position p (drop start q)")
      (simp_all add: receive_scan_logging start_def q_def del: position_None_iff)
qed

lemma nth_remove_decomp:
  "i < length q \<Longrightarrow> \<exists>pre post. q = pre @ q ! i # post \<and> vec_remove i q = pre @ post"
  by (intro exI [of _ "take i q"] exI [of _ "drop (Suc i) q"])
    (simp add: vec_remove_def id_take_nth_drop [symmetric])

lemma contents_drained [simp]:
  "contents ((drain_arrival mb)\<lparr>scan_list := xs\<rparr>) = xs"
  "contents ((drain_arrival mb)\<lparr>scan_list := xs, save_pointer := n\<rparr>) = xs"
  by (simp_all add: contents_def drain_arrival_def)

section \<open>The mailbox interface\<close>

text \<open>
  What the owner and the senders rely on: a send appends, a removal takes one message out of
  the queue and keeps the order of the others, and every other operation leaves the queue
  alone. Conservation of messages follows from these laws.
\<close>

locale fifo_mailbox =
  fixes queue :: "'mb \<Rightarrow> 'm list"
    and send :: "'m \<Rightarrow> 'mb \<Rightarrow> 'mb"
    and remove :: "'mb \<Rightarrow> 'm option \<times> 'mb"
  assumes send_appends: "queue (send msg mb) = queue mb @ [msg]"
    and remove_some: "remove mb = (Some msg, mb') \<Longrightarrow>
      \<exists>pre post. queue mb = pre @ msg # post \<and> queue mb' = pre @ post"
    and remove_none: "remove mb = (None, mb') \<Longrightarrow> queue mb' = queue mb"
begin

lemma remove_mset:
  "remove mb = (r, mb') \<Longrightarrow> mset (queue mb) = mset (queue mb') + mset (case r of None \<Rightarrow> [] | Some m \<Rightarrow> [m])"
  using remove_some [of mb _ mb'] remove_none [of mb mb'] by (cases r) fastforce+

lemma remove_length:
  "remove mb = (r, mb') \<Longrightarrow> length (queue mb') = length (queue mb) - (case r of None \<Rightarrow> 0 | Some _ \<Rightarrow> 1)"
  using arg_cong [OF remove_mset, of mb r mb' size] by (cases r) auto

lemma remove_subseq: "remove mb = (r, mb') \<Longrightarrow> subseq (queue mb') (queue mb)"
proof (cases r)
  case (Some m)
  assume "remove mb = (r, mb')"
  with Some remove_some [of mb m mb'] obtain pre post
    where q: "queue mb = pre @ m # post" "queue mb' = pre @ post" by blast
  have "subseq post (m # post)" by (simp add: subseq_Cons')
  then have "subseq (pre @ post) (pre @ m # post)" by (simp add: subseq_append')
  with q show ?thesis by simp
qed (use remove_none in fastforce)

end

lemma receive_decomp:
  assumes "receive matches s mb = (r, s', mb')"
  shows "case r of
      None \<Rightarrow> contents mb' = contents mb \<and> save_pointer mb' = length (scan_list mb') \<and> arrival mb' = []
    | Some m \<Rightarrow> \<exists>pre post. contents mb = pre @ m # post \<and> contents mb' = pre @ post \<and>
        save_pointer mb' = 0 \<and> arrival mb' = []"
proof -
  have bound: "fst (receive_scan f xs i t) = Some j \<Longrightarrow> j < length xs" for f :: "'a \<Rightarrow> u64 \<Rightarrow> bool \<times> 'a" and xs i j t
    by (induction f xs i t rule: receive_scan.induct)
      (subst (asm) receive_scan.simps, auto simp: Let_def split: if_splits prod.splits)
  obtain hit t where scan: "receive_scan matches (contents mb) (min (save_pointer mb) (length (contents mb))) s = (hit, t)"
    by fastforce
  show ?thesis
  proof (cases hit)
    case None
    then show ?thesis using assms scan by (auto simp: receive_def Let_def contents_def)
  next
    case (Some i)
    with scan bound have "i < length (contents mb)" by (metis fst_conv)
    from nth_remove_decomp [OF this] obtain pre post where
      q: "contents mb = pre @ contents mb ! i # post" "vec_remove i (contents mb) = pre @ post" by blast
    have "r = Some (contents mb ! i)"
      "mb' = (drain_arrival mb)\<lparr>scan_list := vec_remove i (contents mb), save_pointer := 0\<rparr>"
      using Some scan assms by (simp_all add: receive_def Let_def)
    then have "r = Some (contents mb ! i)" "contents mb' = pre @ post" "save_pointer mb' = 0" "arrival mb' = []"
      using q(2) by simp_all
    then show ?thesis using q(1) by (simp only: option.case) metis
  qed
qed

definition receive_msg :: "('s \<Rightarrow> u64 \<Rightarrow> bool \<times> 's) \<Rightarrow> 's \<Rightarrow> Mailbox \<Rightarrow> u64 option \<times> Mailbox" where
  "receive_msg matches s mb = (case receive matches s mb of (r, _, mb) \<Rightarrow> (r, mb))"

interpretation selective: fifo_mailbox contents "\<lambda>msg mb. fst (enqueue_copied w msg mb)" "receive_msg matches s"
proof
  fix mb msg mb'
  show "receive_msg matches s mb = (Some msg, mb') \<Longrightarrow>
      \<exists>pre post. contents mb = pre @ msg # post \<and> contents mb' = pre @ post"
    using receive_decomp [of matches s mb] by (auto simp: receive_msg_def split: prod.splits)
  show "receive_msg matches s mb = (None, mb') \<Longrightarrow> contents mb' = contents mb"
    using receive_decomp [of matches s mb] by (auto simp: receive_msg_def split: prod.splits)
qed simp

interpretation current: fifo_mailbox contents "\<lambda>msg mb. fst (enqueue_copied w msg mb)" remove_current_message
proof
  fix mb msg mb'
  show "remove_current_message mb = (Some msg, mb') \<Longrightarrow>
      \<exists>pre post. contents mb = pre @ msg # post \<and> contents mb' = pre @ post"
    using nth_remove_decomp [of "save_pointer mb" "contents mb"]
    by (simp add: remove_current_message_def Let_def vec_get_def split: if_splits)
      (elim conjE, hypsubst, simp)
  show "remove_current_message mb = (None, mb') \<Longrightarrow> contents mb' = contents mb"
    by (auto simp: remove_current_message_def Let_def split: option.splits)
qed simp

section \<open>Interleavings of senders and owner\<close>

text \<open>
  One atomic action on the mailbox, with the messages sent and the messages received so far.
  Senders may run between any two actions of the owner. The matcher's state is what it has
  been shown so far, so its verdict may depend on the whole history of its calls.
\<close>

inductive mailbox_step ::
  "Mailbox \<times> u64 list \<times> u64 list \<Rightarrow> Mailbox \<times> u64 list \<times> u64 list \<Rightarrow> bool" where
  send: "mailbox_step (mb, sent, got) (fst (enqueue_copied w msg mb), sent @ [msg], got)"
| owned: "mailbox_step (mb, sent, got) (push_owned msg mb, sent @ [msg], got)"
| drain: "mailbox_step (mb, sent, got) (drain_arrival mb, sent, got)"
| look: "current_message mb = (r, mb') \<Longrightarrow> mailbox_step (mb, sent, got) (mb', sent, got)"
| skip: "mailbox_step (mb, sent, got) (advance_save_pointer mb, sent, got)"
| reset: "mailbox_step (mb, sent, got) (reset_save_pointer mb, sent, got)"
| take_current: "remove_current_message mb = (r, mb') \<Longrightarrow>
    mailbox_step (mb, sent, got) (mb', sent, got @ (case r of None \<Rightarrow> [] | Some m \<Rightarrow> [m]))"
| take_match: "receive_msg (matches :: u64 list \<Rightarrow> u64 \<Rightarrow> bool \<times> u64 list) s mb = (r, mb') \<Longrightarrow>
    mailbox_step (mb, sent, got) (mb', sent, got @ (case r of None \<Rightarrow> [] | Some m \<Rightarrow> [m]))"
| reserve: "reserve_save_marker mb = (n, mb') \<Longrightarrow> mailbox_step (mb, sent, got) (mb', sent, got)"
| bind: "mailbox_step (mb, sent, got) (bind_recv_marker key n mb, sent, got)"
| use: "use_recv_marker key mb = (b, mb') \<Longrightarrow> mailbox_step (mb, sent, got) (mb', sent, got)"
| clear: "mailbox_step (mb, sent, got) (clear_recv_marker key mb, sent, got)"

definition mailbox_inv :: "Mailbox \<times> u64 list \<times> u64 list \<Rightarrow> bool" where
  "mailbox_inv st = (case st of (mb, sent, got) \<Rightarrow>
     mset sent = mset (contents mb) + mset got \<and> save_pointer mb \<le> length (scan_list mb))"

lemma step_preserves_inv: "mailbox_step st st' \<Longrightarrow> mailbox_inv st \<Longrightarrow> mailbox_inv st'"
proof (induction rule: mailbox_step.induct)
  case (take_current mb r mb' sent got)
  have "save_pointer mb' \<le> length (scan_list mb')"
    using take_current by (auto simp: mailbox_inv_def remove_current_message_def Let_def contents_def
        split: option.splits)
  with current.remove_mset [OF take_current(1)] take_current(2) show ?case
    by (simp add: mailbox_inv_def)
next
  case (take_match matches s mb r mb' sent got)
  from take_match(1) obtain s' where rec: "receive matches s mb = (r, s', mb')"
    by (auto simp: receive_msg_def split: prod.splits)
  have "save_pointer mb' \<le> length (scan_list mb')"
    using receive_decomp [OF rec] by (cases r) auto
  with selective.remove_mset [OF take_match(1)] take_match(2) show ?case
    by (simp add: mailbox_inv_def)
next
  case (use key mb b mb' sent got)
  then have "contents mb' = contents mb" using contents_simps(11) [of key mb] by simp
  moreover have "save_pointer mb' \<le> length (scan_list mb')"
    using use by (auto simp: mailbox_inv_def use_recv_marker_def set_save_pointer_def Let_def
        split: option.splits if_splits)
  ultimately show ?case using use by (simp add: mailbox_inv_def)
qed (auto simp: mailbox_inv_def contents_def enqueue_copied_def push_owned_def drain_arrival_def
    current_message_def advance_save_pointer_def reset_save_pointer_def reserve_save_marker_def
    bind_recv_marker_def clear_recv_marker_def Let_def split: option.splits)

lemma reachable_inv:
  "mailbox_step\<^sup>*\<^sup>* (mailbox_new, [], []) st \<Longrightarrow> mailbox_inv st"
  by (induction rule: rtranclp_induct)
    (auto simp: mailbox_inv_def mailbox_new_def contents_def dest: step_preserves_inv)

section \<open>Properties\<close>

text \<open>
  C9. Selective receive takes the first acceptable message: from the save pointer on, over the
  buffered messages followed by everything that has arrived, the first message the matcher
  accepts is returned and removed, the order of the others is kept and the save pointer is
  reset; exactly the messages up to the match are tested. If none is accepted nothing is
  removed and the save pointer moves to the end.
\<close>

theorem receive_takes_first_match:
  fixes mb p tested
  defines "q \<equiv> contents mb" and "start \<equiv> min (save_pointer mb) (length (contents mb))"
  shows "(\<forall>i. start \<le> i \<and> i < length q \<and> p (q ! i) \<and> (\<forall>k. start \<le> k \<and> k < i \<longrightarrow> \<not> p (q ! k)) \<longrightarrow>
      receive (logging_matcher p) tested mb =
        (Some (q ! i), tested @ take (Suc (i - start)) (drop start q),
         mb\<lparr>arrival := [], scan_list := take i q @ drop (Suc i) q, save_pointer := 0\<rparr>)) \<and>
    ((\<forall>i. start \<le> i \<and> i < length q \<longrightarrow> \<not> p (q ! i)) \<longrightarrow>
      receive (logging_matcher p) tested mb =
        (None, tested @ drop start q,
         mb\<lparr>arrival := [], scan_list := q, save_pointer := length q\<rparr>))"
proof (intro conjI allI impI; (elim conjE)?)
  have sl: "start \<le> length q" by (simp add: start_def q_def)
  fix i
  assume i: "start \<le> i" "i < length q" "p (q ! i)" "\<forall>k. start \<le> k \<and> k < i \<longrightarrow> \<not> p (q ! k)"
  have "position p (drop start q) = Some (i - start)"
    using i sl by (auto simp: position_Some_iff)
  then show "receive (logging_matcher p) tested mb =
      (Some (q ! i), tested @ take (Suc (i - start)) (drop start q),
       mb\<lparr>arrival := [], scan_list := take i q @ drop (Suc i) q, save_pointer := 0\<rparr>)"
    using i receive_cases [of p tested mb] by (simp add: q_def start_def vec_remove_def)
next
  assume "\<forall>i. start \<le> i \<and> i < length q \<longrightarrow> \<not> p (q ! i)"
  then have "position p (drop start q) = None"
    by (auto simp: in_set_conv_nth)
  then show "receive (logging_matcher p) tested mb =
      (None, tested @ drop start q, mb\<lparr>arrival := [], scan_list := q, save_pointer := length q\<rparr>)"
    using receive_cases [of p tested mb] by (simp add: q_def start_def del: position_None_iff)
qed

theorem receive_takes_first_match_witness:
  "receive (logging_matcher (\<lambda>m. m = 3)) [] \<lparr>arrival = [4], scan_list = [1, 3], save_pointer = 1, recv_marker = None\<rparr> =
     (Some 3, [3], \<lparr>arrival = [], scan_list = [1, 4], save_pointer = 0, recv_marker = None\<rparr>)"
  using receive_takes_first_match [of "\<lparr>arrival = [4], scan_list = [1, 3], save_pointer = 1, recv_marker = None\<rparr>"
      "\<lambda>m. m = 3" "[]", THEN conjunct1, rule_format, of 1]
  by (simp add: contents_def)

text \<open>
  C30. No message is lost, duplicated or invented under any interleaving of senders with the
  owner's operations: in every reachable state the messages sent are, as a multiset, those
  received together with those still queued, and the save pointer stays within the scan list.
\<close>

theorem mailbox_conserves_messages:
  assumes "mailbox_step\<^sup>*\<^sup>* (mailbox_new, [], []) (mb, sent, got)"
  shows "mset sent = mset (contents mb) + mset got \<and> save_pointer mb \<le> length (scan_list mb) \<and>
    message_count mb = length sent - length got"
proof -
  have inv: "mset sent = mset (contents mb) + mset got" "save_pointer mb \<le> length (scan_list mb)"
    using reachable_inv [OF assms] by (simp_all add: mailbox_inv_def)
  then have "length sent = length (contents mb) + length got" by (metis size_mset size_union)
  then have "message_count mb = length sent - length got" by (simp add: message_count_contents)
  with inv show ?thesis by blast
qed

theorem mailbox_conserves_messages_witness:
  "message_count (fst (enqueue_copied True 7 mailbox_new)) = 1"
proof -
  have "mailbox_step\<^sup>*\<^sup>* (mailbox_new, [], []) (fst (enqueue_copied True 7 mailbox_new), [7], [])"
    using mailbox_step.send [of mailbox_new "[]" "[]" True 7] by simp
  from mailbox_conserves_messages [OF this] show ?thesis by simp
qed

text \<open>
  C34. A message rejected once is not tested again: after a miss, a later receive tests only
  the messages that arrived since, in the order they were sent.
\<close>

theorem receive_after_miss_tests_only_new:
  assumes "receive (logging_matcher p) [] mb = (None, tested, mb1)"
    and "mb2 = fold (\<lambda>msg mb. fst (enqueue_copied True msg mb)) new mb1"
    and "receive (logging_matcher p') [] mb2 = (r, tested', mb3)"
  shows "(\<exists>k. tested' = take k new) \<and>
    (r = None \<longrightarrow> tested' = new \<and> contents mb3 = contents mb @ new)"
proof -
  have mb1: "save_pointer mb1 = length (contents mb)" "contents mb1 = contents mb" "scan_list mb1 = contents mb"
    using assms(1) receive_cases [of p "[]" mb] by (auto simp: contents_def split: option.splits)
  have "contents (fold (\<lambda>msg mb. fst (enqueue_copied True msg mb)) new mb) = contents mb @ new \<and>
      save_pointer (fold (\<lambda>msg mb. fst (enqueue_copied True msg mb)) new mb) = save_pointer mb" for mb
    by (induction new arbitrary: mb) (simp_all, simp add: enqueue_copied_def)
  then have mb2: "contents mb2 = contents mb @ new" "save_pointer mb2 = length (contents mb)"
    using mb1 assms(2) by simp_all
  have res: "(r, tested', mb3) = (case position p' new of
       Some j \<Rightarrow> (Some ((contents mb @ new) ! (length (contents mb) + j)), take (Suc j) new,
          mb2\<lparr>arrival := [], scan_list := vec_remove (length (contents mb) + j) (contents mb @ new), save_pointer := 0\<rparr>)
     | None \<Rightarrow> (None, new, mb2\<lparr>arrival := [], scan_list := contents mb @ new,
          save_pointer := length (contents mb @ new)\<rparr>))"
    using assms(3) receive_cases [of p' "[]" mb2] mb2
    by (cases "position p' new") (auto simp del: position_None_iff)
  show ?thesis
  proof (cases "position p' new")
    case None
    with res have "r = None" "tested' = new" "contents mb3 = contents mb @ new"
      by (simp_all add: contents_def del: position_None_iff)
    then show ?thesis by (auto intro: exI [of _ "length new"])
  next
    case (Some j)
    with res show ?thesis by auto
  qed
qed

theorem receive_after_miss_tests_only_new_witness:
  "\<exists>k. fst (snd (receive (logging_matcher (\<lambda>m. m = 9)) []
     (fst (enqueue_copied True 9 \<lparr>arrival = [], scan_list = [1], save_pointer = 1, recv_marker = None\<rparr>)))) = take k [9]"
proof -
  have "receive (logging_matcher (\<lambda>_. False)) [] \<lparr>arrival = [], scan_list = [1], save_pointer = 0, recv_marker = None\<rparr> =
      (None, [1], \<lparr>arrival = [], scan_list = [1], save_pointer = 1, recv_marker = None\<rparr>)"
    by (simp add: receive_cases contents_def)
  moreover obtain r tested mb where
    "receive (logging_matcher (\<lambda>m. m = 9)) [] (fst (enqueue_copied True 9
       \<lparr>arrival = [], scan_list = [1], save_pointer = 1, recv_marker = None\<rparr>)) = (r, tested, mb)"
    by (metis prod_cases3)
  ultimately show ?thesis
    using receive_after_miss_tests_only_new [of "\<lambda>_. False" _ _ _ _ "[9]" "\<lambda>m. m = 9" r tested mb] by simp
qed

text \<open>
  C37. A bound receive marker is a bare position that removals do not move: once a message
  before the marker has been received, using the marker skips a message that arrived after
  the marker was bound, and the receive that follows does not see it.
\<close>

theorem recv_marker_skips_new_message:
  assumes "old \<noteq> new"
  shows "let mb = fst (enqueue_copied True old mailbox_new);
        (marker, mb) = reserve_save_marker mb;
        mb = bind_recv_marker key marker mb;
        (r, _, mb) = receive (logging_matcher (\<lambda>m. m = old)) [] mb;
        mb = fst (enqueue_copied True new mb);
        (found, mb) = use_recv_marker key mb
    in r = Some old \<and> found \<and> contents mb = [new] \<and> fst (current_message mb) = None \<and>
       fst (receive (logging_matcher (\<lambda>_. True)) [] mb) = None"
  by (simp add: enqueue_copied_def mailbox_new_def reserve_save_marker_def drain_arrival_def
      bind_recv_marker_def receive_cases contents_def vec_remove_def use_recv_marker_def
      set_save_pointer_def current_message_def vec_get_def Let_def)

theorem recv_marker_skips_new_message_witness:
  "(1::u64) \<noteq> 2 \<and> fst (current_message (snd (use_recv_marker 5
      \<lparr>arrival = [2], scan_list = [], save_pointer = 0, recv_marker = Some (5, 1)\<rparr>))) = None"
  using recv_marker_skips_new_message [of 1 2 5]
  by (simp add: enqueue_copied_def mailbox_new_def reserve_save_marker_def drain_arrival_def
      bind_recv_marker_def receive_cases contents_def vec_remove_def use_recv_marker_def
      set_save_pointer_def current_message_def vec_get_def Let_def)

end
