(* ===== verification/Timer_Wheel.thy ===== *)
theory Timer_Wheel
  imports Beamr_Prelude "HOL-Library.Product_Lexorder"
begin

text \<open>
  The timer wheel (\<^verbatim>\<open>crates/beamr/src/timer.rs\<close>). An \<open>Instant\<close> is its nanosecond count and a
  \<open>Duration\<close> a nanosecond count; the largest instant of the platform, past which
  \<open>checked_add\<close> fails, is the parameter \<open>instant_max\<close>. The test instruments and the
  park notification of the threads feature are left out. The loop of \<open>expire_bucket\<close>
  is a partial function whose \<open>None\<close> is non-termination; on a well-formed wheel it always returns.

  \<open>wheel_ok\<close> is the representation invariant: every index entry sits in the bucket and slot
  it records, in the bucket of its tick, every bucket slot is indexed, the deadline set mirrors
  the index, and no pending entry lies before the current tick.
\<close>

section \<open>Definitions\<close>

datatype TimerKind = ReceiveTimeout | Deliver

record TimerEntry =
  target_pid :: u64
  msg :: u64
  expires_at :: nat
  kind :: TimerKind
  bucket :: nat
  slot :: nat

record ExpiredTimer =
  ex_reference :: u64
  ex_target_pid :: u64
  ex_msg :: u64
  ex_expires_at :: nat
  ex_kind :: TimerKind

record TimerWheel =
  buckets :: "u64 list list"
  entries :: "u64 \<Rightarrow> TimerEntry option"
  deadlines :: "(nat \<times> u64) set"
  next_ref :: u64
  wheel_start :: nat
  current_tick :: nat

definition with_bucket_count :: "nat \<Rightarrow> nat \<Rightarrow> TimerWheel" where
  "with_bucket_count bucket_count now =
     \<lparr>buckets = replicate (max bucket_count 1) [], entries = Map.empty, deadlines = {},
      next_ref = 1, wheel_start = now, current_tick = 0\<rparr>"

definition tick_for :: "nat \<Rightarrow> TimerWheel \<Rightarrow> nat" where
  "tick_for instant w = (instant - wheel_start w) div 1000000"

definition bucket_for :: "nat \<Rightarrow> TimerWheel \<Rightarrow> nat" where
  "bucket_for instant w = tick_for instant w mod length (buckets w)"

definition allocate_ref :: "TimerWheel \<Rightarrow> u64 \<times> TimerWheel" where
  "allocate_ref w =
     (next_ref w, w\<lparr>next_ref := if unat (next_ref w) + 1 < 2 ^ 64 then next_ref w + 1 else 1\<rparr>)"

definition schedule_reserved_at ::
  "nat \<Rightarrow> u64 \<Rightarrow> nat \<Rightarrow> nat \<Rightarrow> u64 \<Rightarrow> u64 \<Rightarrow> TimerKind \<Rightarrow> TimerWheel \<Rightarrow> u64 option \<times> TimerWheel" where
  "schedule_reserved_at instant_max reference now delay pid message knd w =
     (if entries w reference \<noteq> None then (None, w)
      else
        let w = (if now < wheel_start w then w\<lparr>wheel_start := now, current_tick := 0\<rparr> else w);
            expires = (if now + delay \<le> instant_max then now + delay else now);
            b = bucket_for expires w;
            s = length (buckets w ! b)
        in (Some reference,
            w\<lparr>buckets := (buckets w)[b := buckets w ! b @ [reference]],
              deadlines := insert (expires, reference) (deadlines w),
              entries := (entries w)(reference := Some
                \<lparr>target_pid = pid, msg = message, expires_at = expires, kind = knd, bucket = b, slot = s\<rparr>)\<rparr>))"

definition schedule_at ::
  "nat \<Rightarrow> nat \<Rightarrow> nat \<Rightarrow> u64 \<Rightarrow> u64 \<Rightarrow> TimerKind \<Rightarrow> TimerWheel \<Rightarrow> u64 \<times> TimerWheel" where
  "schedule_at instant_max now delay pid message knd w =
     (let (reference, w) = allocate_ref w;
          (r, w) = schedule_reserved_at instant_max reference now delay pid message knd w
      in (case r of Some r \<Rightarrow> r | None \<Rightarrow> reference, w))"

text \<open>\<open>entries.get_mut(r)\<close> followed by an assignment of the slot.\<close>

definition set_slot :: "u64 \<Rightarrow> nat \<Rightarrow> (u64 \<Rightarrow> TimerEntry option) \<Rightarrow> u64 \<Rightarrow> TimerEntry option" where
  "set_slot r s es = (case es r of None \<Rightarrow> es | Some e \<Rightarrow> es(r := Some (e\<lparr>slot := s\<rparr>)))"

definition swap_remove_bucket_slot :: "nat \<Rightarrow> nat \<Rightarrow> TimerWheel \<Rightarrow> TimerWheel" where
  "swap_remove_bucket_slot b s w =
     (if b \<ge> length (buckets w) then w
      else if s \<ge> length (buckets w ! b) then w
      else
        let moved = buckets w ! b ! s;
            refs = swap_remove s (buckets w ! b);
            w = w\<lparr>buckets := (buckets w)[b := refs]\<rparr>;
            w = (if s < length refs then w\<lparr>entries := set_slot (refs ! s) s (entries w)\<rparr> else w)
        in w\<lparr>entries := set_slot moved s (entries w)\<rparr>)"

definition remove_entry :: "u64 \<Rightarrow> TimerWheel \<Rightarrow> TimerEntry option \<times> TimerWheel" where
  "remove_entry reference w =
     (case entries w reference of
        None \<Rightarrow> (None, w)
      | Some entry \<Rightarrow>
          (Some entry,
           swap_remove_bucket_slot (bucket entry) (slot entry)
             (w\<lparr>entries := (entries w)(reference := None),
                deadlines := deadlines w - {(expires_at entry, reference)}\<rparr>)))"

definition cancel_at :: "u64 \<Rightarrow> nat \<Rightarrow> TimerWheel \<Rightarrow> nat option \<times> TimerWheel" where
  "cancel_at reference now w =
     (case remove_entry reference w of
        (None, w) \<Rightarrow> (None, w)
      | (Some entry, w) \<Rightarrow> (Some (expires_at entry - now), w))"

definition expired_of :: "u64 \<Rightarrow> TimerEntry \<Rightarrow> ExpiredTimer" where
  "expired_of reference entry =
     \<lparr>ex_reference = reference, ex_target_pid = target_pid entry, ex_msg = msg entry,
      ex_expires_at = expires_at entry, ex_kind = kind entry\<rparr>"

partial_function (option) expire_loop ::
  "nat \<Rightarrow> nat \<Rightarrow> nat \<Rightarrow> ExpiredTimer list \<Rightarrow> TimerWheel \<Rightarrow> (ExpiredTimer list \<times> TimerWheel) option" where
  "expire_loop bucket_index now s expired w =
     (if s < length (buckets w ! bucket_index) then
        let reference = buckets w ! bucket_index ! s in
        (case entries w reference of
           None \<Rightarrow> expire_loop bucket_index now s expired (swap_remove_bucket_slot bucket_index s w)
         | Some entry \<Rightarrow>
             if expires_at entry \<le> now then
               (case remove_entry reference w of
                  (None, w) \<Rightarrow> expire_loop bucket_index now s expired w
                | (Some entry, w) \<Rightarrow>
                    expire_loop bucket_index now s (expired @ [expired_of reference entry]) w)
             else expire_loop bucket_index now (s + 1) expired w)
      else Some (expired, w))"

definition expire_bucket ::
  "nat \<Rightarrow> nat \<Rightarrow> ExpiredTimer list \<times> TimerWheel \<Rightarrow> (ExpiredTimer list \<times> TimerWheel) option" where
  "expire_bucket bucket_index now = (\<lambda>(expired, w). expire_loop bucket_index now 0 expired w)"

fun expire_steps ::
  "nat \<Rightarrow> nat list \<Rightarrow> ExpiredTimer list \<times> TimerWheel \<Rightarrow> (ExpiredTimer list \<times> TimerWheel) option" where
  "expire_steps now [] st = Some st"
| "expire_steps now (step # rest) st =
     (let tick = current_tick (snd st) + step; lap = length (buckets (snd st))
      in Option.bind (expire_bucket (tick mod lap) now st) (expire_steps now rest))"

definition tick_at :: "nat \<Rightarrow> TimerWheel \<Rightarrow> (ExpiredTimer list \<times> TimerWheel) option" where
  "tick_at now w =
     (let target_tick = tick_for now w in
      if target_tick < current_tick w then Some ([], w)
      else
        let lap = length (buckets w);
            steps = min (target_tick - current_tick w + 1) lap
        in map_option (\<lambda>(expired, w). (expired, w\<lparr>current_tick := target_tick\<rparr>))
             (expire_steps now [0..<steps] ([], w)))"

definition earliest_deadline :: "TimerWheel \<Rightarrow> nat option" where
  "earliest_deadline w = (if deadlines w = {} then None else Some (fst (Min (deadlines w))))"

definition wheel_len :: "TimerWheel \<Rightarrow> nat" where
  "wheel_len w = card (dom (entries w))"

section \<open>Representation invariant\<close>

definition links_ok :: "TimerWheel \<Rightarrow> bool" where
  "links_ok w \<longleftrightarrow> buckets w \<noteq> [] \<and>
     (\<forall>r e. entries w r = Some e \<longrightarrow> bucket e < length (buckets w) \<and>
        slot e < length (buckets w ! bucket e) \<and> buckets w ! bucket e ! slot e = r) \<and>
     (\<forall>b<length (buckets w). \<forall>s<length (buckets w ! b).
        \<exists>e. entries w (buckets w ! b ! s) = Some e \<and> bucket e = b \<and> slot e = s) \<and>
     deadlines w = {(t, r). map_option expires_at (entries w r) = Some t}"

definition ticks_ok :: "TimerWheel \<Rightarrow> bool" where
  "ticks_ok w \<longleftrightarrow> (\<forall>r e. entries w r = Some e \<longrightarrow>
     bucket e = bucket_for (expires_at e) w \<and> current_tick w \<le> tick_for (expires_at e) w)"

definition wheel_ok :: "TimerWheel \<Rightarrow> bool" where
  "wheel_ok w \<longleftrightarrow> links_ok w \<and> ticks_ok w"

text \<open>A pending timer as its owner sees it: everything but the slot, which moves.\<close>

definition pending :: "TimerWheel \<Rightarrow> u64 \<Rightarrow> TimerEntry option" where
  "pending w r = map_option (\<lambda>e. e\<lparr>slot := 0\<rparr>) (entries w r)"

lemma links_okD:
  assumes "links_ok w"
  shows "buckets w \<noteq> []"
    and "entries w r = Some e \<Longrightarrow> bucket e < length (buckets w)"
    and "entries w r = Some e \<Longrightarrow> slot e < length (buckets w ! bucket e)"
    and "entries w r = Some e \<Longrightarrow> buckets w ! bucket e ! slot e = r"
    and "b < length (buckets w) \<Longrightarrow> s < length (buckets w ! b) \<Longrightarrow>
      \<exists>e. entries w (buckets w ! b ! s) = Some e \<and> bucket e = b \<and> slot e = s"
    and "deadlines w = {(t, r). map_option expires_at (entries w r) = Some t}"
  using assms by (auto simp: links_ok_def)

section \<open>Removing an entry\<close>

definition after_removal :: "u64 \<Rightarrow> TimerEntry \<Rightarrow> TimerWheel \<Rightarrow> u64 \<Rightarrow> TimerEntry option" where
  "after_removal r e w x =
     (let refs = buckets w ! bucket e in
      if x = r then None
      else if slot e < length refs - 1 \<and> x = last refs
      then map_option (\<lambda>e'. e'\<lparr>slot := slot e\<rparr>) (entries w x)
      else entries w x)"

lemma last_slot:
  assumes "links_ok w" "b < length (buckets w)" "buckets w ! b \<noteq> []"
  shows "\<exists>e. entries w (last (buckets w ! b)) = Some e \<and> bucket e = b \<and> slot e = length (buckets w ! b) - 1"
proof -
  have "length (buckets w ! b) - 1 < length (buckets w ! b)" using assms(3) by simp
  from links_okD(5) [OF assms(1,2) this] show ?thesis using assms(3) by (simp add: last_conv_nth)
qed

lemma remove_entry_eq:
  assumes ok: "links_ok w" and e: "entries w r = Some e"
  shows "remove_entry r w = (Some e,
    w\<lparr>buckets := (buckets w)[bucket e := swap_remove (slot e) (buckets w ! bucket e)],
      entries := after_removal r e w, deadlines := deadlines w - {(expires_at e, r)}\<rparr>)"
proof -
  let ?L = "buckets w ! bucket e" and ?s = "slot e"
  note l = links_okD(2-4) [OF ok e]
  have "set_slot (swap_remove ?s ?L ! ?s) ?s ((entries w)(r := None)) = after_removal r e w"
    if "?s < length ?L - 1"
  proof -
    have repl: "swap_remove ?s ?L ! ?s = last ?L" using that by (simp add: nth_swap_remove)
    obtain e2 where e2: "entries w (last ?L) = Some e2" "slot e2 = length ?L - 1"
      using last_slot [OF ok l(1)] l(2) by fastforce
    then have "last ?L \<noteq> r" using e that by auto
    with that repl e2 show ?thesis by (auto simp: set_slot_def after_removal_def Let_def)
  qed
  moreover have "(entries w)(r := None) = after_removal r e w" if "\<not> ?s < length ?L - 1"
    using that by (auto simp: after_removal_def Let_def)
  moreover have "after_removal r e w r = None" by (simp add: after_removal_def Let_def)
  ultimately show ?thesis
    using l e by (auto simp: remove_entry_def swap_remove_bucket_slot_def Let_def set_slot_def [of r])
qed

lemma after_removal_Some:
  "after_removal r e w x = Some e' \<Longrightarrow> \<exists>e0. entries w x = Some e0 \<and> x \<noteq> r \<and>
     e' = (if slot e < length (buckets w ! bucket e) - 1 \<and> x = last (buckets w ! bucket e)
           then e0\<lparr>slot := slot e\<rparr> else e0)"
  by (auto simp: after_removal_def Let_def split: if_splits)

lemma links_ok_remove:
  assumes ok: "links_ok w" and e: "entries w r = Some e"
  shows "links_ok (snd (remove_entry r w))"
proof -
  let ?b = "bucket e" and ?s = "slot e"
  let ?L = "buckets w ! ?b"
  let ?w = "w\<lparr>buckets := (buckets w)[?b := swap_remove ?s ?L],
      entries := after_removal r e w, deadlines := deadlines w - {(expires_at e, r)}\<rparr>"
  note l = links_okD(2-4) [OF ok e]
  have last: "last ?L = ?L ! (length ?L - 1)" using l(2) by (intro last_conv_nth) auto
  obtain e2 where e2: "entries w (last ?L) = Some e2" "bucket e2 = ?b" "slot e2 = length ?L - 1"
    using last_slot [OF ok l(1)] l(2) by fastforce
  have fwd: "bucket e' < length (buckets ?w) \<and> slot e' < length (buckets ?w ! bucket e') \<and>
      buckets ?w ! bucket e' ! slot e' = x" if "entries ?w x = Some e'" for x e'
  proof -
    from that have "after_removal r e w x = Some e'" by simp
    from after_removal_Some [OF this] obtain e0 where e0: "entries w x = Some e0" "x \<noteq> r"
      and e': "e' = (if ?s < length ?L - 1 \<and> x = last ?L then e0\<lparr>slot := ?s\<rparr> else e0)" by blast
    note l0 = links_okD(2-4) [OF ok e0(1)]
    show ?thesis
    proof (cases "?s < length ?L - 1 \<and> x = last ?L")
      case True
      then have "e0 = e2" using e0 e2 by simp
      with True e' e2 l show ?thesis by (simp add: nth_swap_remove)
    next
      case False
      have "bucket e0 = ?b \<Longrightarrow> slot e0 \<noteq> ?s \<and> slot e0 \<noteq> length ?L - 1"
        using False l l0 e0 last by (metis One_nat_def Suc_pred length_0_conv length_greater_0_conv less_antisym list.size(3) not_less_zero)
      with False e' l0 l show ?thesis by (auto simp: nth_list_update nth_swap_remove)
    qed
  qed
  have bwd: "\<exists>e'. entries ?w (buckets ?w ! b ! t) = Some e' \<and> bucket e' = b \<and> slot e' = t"
    if "b < length (buckets ?w)" "t < length (buckets ?w ! b)" for b t
  proof (cases "b = ?b")
    case True
    then have t: "t < length ?L - 1" using that l by simp
    show ?thesis
    proof (cases "t = ?s")
      case True
      with t e2 e \<open>b = ?b\<close> l show ?thesis by (auto simp: nth_swap_remove after_removal_def Let_def)
    next
      case False
      have "t < length ?L" using t by linarith
      from links_okD(5) [OF ok l(1) this] obtain e3
        where e3: "entries w (?L ! t) = Some e3" "bucket e3 = ?b" "slot e3 = t" by blast
      then have "?L ! t \<noteq> r" "?L ! t \<noteq> last ?L" using e e2 t False by auto
      with False t e3 \<open>b = ?b\<close> l show ?thesis by (simp add: nth_swap_remove after_removal_def Let_def)
    qed
  next
    case False
    then have "b < length (buckets w)" "t < length (buckets w ! b)" using that by simp_all
    from links_okD(5) [OF ok this] obtain e3
      where e3: "entries w (buckets w ! b ! t) = Some e3" "bucket e3 = b" "slot e3 = t" by blast
    then have "buckets w ! b ! t \<noteq> r" "buckets w ! b ! t \<noteq> last ?L" using e e2 False by auto
    with False e3 show ?thesis by (simp add: after_removal_def Let_def)
  qed
  have "map_option expires_at (after_removal r e w x) =
      (if x = r then None else map_option expires_at (entries w x))" for x
    by (cases "entries w x") (auto simp: after_removal_def Let_def)
  then have "deadlines ?w = {(t, x). map_option expires_at (entries ?w x) = Some t}"
    using links_okD(6) [OF ok] e by auto
  then show ?thesis
    unfolding remove_entry_eq [OF ok e] links_ok_def snd_conv
    using fwd bwd links_okD(1) [OF ok] by auto
qed

lemma remove_entry_fields:
  assumes "links_ok w" "entries w r = Some e" "remove_entry r w = (res, w')"
  shows "res = Some e" "pending w' = (pending w)(r := None)" "links_ok w'"
    "buckets w' = (buckets w)[bucket e := swap_remove (slot e) (buckets w ! bucket e)]"
    "wheel_start w' = wheel_start w" "current_tick w' = current_tick w" "next_ref w' = next_ref w"
proof -
  have eq: "res = Some e" and w': "w' = w\<lparr>buckets := (buckets w)[bucket e := swap_remove (slot e) (buckets w ! bucket e)],
      entries := after_removal r e w, deadlines := deadlines w - {(expires_at e, r)}\<rparr>"
    using assms(3) unfolding remove_entry_eq [OF assms(1,2)] by simp_all
  show "pending w' = (pending w)(r := None)"
  proof
    fix x
    show "pending w' x = ((pending w)(r := None)) x"
      by (cases "entries w x") (auto simp: w' pending_def after_removal_def Let_def)
  qed
  show "links_ok w'" using links_ok_remove [OF assms(1,2)] assms(3) by simp
  show "res = Some e" by (fact eq)
  show "buckets w' = (buckets w)[bucket e := swap_remove (slot e) (buckets w ! bucket e)]"
    "wheel_start w' = wheel_start w" "current_tick w' = current_tick w" "next_ref w' = next_ref w"
    by (simp_all add: w')
qed

section \<open>Expiring a bucket\<close>

definition survives :: "nat \<Rightarrow> nat set \<Rightarrow> TimerEntry \<Rightarrow> bool" where
  "survives now visited e \<longleftrightarrow> \<not> (bucket e \<in> visited \<and> expires_at e \<le> now)"

definition keep :: "(TimerEntry \<Rightarrow> bool) \<Rightarrow> (u64 \<Rightarrow> TimerEntry option) \<Rightarrow> u64 \<Rightarrow> TimerEntry option" where
  "keep p es r = (case es r of None \<Rightarrow> None | Some e \<Rightarrow> if p e then Some e else None)"

definition fired :: "(TimerEntry \<Rightarrow> bool) \<Rightarrow> (u64 \<Rightarrow> TimerEntry option) \<Rightarrow> ExpiredTimer set" where
  "fired p es = {expired_of r e | r e. es r = Some e \<and> \<not> p e}"

definition same_frame :: "TimerWheel \<Rightarrow> TimerWheel \<Rightarrow> bool" where
  "same_frame w w' \<longleftrightarrow> length (buckets w') = length (buckets w) \<and> wheel_start w' = wheel_start w \<and>
     current_tick w' = current_tick w \<and> next_ref w' = next_ref w"

lemma same_frame_refl [simp]: "same_frame w w"
  by (simp add: same_frame_def)

lemma same_frame_trans: "same_frame a b \<Longrightarrow> same_frame b c \<Longrightarrow> same_frame a c"
  by (simp add: same_frame_def)

definition expires_to ::
  "nat \<Rightarrow> nat set \<Rightarrow> ExpiredTimer list \<Rightarrow> TimerWheel \<Rightarrow> (ExpiredTimer list \<times> TimerWheel) option \<Rightarrow> bool" where
  "expires_to now visited expired w res \<longleftrightarrow>
     (\<exists>new w'. res = Some (expired @ new, w') \<and> links_ok w' \<and> same_frame w w' \<and>
        pending w' = keep (survives now visited) (pending w) \<and>
        set new = fired (survives now visited) (pending w) \<and> distinct (map ex_reference new))"

lemma pending_Some: "pending w r = Some e \<longleftrightarrow> (\<exists>e0. entries w r = Some e0 \<and> e = e0\<lparr>slot := 0\<rparr>)"
  by (auto simp: pending_def)

lemma expired_of_slot [simp]: "expired_of r (e\<lparr>slot := s\<rparr>) = expired_of r e"
  by (simp add: expired_of_def)

lemma survives_slot [simp]: "survives now v (e\<lparr>slot := s\<rparr>) = survives now v e"
  by (simp add: survives_def)

lemma fired_references: "x \<in> fired p es \<Longrightarrow> es (ex_reference x) \<noteq> None"
  by (auto simp: fired_def expired_of_def)

lemma fired_remove:
  assumes "es r = Some e" "\<not> p e"
  shows "fired p es = insert (expired_of r e) (fired p (es(r := None)))"
proof (intro set_eqI iffI)
  fix x
  assume "x \<in> fired p es"
  then obtain r' e' where x: "x = expired_of r' e'" "es r' = Some e'" "\<not> p e'" by (auto simp: fired_def)
  show "x \<in> insert (expired_of r e) (fired p (es(r := None)))"
  proof (cases "r' = r")
    case False
    with x have "(es(r := None)) r' = Some e'" by simp
    with x show ?thesis unfolding fired_def by blast
  qed (use x assms in simp)
next
  fix x
  assume "x \<in> insert (expired_of r e) (fired p (es(r := None)))"
  then show "x \<in> fired p es" using assms by (auto simp: fired_def split: if_splits)
qed

lemma expires_to_fire:
  assumes e: "pending w r = Some e" "\<not> survives now visited e"
    and w1: "pending w1 = (pending w)(r := None)" "same_frame w w1"
    and rest: "expires_to now visited (expired @ [expired_of r e]) w1 res"
  shows "expires_to now visited expired w res"
proof -
  from rest obtain new w' where new: "res = Some ((expired @ [expired_of r e]) @ new, w')" "links_ok w'"
    "same_frame w1 w'" "pending w' = keep (survives now visited) (pending w1)"
    "set new = fired (survives now visited) (pending w1)" "distinct (map ex_reference new)"
    unfolding expires_to_def by blast
  have "pending w' = keep (survives now visited) (pending w)"
    using new(4) w1(1) e by (auto simp: fun_eq_iff keep_def)
  moreover have "set (expired_of r e # new) = fired (survives now visited) (pending w)"
    using new(5) w1(1) fired_remove [of "pending w" r e "survives now visited", OF e] by simp
  moreover have "r \<notin> ex_reference ` set new"
    using new(5) w1(1) fired_references by fastforce
  ultimately show ?thesis
    unfolding expires_to_def using new same_frame_trans [OF w1(2) new(3)]
    by (intro exI [of _ "expired_of r e # new"] exI [of _ w']) (simp add: expired_of_def)
qed

lemma expires_to_nothing:
  assumes "links_ok w" "\<And>r e. pending w r = Some e \<Longrightarrow> survives now visited e"
  shows "expires_to now visited expired w (Some (expired, w))"
  unfolding expires_to_def
  using assms by (intro exI [of _ "[]"] exI [of _ w]) (auto simp: keep_def fired_def fun_eq_iff split: option.splits)

lemma expire_loop_correct:
  assumes "links_ok w" "b < length (buckets w)"
    and "\<forall>t < s. t < length (buckets w ! b) \<longrightarrow> (\<exists>e. pending w (buckets w ! b ! t) = Some e \<and> now < expires_at e)"
  shows "expires_to now {b} expired w (expire_loop b now s expired w)"
  using assms
proof (induction "length (buckets w ! b) - s" arbitrary: w s expired rule: less_induct)
  case less
  note ok = less.prems(1)
  show ?case
  proof (cases "s < length (buckets w ! b)")
    case False
    have "survives now {b} e" if "pending w r = Some e" for r e
    proof -
      from that obtain e0 where e0: "entries w r = Some e0" "e = e0\<lparr>slot := 0\<rparr>" by (auto simp: pending_Some)
      show ?thesis
      proof (cases "bucket e0 = b")
        case True
        with links_okD(3,4) [OF ok e0(1)] have "slot e0 < length (buckets w ! b)" "buckets w ! b ! slot e0 = r" by auto
        moreover from this False have "slot e0 < s" by linarith
        ultimately have "now < expires_at e" using less.prems(3) that by auto
        then show ?thesis by (simp add: survives_def)
      qed (simp add: survives_def e0)
    qed
    then show ?thesis using False ok by (subst expire_loop.simps) (simp add: expires_to_nothing)
  next
    case True
    let ?r = "buckets w ! b ! s"
    obtain e where e: "entries w ?r = Some e" "bucket e = b" "slot e = s"
      using links_okD(5) [OF ok less.prems(2) True] by blast
    show ?thesis
    proof (cases "expires_at e \<le> now")
      case due: True
      obtain res w1 where rm: "remove_entry ?r w = (res, w1)" by fastforce
      note f = remove_entry_fields [OF ok e(1) rm]
      have L1: "buckets w1 ! b = swap_remove s (buckets w ! b)" using f(4) e less.prems(2) by simp
      have frame: "same_frame w w1" using f by (simp add: same_frame_def)
      have "expires_to now {b} (expired @ [expired_of ?r e]) w1
          (expire_loop b now s (expired @ [expired_of ?r e]) w1)"
      proof (rule less.hyps [OF _ f(3)])
        show "length (buckets w1 ! b) - s < length (buckets w ! b) - s" using L1 True by simp
        show "b < length (buckets w1)" using f(4) less.prems(2) by simp
        show "\<forall>t < s. t < length (buckets w1 ! b) \<longrightarrow>
            (\<exists>e. pending w1 (buckets w1 ! b ! t) = Some e \<and> now < expires_at e)"
        proof (intro allI impI)
          fix t
          assume t: "t < s" "t < length (buckets w1 ! b)"
          have "t < length (buckets w ! b)" using t(1) True by linarith
          with less.prems(3) t(1) obtain e' where e': "pending w (buckets w ! b ! t) = Some e'" "now < expires_at e'"
            by blast
          with due e(1) have "buckets w ! b ! t \<noteq> ?r" by (auto simp: pending_Some)
          with e' f(2) t True show "\<exists>e. pending w1 (buckets w1 ! b ! t) = Some e \<and> now < expires_at e"
            by (simp add: L1 nth_swap_remove)
        qed
      qed
      then have "expires_to now {b} expired w (expire_loop b now s (expired @ [expired_of ?r e]) w1)"
        using expires_to_fire [of w ?r "e\<lparr>slot := 0\<rparr>" now "{b}" w1 expired] e due f(2) frame
        by (simp add: pending_Some survives_def)
      moreover have "expire_loop b now s expired w = expire_loop b now s (expired @ [expired_of ?r e]) w1"
        using True e due rm f(1) by (subst expire_loop.simps) simp
      ultimately show ?thesis by simp
    next
      case False
      have "expires_to now {b} expired w (expire_loop b now (s + 1) expired w)"
      proof (rule less.hyps [OF _ ok less.prems(2)])
        show "\<forall>t < s + 1. t < length (buckets w ! b) \<longrightarrow>
            (\<exists>e. pending w (buckets w ! b ! t) = Some e \<and> now < expires_at e)"
          using less.prems(3) e False by (auto simp: less_Suc_eq pending_Some)
      qed (use True in simp)
      moreover have "expire_loop b now s expired w = expire_loop b now (s + 1) expired w"
        using True e False by (subst expire_loop.simps) simp
      ultimately show ?thesis by simp
    qed
  qed
qed

section \<open>Ticks\<close>

lemma keep_keep: "keep (survives now V) (keep (survives now U) es) = keep (survives now (U \<union> V)) es"
  by (auto simp: fun_eq_iff keep_def survives_def split: option.splits)

lemma fired_union:
  "fired (survives now (U \<union> V)) es = fired (survives now U) es \<union> fired (survives now V) (keep (survives now U) es)"
proof (intro set_eqI iffI)
  fix x
  assume "x \<in> fired (survives now (U \<union> V)) es"
  then obtain r e where x: "x = expired_of r e" "es r = Some e" "\<not> survives now (U \<union> V) e"
    by (auto simp: fired_def)
  show "x \<in> fired (survives now U) es \<union> fired (survives now V) (keep (survives now U) es)"
  proof (cases "survives now U e")
    case True
    with x have "keep (survives now U) es r = Some e" "\<not> survives now V e"
      by (auto simp: keep_def survives_def)
    with x show ?thesis unfolding fired_def by blast
  qed (use x in \<open>auto simp: fired_def\<close>)
next
  fix x
  assume "x \<in> fired (survives now U) es \<union> fired (survives now V) (keep (survives now U) es)"
  then show "x \<in> fired (survives now (U \<union> V)) es"
    by (auto simp: fired_def keep_def survives_def split: option.splits if_splits)
qed

lemma expires_to_compose:
  assumes "expires_to now U expired w (Some (expired1, w1))"
    and "expires_to now V expired1 w1 res"
  shows "expires_to now (U \<union> V) expired w res"
proof -
  from assms(1) obtain new1 where n1: "expired1 = expired @ new1" "links_ok w1" "same_frame w w1"
    "pending w1 = keep (survives now U) (pending w)" "set new1 = fired (survives now U) (pending w)"
    "distinct (map ex_reference new1)"
    unfolding expires_to_def by blast
  from assms(2) obtain new2 w2 where n2: "res = Some (expired1 @ new2, w2)" "links_ok w2" "same_frame w1 w2"
    "pending w2 = keep (survives now V) (pending w1)" "set new2 = fired (survives now V) (pending w1)"
    "distinct (map ex_reference new2)"
    unfolding expires_to_def by blast
  have "ex_reference x \<noteq> ex_reference y" if "x \<in> set new1" "y \<in> set new2" for x y
  proof -
    from that(2) n2(5) fired_references have "pending w1 (ex_reference y) \<noteq> None" by blast
    moreover from that(1) n1(4,5) have "pending w1 (ex_reference x) = None"
      by (auto simp: fired_def keep_def expired_of_def)
    ultimately show ?thesis by metis
  qed
  then have "distinct (map ex_reference (new1 @ new2))" using n1(6) n2(6) by auto
  then show ?thesis
    unfolding expires_to_def
    using n1 n2 same_frame_trans [OF n1(3) n2(3)]
    by (intro exI [of _ "new1 @ new2"] exI [of _ w2]) (simp add: keep_keep fired_union)
qed

lemma expires_to_Some: "expires_to now V expired w res \<Longrightarrow> \<exists>x w'. res = Some (x, w') \<and> links_ok w' \<and> same_frame w w'"
  by (auto simp: expires_to_def)

lemma expire_steps_correct:
  assumes "links_ok w"
  shows "expires_to now ((\<lambda>step. (current_tick w + step) mod length (buckets w)) ` set steps) expired w
    (expire_steps now steps (expired, w))"
  using assms
proof (induction steps arbitrary: expired w)
  case Nil
  then show ?case by (auto intro!: expires_to_nothing simp: survives_def)
next
  case (Cons step steps)
  let ?b = "(current_tick w + step) mod length (buckets w)"
  have "?b < length (buckets w)" using links_okD(1) [OF Cons.prems] by simp
  from expire_loop_correct [OF Cons.prems this, of 0 now expired]
  have first: "expires_to now {?b} expired w (expire_loop ?b now 0 expired w)" by simp
  from expires_to_Some [OF this] obtain expired1 w1 where
    w1: "expire_loop ?b now 0 expired w = Some (expired1, w1)" "links_ok w1" "same_frame w w1" by blast
  have "expires_to now ((\<lambda>step. (current_tick w + step) mod length (buckets w)) ` set steps) expired1 w1
      (expire_steps now steps (expired1, w1))"
    using Cons.IH [OF w1(2), of expired1] w1(3) by (simp add: same_frame_def)
  with first w1(1) show ?case
    by (auto simp: expire_bucket_def Let_def dest!: expires_to_compose)
qed

lemma visited_buckets:
  assumes "0 < lap" "current \<le> t" "t \<le> target"
  shows "t mod lap \<in> (\<lambda>step. (current + step) mod lap) ` set [0..<min (target - current + 1) lap]"
proof (cases "target - current + 1 \<le> lap")
  case True
  then have "t - current \<in> set [0..<min (target - current + 1) lap]" using assms by auto
  moreover have "t mod lap = (current + (t - current)) mod lap" using assms(2) by simp
  ultimately show ?thesis by blast
next
  case False
  let ?k = "(t - current) mod lap"
  have "?k < lap" using assms(1) by simp
  then have "?k \<in> set [0..<min (target - current + 1) lap]" using False by simp
  moreover have "(current + ?k) mod lap = t mod lap"
    using assms(2) by (simp add: mod_add_right_eq)
  ultimately show ?thesis by (metis image_eqI)
qed

definition due :: "nat \<Rightarrow> TimerEntry \<Rightarrow> bool" where
  "due now e \<longleftrightarrow> expires_at e \<le> now"

lemma tick_for_mono: "a \<le> b \<Longrightarrow> tick_for a w \<le> tick_for b w"
  by (simp add: tick_for_def div_le_mono)

lemma tick_at_correct:
  assumes ok: "wheel_ok w"
  shows "\<exists>expired w'. tick_at now w = Some (expired, w') \<and> wheel_ok w' \<and>
    pending w' = keep (\<lambda>e. \<not> due now e) (pending w) \<and>
    set expired = fired (\<lambda>e. \<not> due now e) (pending w) \<and> distinct (map ex_reference expired) \<and>
    current_tick w' = max (current_tick w) (tick_for now w) \<and> wheel_start w' = wheel_start w"
proof (cases "tick_for now w < current_tick w")
  case True
  have late: "\<not> due now e" if "pending w r = Some e" for r e
  proof
    assume "due now e"
    from that obtain e0 where e0: "entries w r = Some e0" "e = e0\<lparr>slot := 0\<rparr>" by (auto simp: pending_Some)
    then have "current_tick w \<le> tick_for (expires_at e) w"
      using ok by (simp add: wheel_ok_def ticks_ok_def)
    with tick_for_mono [of "expires_at e" now w] \<open>due now e\<close> True show False by (simp add: due_def)
  qed
  then have "keep (\<lambda>e. \<not> due now e) (pending w) = pending w" "fired (\<lambda>e. \<not> due now e) (pending w) = {}"
    by (auto simp: keep_def fired_def fun_eq_iff split: option.splits)
  then show ?thesis using True ok by (simp add: tick_at_def Let_def)
next
  case False
  let ?lap = "length (buckets w)" and ?target = "tick_for now w"
  let ?steps = "[0..<min (?target - current_tick w + 1) ?lap]"
  let ?V = "(\<lambda>step. (current_tick w + step) mod ?lap) ` set ?steps"
  have links: "links_ok w" using ok by (simp add: wheel_ok_def)
  from expire_steps_correct [OF links, of now ?steps "[]"] obtain new w1 where
    w1: "expire_steps now ?steps ([], w) = Some (new, w1)" "links_ok w1" "same_frame w w1"
      "pending w1 = keep (survives now ?V) (pending w)" "set new = fired (survives now ?V) (pending w)"
      "distinct (map ex_reference new)"
    unfolding expires_to_def by auto
  have surv: "survives now ?V e \<longleftrightarrow> \<not> due now e" if "pending w r = Some e" for r e
  proof -
    from that obtain e0 where e0: "entries w r = Some e0" "e = e0\<lparr>slot := 0\<rparr>" by (auto simp: pending_Some)
    then have t: "bucket e = tick_for (expires_at e) w mod ?lap" "current_tick w \<le> tick_for (expires_at e) w"
      using ok by (simp_all add: wheel_ok_def ticks_ok_def bucket_for_def)
    have "bucket e \<in> ?V" if "due now e"
      unfolding t(1) by (rule visited_buckets)
        (use t(2) that links_okD(1) [OF links] tick_for_mono in \<open>auto simp: due_def\<close>)
    then show ?thesis by (auto simp: survives_def due_def)
  qed
  have p1: "pending w1 = keep (\<lambda>e. \<not> due now e) (pending w)"
    unfolding w1(4) keep_def using surv by (auto simp: fun_eq_iff split: option.splits)
  have f1: "set new = fired (\<lambda>e. \<not> due now e) (pending w)"
    unfolding w1(5) fired_def using surv by blast
  let ?w' = "w1\<lparr>current_tick := ?target\<rparr>"
  have links1: "links_ok ?w'" using w1(2) by (simp add: links_ok_def)
  have pend1: "pending ?w' = pending w1" by (simp add: pending_def fun_eq_iff)
  have "bucket e = bucket_for (expires_at e) ?w' \<and> ?target \<le> tick_for (expires_at e) ?w'"
    if e: "entries w1 r = Some e" for r e
  proof -
    from e have "pending w1 r = Some (e\<lparr>slot := 0\<rparr>)" by (simp add: pending_def)
    with p1 have late: "pending w r = Some (e\<lparr>slot := 0\<rparr>)" "\<not> due now e"
      by (auto simp: keep_def due_def split: option.splits if_splits)
    from late(1) obtain e0 where e0: "entries w r = Some e0" "e\<lparr>slot := 0\<rparr> = e0\<lparr>slot := 0\<rparr>" by (auto simp: pending_Some)
    from arg_cong [OF e0(2), of bucket] arg_cong [OF e0(2), of expires_at]
    have "bucket e = bucket e0" "expires_at e = expires_at e0" by simp_all
    with e0(1) ok have "bucket e = bucket_for (expires_at e) w" by (simp add: wheel_ok_def ticks_ok_def)
    moreover have "?target \<le> tick_for (expires_at e) w"
      using late(2) by (intro tick_for_mono) (simp add: due_def)
    ultimately show ?thesis using w1(3) by (simp add: same_frame_def bucket_for_def tick_for_def)
  qed
  with links1 have "wheel_ok ?w'" by (simp add: wheel_ok_def ticks_ok_def)
  moreover have "tick_at now w = Some (new, ?w')" using False w1(1) by (simp add: tick_at_def Let_def)
  ultimately show ?thesis
    using p1 f1 pend1 w1(3,6) False by (simp add: same_frame_def)
qed

section \<open>Scheduling and cancelling\<close>

lemma wheel_ok_new: "wheel_ok (with_bucket_count n now)" "pending (with_bucket_count n now) = Map.empty"
  by (simp_all add: wheel_ok_def links_ok_def ticks_ok_def with_bucket_count_def pending_def fun_eq_iff)

definition expiry :: "nat \<Rightarrow> nat \<Rightarrow> nat \<Rightarrow> nat" where
  "expiry instant_max now delay = (if now + delay \<le> instant_max then now + delay else now)"

lemma expiry_ge: "now \<le> expiry instant_max now delay"
  by (simp add: expiry_def)

lemma schedule_correct:
  fixes instant_max delay now :: nat
  assumes ok: "wheel_ok w" and fresh: "entries w r = None"
    and now: "wheel_start w \<le> now" "current_tick w \<le> tick_for now w"
  defines "x \<equiv> expiry instant_max now delay"
  shows "\<exists>w'. schedule_reserved_at instant_max r now delay pid message knd w = (Some r, w') \<and> wheel_ok w' \<and>
    pending w' = (pending w)(r \<mapsto> \<lparr>target_pid = pid, msg = message, expires_at = x, kind = knd,
      bucket = bucket_for x w, slot = 0\<rparr>) \<and>
    wheel_start w' = wheel_start w \<and> current_tick w' = current_tick w \<and> length (buckets w') = length (buckets w)"
proof -
  let ?b = "bucket_for x w"
  let ?e = "\<lparr>target_pid = pid, msg = message, expires_at = x, kind = knd, bucket = ?b,
      slot = length (buckets w ! ?b)\<rparr>"
  let ?w = "w\<lparr>buckets := (buckets w)[?b := buckets w ! ?b @ [r]],
      deadlines := insert (x, r) (deadlines w), entries := (entries w)(r := Some ?e)\<rparr>"
  have links: "links_ok w" using ok by (simp add: wheel_ok_def)
  have b: "?b < length (buckets w)" using links_okD(1) [OF links] by (simp add: bucket_for_def)
  have res: "schedule_reserved_at instant_max r now delay pid message knd w = (Some r, ?w)"
    using fresh now(1) by (simp add: schedule_reserved_at_def Let_def x_def expiry_def)
  have fwd: "bucket e < length (buckets ?w) \<and> slot e < length (buckets ?w ! bucket e) \<and>
      buckets ?w ! bucket e ! slot e = y" if "entries ?w y = Some e" for y e
  proof (cases "y = r")
    case True
    with that b show ?thesis by auto
  next
    case False
    with that have "entries w y = Some e" by simp
    from links_okD(2-4) [OF links this] b show ?thesis by (auto simp: nth_list_update nth_append)
  qed
  have bwd: "\<exists>e. entries ?w (buckets ?w ! b' ! t) = Some e \<and> bucket e = b' \<and> slot e = t"
    if t: "b' < length (buckets ?w)" "t < length (buckets ?w ! b')" for b' t
  proof (cases "b' = ?b \<and> t = length (buckets w ! ?b)")
    case True
    with b show ?thesis by simp
  next
    case False
    then have old: "b' < length (buckets w)" "t < length (buckets w ! b')"
      "buckets ?w ! b' ! t = buckets w ! b' ! t"
      using t b by (auto simp: nth_list_update nth_append split: if_splits)
    with links_okD(5) [OF links old(1,2)] fresh show ?thesis by auto
  qed
  have "deadlines ?w = {(t, y). map_option expires_at (entries ?w y) = Some t}"
    using links_okD(6) [OF links] fresh by auto
  then have links': "links_ok ?w"
    unfolding links_ok_def using fwd bwd links_okD(1) [OF links] by simp
  have "tick_for now w \<le> tick_for x w" unfolding x_def by (rule tick_for_mono [OF expiry_ge])
  then have "ticks_ok ?w"
    using ok now(2) by (auto simp: wheel_ok_def ticks_ok_def bucket_for_def tick_for_def)
  with links' res show ?thesis
    by (auto simp: wheel_ok_def pending_def fun_eq_iff)
qed

lemma remove_wheel_ok:
  assumes ok: "wheel_ok w" and rm: "remove_entry r w = (res, w')"
  shows "wheel_ok w'" "res = entries w r" "pending w' = (pending w)(r := None)"
    "wheel_start w' = wheel_start w" "current_tick w' = current_tick w"
proof -
  have links: "links_ok w" using ok by (simp add: wheel_ok_def)
  have "wheel_ok w' \<and> res = entries w r \<and> pending w' = (pending w)(r := None) \<and>
      wheel_start w' = wheel_start w \<and> current_tick w' = current_tick w"
  proof (cases "entries w r")
    case None
    then show ?thesis using rm ok by (auto simp: remove_entry_def pending_def fun_eq_iff)
  next
    case (Some e)
    note f = remove_entry_fields [OF links Some rm]
    have "bucket x = bucket_for (expires_at x) w \<and> current_tick w \<le> tick_for (expires_at x) w"
      if "entries w' y = Some x" for y x
    proof -
      have "pending w' y = Some (x\<lparr>slot := 0\<rparr>)" using that by (simp add: pending_def)
      then have "pending w y = Some (x\<lparr>slot := 0\<rparr>)" using f(2) by (auto split: if_splits)
      then obtain x0 where x0: "entries w y = Some x0" "x\<lparr>slot := 0\<rparr> = x0\<lparr>slot := 0\<rparr>" by (auto simp: pending_Some)
      from arg_cong [OF x0(2), of bucket] arg_cong [OF x0(2), of expires_at]
      have "bucket x = bucket x0" "expires_at x = expires_at x0" by simp_all
      with x0(1) ok show ?thesis by (simp add: wheel_ok_def ticks_ok_def)
    qed
    then have "ticks_ok w'" using f by (simp add: ticks_ok_def bucket_for_def tick_for_def)
    with f Some show ?thesis by (simp add: wheel_ok_def)
  qed
  then show "wheel_ok w'" "res = entries w r" "pending w' = (pending w)(r := None)"
    "wheel_start w' = wheel_start w" "current_tick w' = current_tick w" by simp_all
qed

lemma cancel_correct:
  assumes "wheel_ok w" "cancel_at r now w = (res, w')"
  shows "wheel_ok w' \<and> res = map_option (\<lambda>e. expires_at e - now) (pending w r) \<and>
    pending w' = (pending w)(r := None) \<and> wheel_start w' = wheel_start w \<and> current_tick w' = current_tick w"
proof -
  obtain x w1 where rm: "remove_entry r w = (x, w1)" by fastforce
  note f = remove_wheel_ok [OF assms(1) rm]
  have "w' = w1" "res = map_option (\<lambda>e. expires_at e - now) x"
    using assms(2) rm by (auto simp: cancel_at_def split: option.splits)
  with f show ?thesis by (simp add: pending_def option.map_comp comp_def)
qed

section \<open>The timer service\<close>

text \<open>
  What the scheduler relies on: a tick returns, fires exactly the pending timers whose
  deadline has passed, each once, and keeps the others. The client lemma is about any
  sequence of ticks.
\<close>

fun run_ticks :: "(nat \<Rightarrow> 'w \<Rightarrow> ('x list \<times> 'w) option) \<Rightarrow> nat list \<Rightarrow> 'w \<Rightarrow> ('x list \<times> 'w) option" where
  "run_ticks tick [] w = Some ([], w)"
| "run_ticks tick (t # ts) w =
     (case tick t w of
        None \<Rightarrow> None
      | Some (now_fired, w1) \<Rightarrow> map_option (\<lambda>(later, w2). (now_fired @ later, w2)) (run_ticks tick ts w1))"

locale timer_service =
  fixes ok :: "'w \<Rightarrow> bool"
    and pend :: "'w \<Rightarrow> 'r \<Rightarrow> 'e option"
    and deadline :: "'e \<Rightarrow> nat"
    and ref :: "'x \<Rightarrow> 'r"
    and tick :: "nat \<Rightarrow> 'w \<Rightarrow> ('x list \<times> 'w) option"
  assumes tick_spec: "ok w \<Longrightarrow> \<exists>xs w'. tick now w = Some (xs, w') \<and> ok w' \<and> distinct (map ref xs) \<and>
      ref ` set xs = {r. \<exists>e. pend w r = Some e \<and> deadline e \<le> now} \<and>
      (\<forall>r. pend w' r = (case pend w r of None \<Rightarrow> None
         | Some e \<Rightarrow> if deadline e \<le> now then None else Some e))"
begin

lemma run_ticks_exact:
  "ok w \<Longrightarrow> \<exists>xs w'. run_ticks tick ts w = Some (xs, w') \<and> ok w' \<and> distinct (map ref xs) \<and>
     ref ` set xs = {r. \<exists>e t. pend w r = Some e \<and> t \<in> set ts \<and> deadline e \<le> t} \<and>
     (\<forall>r. pend w' r = (case pend w r of None \<Rightarrow> None
        | Some e \<Rightarrow> if \<exists>t\<in>set ts. deadline e \<le> t then None else Some e))"
proof (induction ts arbitrary: w)
  case Nil
  then show ?case by (auto split: option.splits)
next
  case (Cons t ts)
  from tick_spec [OF Cons.prems, of t] obtain xs w1 where
    x: "tick t w = Some (xs, w1)" "ok w1" "distinct (map ref xs)"
      "ref ` set xs = {r. \<exists>e. pend w r = Some e \<and> deadline e \<le> t}"
      "\<And>r. pend w1 r = (case pend w r of None \<Rightarrow> None | Some e \<Rightarrow> if deadline e \<le> t then None else Some e)"
    by blast
  from Cons.IH [OF x(2)] obtain ys w2 where
    y: "run_ticks tick ts w1 = Some (ys, w2)" "ok w2" "distinct (map ref ys)"
      "ref ` set ys = {r. \<exists>e t. pend w1 r = Some e \<and> t \<in> set ts \<and> deadline e \<le> t}"
      "\<And>r. pend w2 r = (case pend w1 r of None \<Rightarrow> None
         | Some e \<Rightarrow> if \<exists>t\<in>set ts. deadline e \<le> t then None else Some e)"
    by blast
  have w1: "pend w1 r = Some e \<longleftrightarrow> pend w r = Some e \<and> \<not> deadline e \<le> t" for r e
    unfolding x(5) by (auto split: option.splits)
  have "ref ` set xs \<inter> ref ` set ys = {}"
    unfolding x(4) y(4) w1 by auto
  then have dist: "distinct (map ref (xs @ ys))" using x(3) y(3) by auto
  have "ref ` set (xs @ ys) = ref ` set xs \<union> ref ` set ys" by auto
  also have "\<dots> = {r. \<exists>e u. pend w r = Some e \<and> u \<in> set (t # ts) \<and> deadline e \<le> u}"
    unfolding x(4) y(4) w1 by auto
  finally have refs: "ref ` set (xs @ ys) = {r. \<exists>e u. pend w r = Some e \<and> u \<in> set (t # ts) \<and> deadline e \<le> u}" .
  have "pend w2 r = (case pend w r of None \<Rightarrow> None
      | Some e \<Rightarrow> if \<exists>t\<in>set (t # ts). deadline e \<le> t then None else Some e)" for r
    unfolding y(5) x(5) by (auto split: option.splits)
  with dist refs x(1) y(1,2) show ?case
    by (intro exI [of _ "xs @ ys"] exI [of _ w2]) (simp del: map_append set_append)
qed

end

lemma fired_refs: "ex_reference ` fired p es = {r. \<exists>e. es r = Some e \<and> \<not> p e}"
proof (intro set_eqI iffI)
  fix r
  assume "r \<in> {r. \<exists>e. es r = Some e \<and> \<not> p e}"
  then obtain e where "es r = Some e" "\<not> p e" by blast
  then have "expired_of r e \<in> fired p es" unfolding fired_def by blast
  moreover have "ex_reference (expired_of r e) = r" by (simp add: expired_of_def)
  ultimately show "r \<in> ex_reference ` fired p es" by (metis image_eqI)
qed (auto simp: fired_def expired_of_def)

interpretation wheel: timer_service wheel_ok pending expires_at ex_reference tick_at
proof
  fix w now
  assume "wheel_ok w"
  from tick_at_correct [OF this, of now] obtain expired w' where
    t: "tick_at now w = Some (expired, w')" "wheel_ok w'"
      "pending w' = keep (\<lambda>e. \<not> due now e) (pending w)"
      "set expired = fired (\<lambda>e. \<not> due now e) (pending w)" "distinct (map ex_reference expired)" by blast
  then show "\<exists>xs w'. tick_at now w = Some (xs, w') \<and> wheel_ok w' \<and> distinct (map ex_reference xs) \<and>
      ex_reference ` set xs = {r. \<exists>e. pending w r = Some e \<and> expires_at e \<le> now} \<and>
      (\<forall>r. pending w' r = (case pending w r of None \<Rightarrow> None
         | Some e \<Rightarrow> if expires_at e \<le> now then None else Some e))"
    by (intro exI [of _ expired] exI [of _ w']) (simp add: fired_refs due_def keep_def split: option.split)
qed

section \<open>Wheels under a monotone clock\<close>

text \<open>One operation of the wheel at clock \<open>t'\<close>, after one at clock \<open>t\<close>; the clock never goes back.\<close>

inductive wheel_step :: "TimerWheel \<times> nat \<Rightarrow> TimerWheel \<times> nat \<Rightarrow> bool" where
  reserve: "allocate_ref w = (r, w') \<Longrightarrow> wheel_step (w, t) (w', t)"
| schedule: "t \<le> t' \<Longrightarrow> schedule_reserved_at instant_max r t' delay pid message knd w = (res, w') \<Longrightarrow>
    wheel_step (w, t) (w', t')"
| cancel: "t \<le> t' \<Longrightarrow> cancel_at r t' w = (res, w') \<Longrightarrow> wheel_step (w, t) (w', t')"
| tick: "t \<le> t' \<Longrightarrow> tick_at t' w = Some (expired, w') \<Longrightarrow> wheel_step (w, t) (w', t')"

definition clocked :: "TimerWheel \<times> nat \<Rightarrow> bool" where
  "clocked st = (case st of (w, t) \<Rightarrow>
     wheel_ok w \<and> wheel_start w \<le> t \<and> current_tick w \<le> tick_for t w)"

lemma wheel_step_clocked: "wheel_step st st' \<Longrightarrow> clocked st \<Longrightarrow> clocked st'"
proof (induction rule: wheel_step.induct)
  case (reserve w r w' t)
  then show ?case
    by (auto simp: allocate_ref_def clocked_def wheel_ok_def links_ok_def ticks_ok_def bucket_for_def tick_for_def)
next
  case (schedule t t' instant_max r delay pid message knd w res w')
  then have c: "wheel_ok w" "wheel_start w \<le> t'" "current_tick w \<le> tick_for t' w"
    using tick_for_mono [of t t' w] by (auto simp: clocked_def)
  show ?case
  proof (cases "entries w r")
    case None
    from schedule_correct [OF c(1) None c(2,3), of instant_max delay pid message knd] schedule c
    show ?thesis by (auto simp: clocked_def tick_for_def)
  next
    case (Some e)
    then show ?thesis using schedule(2) c by (auto simp: schedule_reserved_at_def clocked_def)
  qed
next
  case (cancel t t' r w res w')
  from cancel(3) have "wheel_ok w" by (simp add: clocked_def)
  from cancel_correct [OF this cancel(2)] cancel(1,3) tick_for_mono [of t t' w] show ?case
    by (auto simp: clocked_def tick_for_def)
next
  case (tick t t' w expired w')
  from tick(3) have "wheel_ok w" by (simp add: clocked_def)
  from tick_at_correct [OF this, of t'] tick tick_for_mono [of t t' w] show ?case
    by (auto simp: clocked_def tick_for_def)
qed

lemma clocked_new: "clocked (with_bucket_count n t0, t0)"
  using wheel_ok_new(1) [of n t0] by (simp add: clocked_def) (simp add: with_bucket_count_def)

lemma reachable_clocked: "wheel_step\<^sup>*\<^sup>* (with_bucket_count n t0, t0) st \<Longrightarrow> clocked st"
  by (induction rule: rtranclp_induct) (auto simp: clocked_new dest: wheel_step_clocked)

lemma dom_entries: "links_ok w \<Longrightarrow> dom (entries w) = set (concat (buckets w))"
proof
  assume ok: "links_ok w"
  show "dom (entries w) \<subseteq> set (concat (buckets w))"
  proof
    fix r
    assume "r \<in> dom (entries w)"
    then obtain e where e: "entries w r = Some e" by blast
    from links_okD(2-4) [OF ok e] have "buckets w ! bucket e \<in> set (buckets w)" "r \<in> set (buckets w ! bucket e)"
      using nth_mem by auto
    then show "r \<in> set (concat (buckets w))" by auto
  qed
  show "set (concat (buckets w)) \<subseteq> dom (entries w)"
  proof
    fix r
    assume "r \<in> set (concat (buckets w))"
    then obtain b t where "b < length (buckets w)" "t < length (buckets w ! b)" "r = buckets w ! b ! t"
      by (auto simp: in_set_conv_nth)
    with links_okD(5) [OF ok] show "r \<in> dom (entries w)" by blast
  qed
qed

lemma earliest_deadline_correct:
  assumes "links_ok w"
  shows "earliest_deadline w =
    (if dom (pending w) = {} then None else Some (Min {expires_at e | r e. pending w r = Some e}))"
proof -
  have fin: "finite (dom (entries w))" using dom_entries [OF assms] by simp
  have D: "deadlines w = (\<lambda>r. (expires_at (the (entries w r)), r)) ` dom (entries w)"
    using links_okD(6) [OF assms] by (auto simp: dom_def image_iff)
  then have finD: "finite (deadlines w)" using fin by simp
  have fstD: "fst ` deadlines w = {expires_at e | r e. pending w r = Some e}"
  proof -
    have "map_option expires_at (entries w r) = Some t \<longleftrightarrow> (\<exists>e. pending w r = Some e \<and> t = expires_at e)" for r t
      by (cases "entries w r") (auto simp: pending_def)
    then show ?thesis unfolding links_okD(6) [OF assms] by force
  qed
  have dom: "dom (pending w) = dom (entries w)" by (auto simp: pending_def dom_def)
  show ?thesis
  proof (cases "dom (entries w) = {}")
    case True
    then show ?thesis by (simp add: earliest_deadline_def D dom)
  next
    case False
    then have ne: "deadlines w \<noteq> {}" using D by simp
    have "fst (Min (deadlines w)) = Min (fst ` deadlines w)"
    proof (rule Min_eqI [symmetric])
      show "finite (fst ` deadlines w)" using finD by simp
      show "fst (Min (deadlines w)) \<in> fst ` deadlines w" using Min_in [OF finD ne] by simp
      fix t
      assume "t \<in> fst ` deadlines w"
      then obtain r where "(t, r) \<in> deadlines w" by auto
      with finD have "Min (deadlines w) \<le> (t, r)" by (rule Min_le)
      then show "fst (Min (deadlines w)) \<le> t" by (auto simp: less_eq_prod_def)
    qed
    with ne False fstD dom show ?thesis by (simp add: earliest_deadline_def)
  qed
qed

section \<open>Properties\<close>

text \<open>
  C10. A tick fires exactly the timers that are due: on a well-formed wheel the walk returns,
  the expired list holds each pending timer whose expiry is at or before \<open>now\<close> exactly once
  and no other, every other timer stays pending unchanged, and the wheel stays well-formed.
  The walk visits at most one lap of buckets however late the tick is.
\<close>

theorem tick_fires_exactly_due:
  assumes "wheel_ok w"
  shows "\<exists>expired w'. tick_at now w = Some (expired, w') \<and> wheel_ok w' \<and>
    set expired = {expired_of r e | r e. pending w r = Some e \<and> expires_at e \<le> now} \<and>
    distinct (map ex_reference expired) \<and>
    (\<forall>r. pending w' r = (case pending w r of None \<Rightarrow> None
       | Some e \<Rightarrow> if expires_at e \<le> now then None else Some e))"
proof -
  from tick_at_correct [OF assms, of now] obtain expired w' where
    t: "tick_at now w = Some (expired, w')" "wheel_ok w'"
      "pending w' = keep (\<lambda>e. \<not> due now e) (pending w)"
      "set expired = fired (\<lambda>e. \<not> due now e) (pending w)" "distinct (map ex_reference expired)" by blast
  then show ?thesis
    by (intro exI [of _ expired] exI [of _ w'])
      (simp add: fired_def due_def keep_def split: option.split)
qed

theorem tick_fires_exactly_due_witness:
  "\<exists>w x w'. schedule_reserved_at 100 1 0 3 42 9 Deliver (with_bucket_count 4 0) = (Some 1, w) \<and>
     tick_at 5 w = Some ([x], w') \<and> ex_reference x = 1 \<and> pending w' = Map.empty"
proof -
  have start: "wheel_start (with_bucket_count 4 0) \<le> 0" "current_tick (with_bucket_count 4 0) \<le> tick_for 0 (with_bucket_count 4 0)"
    "entries (with_bucket_count 4 0) 1 = None" by (simp_all add: with_bucket_count_def)
  obtain w e where w: "schedule_reserved_at 100 1 0 3 42 9 Deliver (with_bucket_count 4 0) = (Some 1, w)"
    "wheel_ok w" "pending w = [1 \<mapsto> e]" "expires_at e = 3"
    using schedule_correct [OF wheel_ok_new(1) start(3,1,2), of 100 3 42 9 Deliver]
    by (auto simp: wheel_ok_new(2) expiry_def)
  from tick_fires_exactly_due [OF w(2), of 5] obtain expired w' where
    t: "tick_at 5 w = Some (expired, w')" "set expired = {expired_of r e' | r e'. pending w r = Some e' \<and> expires_at e' \<le> 5}"
      "distinct (map ex_reference expired)"
      "\<And>r. pending w' r = (case pending w r of None \<Rightarrow> None | Some e \<Rightarrow> if expires_at e \<le> 5 then None else Some e)"
    by blast
  have "set expired = {expired_of 1 e}" using t(2) w(3,4) by auto
  moreover from this have "length expired = 1" using t(3) by (metis distinct_card distinct_map is_singletonI is_singleton_altdef)
  ultimately have "expired = [expired_of 1 e]" by (cases expired) auto
  moreover have "pending w' = Map.empty" using t(4) w(3,4) by (auto simp: fun_eq_iff)
  ultimately show ?thesis using w(1) t(1) by (auto simp: expired_of_def)
qed

text \<open>
  Every wheel that schedule, cancel, reserve and tick can reach under a clock that never
  goes back is well-formed: the index and the buckets agree, each timer sits in the bucket of
  its tick, the deadline set mirrors the index, and no pending timer is behind the current tick.
\<close>

lemma wheel_reachable_ok:
  assumes "wheel_step\<^sup>*\<^sup>* (with_bucket_count n t0, t0) (w, t)"
  shows "wheel_ok w \<and> wheel_start w \<le> t \<and> current_tick w \<le> tick_for t w"
  using reachable_clocked [OF assms] by (simp add: clocked_def)

lemma wheel_reachable_ok_witness:
  "wheel_ok (snd (schedule_reserved_at 100 1 7 3 42 9 Deliver (with_bucket_count 4 0)))"
proof -
  have "wheel_step (with_bucket_count 4 0, 0)
      (snd (schedule_reserved_at 100 1 7 3 42 9 Deliver (with_bucket_count 4 0)), 7)"
    by (rule wheel_step.schedule [OF _ surjective_pairing]) simp
  from wheel_reachable_ok [OF r_into_rtranclp, OF this] show ?thesis by blast
qed

text \<open>
  C28. The wheel implements a map of pending timers: a new wheel is empty, scheduling a fresh
  reference adds exactly that timer with expiry \<open>now + delay\<close> (or \<open>now\<close> when the instant
  overflows), scheduling a pending reference is refused, cancelling removes exactly that timer
  and returns its remaining time, and the earliest deadline is the least pending expiry.
\<close>

theorem wheel_refines_pending_map:
  assumes "wheel_ok w" "wheel_start w \<le> now" "current_tick w \<le> tick_for now w"
    and "schedule_reserved_at instant_max r now delay pid message knd w = (res, w1)"
    and "cancel_at r' now w = (left, w2)"
  shows "(case pending w r of
       Some _ \<Rightarrow> res = None \<and> w1 = w
     | None \<Rightarrow> res = Some r \<and> wheel_ok w1 \<and> (\<exists>b. pending w1 = (pending w)(r \<mapsto>
         \<lparr>target_pid = pid, msg = message, expires_at = (if now + delay \<le> instant_max then now + delay else now),
          kind = knd, bucket = b, slot = 0\<rparr>))) \<and>
    wheel_ok w2 \<and> left = map_option (\<lambda>e. expires_at e - now) (pending w r') \<and>
    pending w2 = (pending w)(r' := None) \<and>
    earliest_deadline w =
      (if dom (pending w) = {} then None else Some (Min {expires_at e | r e. pending w r = Some e}))"
proof -
  have "case pending w r of
       Some _ \<Rightarrow> res = None \<and> w1 = w
     | None \<Rightarrow> res = Some r \<and> wheel_ok w1 \<and> (\<exists>b. pending w1 = (pending w)(r \<mapsto>
         \<lparr>target_pid = pid, msg = message, expires_at = expiry instant_max now delay, kind = knd, bucket = b, slot = 0\<rparr>))"
  proof (cases "entries w r")
    case None
    with schedule_correct [OF assms(1) None assms(2,3), of instant_max delay pid message knd] assms(4)
    show ?thesis by (auto simp: pending_def)
  next
    case (Some e)
    with assms(4) show ?thesis by (auto simp: schedule_reserved_at_def pending_def)
  qed
  then show ?thesis
    using cancel_correct [OF assms(1,5)] earliest_deadline_correct [of w] assms(1)
    unfolding expiry_def by (simp add: wheel_ok_def)
qed

theorem wheel_refines_pending_map_witness:
  "fst (cancel_at 3 0 (with_bucket_count 4 0)) = None"
  using wheel_refines_pending_map [of "with_bucket_count 4 0" 0 100 1 5 42 9 Deliver _ _ 3,
      OF wheel_ok_new(1) _ _ surjective_pairing surjective_pairing] wheel_ok_new(2) [of 4 0]
  by (simp add: with_bucket_count_def)

text \<open>
  Over any sequence of ticks, a timer that is not cancelled fires if and only if some tick
  reaches its deadline, and then exactly once: no timer is fired early, twice or never.
\<close>

lemma ticks_fire_each_timer_once:
  assumes "wheel_ok w"
  shows "\<exists>fired_list w'. run_ticks tick_at instants w = Some (fired_list, w') \<and>
    distinct (map ex_reference fired_list) \<and>
    ex_reference ` set fired_list = {r. \<exists>e t. pending w r = Some e \<and> t \<in> set instants \<and> expires_at e \<le> t} \<and>
    (\<forall>r e. pending w r = Some e \<and> (\<forall>t\<in>set instants. t < expires_at e) \<longrightarrow> pending w' r = Some e)"
proof -
  from wheel.run_ticks_exact [OF assms, of instants] obtain xs w' where
    x: "run_ticks tick_at instants w = Some (xs, w')" "distinct (map ex_reference xs)"
      "ex_reference ` set xs = {r. \<exists>e t. pending w r = Some e \<and> t \<in> set instants \<and> expires_at e \<le> t}"
      "\<And>r. pending w' r = (case pending w r of None \<Rightarrow> None
        | Some e \<Rightarrow> if \<exists>t\<in>set instants. expires_at e \<le> t then None else Some e)"
    by blast
  moreover have "pending w' r = Some e" if "pending w r = Some e" "\<forall>t\<in>set instants. t < expires_at e" for r e
    using that unfolding x(4) by (auto simp: not_le [symmetric])
  ultimately show ?thesis by blast
qed

lemma ticks_fire_each_timer_once_witness:
  "\<exists>w'. run_ticks tick_at [3, 1000000] (with_bucket_count 2 0) = Some ([], w')"
  using ticks_fire_each_timer_once [OF wheel_ok_new(1) [of 2 0], of "[3, 1000000]"] wheel_ok_new(2) [of 2 0]
  by auto

end
