(* ===== verification/Process_State.thy ===== *)
theory Process_State
  imports Beamr_Prelude
begin

text \<open>
  The supervision side of a process (\<^verbatim>\<open>crates/beamr/src/process/mod.rs\<close> and
  \<^verbatim>\<open>process/types.rs\<close>): its lifecycle status, the ordered link sets, the monitor metadata and the
  \<open>trap_exit\<close> flag. \<open>inbox\<close> holds the system messages that supervision pushes on the owner's
  scan list, each as the tuple it writes on the heap; registers, stack and heap belong to other
  components and \<open>terminate\<close> resets them wholesale.
\<close>

section \<open>Data\<close>

datatype ExitReason = Normal | Kill | Killed | Error | NoConnection | NoProc | WorkerCrashed

datatype ProcessStatus = New | Running | Yielded | Waiting | Suspended | Exited ExitReason

datatype ProcessError = InvalidStatusTransition ProcessStatus ProcessStatus

record Monitor =
  mon_reference :: u64
  mon_watcher :: u64
  mon_target :: u64

record RemotePid =
  rp_node :: u32
  rp_pid_number :: u64
  rp_serial :: u64

text \<open>\<open>{'EXIT', From, Reason}\<close> with a local or remote sender, and \<open>{'DOWN', Ref, process, Pid, Reason}\<close>.\<close>

datatype SysMessage =
    ExitMessage u64 ExitReason
  | RemoteExitMessage RemotePid ExitReason
  | DownMessage u64 u64 ExitReason

record Process =
  pid :: u64
  status :: ProcessStatus
  trap_exit :: bool
  links :: "u64 list"
  remote_links :: "RemotePid list"
  monitors :: "Monitor list"
  inbox :: "SysMessage list"

definition process_new :: "u64 \<Rightarrow> Process" where
  "process_new p = \<lparr>pid = p, status = New, trap_exit = False, links = [], remote_links = [],
     monitors = [], inbox = []\<rparr>"

section \<open>Operations\<close>

fun can_transition :: "ProcessStatus \<Rightarrow> ProcessStatus \<Rightarrow> bool" where
  "can_transition New Running = True"
| "can_transition Running Yielded = True"
| "can_transition Running Waiting = True"
| "can_transition Running Suspended = True"
| "can_transition Running (Exited _) = True"
| "can_transition Yielded Running = True"
| "can_transition Yielded Suspended = True"
| "can_transition Waiting Running = True"
| "can_transition Waiting Suspended = True"
| "can_transition Suspended Yielded = True"
| "can_transition Suspended Waiting = True"
| "can_transition _ _ = False"

definition transition_to :: "ProcessStatus \<Rightarrow> Process \<Rightarrow> ProcessError + Process" where
  "transition_to next_status p =
     (if can_transition (status p) next_status then Inr (p\<lparr>status := next_status\<rparr>)
      else Inl (InvalidStatusTransition (status p) next_status))"

definition add_link :: "u64 \<Rightarrow> Process \<Rightarrow> bool \<times> Process" where
  "add_link q p =
     (if q = pid p \<or> q \<in> set (links p) then (False, p) else (True, p\<lparr>links := links p @ [q]\<rparr>))"

definition remove_link :: "u64 \<Rightarrow> Process \<Rightarrow> bool \<times> Process" where
  "remove_link q p =
     (let before = length (links p); p = p\<lparr>links := filter (\<lambda>linked. linked \<noteq> q) (links p)\<rparr>
      in (before \<noteq> length (links p), p))"

definition take_links :: "Process \<Rightarrow> u64 list \<times> Process" where
  "take_links p = (links p, p\<lparr>links := []\<rparr>)"

definition add_remote_link :: "RemotePid \<Rightarrow> Process \<Rightarrow> bool \<times> Process" where
  "add_remote_link q p =
     (if q \<in> set (remote_links p) then (False, p) else (True, p\<lparr>remote_links := remote_links p @ [q]\<rparr>))"

definition remove_remote_link :: "RemotePid \<Rightarrow> Process \<Rightarrow> bool \<times> Process" where
  "remove_remote_link q p =
     (let before = length (remote_links p);
          p = p\<lparr>remote_links := filter (\<lambda>linked. linked \<noteq> q) (remote_links p)\<rparr>
      in (before \<noteq> length (remote_links p), p))"

definition take_remote_links :: "Process \<Rightarrow> RemotePid list \<times> Process" where
  "take_remote_links p = (remote_links p, p\<lparr>remote_links := []\<rparr>)"

definition add_monitor :: "Monitor \<Rightarrow> Process \<Rightarrow> Process" where
  "add_monitor m p = p\<lparr>monitors := monitors p @ [m]\<rparr>"

definition remove_monitor :: "u64 \<Rightarrow> Process \<Rightarrow> Monitor option \<times> Process" where
  "remove_monitor ref p =
     (case position (\<lambda>m. mon_reference m = ref) (monitors p) of
        None \<Rightarrow> (None, p)
      | Some i \<Rightarrow> (Some (monitors p ! i), p\<lparr>monitors := vec_remove i (monitors p)\<rparr>))"

definition set_trap_exit :: "bool \<Rightarrow> Process \<Rightarrow> Process" where
  "set_trap_exit b p = p\<lparr>trap_exit := b\<rparr>"

text \<open>
  \<open>terminate\<close> keeps the pid, the links, the monitors and the flag; the new mailbox is empty.
\<close>

definition terminate :: "ExitReason \<Rightarrow> Process \<Rightarrow> Process" where
  "terminate reason p = p\<lparr>status := Exited reason, inbox := []\<rparr>"

definition push_message :: "SysMessage \<Rightarrow> Process \<Rightarrow> Process" where
  "push_message msg p = p\<lparr>inbox := inbox p @ [msg]\<rparr>"

lemmas process_ops = add_link_def remove_link_def take_links_def add_monitor_def set_trap_exit_def
  terminate_def push_message_def

section \<open>Lifecycle\<close>

text \<open>Every way the status changes: the checked transition and termination.\<close>

inductive status_step :: "Process \<Rightarrow> Process \<Rightarrow> bool" where
  by_transition: "transition_to s p = Inr p' \<Longrightarrow> status_step p p'"
| by_terminate: "status_step p (terminate reason p)"

inductive_simps status_step_iff: "status_step p p'"

text \<open>The link sets are ordered sets that never contain the process itself.\<close>

definition links_wf :: "Process \<Rightarrow> bool" where
  "links_wf p \<longleftrightarrow> distinct (links p) \<and> pid p \<notin> set (links p) \<and> distinct (remote_links p)"

lemma can_transition_Exited [simp]: "\<not> can_transition (Exited r) s"
  by (cases s) simp_all

lemma can_transition_to_New [simp]: "\<not> can_transition s New"
  by (cases s) simp_all

lemma can_transition_to_Exited [simp]: "can_transition s (Exited r) \<longleftrightarrow> s = Running"
  by (cases s) simp_all

lemma transition_to_Inr: "transition_to s p = Inr p' \<longleftrightarrow> can_transition (status p) s \<and> p' = p\<lparr>status := s\<rparr>"
  by (auto simp: transition_to_def)

lemma status_steps_from_exited:
  "status_step\<^sup>*\<^sup>* p p' \<Longrightarrow> \<exists>r. status p = Exited r \<Longrightarrow> \<exists>r. status p' = Exited r"
  by (induction rule: rtranclp_induct) (auto simp: status_step_iff transition_to_Inr terminate_def)

lemma status_steps_not_new: "status_step\<^sup>*\<^sup>* p p' \<Longrightarrow> status p \<noteq> New \<Longrightarrow> status p' \<noteq> New"
  by (induction rule: rtranclp_induct) (auto simp: status_step_iff transition_to_Inr terminate_def)

text \<open>
  The lifecycle: along any sequence of status changes an exited process stays exited and no
  process becomes new again, whatever transitions are attempted; through the checked transition
  a process exits only from \<open>Running\<close>, and a refused transition names both states.
\<close>

lemma lifecycle_exited_is_terminal:
  "(status_step\<^sup>*\<^sup>* p p' \<longrightarrow> (\<exists>r. status p = Exited r) \<longrightarrow> (\<exists>r. status p' = Exited r)) \<and>
   (status_step\<^sup>*\<^sup>* p p' \<longrightarrow> status p \<noteq> New \<longrightarrow> status p' \<noteq> New) \<and>
   (transition_to (Exited r) p = Inr p' \<longrightarrow> status p = Running \<and> p' = p\<lparr>status := Exited r\<rparr>) \<and>
   (transition_to s p = Inl e \<longrightarrow> e = InvalidStatusTransition (status p) s \<and> \<not> can_transition (status p) s)"
  using status_steps_from_exited [of p p'] status_steps_not_new [of p p']
  by (auto simp: transition_to_def split: if_splits)

lemma lifecycle_exited_is_terminal_witness:
  "\<exists>r. status (terminate Killed (terminate Normal (process_new 7))) = Exited r"
proof -
  have "status_step\<^sup>*\<^sup>* (terminate Normal (process_new 7)) (terminate Killed (terminate Normal (process_new 7)))"
    by (rule r_into_rtranclp) (rule by_terminate)
  then show ?thesis using lifecycle_exited_is_terminal by (simp add: terminate_def)
qed

lemma links_wf_new: "links_wf (process_new p)"
  by (simp add: links_wf_def process_new_def)

lemma links_wf_add [simp]: "links_wf p \<Longrightarrow> links_wf (snd (add_link q p))"
  by (auto simp: links_wf_def add_link_def)

lemma links_wf_remove [simp]: "links_wf p \<Longrightarrow> links_wf (snd (remove_link q p))"
  by (auto simp: links_wf_def remove_link_def Let_def)

lemma links_wf_take [simp]: "links_wf p \<Longrightarrow> links_wf (snd (take_links p))"
  by (simp add: links_wf_def take_links_def)

lemma links_wf_remote [simp]:
  "links_wf p \<Longrightarrow> links_wf (snd (add_remote_link rq p))"
  "links_wf p \<Longrightarrow> links_wf (snd (remove_remote_link rq p))"
  "links_wf p \<Longrightarrow> links_wf (snd (take_remote_links p))"
  by (auto simp: links_wf_def add_remote_link_def remove_remote_link_def take_remote_links_def Let_def)

end
