(* ===== verification/Links.thy ===== *)
theory Links
  imports Process_State
begin

text \<open>
  Links and exit propagation (\<^verbatim>\<open>crates/beamr/src/supervision/link.rs\<close>). A process body is a
  \<open>Process\<close> record, the scheduler's slice of live processes a list of them, and the cascade of
  \<open>process_exited\<close> a recursion over the queue of pending signals. Building an exit message
  reserves heap words through the collector, which may fail: \<open>fits words target\<close> says whether
  that reservation succeeds for \<open>target\<close>. The test-only signal log is left out.
\<close>

section \<open>Definitions\<close>

definition terminal_reason :: "ExitReason \<Rightarrow> ExitReason" where
  "terminal_reason signal = (case signal of Kill \<Rightarrow> Killed | reason \<Rightarrow> reason)"

definition should_die_from_signal :: "Process \<Rightarrow> ExitReason \<Rightarrow> bool" where
  "should_die_from_signal target reason \<longleftrightarrow> reason = Kill \<or> (reason \<noteq> Normal \<and> \<not> trap_exit target)"

definition link :: "Process \<Rightarrow> Process \<Rightarrow> Process \<times> Process" where
  "link left right =
     (if pid left = pid right then (left, right)
      else (snd (add_link (pid right) left), snd (add_link (pid left) right)))"

definition unlink :: "Process \<Rightarrow> Process \<Rightarrow> Process \<times> Process" where
  "unlink left right =
     (if pid left = pid right then (left, right)
      else (snd (remove_link (pid right) left), snd (remove_link (pid left) right)))"

record LinkSet =
  ls_dead :: "u64 \<rightharpoonup> ExitReason"

definition linkset_new :: LinkSet where
  "linkset_new = \<lparr>ls_dead = Map.empty\<rparr>"

definition dead_reason :: "u64 \<Rightarrow> LinkSet \<Rightarrow> ExitReason option" where
  "dead_reason p ls = ls_dead ls p"

definition insert_dead :: "u64 \<Rightarrow> ExitReason \<Rightarrow> LinkSet \<Rightarrow> LinkSet" where
  "insert_dead p reason ls = ls\<lparr>ls_dead := (ls_dead ls)(p \<mapsto> reason)\<rparr>"

definition EXIT_TUPLE_WORDS :: nat where
  "EXIT_TUPLE_WORDS = 4"

type_synonym heap_fits = "nat \<Rightarrow> Process \<Rightarrow> bool"

definition enqueue_exit_message ::
  "heap_fits \<Rightarrow> Process \<Rightarrow> u64 \<Rightarrow> ExitReason \<Rightarrow> unit + Process" where
  "enqueue_exit_message fits target source_pid reason =
     (if fits EXIT_TUPLE_WORDS target
      then Inr (push_message (ExitMessage source_pid (terminal_reason reason)) target)
      else Inl ())"

definition enqueue_remote_exit_message ::
  "heap_fits \<Rightarrow> Process \<Rightarrow> RemotePid \<Rightarrow> ExitReason \<Rightarrow> unit + Process" where
  "enqueue_remote_exit_message fits target source_pid reason =
     (if fits (4 + EXIT_TUPLE_WORDS) target
      then Inr (push_message (RemoteExitMessage source_pid (terminal_reason reason)) target)
      else Inl ())"

definition enqueue_exit_message_pub :: "heap_fits \<Rightarrow> Process \<Rightarrow> u64 \<Rightarrow> ExitReason \<Rightarrow> Process" where
  "enqueue_exit_message_pub fits target source_pid reason =
     (case enqueue_exit_message fits target source_pid reason of
        Inr target \<Rightarrow> target
      | Inl _ \<Rightarrow> terminate Error target)"

definition enqueue_remote_exit_message_pub ::
  "heap_fits \<Rightarrow> Process \<Rightarrow> RemotePid \<Rightarrow> ExitReason \<Rightarrow> Process" where
  "enqueue_remote_exit_message_pub fits target source_pid reason =
     (case enqueue_remote_exit_message fits target source_pid reason of
        Inr target \<Rightarrow> target
      | Inl _ \<Rightarrow> terminate Error target)"

definition deliver_exit_signal ::
  "heap_fits \<Rightarrow> u64 \<Rightarrow> Process \<Rightarrow> ExitReason \<Rightarrow> LinkSet \<Rightarrow> LinkSet \<times> Process" where
  "deliver_exit_signal fits source_pid target reason ls =
     (if should_die_from_signal target reason then
        (ls, case transition_to (Exited (terminal_reason reason)) target of
               Inr target \<Rightarrow> target
             | Inl _ \<Rightarrow> target)
      else if trap_exit target then
        (case enqueue_exit_message fits target source_pid reason of
           Inr target \<Rightarrow> (ls, target)
         | Inl _ \<Rightarrow> (insert_dead (pid target) Error ls, terminate Error target))
      else (ls, target))"

definition link_processes :: "Process \<Rightarrow> Process \<Rightarrow> LinkSet \<Rightarrow> LinkSet \<times> Process \<times> Process" where
  "link_processes left right ls = (ls, link left right)"

definition link_pid :: "heap_fits \<Rightarrow> Process \<Rightarrow> u64 \<Rightarrow> LinkSet \<Rightarrow> LinkSet \<times> Process" where
  "link_pid fits caller target_pid ls =
     (if pid caller = target_pid then (ls, caller)
      else case dead_reason target_pid ls of
          Some reason \<Rightarrow>
            (let (ls, caller) = deliver_exit_signal fits target_pid caller reason ls
             in if should_die_from_signal caller reason then
                  let caller = terminate (terminal_reason reason) caller
                  in (insert_dead (pid caller) (terminal_reason reason) ls, caller)
                else (ls, caller))
        | None \<Rightarrow> (ls, snd (add_link target_pid caller)))"

definition process_exited_tombstone :: "u64 \<Rightarrow> ExitReason \<Rightarrow> LinkSet \<Rightarrow> LinkSet" where
  "process_exited_tombstone p reason ls = insert_dead p reason ls"

text \<open>A pending signal: source, linked target, reason.\<close>

type_synonym signal = "u64 \<times> u64 \<times> ExitReason"

definition mark_exited ::
  "Process \<Rightarrow> ExitReason \<Rightarrow> u64 option \<Rightarrow> LinkSet \<Rightarrow> LinkSet \<times> Process \<times> signal list" where
  "mark_exited p reason source ls =
     (let tr = terminal_reason reason;
          (linked, p) = take_links p;
          p = terminate tr p
      in (insert_dead (pid p) tr ls, p,
          map (\<lambda>linked_pid. (pid p, linked_pid, tr)) (filter (\<lambda>linked_pid. Some linked_pid \<noteq> source) linked)))"

definition process_index_by_pid :: "Process list \<Rightarrow> u64 \<Rightarrow> nat option" where
  "process_index_by_pid ps p = position (\<lambda>q. pid q = p) ps"

text \<open>One iteration of the loop: the signal at the front of the queue meets its target.\<close>

definition signal_step ::
  "heap_fits \<Rightarrow> u64 \<Rightarrow> ExitReason \<Rightarrow> Process \<Rightarrow> LinkSet \<Rightarrow> LinkSet \<times> Process \<times> signal list" where
  "signal_step fits source_pid signal_reason linked ls =
     (let linked = snd (remove_link source_pid linked);
          target_dies = should_die_from_signal linked signal_reason;
          propagated_reason = terminal_reason signal_reason;
          (ls, linked) = deliver_exit_signal fits source_pid linked signal_reason ls
      in if target_dies then
           let linked = (if propagated_reason = Killed then set_trap_exit False linked else linked)
           in mark_exited linked propagated_reason (Some source_pid) ls
         else (ls, linked, []))"

lemma links_deliver: "links (snd (deliver_exit_signal fits s p r ls)) = links p"
  "pid (snd (deliver_exit_signal fits s p r ls)) = pid p"
  "trap_exit (snd (deliver_exit_signal fits s p r ls)) = trap_exit p"
  by (auto simp: deliver_exit_signal_def enqueue_exit_message_def transition_to_def process_ops split: sum.splits)

lemma signal_step_links:
  "signal_step fits s r p ls = (ls', p', sigs) \<Longrightarrow> length sigs + length (links p') \<le> length (links p)"
  using links_deliver(1) [of fits s "snd (remove_link s p)" r ls]
  by (auto simp: signal_step_def mark_exited_def take_links_def terminate_def set_trap_exit_def remove_link_def Let_def
      split: prod.splits if_splits
      intro: order_trans [OF length_filter_le])

lemma sum_list_update_le:
  "i < length xs \<Longrightarrow> n + f y \<le> f (xs ! i) \<Longrightarrow>
   n + sum_list (map f (xs[i := y])) \<le> sum_list (map (f :: 'a \<Rightarrow> nat) xs)"
  by (induction xs arbitrary: i) (auto simp: nth_Cons split: nat.splits)

function cascade ::
  "heap_fits \<Rightarrow> LinkSet \<Rightarrow> Process list \<Rightarrow> signal list \<Rightarrow> LinkSet \<times> Process list" where
  "cascade fits ls ps [] = (ls, ps)"
| "cascade fits ls ps ((source_pid, linked_pid, signal_reason) # queue) =
     (case process_index_by_pid ps linked_pid of
        None \<Rightarrow> cascade fits ls ps queue
      | Some i \<Rightarrow>
          (case signal_step fits source_pid signal_reason (ps ! i) ls of
             (ls, linked, signals) \<Rightarrow> cascade fits ls (ps[i := linked]) (queue @ signals)))"
  by pat_completeness auto
termination
proof (relation "measure (\<lambda>(_, _, ps, queue). sum_list (map (length \<circ> links) ps) + length queue)", goal_cases)
  case (3 fits ls ps src lp r queue i ls' x linked signals)
  then have "i < length ps" by (simp add: process_index_by_pid_def position_Some_iff)
  moreover have "length signals + (length \<circ> links) linked \<le> (length \<circ> links) (ps ! i)"
    using 3 signal_step_links [of fits src r "ps ! i" ls ls' linked signals] by simp
  ultimately show ?case using sum_list_update_le [of i ps "length signals" "length \<circ> links" linked] by simp
qed auto

definition process_exited ::
  "heap_fits \<Rightarrow> Process \<Rightarrow> Process list \<Rightarrow> ExitReason \<Rightarrow> LinkSet \<Rightarrow> LinkSet \<times> Process \<times> Process list" where
  "process_exited fits p ps reason ls =
     (let (ls, p, signals) = mark_exited p reason None ls;
          (ls, ps) = cascade fits ls ps signals
      in (ls, p, ps))"

section \<open>The cascade kills exactly the reachable processes\<close>

text \<open>
  \<open>dying R x ps\<close>: the exiting process \<open>x\<close> and every process of \<open>ps\<close> that is reached from it along
  links through processes that die of the reason \<open>R\<close>, which is abnormal and not trapped.
\<close>

definition dies :: "ExitReason \<Rightarrow> Process \<Rightarrow> bool" where
  "dies R p \<longleftrightarrow> R \<noteq> Normal \<and> \<not> trap_exit p"

inductive_set dying :: "ExitReason \<Rightarrow> Process \<Rightarrow> Process list \<Rightarrow> u64 set" for R x ps where
  root: "pid x \<in> dying R x ps"
| linked: "q \<in> set (x # ps) \<Longrightarrow> pid q \<in> dying R x ps \<Longrightarrow> p \<in> set ps \<Longrightarrow> dies R p \<Longrightarrow>
    pid p \<in> set (links q) \<Longrightarrow> pid p \<in> dying R x ps"

definition edge :: "Process list \<Rightarrow> u64 \<Rightarrow> u64 \<Rightarrow> bool" where
  "edge ps s l \<longleftrightarrow> (\<exists>p\<in>set ps. pid p = s \<and> l \<in> set (links p))"

text \<open>
  \<open>after K finished R p p'\<close>: what the cascade has made of \<open>p\<close> once the processes \<open>K\<close> are marked
  and the signals \<open>finished\<close> (source, target) are handled.
\<close>

definition after :: "u64 set \<Rightarrow> (u64 \<times> u64) list \<Rightarrow> ExitReason \<Rightarrow> Process \<Rightarrow> Process \<Rightarrow> bool" where
  "after K finished R p p' \<longleftrightarrow> pid p' = pid p \<and> trap_exit p' = trap_exit p \<and>
     (if pid p \<in> K then status p' = Exited R \<and> links p' = [] \<and> inbox p' = []
      else status p' = status p \<and> links p' = filter (\<lambda>q. (q, pid p) \<notin> set finished) (links p) \<and>
        inbox p' = inbox p @ (if trap_exit p
          then map (\<lambda>(s, _). ExitMessage s R) (filter (\<lambda>(_, l). l = pid p) finished) else []))"

definition pairs :: "signal list \<Rightarrow> (u64 \<times> u64) list" where
  "pairs = map (\<lambda>(s, l, _). (s, l))"

definition cascade_inv ::
  "Process \<Rightarrow> Process list \<Rightarrow> ExitReason \<Rightarrow> u64 set \<Rightarrow> (u64 \<times> u64) list \<Rightarrow> LinkSet \<Rightarrow> Process list \<Rightarrow> signal list \<Rightarrow> bool" where
  "cascade_inv x ps R K finished ls ps' Q \<longleftrightarrow>
     K \<subseteq> dying R x ps \<and> pid x \<in> K \<and> list_all2 (after K finished R) ps ps' \<and>
     (\<forall>k\<in>K. ls_dead ls k = Some R) \<and> (\<forall>(_, _, r)\<in>set Q. r = R) \<and>
     distinct (finished @ pairs Q) \<and> (\<forall>(s, l)\<in>set (finished @ pairs Q). s \<in> K \<and> edge (x # ps) s l) \<and>
     (\<forall>s l. s \<in> K \<longrightarrow> edge (x # ps) s l \<longrightarrow> (s, l) \<in> set (finished @ pairs Q) \<or> l \<in> K) \<and>
     (\<forall>(s, l)\<in>set finished. \<forall>p\<in>set ps. pid p = l \<longrightarrow> dies R p \<longrightarrow> l \<in> K)"

lemma pairs_simps [simp]: "pairs [] = []" "pairs ((s, l, r) # Q) = (s, l) # pairs Q"
  "pairs (Q @ Q') = pairs Q @ pairs Q'"
  by (simp_all add: pairs_def)

lemma same_pid: "distinct (map pid ps) \<Longrightarrow> p \<in> set ps \<Longrightarrow> q \<in> set ps \<Longrightarrow> pid p = pid q \<Longrightarrow> p = q"
  by (auto simp: distinct_map dest: inj_onD)

lemma dying_dies:
  assumes "k \<in> dying R x ps" "distinct (map pid (x # ps))" "p \<in> set ps" "pid p = k"
  shows "dies R p"
  using assms(1)
proof cases
  case root
  with distinct_map_Cons_neq [OF assms(2)] assms(3,4) show ?thesis by auto
next
  case (linked q p')
  with assms(2-4) same_pid [of ps p p'] show ?thesis by simp
qed

lemma edge_unique:
  "distinct (map pid ps) \<Longrightarrow> p \<in> set ps \<Longrightarrow> edge ps (pid p) l \<longleftrightarrow> l \<in> set (links p)"
  using same_pid by (auto simp: edge_def)

lemma after_other:
  "pid p \<noteq> l \<Longrightarrow> after K finished R p p' \<Longrightarrow> K' = K \<or> K' = insert l K \<Longrightarrow> after K' (finished @ [(s, l)]) R p p'"
  by (auto simp: after_def)

lemma after_survive:
  assumes "after K finished R p p'" "\<not> dies R p" "pid p \<notin> K" "R \<noteq> Kill" "\<forall>q. fits EXIT_TUPLE_WORDS q"
    "signal_step fits s R p' ls = (ls', p'', sigs)"
  shows "after K (finished @ [(s, pid p)]) R p p'' \<and> ls' = ls \<and> sigs = []"
proof -
  have "terminal_reason R = R" using assms(4) by (cases R) (simp_all add: terminal_reason_def)
  with assms show ?thesis
    by (auto simp: after_def signal_step_def Let_def should_die_from_signal_def deliver_exit_signal_def
        enqueue_exit_message_def process_ops dies_def)
      (simp_all add: conj.commute)
qed

lemma after_die:
  assumes "after K finished R p p'" "dies R p" "R \<noteq> Kill"
    "signal_step fits s R p' ls = (ls', p'', sigs)"
  shows "after (insert (pid p) K) (finished @ [(s, pid p)]) R p p'' \<and> ls' = insert_dead (pid p) R ls \<and>
    sigs = (if pid p \<in> K then []
      else map (\<lambda>l. (pid p, l, R)) (filter (\<lambda>q. (q, pid p) \<notin> set finished \<and> q \<noteq> s) (links p)))"
proof -
  have "terminal_reason R = R" using assms(3) by (cases R) (simp_all add: terminal_reason_def)
  with assms show ?thesis
    by (auto simp: after_def signal_step_def Let_def should_die_from_signal_def deliver_exit_signal_def
        mark_exited_def transition_to_def process_ops insert_dead_def dies_def intro: filter_cong split: if_splits)
qed

lemma cascade_inv_survivor:
  "cascade_inv x ps R K finished ls ps' Q \<Longrightarrow> distinct (map pid (x # ps)) \<Longrightarrow> p \<in> set ps \<Longrightarrow>
   \<not> dies R p \<Longrightarrow> pid p \<notin> K"
  using dying_dies [of "pid p" R x ps p] unfolding cascade_inv_def by blast

lemma list_all2_update:
  assumes "list_all2 P xs ys" "i < length xs" "Q (xs ! i) y"
    "\<And>j. j < length xs \<Longrightarrow> j \<noteq> i \<Longrightarrow> P (xs ! j) (ys ! j) \<Longrightarrow> Q (xs ! j) (ys ! j)"
  shows "list_all2 Q xs (ys[i := y])"
  using assms by (auto simp: list_all2_conv_all_nth nth_list_update)

lemma after_update:
  assumes "distinct (map pid ps)" "list_all2 (after K finished R) ps ps'" "i < length ps" "K' = K \<or> K' = insert (pid (ps ! i)) K"
    "after K' (finished @ [(s, pid (ps ! i))]) R (ps ! i) p''"
  shows "list_all2 (after K' (finished @ [(s, pid (ps ! i))]) R) ps (ps'[i := p''])"
proof (rule list_all2_update [where P = "after K finished R", OF assms(2,3)])
  fix j assume "j < length ps" "j \<noteq> i" "after K finished R (ps ! j) (ps' ! j)"
  moreover have "pid (ps ! j) \<noteq> pid (ps ! i)"
    using assms(1,3) \<open>j < length ps\<close> \<open>j \<noteq> i\<close> nth_eq_iff_index_eq [of "map pid ps" j i] by simp
  ultimately show "after K' (finished @ [(s, pid (ps ! i))]) R (ps ! j) (ps' ! j)"
    using assms(4) by (simp add: after_other)
qed (rule assms(5))

lemma cascade_inv_skip:
  assumes "cascade_inv x ps R K finished ls ps' ((s, l, r) # Q)" "\<forall>p\<in>set ps. pid p \<noteq> l"
  shows "cascade_inv x ps R K (finished @ [(s, l)]) ls ps' Q"
proof -
  have "list_all2 (after K (finished @ [(s, l)]) R) ps ps'"
    using assms by (auto simp: cascade_inv_def list_all2_conv_all_nth intro!: after_other)
  then show ?thesis using assms by (auto simp: cascade_inv_def)
qed

lemma cascade_inv_survives:
  assumes inv: "cascade_inv x ps R K finished ls ps' ((s, pid (ps ! i), r) # Q)"
    and i: "i < length ps" "\<not> dies R (ps ! i)" and dist: "distinct (map pid (x # ps))"
    and R: "R \<noteq> Kill" "\<forall>q. fits EXIT_TUPLE_WORDS q"
    and step: "signal_step fits s r (ps' ! i) ls = (ls', p'', sigs)"
  shows "cascade_inv x ps R K (finished @ [(s, pid (ps ! i))]) ls' (ps'[i := p'']) (Q @ sigs)"
proof -
  have r: "r = R" using inv by (simp add: cascade_inv_def)
  have "pid (ps ! i) \<notin> K" using cascade_inv_survivor [OF inv dist] i by simp
  moreover have "after K finished R (ps ! i) (ps' ! i)"
    using inv i by (simp add: cascade_inv_def list_all2_conv_all_nth)
  ultimately have st: "after K (finished @ [(s, pid (ps ! i))]) R (ps ! i) p''" "ls' = ls" "sigs = []"
    using after_survive [of K finished R "ps ! i" "ps' ! i" fits s ls ls' p'' sigs] i(2) R step r by blast+
  have "list_all2 (after K (finished @ [(s, pid (ps ! i))]) R) ps (ps'[i := p''])"
    using after_update [of ps K finished R ps' i K s p''] i(1) st(1) inv dist by (simp add: cascade_inv_def)
  moreover have "\<forall>p\<in>set ps. pid p = pid (ps ! i) \<longrightarrow> \<not> dies R p"
    using dist i same_pid [of ps "ps ! i"] by force
  ultimately show ?thesis using inv st(2,3) by (auto simp: cascade_inv_def)
qed

lemma cascade_inv_killed:
  assumes inv: "cascade_inv x ps R K finished ls ps' ((s, pid (ps ! i), r) # Q)"
    and i: "i < length ps" "dies R (ps ! i)" and dist: "distinct (map pid (x # ps))"
    and links: "distinct (links (ps ! i))" and R: "R \<noteq> Kill"
    and step: "signal_step fits s r (ps' ! i) ls = (ls', p'', sigs)"
  shows "cascade_inv x ps R (insert (pid (ps ! i)) K) (finished @ [(s, pid (ps ! i))]) ls' (ps'[i := p'']) (Q @ sigs)"
proof -
  let ?p = "ps ! i" and ?l = "pid (ps ! i)" and ?fin = "finished @ [(s, pid (ps ! i))]"
  have r: "r = R" using inv by (simp add: cascade_inv_def)
  have "after K finished R ?p (ps' ! i)"
    using inv i by (simp add: cascade_inv_def list_all2_conv_all_nth)
  then have st: "after (insert ?l K) ?fin R ?p p''" "ls' = insert_dead ?l R ls"
    and sigs: "sigs = (if ?l \<in> K then []
      else map (\<lambda>l. (?l, l, R)) (filter (\<lambda>q. (q, ?l) \<notin> set finished \<and> q \<noteq> s) (links ?p)))"
    using after_die [of K finished R ?p "ps' ! i" fits s ls ls' p'' sigs] i(2) R step r by blast+
  have new: "set (pairs sigs) \<subseteq> {(?l, t) | t. t \<in> set (links ?p)}" "distinct (pairs sigs)"
    "?l \<in> K \<Longrightarrow> sigs = []" "\<forall>(_, _, r)\<in>set sigs. r = R"
    using links by (auto simp: sigs pairs_def o_def distinct_map intro!: inj_onI)
  have old: "s' \<in> K \<and> edge (x # ps) s' t" if "(s', t) \<in> set (?fin @ pairs Q)" for s' t
    using inv that by (auto simp: cascade_inv_def)
  have eu: "edge (x # ps) ?l t \<longleftrightarrow> t \<in> set (links ?p)" for t
    using edge_unique [OF dist, of ?p] i by simp
  have dl: "?l \<in> dying R x ps"
  proof -
    have "s \<in> K" "edge (x # ps) s ?l" using old [of s ?l] by auto
    then obtain q where "q \<in> set (x # ps)" "pid q = s" "?l \<in> set (links q)" by (auto simp: edge_def)
    moreover have "pid q \<in> dying R x ps" using inv \<open>s \<in> K\<close> \<open>pid q = s\<close> by (auto simp: cascade_inv_def)
    ultimately show ?thesis using dying.linked [of q x ps R ?p] i by simp
  qed
  have cover: "(?l, t) \<in> set (?fin @ pairs (Q @ sigs)) \<or> t \<in> insert ?l K" if "edge (x # ps) ?l t" "?l \<notin> K" for t
    using that eu [of t] old [of t ?l] old [of s ?l] by (auto simp: sigs pairs_def image_iff)
  show ?thesis
    unfolding cascade_inv_def
  proof (intro conjI)
    show "list_all2 (after (insert ?l K) ?fin R) ps (ps'[i := p''])"
      using after_update [of ps K finished R ps' i "insert ?l K" s p''] i(1) st(1) inv dist by (simp add: cascade_inv_def)
    show "distinct (?fin @ pairs (Q @ sigs))"
      using inv new(1-3) old by (fastforce simp: cascade_inv_def)
    show "\<forall>(s, l)\<in>set (?fin @ pairs (Q @ sigs)). s \<in> insert ?l K \<and> edge (x # ps) s l"
      using old new(1) eu by fastforce
    show "\<forall>s l. s \<in> insert ?l K \<longrightarrow> edge (x # ps) s l \<longrightarrow> (s, l) \<in> set (?fin @ pairs (Q @ sigs)) \<or> l \<in> insert ?l K"
    proof (intro allI impI)
      fix s' t assume "s' \<in> insert ?l K" "edge (x # ps) s' t"
      then show "(s', t) \<in> set (?fin @ pairs (Q @ sigs)) \<or> t \<in> insert ?l K"
        using inv cover [of t] by (cases "s' \<in> K") (auto simp: cascade_inv_def)
    qed
    show "\<forall>(s, l)\<in>set ?fin. \<forall>p\<in>set ps. pid p = l \<longrightarrow> dies R p \<longrightarrow> l \<in> insert ?l K"
      using inv by (auto simp: cascade_inv_def)
  qed (use inv dl new(4) st(2) in \<open>auto simp: cascade_inv_def insert_dead_def\<close>)
qed

lemma process_index:
  assumes "list_all2 (after K finished R) ps ps'"
  shows "process_index_by_pid ps' l = None \<Longrightarrow> \<forall>p\<in>set ps. pid p \<noteq> l"
    "process_index_by_pid ps' l = Some i \<Longrightarrow> i < length ps \<and> pid (ps ! i) = l"
proof -
  have same: "length ps' = length ps" "\<And>j. j < length ps \<Longrightarrow> pid (ps' ! j) = pid (ps ! j)"
    using assms by (auto simp: list_all2_conv_all_nth after_def)
  show "process_index_by_pid ps' l = None \<Longrightarrow> \<forall>p\<in>set ps. pid p \<noteq> l"
  proof -
    have "map pid ps' = map pid ps" using same by (simp add: list_eq_iff_nth_eq)
    then have "pid ` set ps' = pid ` set ps" by (metis list.set_map)
    then show "process_index_by_pid ps' l = None \<Longrightarrow> \<forall>p\<in>set ps. pid p \<noteq> l"
      by (force simp: process_index_by_pid_def)
  qed
  show "process_index_by_pid ps' l = Some i \<Longrightarrow> i < length ps \<and> pid (ps ! i) = l"
    using same by (auto simp: process_index_by_pid_def position_Some_iff)
qed

lemma cascade_inv_final:
  assumes "cascade_inv x ps R K finished ls ps' Q" "distinct (map pid (x # ps))"
    "\<forall>p\<in>set ps. distinct (links p)" "R \<noteq> Kill" "\<forall>q. fits EXIT_TUPLE_WORDS q"
    "cascade fits ls ps' Q = (ls2, ps2)"
  shows "\<exists>K finished. cascade_inv x ps R K finished ls2 ps2 []"
  using assms
proof (induction fits ls ps' Q arbitrary: K finished rule: cascade.induct)
  case (1 fits ls ps')
  then show ?case by auto
next
  case (2 fits ls ps' s l r Q)
  have after: "list_all2 (after K finished R) ps ps'" using "2.prems"(1) by (simp add: cascade_inv_def)
  show ?case
  proof (cases "process_index_by_pid ps' l")
    case None
    then have inv: "cascade_inv x ps R K (finished @ [(s, l)]) ls ps' Q"
      using cascade_inv_skip [OF "2.prems"(1)] process_index(1) [OF after] by blast
    show ?thesis using "2.IH"(1) [OF None inv "2.prems"(2-5)] "2.prems"(6) None by simp
  next
    case (Some i)
    note i = process_index(2) [OF after Some]
    obtain ls1 p1 sigs where step: "signal_step fits s r (ps' ! i) ls = (ls1, p1, sigs)"
      by (cases "signal_step fits s r (ps' ! i) ls") auto
    have inv0: "cascade_inv x ps R K finished ls ps' ((s, pid (ps ! i), r) # Q)" using "2.prems"(1) i by simp
    have "\<exists>K'. cascade_inv x ps R K' (finished @ [(s, pid (ps ! i))]) ls1 (ps'[i := p1]) (Q @ sigs)"
      using cascade_inv_survives [OF inv0 _ _ "2.prems"(2,4,5) step] "2.prems"(3) i
        cascade_inv_killed [OF inv0 _ _ "2.prems"(2) _ "2.prems"(4) step]
      by (cases "dies R (ps ! i)") auto
    then obtain K' where inv: "cascade_inv x ps R K' (finished @ [(s, pid (ps ! i))]) ls1 (ps'[i := p1]) (Q @ sigs)" ..
    show ?thesis
      using "2.IH"(2) [OF Some step [symmetric] refl inv "2.prems"(2-5)] "2.prems"(6) Some step by simp
  qed
qed

lemma cascade_inv_start:
  assumes "distinct (map pid (x # ps))" "distinct (links x)" "mark_exited x reason None ls = (ls1, x1, sigs)"
  shows "cascade_inv x ps (terminal_reason reason) {pid x} [] ls1 ps sigs"
proof -
  have "edge (x # ps) (pid x) l \<longleftrightarrow> l \<in> set (links x)" for l using edge_unique [OF assms(1), of x] by simp
  moreover have "list_all2 (after {pid x} [] (terminal_reason reason)) ps ps"
  proof -
    show ?thesis using distinct_map_Cons_neq [OF assms(1)] by (simp add: list_all2_same after_def)
  qed
  ultimately show ?thesis
    using assms dying.root
    by (auto simp: cascade_inv_def mark_exited_def process_ops Let_def insert_dead_def pairs_def o_def distinct_map image_image
        intro!: inj_onI)
qed

lemma cascade_inv_closed:
  assumes "cascade_inv x ps R K finished ls ps' []" "distinct (map pid (x # ps))"
  shows "K = dying R x ps" "set finished = {(s, l). s \<in> dying R x ps \<and> edge (x # ps) s l \<and> (s, l) \<in> set finished}"
    "s \<in> dying R x ps \<Longrightarrow> edge (x # ps) s l \<Longrightarrow> l \<notin> dying R x ps \<Longrightarrow> (s, l) \<in> set finished"
proof -
  have "k \<in> K" if "k \<in> dying R x ps" for k
    using that
  proof induction
    case root
    then show ?case using assms(1) by (simp add: cascade_inv_def)
  next
    case (linked q p)
    then have "edge (x # ps) (pid q) (pid p)" by (auto simp: edge_def)
    with linked assms(1) show ?case unfolding cascade_inv_def by fastforce
  qed
  then show K: "K = dying R x ps" using assms(1) by (auto simp: cascade_inv_def)
  show "set finished = {(s, l). s \<in> dying R x ps \<and> edge (x # ps) s l \<and> (s, l) \<in> set finished}"
    using assms(1) unfolding K by (auto simp: cascade_inv_def)
  show "s \<in> dying R x ps \<Longrightarrow> edge (x # ps) s l \<Longrightarrow> l \<notin> dying R x ps \<Longrightarrow> (s, l) \<in> set finished"
    using assms(1) unfolding K by (fastforce simp: cascade_inv_def)
qed

lemma process_exited_after:
  assumes "distinct (map pid (x # ps))" "\<forall>p\<in>set (x # ps). distinct (links p)"
    "\<forall>q. fits EXIT_TUPLE_WORDS q" "process_exited fits x ps reason ls = (ls', x', ps')"
  defines "R \<equiv> terminal_reason reason"
  obtains finished where "list_all2 (after (dying R x ps) finished R) ps ps'" "distinct finished"
    "\<And>s l. l \<notin> dying R x ps \<Longrightarrow> (s, l) \<in> set finished \<longleftrightarrow> s \<in> dying R x ps \<and> edge (x # ps) s l"
    "\<forall>k\<in>dying R x ps. ls_dead ls' k = Some R" "x' = x\<lparr>links := [], status := Exited R, inbox := []\<rparr>"
proof -
  obtain ls1 sigs where m: "mark_exited x reason None ls = (ls1, x', sigs)" "cascade fits ls1 ps sigs = (ls', ps')"
    using assms(4) by (auto simp: process_exited_def split: prod.splits)
  have R: "R \<noteq> Kill" unfolding R_def by (cases reason) (simp_all add: terminal_reason_def)
  have "cascade_inv x ps R {pid x} [] ls1 ps sigs"
    unfolding R_def using cascade_inv_start [OF assms(1) _ m(1)] assms(2) by simp
  from cascade_inv_final [OF this assms(1) _ R assms(3) m(2)] assms(2)
  obtain K finished where inv: "cascade_inv x ps R K finished ls' ps' []" by auto
  note closed = cascade_inv_closed [OF inv assms(1)]
  show thesis
  proof (rule that)
    show "list_all2 (after (dying R x ps) finished R) ps ps'" "distinct finished"
      "\<forall>k\<in>dying R x ps. ls_dead ls' k = Some R" using inv by (simp_all add: cascade_inv_def closed(1))
    show "x' = x\<lparr>links := [], status := Exited R, inbox := []\<rparr>"
      using m(1) by (auto simp: mark_exited_def process_ops Let_def R_def)
  qed (use closed(2,3) in auto)
qed

text \<open>
  C2. An exit kills exactly the processes reached from it through links that pass only through
  processes not trapping exits, and nobody when the reason is normal: each victim ends exited with the terminal reason
  (\<open>kill\<close> becomes \<open>killed\<close>), with no links left and a recorded tombstone. Every other process
  keeps its status, loses exactly the links whose other end died and listed it, and, when it traps
  exits, receives exactly one exit message from each of those, whatever the order of delivery.
\<close>

theorem exit_cascade_exact:
  assumes "distinct (map pid (x # ps))" "\<forall>p\<in>set (x # ps). distinct (links p)"
    "\<forall>q. fits EXIT_TUPLE_WORDS q" "process_exited fits x ps reason ls = (ls', x', ps')"
  shows "status x' = Exited (terminal_reason reason) \<and> links x' = [] \<and>
    ls_dead ls' (pid x) = Some (terminal_reason reason) \<and> length ps' = length ps \<and>
    (\<forall>i<length ps.
       if pid (ps ! i) \<in> dying (terminal_reason reason) x ps then
         status (ps' ! i) = Exited (terminal_reason reason) \<and> links (ps' ! i) = [] \<and>
         ls_dead ls' (pid (ps ! i)) = Some (terminal_reason reason)
       else
         status (ps' ! i) = status (ps ! i) \<and>
         links (ps' ! i) = filter (\<lambda>q. \<not> (q \<in> dying (terminal_reason reason) x ps \<and> edge (x # ps) q (pid (ps ! i)))) (links (ps ! i)) \<and>
         (\<exists>new. inbox (ps' ! i) = inbox (ps ! i) @ new \<and> distinct new \<and>
            set new = {ExitMessage s (terminal_reason reason) | s.
              trap_exit (ps ! i) \<and> s \<in> dying (terminal_reason reason) x ps \<and> edge (x # ps) s (pid (ps ! i))}))"
proof -
  let ?R = "terminal_reason reason" and ?D = "dying (terminal_reason reason) x ps"
  from process_exited_after [OF assms] obtain finished where
    after: "list_all2 (after ?D finished ?R) ps ps'" and fin: "distinct finished"
    and finished: "\<And>s l. l \<notin> ?D \<Longrightarrow> (s, l) \<in> set finished \<longleftrightarrow> s \<in> ?D \<and> edge (x # ps) s l"
    and dead: "\<forall>k\<in>?D. ls_dead ls' k = Some ?R" and x': "x' = x\<lparr>links := [], status := Exited ?R, inbox := []\<rparr>"
    by blast
  have "\<exists>new. inbox (ps' ! i) = inbox (ps ! i) @ new \<and> distinct new \<and>
      set new = {ExitMessage s ?R | s. trap_exit (ps ! i) \<and> s \<in> ?D \<and> edge (x # ps) s (pid (ps ! i))}"
    if i: "i < length ps" "pid (ps ! i) \<notin> ?D" for i
  proof (cases "trap_exit (ps ! i)")
    case True
    let ?new = "map (\<lambda>(s, _). ExitMessage s ?R) (filter (\<lambda>(_, l). l = pid (ps ! i)) finished)"
    have "set ?new = {ExitMessage s ?R | s. s \<in> ?D \<and> edge (x # ps) s (pid (ps ! i))}"
      using finished [OF i(2)] by (auto simp: image_iff)
    moreover have "distinct ?new" using fin by (auto simp: distinct_map inj_on_def)
    moreover have "inbox (ps' ! i) = inbox (ps ! i) @ ?new"
      using after i True by (simp add: list_all2_conv_all_nth after_def)
    ultimately show ?thesis using True by auto
  qed (use after i in \<open>simp add: list_all2_conv_all_nth after_def\<close>)
  then show ?thesis
    using after dead dying.root [of x ?R ps] finished x'
    by (auto simp: list_all2_conv_all_nth after_def intro: filter_cong)
qed

theorem exit_cascade_exact_witness:
  "\<exists>ls' x' a b. process_exited (\<lambda>_ _. True) ((process_new 1)\<lparr>links := [2]\<rparr>)
       [(process_new 2)\<lparr>links := [1, 3]\<rparr>, (process_new 3)\<lparr>links := [2], trap_exit := True\<rparr>] Kill linkset_new =
       (ls', x', [a, b]) \<and>
     status a = Exited Killed \<and> status b = New \<and> inbox b = [ExitMessage 2 Killed] \<and> links b = []"
proof -
  let ?x = "(process_new 1)\<lparr>links := [2]\<rparr>"
  let ?ps = "[(process_new 2)\<lparr>links := [1, 3]\<rparr>, (process_new 3)\<lparr>links := [2], trap_exit := True\<rparr>]"
  obtain ls' x' a b where
    ex: "process_exited (\<lambda>_ _. True) ?x ?ps Kill linkset_new = (ls', x', [a, b])" "inbox b = [ExitMessage 2 Killed]"
    by (simp add: process_exited_def mark_exited_def process_ops process_new_def terminal_reason_def Let_def
        process_index_by_pid_def signal_step_def should_die_from_signal_def deliver_exit_signal_def
        transition_to_def enqueue_exit_message_def)
  have d: "2 \<in> dying Killed ?x ?ps"
    using dying.linked [of ?x ?x ?ps Killed "?ps ! 0"] dying.root [of ?x Killed ?ps]
    by (simp add: process_new_def dies_def)
  have nd: "3 \<notin> dying Killed ?x ?ps"
    using dying_dies [of 3 Killed ?x ?ps "?ps ! 1"] by (auto simp: process_new_def dies_def)
  have *: "if pid (?ps ! i) \<in> dying Killed ?x ?ps then status ([a, b] ! i) = Exited Killed else
      status ([a, b] ! i) = status (?ps ! i) \<and> links ([a, b] ! i) =
        filter (\<lambda>q. \<not> (q \<in> dying Killed ?x ?ps \<and> edge (?x # ?ps) q (pid (?ps ! i)))) (links (?ps ! i))" if "i < 2" for i
    using exit_cascade_exact [OF _ _ _ ex(1)] that by (simp add: process_new_def terminal_reason_def split: if_splits)
  have "edge (?x # ?ps) 2 3" by (simp add: edge_def process_new_def)
  with * [of 0] * [of 1] d nd have "status a = Exited Killed" "status b = New" "links b = []"
    by (simp_all add: process_new_def)
  with ex show ?thesis by auto
qed

section \<open>Symmetry\<close>

text \<open>Every process lists exactly the processes that list it; no process lists itself or anyone twice.\<close>

definition links_symmetric :: "Process list \<Rightarrow> bool" where
  "links_symmetric ps \<longleftrightarrow> distinct (map pid ps) \<and>
     (\<forall>p\<in>set ps. distinct (links p) \<and> pid p \<notin> set (links p)) \<and>
     (\<forall>p\<in>set ps. \<forall>q\<in>set ps. pid q \<in> set (links p) \<longrightarrow> pid p \<in> set (links q))"

lemma links_symmetricI:
  assumes "distinct (map pid ps)" "\<And>p. p \<in> set ps \<Longrightarrow> distinct (links p) \<and> pid p \<notin> set (links p)"
    "\<And>p q. p \<in> set ps \<Longrightarrow> q \<in> set ps \<Longrightarrow> pid q \<in> set (links p) \<Longrightarrow> pid p \<in> set (links q)"
  shows "links_symmetric ps"
  using assms unfolding links_symmetric_def by blast

lemma links_symmetricD:
  assumes "links_symmetric ps" "p \<in> set ps"
  shows "distinct (map pid ps)" "distinct (links p)" "pid p \<notin> set (links p)"
    "q \<in> set ps \<Longrightarrow> pid q \<in> set (links p) \<Longrightarrow> pid p \<in> set (links q)"
  using assms unfolding links_symmetric_def by blast+

lemma add_link_facts:
  "set (links (snd (add_link q p))) = (if q = pid p then set (links p) else insert q (set (links p)))"
  "distinct (links (snd (add_link q p))) = distinct (links p)" "pid (snd (add_link q p)) = pid p"
  by (auto simp: add_link_def)

lemma remove_link_facts:
  "set (links (snd (remove_link q p))) = set (links p) - {q}"
  "distinct (links p) \<Longrightarrow> distinct (links (snd (remove_link q p)))" "pid (snd (remove_link q p)) = pid p"
  by (auto simp: remove_link_def Let_def)

text \<open>Two processes whose lists change only by each other's pid, in the same way on both sides.\<close>

lemma symmetric_pair:
  assumes sym: "links_symmetric (l # r # ps)" and pid: "pid l' = pid l" "pid r' = pid r"
    and dist: "distinct (links l')" "distinct (links r')"
    and same: "\<And>q. q \<noteq> pid r \<Longrightarrow> q \<in> set (links l') \<longleftrightarrow> q \<in> set (links l)"
      "\<And>q. q \<noteq> pid l \<Longrightarrow> q \<in> set (links r') \<longleftrightarrow> q \<in> set (links r)"
    and both: "pid r \<in> set (links l') \<longleftrightarrow> pid l \<in> set (links r')"
  shows "links_symmetric (l' # r' # ps)"
proof -
  note D = links_symmetricD [OF sym]
  have ne: "pid l \<noteq> pid r" "pid q \<noteq> pid l" "pid q \<noteq> pid r" if "q \<in> set ps" for q
  proof -
    have "distinct (map pid (l # r # ps))" "distinct (map pid (r # ps))" using D(1) [of l] by auto
    from distinct_map_Cons_neq [OF this(1)] distinct_map_Cons_neq [OF this(2)] that
    show "pid l \<noteq> pid r" "pid q \<noteq> pid l" "pid q \<noteq> pid r" by (force, auto)
  qed
  have lr: "pid l \<noteq> pid r" using D(1) [of l] by simp
  show ?thesis
  proof (rule links_symmetricI)
    show "distinct (map pid (l' # r' # ps))" using D(1) [of l] pid by simp
    show "distinct (links p) \<and> pid p \<notin> set (links p)" if "p \<in> set (l' # r' # ps)" for p
      using that D(2,3) [of p] D(3) [of l] D(3) [of r] lr pid dist same by auto
    have mutual: "pid q \<in> set (links p) \<longleftrightarrow> pid p \<in> set (links q)" if "p \<in> {l, r}" "q \<in> set ps" for p q
    proof
      show "pid q \<in> set (links p) \<Longrightarrow> pid p \<in> set (links q)" by (rule D(4)) (use that in auto)
      show "pid p \<in> set (links q) \<Longrightarrow> pid q \<in> set (links p)" by (rule D(4)) (use that in auto)
    qed
    have l': "pid q \<in> set (links l') \<longleftrightarrow> pid l \<in> set (links q)" if "q \<in> set ps" for q
      using same(1) [of "pid q"] ne [OF that] mutual [of l q] that by simp
    have r': "pid q \<in> set (links r') \<longleftrightarrow> pid r \<in> set (links q)" if "q \<in> set ps" for q
      using same(2) [of "pid q"] ne [OF that] mutual [of r q] that by simp
    have refl: "pid l \<notin> set (links l')" "pid r \<notin> set (links r')"
      using same(1) [of "pid l"] same(2) [of "pid r"] lr D(3) [of l] D(3) [of r] by auto
    show "pid p \<in> set (links q)" if p: "p \<in> set (l' # r' # ps)" and q: "q \<in> set (l' # r' # ps)"
      and pq: "pid q \<in> set (links p)" for p q
    proof -
      consider "p \<in> {l', r'}" "q \<in> {l', r'}" | "p \<in> {l', r'}" "q \<in> set ps" | "p \<in> set ps" "q \<in> {l', r'}"
        | "p \<in> set ps" "q \<in> set ps" using p q by auto
      then show ?thesis
      proof cases
        case 1
        then show ?thesis using pq refl both pid by auto
      next
        case 2
        then show ?thesis using pq l' r' pid by auto
      next
        case 3
        then show ?thesis using pq l' r' pid by auto
      next
        case 4
        then show ?thesis using pq D(4) [of p q] by simp
      qed
    qed
  qed
qed

lemma link_symmetric:
  assumes "links_symmetric (l # r # ps)"
  shows "links_symmetric (fst (link l r) # snd (link l r) # ps)"
    "links_symmetric (fst (unlink l r) # snd (unlink l r) # ps)"
proof -
  have *: "pid l \<noteq> pid r" "distinct (links l)" "distinct (links r)" using assms by (auto simp: links_symmetric_def)
  show "links_symmetric (fst (link l r) # snd (link l r) # ps)"
    by (rule symmetric_pair [OF assms]) (use * in \<open>simp_all add: link_def add_link_facts\<close>)
  show "links_symmetric (fst (unlink l r) # snd (unlink l r) # ps)"
    by (rule symmetric_pair [OF assms]) (use * in \<open>simp_all add: unlink_def remove_link_facts\<close>)
qed

lemma symmetric_prune:
  assumes sym: "links_symmetric ps"
    and pruned: "list_all2 (\<lambda>p p'. pid p' = pid p \<and>
      links p' = (if pid p \<in> D then [] else filter (\<lambda>q. q \<notin> D) (links p))) ps ps'"
  shows "links_symmetric ps'"
proof -
  have origin: "\<exists>p\<in>set ps. pid p' = pid p \<and> links p' = (if pid p \<in> D then [] else filter (\<lambda>q. q \<notin> D) (links p))"
    if mem: "p' \<in> set ps'" for p'
  proof -
    obtain i where i: "i < length ps'" "p' = ps' ! i" using mem by (auto simp: in_set_conv_nth)
    then show ?thesis
      using list_all2_nthD2 [OF pruned i(1)] list_all2_lengthD [OF pruned] by (intro bexI [of _ "ps ! i"]) auto
  qed
  note D = links_symmetricD [OF sym]
  show ?thesis
  proof (rule links_symmetricI)
    have "map pid ps' = map pid ps"
      using pruned by (auto simp: list_all2_conv_all_nth intro: nth_equalityI)
    then show "distinct (map pid ps')" using sym by (simp add: links_symmetric_def)
    show "distinct (links p') \<and> pid p' \<notin> set (links p')" if "p' \<in> set ps'" for p'
      using origin [OF that] D(2,3) by (auto split: if_splits)
    show "pid p' \<in> set (links q')" if mem: "p' \<in> set ps'" "q' \<in> set ps'" and pq: "pid q' \<in> set (links p')" for p' q'
    proof -
      have pruned_set: "\<exists>p\<in>set ps. pid p' = pid p \<and> set (links p') = (if pid p \<in> D then {} else set (links p) - D)"
        if "p' \<in> set ps'" for p'
        using origin [OF that] by force
      obtain p where p: "p \<in> set ps" "pid p' = pid p" "set (links p') = (if pid p \<in> D then {} else set (links p) - D)"
        using pruned_set [OF mem(1)] by blast
      obtain q where q: "q \<in> set ps" "pid q' = pid q" "set (links q') = (if pid q \<in> D then {} else set (links q) - D)"
        using pruned_set [OF mem(2)] by blast
      have "pid p \<notin> D" "pid q \<notin> D" "pid q \<in> set (links p)" using pq p q by (auto split: if_splits)
      with D(4) [OF p(1) q(1)] p q show ?thesis by simp
    qed
  qed
qed

lemma dying_members: "k \<in> dying R x ps \<Longrightarrow> \<exists>p\<in>set (x # ps). pid p = k"
  by (induction rule: dying.induct) auto

lemma exit_symmetric:
  assumes sym: "links_symmetric (x # ps)" and "\<forall>q. fits EXIT_TUPLE_WORDS q"
    and ex: "process_exited fits x ps reason ls = (ls', x', ps')"
  shows "links_symmetric (x' # ps')"
proof -
  let ?R = "terminal_reason reason" let ?D = "dying ?R x ps"
  have wf: "distinct (map pid (x # ps))" "\<forall>p\<in>set (x # ps). distinct (links p)"
    using sym by (auto simp: links_symmetric_def)
  from process_exited_after [OF wf assms(2) ex] obtain finished where
    after: "list_all2 (after ?D finished ?R) ps ps'"
    and finished: "\<And>s l. l \<notin> ?D \<Longrightarrow> (s, l) \<in> set finished \<longleftrightarrow> s \<in> ?D \<and> edge (x # ps) s l"
    and x': "x' = x\<lparr>links := [], status := Exited ?R, inbox := []\<rparr>" by blast
  have listed: "edge (x # ps) q (pid p)" if "q \<in> ?D" "q \<in> set (links p)" "p \<in> set ps" for p q
    using dying_members [OF that(1)] that links_symmetricD(4) [OF sym, of p] unfolding edge_def by auto
  have "links p' = (if pid p \<in> ?D then [] else filter (\<lambda>q. q \<notin> ?D) (links p))"
    if "after ?D finished ?R p p'" "p \<in> set ps" for p p'
    using that finished [of "pid p"] listed [of _ p] by (auto simp: after_def intro!: filter_cong)
  then have "list_all2 (\<lambda>p p'. pid p' = pid p \<and>
      links p' = (if pid p \<in> ?D then [] else filter (\<lambda>q. q \<notin> ?D) (links p))) (x # ps) (x' # ps')"
    using x' dying.root [of x ?R ps] list.rel_mono_strong [OF after] by (simp add: after_def)
  then show ?thesis by (rule symmetric_prune [OF sym])
qed

text \<open>
  C26. Links stay symmetric: linking and unlinking two processes and the exit of a process with its
  whole cascade keep the invariant that pids are distinct, no process lists itself or lists
  another twice, and a process lists another exactly when that one lists it.
\<close>

theorem supervision_keeps_links_symmetric:
  "(links_symmetric (l # r # ps) \<longrightarrow>
      links_symmetric (fst (link l r) # snd (link l r) # ps) \<and>
      links_symmetric (fst (unlink l r) # snd (unlink l r) # ps)) \<and>
   (links_symmetric (x # ps) \<longrightarrow> (\<forall>q. fits EXIT_TUPLE_WORDS q) \<longrightarrow>
      process_exited fits x ps reason ls = (ls', x', ps') \<longrightarrow> links_symmetric (x' # ps'))"
  using link_symmetric exit_symmetric by blast

theorem supervision_keeps_links_symmetric_witness:
  "links_symmetric [fst (link (process_new 1) (process_new 2)), snd (link (process_new 1) (process_new 2))] \<and>
   links (fst (link (process_new 1) (process_new 2))) = [2]"
proof -
  have "links_symmetric [process_new 1, process_new 2]" by (simp add: links_symmetric_def process_new_def)
  with supervision_keeps_links_symmetric [of "process_new 1" "process_new 2" "[]"] show ?thesis
    by (auto simp: link_def add_link_def process_new_def)
qed

text \<open>
  C38. When the heap cannot hold an exit message the trapping receiver dies silently: it ends
  exited with reason \<open>error\<close> and a tombstone, yet it keeps its links and no signal is sent to the
  processes linked to it, so the cascade stops there.
\<close>

theorem exit_message_failure_stops_cascade:
  assumes "trap_exit p" "r \<noteq> Kill" "\<not> fits EXIT_TUPLE_WORDS (snd (remove_link s p))"
  shows "signal_step fits s r p ls =
    (insert_dead (pid p) Error ls, (snd (remove_link s p))\<lparr>status := Exited Error, inbox := []\<rparr>, [])"
  using assms by (simp add: signal_step_def Let_def should_die_from_signal_def deliver_exit_signal_def
      enqueue_exit_message_def process_ops)

theorem exit_message_failure_stops_cascade_witness:
  "snd (snd (signal_step (\<lambda>_ _. False) 1 Error ((process_new 2)\<lparr>trap_exit := True, links := [1, 3]\<rparr>) linkset_new)) = [] \<and>
   links (fst (snd (signal_step (\<lambda>_ _. False) 1 Error ((process_new 2)\<lparr>trap_exit := True, links := [1, 3]\<rparr>) linkset_new))) = [3]"
  using exit_message_failure_stops_cascade [of "(process_new 2)\<lparr>trap_exit := True, links := [1, 3]\<rparr>" Error "\<lambda>_ _. False" 1 linkset_new]
  by (simp add: process_new_def remove_link_def)

end
