(* ===== verification/Monitors.thy ===== *)
theory Monitors
  imports Links
begin

text \<open>
  Process monitors (\<^verbatim>\<open>crates/beamr/src/supervision/monitor.rs\<close>). The registry keeps the monitors in
  registration order and an index from each target to its references. Abstractly it is a map from
  references to monitors (\<open>active\<close>); the locale \<open>monitor_registry\<close> states what the scheduler relies
  on, and its interpretation discharges it for the indexed lists. \<open>fits\<close> is the heap reservation
  of \<^verbatim>\<open>gc::ensure_space\<close>, as for links. A reference is allocated by a saturating counter.
\<close>

section \<open>Definitions\<close>

record MonitorSet =
  next_reference :: u64
  ms_monitors :: "Monitor list"
  by_target :: "u64 \<rightharpoonup> u64 list"
  ms_dead :: "u64 \<rightharpoonup> ExitReason"

definition monitorset_new :: MonitorSet where
  "monitorset_new = \<lparr>next_reference = 0, ms_monitors = [], by_target = Map.empty, ms_dead = Map.empty\<rparr>"

definition record_dead :: "u64 \<Rightarrow> ExitReason \<Rightarrow> MonitorSet \<Rightarrow> MonitorSet" where
  "record_dead p reason ms = ms\<lparr>ms_dead := (ms_dead ms)(p \<mapsto> reason)\<rparr>"

definition allocate_reference :: "MonitorSet \<Rightarrow> u64 \<times> MonitorSet" where
  "allocate_reference ms =
     (next_reference ms, ms\<lparr>next_reference := saturating_add_u64 (next_reference ms) 1\<rparr>)"

text \<open>\<open>entry(target).or_default().push(reference)\<close> on the index.\<close>

definition index_push :: "u64 \<Rightarrow> u64 \<Rightarrow> MonitorSet \<Rightarrow> MonitorSet" where
  "index_push t r ms =
     ms\<lparr>by_target := (by_target ms)(t \<mapsto> (case by_target ms t of None \<Rightarrow> [] | Some rs \<Rightarrow> rs) @ [r])\<rparr>"

text \<open>Retain the other references of the target and drop an entry that has become empty.\<close>

definition index_remove :: "u64 \<Rightarrow> u64 \<Rightarrow> MonitorSet \<Rightarrow> MonitorSet" where
  "index_remove t r ms =
     (case by_target ms t of
        None \<Rightarrow> ms
      | Some rs \<Rightarrow>
          let rs = filter (\<lambda>seen. seen \<noteq> r) rs
          in if rs = [] then ms\<lparr>by_target := (by_target ms)(t := None)\<rparr>
             else ms\<lparr>by_target := (by_target ms)(t \<mapsto> rs)\<rparr>)"

definition remove_monitor_entry :: "u64 \<Rightarrow> MonitorSet \<Rightarrow> Monitor option \<times> MonitorSet" where
  "remove_monitor_entry r ms =
     (case position (\<lambda>m. mon_reference m = r) (ms_monitors ms) of
        None \<Rightarrow> (None, ms)
      | Some i \<Rightarrow> (Some (ms_monitors ms ! i), ms\<lparr>ms_monitors := vec_remove i (ms_monitors ms)\<rparr>))"

definition get_monitor :: "u64 \<Rightarrow> MonitorSet \<Rightarrow> Monitor option" where
  "get_monitor r ms = find (\<lambda>m. mon_reference m = r) (ms_monitors ms)"

definition ms_remove_monitor :: "u64 \<Rightarrow> MonitorSet \<Rightarrow> MonitorSet" where
  "ms_remove_monitor r ms =
     (case remove_monitor_entry r ms of
        (Some m, ms) \<Rightarrow> index_remove (mon_target m) r ms
      | (None, ms) \<Rightarrow> ms)"

definition register_monitor :: "u64 \<Rightarrow> Monitor \<Rightarrow> u64 \<Rightarrow> MonitorSet \<Rightarrow> MonitorSet" where
  "register_monitor r m target_pid ms =
     (let ms = (if get_monitor r ms \<noteq> None then ms_remove_monitor r ms else ms);
          ms = ms\<lparr>ms_monitors := ms_monitors ms @ [m]\<rparr>
      in index_push target_pid r ms)"

definition DOWN_MESSAGE_WORDS :: nat where
  "DOWN_MESSAGE_WORDS = 8"

definition enqueue_down_message ::
  "heap_fits \<Rightarrow> Process \<Rightarrow> u64 \<Rightarrow> u64 \<Rightarrow> ExitReason \<Rightarrow> unit + Process" where
  "enqueue_down_message fits watcher r target_pid reason =
     (if fits DOWN_MESSAGE_WORDS watcher then Inr (push_message (DownMessage r target_pid reason) watcher)
      else Inl ())"

definition enqueue_down_message_pub ::
  "heap_fits \<Rightarrow> Process \<Rightarrow> u64 \<Rightarrow> u64 \<Rightarrow> ExitReason \<Rightarrow> Process" where
  "enqueue_down_message_pub fits watcher r target_pid reason =
     (case enqueue_down_message fits watcher r target_pid reason of
        Inr watcher \<Rightarrow> watcher
      | Inl _ \<Rightarrow> terminate Error watcher)"

definition monitor ::
  "Process \<Rightarrow> Process \<Rightarrow> MonitorSet \<Rightarrow> u64 \<times> Process \<times> Process \<times> MonitorSet" where
  "monitor watcher target ms =
     (let (r, ms) = allocate_reference ms;
          m = \<lparr>mon_reference = r, mon_watcher = pid watcher, mon_target = pid target\<rparr>
      in (r, add_monitor m watcher, add_monitor m target,
          index_push (pid target) r (ms\<lparr>ms_monitors := ms_monitors ms @ [m]\<rparr>)))"

definition monitor_pid ::
  "heap_fits \<Rightarrow> Process \<Rightarrow> u64 \<Rightarrow> MonitorSet \<Rightarrow> u64 \<times> Process \<times> MonitorSet" where
  "monitor_pid fits watcher target_pid ms =
     (let (r, ms) = allocate_reference ms
      in case ms_dead ms target_pid of
           Some reason \<Rightarrow> (r, enqueue_down_message_pub fits watcher r target_pid reason, ms)
         | None \<Rightarrow>
             let m = \<lparr>mon_reference = r, mon_watcher = pid watcher, mon_target = target_pid\<rparr>
             in (r, add_monitor m watcher, index_push target_pid r (ms\<lparr>ms_monitors := ms_monitors ms @ [m]\<rparr>)))"

definition demonitor ::
  "u64 \<Rightarrow> Process list \<Rightarrow> MonitorSet \<Rightarrow> Monitor option \<times> Process list \<times> MonitorSet" where
  "demonitor r ps ms =
     (case remove_monitor_entry r ms of
        (None, ms) \<Rightarrow> (None, ps, ms)
      | (Some m, ms) \<Rightarrow> (Some m, map (\<lambda>p. snd (remove_monitor r p)) ps, index_remove (mon_target m) r ms))"

text \<open>The body of the loop of \<open>process_exited\<close> for one removed monitor.\<close>

definition notify_watcher ::
  "heap_fits \<Rightarrow> u64 \<Rightarrow> ExitReason \<Rightarrow> u64 \<Rightarrow> Monitor \<Rightarrow> Process list \<Rightarrow> Process list" where
  "notify_watcher fits target_pid reason r m ps =
     (let ps = (case process_index_by_pid ps (mon_watcher m) of
                  None \<Rightarrow> ps
                | Some i \<Rightarrow>
                    ps[i := enqueue_down_message_pub fits (snd (remove_monitor r (ps ! i))) r target_pid reason])
      in case process_index_by_pid ps target_pid of
           None \<Rightarrow> ps
         | Some i \<Rightarrow> ps[i := snd (remove_monitor r (ps ! i))])"

fun notify_loop ::
  "heap_fits \<Rightarrow> u64 \<Rightarrow> ExitReason \<Rightarrow> u64 list \<Rightarrow> MonitorSet \<Rightarrow> Process list \<Rightarrow> MonitorSet \<times> Process list" where
  "notify_loop fits target_pid reason [] ms ps = (ms, ps)"
| "notify_loop fits target_pid reason (r # rs) ms ps =
     (case remove_monitor_entry r ms of
        (None, ms) \<Rightarrow> notify_loop fits target_pid reason rs ms ps
      | (Some m, ms) \<Rightarrow> notify_loop fits target_pid reason rs ms (notify_watcher fits target_pid reason r m ps))"

text \<open>\<open>by_target.remove(&target_pid).unwrap_or_default()\<close>.\<close>

definition take_references :: "u64 \<Rightarrow> MonitorSet \<Rightarrow> u64 list \<times> MonitorSet" where
  "take_references t ms =
     (case by_target ms t of None \<Rightarrow> [] | Some rs \<Rightarrow> rs, ms\<lparr>by_target := (by_target ms)(t := None)\<rparr>)"

definition monitored_process_exited ::
  "heap_fits \<Rightarrow> u64 \<Rightarrow> ExitReason \<Rightarrow> Process list \<Rightarrow> MonitorSet \<Rightarrow> MonitorSet \<times> Process list" where
  "monitored_process_exited fits target_pid reason ps ms =
     (let ms = record_dead target_pid reason ms;
          (references, ms) = take_references target_pid ms
      in notify_loop fits target_pid reason references ms ps)"

fun collect_loop :: "u64 list \<Rightarrow> MonitorSet \<Rightarrow> (u64 \<times> u64) list \<times> MonitorSet" where
  "collect_loop [] ms = ([], ms)"
| "collect_loop (r # rs) ms =
     (case remove_monitor_entry r ms of
        (None, ms) \<Rightarrow> collect_loop rs ms
      | (Some m, ms) \<Rightarrow> (let (ws, ms) = collect_loop rs ms in ((mon_watcher m, r) # ws, ms)))"

definition collect_watchers_and_remove ::
  "u64 \<Rightarrow> ExitReason \<Rightarrow> MonitorSet \<Rightarrow> (u64 \<times> u64) list \<times> MonitorSet" where
  "collect_watchers_and_remove target_pid reason ms =
     (let ms = record_dead target_pid reason ms;
          (references, ms) = take_references target_pid ms
      in collect_loop references ms)"

section \<open>Invariant and abstraction\<close>

text \<open>References are distinct and below the counter, and the index lists each target's monitors in order.\<close>

definition targeting :: "u64 \<Rightarrow> MonitorSet \<Rightarrow> Monitor list" where
  "targeting t ms = filter (\<lambda>m. mon_target m = t) (ms_monitors ms)"

definition monset_ok :: "MonitorSet \<Rightarrow> bool" where
  "monset_ok ms \<longleftrightarrow> distinct (map mon_reference (ms_monitors ms)) \<and>
     (\<forall>t. by_target ms t =
       (if targeting t ms = [] then None else Some (map mon_reference (targeting t ms))))"

definition active :: "MonitorSet \<Rightarrow> u64 \<rightharpoonup> Monitor" where
  "active ms = map_of (map (\<lambda>m. (mon_reference m, m)) (ms_monitors ms))"

text \<open>References below the counter stay fresh for every later allocation.\<close>

definition references_below :: "MonitorSet \<Rightarrow> bool" where
  "references_below ms \<longleftrightarrow> (\<forall>m\<in>set (ms_monitors ms). mon_reference m < next_reference ms)"

lemma vec_remove_filter:
  assumes "distinct (map f xs)" "position (\<lambda>x. f x = r) xs = Some i"
  shows "vec_remove i xs = filter (\<lambda>x. f x \<noteq> r) xs"
  using assms
proof (induction xs arbitrary: i)
  case (Cons x xs)
  show ?case
  proof (cases "f x = r")
    case True
    then have "filter (\<lambda>x. f x \<noteq> r) xs = xs" using distinct_map_Cons_neq [OF Cons.prems(1)] by simp
    then show ?thesis using True Cons.prems(2) by (simp add: vec_remove_def)
  next
    case False
    with Cons.prems(2) obtain j where "position (\<lambda>x. f x = r) xs = Some j" "i = Suc j" by (auto split: option.splits)
    with Cons False show ?thesis by (simp add: vec_remove_def)
  qed
qed simp

lemma remove_monitor_entry_eq:
  assumes "distinct (map mon_reference (ms_monitors ms))"
  shows "remove_monitor_entry r ms =
    (active ms r, ms\<lparr>ms_monitors := filter (\<lambda>m. mon_reference m \<noteq> r) (ms_monitors ms)\<rparr>)"
proof (cases "position (\<lambda>m. mon_reference m = r) (ms_monitors ms)")
  case None
  then have "\<forall>m\<in>set (ms_monitors ms). mon_reference m \<noteq> r" by simp
  then have "active ms r = None" "filter (\<lambda>m. mon_reference m \<noteq> r) (ms_monitors ms) = ms_monitors ms"
    by (auto simp: active_def map_of_eq_None_iff filter_id_conv)
  with None show ?thesis by (simp add: remove_monitor_entry_def del: position_None_iff)
next
  case (Some i)
  then have i: "i < length (ms_monitors ms)" "mon_reference (ms_monitors ms ! i) = r"
    by (simp_all add: position_Some_iff)
  have "active ms r = Some (ms_monitors ms ! i)"
    unfolding active_def using assms i by (intro map_of_is_SomeI) (auto simp: o_def)
  with Some vec_remove_filter [OF assms Some] show ?thesis by (simp add: remove_monitor_entry_def)
qed

lemma active_filter:
  assumes "distinct (map mon_reference (ms_monitors ms))"
  shows "active (ms\<lparr>ms_monitors := filter P (ms_monitors ms)\<rparr>) r =
    (case active ms r of None \<Rightarrow> None | Some m \<Rightarrow> if P m then Some m else None)"
proof -
  have "map_of (map (\<lambda>m. (mon_reference m, m)) (filter P ms')) r =
      (case map_of (map (\<lambda>m. (mon_reference m, m)) ms') r of None \<Rightarrow> None | Some m \<Rightarrow> if P m then Some m else None)"
    if "distinct (map mon_reference ms')" for ms'
    using that
  proof (induction ms')
    case (Cons m ms')
    then have "mon_reference m = r \<Longrightarrow> map_of (map (\<lambda>m. (mon_reference m, m)) ms') r = None"
      by (force simp: map_of_eq_None_iff)
    with Cons show ?case by (auto split: option.splits)
  qed simp
  from this [OF assms] show ?thesis by (simp add: active_def)
qed

lemma active_reference: "active ms r = Some m \<Longrightarrow> mon_reference m = r"
  by (auto simp: active_def dest!: map_of_SomeD)

lemma active_Some:
  assumes "distinct (map mon_reference (ms_monitors ms))"
  shows "active ms r = Some m \<longleftrightarrow> m \<in> set (ms_monitors ms) \<and> mon_reference m = r"
  using assms by (auto simp: active_def map_of_eq_Some_iff o_def)

lemma monset_okD:
  assumes "monset_ok ms"
  shows "distinct (map mon_reference (ms_monitors ms))"
    "by_target ms t = (if targeting t ms = [] then None else Some (map mon_reference (targeting t ms)))"
  using assms by (simp_all add: monset_ok_def)

lemma monset_ok_push:
  assumes "monset_ok ms" "active ms (mon_reference m) = None"
  defines "ms' \<equiv> index_push (mon_target m) (mon_reference m) (ms\<lparr>ms_monitors := ms_monitors ms @ [m]\<rparr>)"
  shows "monset_ok ms'" "active ms' = (active ms)(mon_reference m \<mapsto> m)"
proof -
  have fresh: "mon_reference m \<notin> mon_reference ` set (ms_monitors ms)"
    using assms(2) by (simp add: active_def map_of_eq_None_iff image_image)
  then show "monset_ok ms'"
    using monset_okD [OF assms(1)] by (auto simp: monset_ok_def ms'_def index_push_def targeting_def)
  have "map_of (map (\<lambda>m. (mon_reference m, m)) (ms_monitors ms) @ [(mon_reference m, m)]) r =
      ((active ms)(mon_reference m \<mapsto> m)) r" for r
    using assms(2) by (cases "map_of (map (\<lambda>m. (mon_reference m, m)) (ms_monitors ms)) r")
      (auto simp: active_def map_add_def)
  then show "active ms' = (active ms)(mon_reference m \<mapsto> m)"
    by (auto simp: ms'_def index_push_def active_def)
qed

lemma active_simps [simp]: "active (ms\<lparr>by_target := i\<rparr>) = active ms" "active (ms\<lparr>ms_dead := d\<rparr>) = active ms"
  "active (ms\<lparr>next_reference := n\<rparr>) = active ms" "active (index_remove t r ms) = active ms"
  by (simp_all add: active_def index_remove_def Let_def split: option.split)

lemma monset_ok_drop:
  assumes "monset_ok ms" "active ms r = Some m"
  defines "ms' \<equiv> ms\<lparr>ms_monitors := filter (\<lambda>m. mon_reference m \<noteq> r) (ms_monitors ms)\<rparr>"
  shows "monset_ok (index_remove (mon_target m) r ms')"
proof -
  note ok = monset_okD [OF assms(1)]
  have m: "m \<in> set (ms_monitors ms)" "mon_reference m = r" using active_Some [OF ok(1)] assms(2) by auto
  have other: "targeting t ms' = targeting t ms" if "t \<noteq> mon_target m" for t
    using that m ok(1) by (auto simp: targeting_def ms'_def distinct_map intro!: filter_cong dest: inj_onD)
  have same: "map mon_reference (targeting (mon_target m) ms') = filter (\<lambda>seen. seen \<noteq> r) (map mon_reference (targeting (mon_target m) ms))"
    by (simp add: targeting_def ms'_def filter_map o_def conj.commute)
  have "by_target (index_remove (mon_target m) r ms') t =
      (if targeting t ms' = [] then None else Some (map mon_reference (targeting t ms')))" for t
  proof (cases "t = mon_target m")
    case True
    have "targeting t ms \<noteq> []" using m True by (auto simp: targeting_def filter_empty_conv)
    then show ?thesis using ok(2) [of t] same True
      by (auto simp: index_remove_def Let_def ms'_def split: option.splits)
  next
    case False
    then show ?thesis using ok(2) [of t] other [OF False]
      by (auto simp: index_remove_def Let_def ms'_def split: option.splits)
  qed
  moreover have "targeting t (index_remove (mon_target m) r ms') = targeting t ms'"
    "ms_monitors (index_remove (mon_target m) r ms') = ms_monitors ms'" for t
    by (auto simp: index_remove_def Let_def targeting_def split: option.splits)
  moreover have "distinct (map mon_reference (ms_monitors ms'))" using ok(1) by (simp add: ms'_def distinct_map_filter)
  ultimately show ?thesis by (simp add: monset_ok_def)
qed

lemma monset_remove:
  assumes "monset_ok ms"
  shows "monset_ok (ms_remove_monitor r ms)" "active (ms_remove_monitor r ms) = (active ms)(r := None)"
proof -
  note ok = monset_okD [OF assms]
  have rest: "active (ms\<lparr>ms_monitors := filter (\<lambda>m. mon_reference m \<noteq> r) (ms_monitors ms)\<rparr>) = (active ms)(r := None)"
  proof
    fix r'
    show "active (ms\<lparr>ms_monitors := filter (\<lambda>m. mon_reference m \<noteq> r) (ms_monitors ms)\<rparr>) r' = ((active ms)(r := None)) r'"
      by (cases "active ms r'") (auto simp: active_filter [OF ok(1)] dest: active_reference)
  qed
  show "active (ms_remove_monitor r ms) = (active ms)(r := None)"
    using rest by (auto simp: ms_remove_monitor_def remove_monitor_entry_eq [OF ok(1)] split: option.split)
  show "monset_ok (ms_remove_monitor r ms)"
  proof (cases "active ms r")
    case None
    then have "filter (\<lambda>m. mon_reference m \<noteq> r) (ms_monitors ms) = ms_monitors ms"
      by (force simp: filter_id_conv active_def map_of_eq_None_iff image_image)
    with None assms show ?thesis by (simp add: ms_remove_monitor_def remove_monitor_entry_eq [OF ok(1)])
  next
    case (Some m)
    then show ?thesis
      using monset_ok_drop [OF assms Some] by (simp add: ms_remove_monitor_def remove_monitor_entry_eq [OF ok(1)])
  qed
qed

lemma get_monitor_active: "monset_ok ms \<Longrightarrow> get_monitor r ms = active ms r"
proof -
  have "find (\<lambda>m. mon_reference m = r) xs = map_of (map (\<lambda>m. (mon_reference m, m)) xs) r" for xs
    by (induction xs) auto
  then show ?thesis by (simp add: get_monitor_def active_def)
qed

lemma monset_register:
  assumes "monset_ok ms"
  shows "monset_ok (register_monitor (mon_reference m) m (mon_target m) ms)"
    "active (register_monitor (mon_reference m) m (mon_target m) ms) = (active ms)(mon_reference m \<mapsto> m)"
proof -
  let ?ms = "if get_monitor (mon_reference m) ms \<noteq> None then ms_remove_monitor (mon_reference m) ms else ms"
  have "monset_ok ?ms" "active ?ms = (active ms)(mon_reference m := None)"
    using assms monset_remove [OF assms] by (auto simp: get_monitor_active [OF assms])
  with monset_ok_push [of ?ms m]
  show "monset_ok (register_monitor (mon_reference m) m (mon_target m) ms)"
    "active (register_monitor (mon_reference m) m (mon_target m) ms) = (active ms)(mon_reference m \<mapsto> m)"
    by (simp_all add: register_monitor_def Let_def)
qed

section \<open>Death notification\<close>

lemma collect_loop_eq:
  assumes "distinct (map mon_reference (ms_monitors ms))" "distinct rs" "set rs \<subseteq> mon_reference ` set (ms_monitors ms)"
  shows "collect_loop rs ms = (map (\<lambda>r. (mon_watcher (the (active ms r)), r)) rs,
    ms\<lparr>ms_monitors := filter (\<lambda>m. mon_reference m \<notin> set rs) (ms_monitors ms)\<rparr>)"
  using assms
proof (induction rs arbitrary: ms)
  case (Cons r rs)
  let ?ms = "ms\<lparr>ms_monitors := filter (\<lambda>m. mon_reference m \<noteq> r) (ms_monitors ms)\<rparr>"
  obtain m where m: "active ms r = Some m"
    using Cons.prems(1,3) by (auto simp: active_Some [OF Cons.prems(1)] simp flip: ex_simps)
  have "map (\<lambda>r. (mon_watcher (the (active ?ms r)), r)) rs = map (\<lambda>r. (mon_watcher (the (active ms r)), r)) rs"
  proof (rule map_cong [OF refl])
    fix q assume q: "q \<in> set rs"
    then have "q \<noteq> r" using Cons.prems(2) by auto
    then show "(mon_watcher (the (active ?ms q)), q) = (mon_watcher (the (active ms q)), q)"
      by (cases "active ms q") (auto simp: active_filter [OF Cons.prems(1)] dest: active_reference)
  qed
  moreover have "set rs \<subseteq> mon_reference ` set (ms_monitors ?ms)"
    using Cons.prems(2,3) by fastforce
  ultimately show ?case
    using Cons.IH [of ?ms] Cons.prems m
    by (simp add: remove_monitor_entry_eq distinct_map_filter conj.commute)
qed simp

lemma take_references_eq:
  "monset_ok ms \<Longrightarrow> take_references t (record_dead p reason ms) =
     (map mon_reference (targeting t ms), ms\<lparr>ms_dead := (ms_dead ms)(p \<mapsto> reason), by_target := (by_target ms)(t := None)\<rparr>)"
  using monset_okD(2) [of ms t] by (simp add: take_references_def record_dead_def)

lemma targeting_references:
  assumes "monset_ok ms"
  shows "distinct (map mon_reference (targeting t ms))"
    "filter (\<lambda>m. mon_reference m \<notin> set (map mon_reference (targeting t ms))) (ms_monitors ms) =
       filter (\<lambda>m. mon_target m \<noteq> t) (ms_monitors ms)"
    "m \<in> set (targeting t ms) \<Longrightarrow> active ms (mon_reference m) = Some m"
proof -
  note ok = monset_okD [OF assms]
  show "distinct (map mon_reference (targeting t ms))" using ok(1) by (simp add: targeting_def distinct_map_filter)
  show "m \<in> set (targeting t ms) \<Longrightarrow> active ms (mon_reference m) = Some m"
    using active_Some [OF ok(1)] by (simp add: targeting_def)
  show "filter (\<lambda>m. mon_reference m \<notin> set (map mon_reference (targeting t ms))) (ms_monitors ms) =
       filter (\<lambda>m. mon_target m \<noteq> t) (ms_monitors ms)"
    using ok(1) by (auto simp: targeting_def distinct_map intro!: filter_cong dest: inj_onD)
qed

lemma monset_ok_untarget:
  assumes "monset_ok ms"
  shows "monset_ok (ms\<lparr>ms_dead := d, by_target := (by_target ms)(t := None),
    ms_monitors := filter (\<lambda>m. mon_target m \<noteq> t) (ms_monitors ms)\<rparr>)"
proof -
  have "targeting u (ms\<lparr>ms_dead := d, by_target := (by_target ms)(t := None),
      ms_monitors := filter (\<lambda>m. mon_target m \<noteq> t) (ms_monitors ms)\<rparr>) = (if u = t then [] else targeting u ms)" for u
    by (auto simp: targeting_def filter_empty_conv intro: filter_cong)
  then show ?thesis using monset_okD [OF assms] by (simp add: monset_ok_def distinct_map_filter)
qed

lemma collect_correct:
  assumes "monset_ok ms" "collect_watchers_and_remove t reason ms = (ws, ms')"
  shows "ws = map (\<lambda>m. (mon_watcher m, mon_reference m)) (targeting t ms)"
    "monset_ok ms'" "ms_monitors ms' = filter (\<lambda>m. mon_target m \<noteq> t) (ms_monitors ms)"
    "next_reference ms' = next_reference ms"
proof -
  note ok = monset_okD [OF assms(1)] and tr = targeting_references [OF assms(1), where t = t]
  let ?ms = "ms\<lparr>ms_dead := (ms_dead ms)(t \<mapsto> reason), by_target := (by_target ms)(t := None)\<rparr>"
  have "collect_loop (map mon_reference (targeting t ms)) ?ms =
      (map (\<lambda>r. (mon_watcher (the (active ms r)), r)) (map mon_reference (targeting t ms)),
       ?ms\<lparr>ms_monitors := filter (\<lambda>m. mon_target m \<noteq> t) (ms_monitors ms)\<rparr>)"
    using collect_loop_eq [of ?ms "map mon_reference (targeting t ms)"] ok(1) tr(1)
      targeting_references(2) [OF assms(1), of t] by (auto simp: targeting_def)
  then have *: "ws = map (\<lambda>r. (mon_watcher (the (active ms r)), r)) (map mon_reference (targeting t ms))"
    "ms' = ?ms\<lparr>ms_monitors := filter (\<lambda>m. mon_target m \<noteq> t) (ms_monitors ms)\<rparr>"
    using assms(2) by (simp_all add: collect_watchers_and_remove_def take_references_eq [OF assms(1)])
  from * show "ws = map (\<lambda>m. (mon_watcher m, mon_reference m)) (targeting t ms)"
    using tr(3) by (simp add: o_def)
  from * show "monset_ok ms'" "ms_monitors ms' = filter (\<lambda>m. mon_target m \<noteq> t) (ms_monitors ms)"
    "next_reference ms' = next_reference ms"
    using monset_ok_untarget [OF assms(1)] by simp_all
qed

lemma update_by_pid:
  assumes "distinct (map pid ps)"
  shows "(case process_index_by_pid ps w of None \<Rightarrow> ps | Some i \<Rightarrow> ps[i := f (ps ! i)]) =
    map (\<lambda>p. if pid p = w then f p else p) ps"
proof (cases "process_index_by_pid ps w")
  case None
  then have "\<forall>p\<in>set ps. pid p \<noteq> w" by (simp add: process_index_by_pid_def)
  then have "map (\<lambda>p. if pid p = w then f p else p) ps = ps" by (simp add: map_idI)
  with None show ?thesis by simp
next
  case (Some i)
  then have i: "i < length ps" "pid (ps ! i) = w" by (simp_all add: process_index_by_pid_def position_Some_iff)
  have "pid (ps ! j) \<noteq> w" if "j < length ps" "j \<noteq> i" for j
    using nth_eq_iff_index_eq [OF assms, of j i] that i by simp
  with i Some show ?thesis by (auto simp: nth_list_update intro!: nth_equalityI)
qed

lemma remove_monitor_keeps [simp]:
  "pid (snd (remove_monitor r p)) = pid p" "status (snd (remove_monitor r p)) = status p"
  "links (snd (remove_monitor r p)) = links p" "inbox (snd (remove_monitor r p)) = inbox p"
  by (simp_all add: remove_monitor_def split: option.split)

text \<open>What death notification may change of a process: the monitor metadata and the inbox.\<close>

definition notified :: "SysMessage list \<Rightarrow> Process \<Rightarrow> Process \<Rightarrow> bool" where
  "notified msgs p p' \<longleftrightarrow> pid p' = pid p \<and> status p' = status p \<and> links p' = links p \<and> inbox p' = inbox p @ msgs"

lemma notify_watcher_notified:
  assumes "distinct (map pid ps)" "\<forall>q. fits DOWN_MESSAGE_WORDS q"
  shows "list_all2 (\<lambda>p. notified (if pid p = mon_watcher m then [DownMessage r t reason] else []) p) ps
    (notify_watcher fits t reason r m ps)"
proof -
  let ?f = "\<lambda>p. enqueue_down_message_pub fits (snd (remove_monitor r p)) r t reason"
  let ?ps = "map (\<lambda>p. if pid p = mon_watcher m then ?f p else p) ps"
  have f: "?f p = push_message (DownMessage r t reason) (snd (remove_monitor r p))" for p
    using assms(2) by (simp add: enqueue_down_message_pub_def enqueue_down_message_def)
  have "map pid ?ps = map pid ps" by (simp add: f push_message_def)
  then have "distinct (map pid ?ps)" using assms(1) by (simp only:)
  then have "notify_watcher fits t reason r m ps = map (\<lambda>p. if pid p = t then snd (remove_monitor r p) else p) ?ps"
    unfolding notify_watcher_def update_by_pid [OF assms(1), where w = "mon_watcher m" and f = ?f] Let_def by (rule update_by_pid)
  then show ?thesis by (auto simp: list_all2_map2 list_all2_same f notified_def push_message_def)
qed

lemma notified_pids: "list_all2 (\<lambda>p. notified (g p) p) ps ps' \<Longrightarrow> map pid ps' = map pid ps"
  by (auto simp: list_all2_conv_all_nth notified_def intro: nth_equalityI)

lemma notify_loop_notified:
  assumes "distinct (map pid ps)" "\<forall>q. fits DOWN_MESSAGE_WORDS q" "distinct (map mon_reference (ms_monitors ms))"
    "distinct (map mon_reference mons)" "set mons \<subseteq> set (ms_monitors ms)"
    "notify_loop fits t reason (map mon_reference mons) ms ps = (ms', ps')"
  shows "ms' = ms\<lparr>ms_monitors := filter (\<lambda>m. mon_reference m \<notin> mon_reference ` set mons) (ms_monitors ms)\<rparr> \<and>
    list_all2 (\<lambda>p. notified (map (\<lambda>m. DownMessage (mon_reference m) t reason) (filter (\<lambda>m. mon_watcher m = pid p) mons)) p) ps ps'"
  using assms
proof (induction mons arbitrary: ms ps)
  case Nil
  then show ?case by (simp add: list_all2_same notified_def)
next
  case (Cons m mons)
  let ?ms = "ms\<lparr>ms_monitors := filter (\<lambda>m'. mon_reference m' \<noteq> mon_reference m) (ms_monitors ms)\<rparr>"
  let ?ps = "notify_watcher fits t reason (mon_reference m) m ps"
  have "active ms (mon_reference m) = Some m" using active_Some [OF Cons.prems(3)] Cons.prems(5) by simp
  then have loop: "notify_loop fits t reason (map mon_reference mons) ?ms ?ps = (ms', ps')"
    using Cons.prems(6) by (simp add: remove_monitor_entry_eq [OF Cons.prems(3)])
  note step = notify_watcher_notified [of ps fits m "mon_reference m" t reason, OF Cons.prems(1,2)]
  have sub: "set mons \<subseteq> set (ms_monitors ?ms)"
    using Cons.prems(5) distinct_map_Cons_neq [OF Cons.prems(4)] by auto
  have "distinct (map pid ?ps)" using notified_pids [OF step] Cons.prems(1) by simp
  from Cons.IH [of ?ps ?ms, OF this Cons.prems(2) _ _ sub loop] Cons.prems(3,4) have
    ih: "ms' = ?ms\<lparr>ms_monitors := filter (\<lambda>m. mon_reference m \<notin> mon_reference ` set mons) (ms_monitors ?ms)\<rparr>"
      "list_all2 (\<lambda>p. notified (map (\<lambda>m. DownMessage (mon_reference m) t reason) (filter (\<lambda>m. mon_watcher m = pid p) mons)) p) ?ps ps'"
    by (auto simp: distinct_map_filter)
  show ?case
    using ih(1) list_all2_trans [OF _ step ih(2)] by (auto simp: notified_def conj.commute)
qed

lemma monitored_exit_correct:
  assumes "monset_ok ms" "distinct (map pid ps)" "\<forall>q. fits DOWN_MESSAGE_WORDS q"
    "monitored_process_exited fits t reason ps ms = (ms', ps')"
  shows "ms' = ms\<lparr>ms_dead := (ms_dead ms)(t \<mapsto> reason), by_target := (by_target ms)(t := None),
      ms_monitors := filter (\<lambda>m. mon_target m \<noteq> t) (ms_monitors ms)\<rparr>"
    "list_all2 (\<lambda>p. notified (map (\<lambda>m. DownMessage (mon_reference m) t reason)
      (filter (\<lambda>m. mon_watcher m = pid p) (targeting t ms))) p) ps ps'"
proof -
  let ?ms = "ms\<lparr>ms_dead := (ms_dead ms)(t \<mapsto> reason), by_target := (by_target ms)(t := None)\<rparr>"
  have loop: "notify_loop fits t reason (map mon_reference (targeting t ms)) ?ms ps = (ms', ps')"
    using assms(4) by (simp add: monitored_process_exited_def take_references_eq [OF assms(1)])
  have "distinct (map mon_reference (ms_monitors ?ms))" "set (targeting t ms) \<subseteq> set (ms_monitors ?ms)"
    using monset_okD(1) [OF assms(1)] by (auto simp: targeting_def)
  note loop_done = notify_loop_notified [OF assms(2,3) this(1) targeting_references(1) [OF assms(1)] this(2) loop]
  show "ms' = ms\<lparr>ms_dead := (ms_dead ms)(t \<mapsto> reason), by_target := (by_target ms)(t := None),
      ms_monitors := filter (\<lambda>m. mon_target m \<noteq> t) (ms_monitors ms)\<rparr>"
    using loop_done targeting_references(2) [OF assms(1), of t] by simp
  show "list_all2 (\<lambda>p. notified (map (\<lambda>m. DownMessage (mon_reference m) t reason)
      (filter (\<lambda>m. mon_watcher m = pid p) (targeting t ms))) p) ps ps'"
    using loop_done by blast
qed

section \<open>The registry as an interface\<close>

text \<open>
  What the scheduler relies on: the registry is a map from references to monitors, and collecting a
  dead target hands out each of its watchers and forgets them.
\<close>

locale monitor_registry =
  fixes ok :: "'s \<Rightarrow> bool" and view :: "'s \<Rightarrow> u64 \<rightharpoonup> Monitor"
    and register :: "u64 \<Rightarrow> Monitor \<Rightarrow> u64 \<Rightarrow> 's \<Rightarrow> 's"
    and cancel :: "u64 \<Rightarrow> 's \<Rightarrow> 's"
    and collect :: "u64 \<Rightarrow> ExitReason \<Rightarrow> 's \<Rightarrow> (u64 \<times> u64) list \<times> 's"
  assumes register_law: "ok s \<Longrightarrow> ok (register (mon_reference m) m (mon_target m) s) \<and>
      view (register (mon_reference m) m (mon_target m) s) = (view s)(mon_reference m \<mapsto> m)"
    and cancel_law: "ok s \<Longrightarrow> ok (cancel r s) \<and> view (cancel r s) = (view s)(r := None)"
    and collect_law: "ok s \<Longrightarrow> collect t reason s = (ws, s') \<Longrightarrow>
      ok s' \<and> distinct (map snd ws) \<and>
      set ws = {(mon_watcher m, r) | m r. view s r = Some m \<and> mon_target m = t} \<and>
      view s' = (\<lambda>r. case view s r of None \<Rightarrow> None | Some m \<Rightarrow> if mon_target m = t then None else Some m)"
begin

lemma collected_once:
  assumes "ok s" "collect t reason s = (ws, s')" "collect t reason' s' = (ws', s'')"
  shows "ws' = []"
proof -
  have "set ws' = {}"
    using collect_law [OF assms(1,2)] collect_law [of s' t reason' ws' s''] assms(3) by (auto split: option.splits)
  then show ?thesis by simp
qed

lemma registered_is_notified:
  assumes "ok s" "collect (mon_target m) reason (register (mon_reference m) m (mon_target m) s) = (ws, s')"
  shows "(mon_watcher m, mon_reference m) \<in> set ws"
  using collect_law [OF conjunct1 [OF register_law [OF assms(1)]] assms(2)] register_law [OF assms(1)] by auto

lemma cancelled_is_not_notified:
  assumes "ok s" "collect t reason (cancel r s) = (ws, s')"
  shows "r \<notin> snd ` set ws"
  using collect_law [OF conjunct1 [OF cancel_law [OF assms(1)]] assms(2)] cancel_law [OF assms(1)] by auto

end

lemma collect_law_holds:
  assumes "monset_ok ms" "collect_watchers_and_remove t reason ms = (ws, ms')"
  shows "monset_ok ms' \<and> distinct (map snd ws) \<and>
    set ws = {(mon_watcher m, r) | m r. active ms r = Some m \<and> mon_target m = t} \<and>
    active ms' = (\<lambda>r. case active ms r of None \<Rightarrow> None | Some m \<Rightarrow> if mon_target m = t then None else Some m)"
proof -
  note c = collect_correct [OF assms] and ok = monset_okD(1) [OF assms(1)]
  have "active ms' r = (case active ms r of None \<Rightarrow> None | Some m \<Rightarrow> if mon_target m = t then None else Some m)" for r
    using active_filter [OF ok, of "\<lambda>m. mon_target m \<noteq> t" r] c(3) by (auto simp: active_def split: option.splits)
  moreover have "set ws = {(mon_watcher m, r) | m r. active ms r = Some m \<and> mon_target m = t}"
    using c(1) by (auto simp: active_Some [OF ok] targeting_def)
  moreover have "distinct (map snd ws)"
    using targeting_references(1) [OF assms(1), of t] c(1) by (simp add: o_def)
  ultimately show ?thesis using c(2) by auto
qed

interpretation reg: monitor_registry monset_ok active register_monitor ms_remove_monitor collect_watchers_and_remove
  by unfold_locales (use monset_register monset_remove collect_law_holds in auto)

section \<open>Reachable registries\<close>

definition registry_ok :: "MonitorSet \<Rightarrow> bool" where
  "registry_ok ms \<longleftrightarrow> monset_ok ms \<and> references_below ms"

text \<open>
  The operations the scheduler runs; an allocation needs a counter below its saturation point, and
  a scheduler-built monitor carries the reference just allocated.
\<close>

inductive monitor_step :: "MonitorSet \<Rightarrow> MonitorSet \<Rightarrow> bool" where
  by_monitor: "next_reference ms < -1 \<Longrightarrow> monitor w t ms = (r, w', t', ms') \<Longrightarrow> monitor_step ms ms'"
| by_monitor_pid: "next_reference ms < -1 \<Longrightarrow> monitor_pid fits w tp ms = (r, w', ms') \<Longrightarrow> monitor_step ms ms'"
| by_register: "next_reference ms < -1 \<Longrightarrow> allocate_reference ms = (r, ms1) \<Longrightarrow> mon_reference m = r \<Longrightarrow>
    monitor_step ms (register_monitor r m (mon_target m) ms1)"
| by_demonitor: "demonitor r ps ms = (m, ps', ms') \<Longrightarrow> monitor_step ms ms'"
| by_remove: "monitor_step ms (ms_remove_monitor r ms)"
| by_collect: "collect_watchers_and_remove tp reason ms = (ws, ms') \<Longrightarrow> monitor_step ms ms'"
| by_record: "monitor_step ms (record_dead tp reason ms)"

lemma demonitor_registry: "monset_ok ms \<Longrightarrow> demonitor r ps ms = (m, ps', ms') \<Longrightarrow> ms' = ms_remove_monitor r ms"
  by (auto simp: demonitor_def ms_remove_monitor_def split: prod.splits option.splits)

lemma remove_monitor_subset: "set (ms_monitors (ms_remove_monitor r ms)) \<subseteq> set (ms_monitors ms)"
  "next_reference (ms_remove_monitor r ms) = next_reference ms"
  using set_vec_remove_subset
  by (fastforce simp: ms_remove_monitor_def remove_monitor_entry_def index_remove_def Let_def
      split: option.splits prod.splits if_splits)+

lemma registry_remove: "registry_ok ms \<Longrightarrow> registry_ok (ms_remove_monitor r ms)"
  using monset_remove(1) remove_monitor_subset unfolding registry_ok_def references_below_def by fastforce

lemma allocate_below:
  assumes "next_reference ms < -1" "references_below ms"
  shows "next_reference ms < next_reference (snd (allocate_reference ms))"
    "active ms (next_reference ms) = None"
proof -
  have "unat (next_reference ms) < 2 ^ 64 - 1" using assms(1) by (simp add: word_less_nat_alt unsigned_minus_1_eq_mask mask_eq_exp_minus_1)
  then have "unat (saturating_add_u64 (next_reference ms) 1) = unat (next_reference ms) + 1"
    by (simp add: unat_saturating_add_u64)
  then show "next_reference ms < next_reference (snd (allocate_reference ms))"
    by (simp add: allocate_reference_def word_less_nat_alt)
  show "active ms (next_reference ms) = None"
    using assms(2) by (auto simp: active_def map_of_eq_None_iff references_below_def)
qed

lemma monset_ok_next [simp]: "monset_ok (ms\<lparr>next_reference := n\<rparr>) = monset_ok ms" "monset_ok (ms\<lparr>ms_dead := d\<rparr>) = monset_ok ms"
  by (simp_all add: monset_ok_def targeting_def)

lemma registry_push:
  assumes "registry_ok ms" "next_reference ms < -1" "mon_reference m = next_reference ms"
  defines "ms1 \<equiv> snd (allocate_reference ms)"
  shows "registry_ok (index_push (mon_target m) (mon_reference m) (ms1\<lparr>ms_monitors := ms_monitors ms1 @ [m]\<rparr>))"
proof -
  have ms: "monset_ok ms" "references_below ms" using assms(1) by (simp_all add: registry_ok_def)
  note fresh = allocate_below [OF assms(2) ms(2)]
  have "monset_ok ms1" "active ms1 (mon_reference m) = None" "ms_monitors ms1 = ms_monitors ms"
    using ms fresh assms(3) by (simp_all add: ms1_def allocate_reference_def)
  moreover have "references_below (index_push (mon_target m) (mon_reference m) (ms1\<lparr>ms_monitors := ms_monitors ms1 @ [m]\<rparr>))"
    using ms(2) fresh(1) assms(3) \<open>ms_monitors ms1 = ms_monitors ms\<close>
    by (auto simp: references_below_def index_push_def ms1_def)
  ultimately show ?thesis using monset_ok_push(1) [of ms1 m] by (simp add: registry_ok_def)
qed

lemma registry_register:
  assumes "registry_ok ms" "next_reference ms < -1" "mon_reference m = next_reference ms"
  shows "registry_ok (register_monitor (mon_reference m) m (mon_target m) (snd (allocate_reference ms)))"
proof -
  have "monset_ok ms" "references_below ms" using assms(1) by (simp_all add: registry_ok_def)
  then have "get_monitor (mon_reference m) (snd (allocate_reference ms)) = None"
    using allocate_below(2) [OF assms(2)] assms(3) by (simp add: get_monitor_active allocate_reference_def)
  then show ?thesis using registry_push [OF assms] by (simp add: register_monitor_def Let_def)
qed

lemma registry_step: "monitor_step ms ms' \<Longrightarrow> registry_ok ms \<Longrightarrow> registry_ok ms'"
proof (induction rule: monitor_step.induct)
  case (by_monitor ms w t r w' t' ms')
  then show ?case
    using registry_push [of ms "\<lparr>mon_reference = next_reference ms, mon_watcher = pid w, mon_target = pid t\<rparr>"]
    by (auto simp: monitor_def allocate_reference_def Let_def)
next
  case (by_monitor_pid ms fits w tp r w' ms')
  show ?case
  proof (cases "ms_dead ms tp")
    case None
    with by_monitor_pid show ?thesis
      using registry_push [of ms "\<lparr>mon_reference = next_reference ms, mon_watcher = pid w, mon_target = tp\<rparr>"]
      by (auto simp: monitor_pid_def allocate_reference_def Let_def)
  next
    case (Some reason)
    with by_monitor_pid show ?thesis
      using allocate_below(1) [of ms]
      by (auto simp: monitor_pid_def allocate_reference_def registry_ok_def references_below_def)
        (meson order_less_trans)
  qed
next
  case (by_register ms r ms1 m)
  then show ?case using registry_register [of ms m] by (auto simp: allocate_reference_def)
next
  case (by_demonitor r ps ms m ps' ms')
  then show ?case using demonitor_registry [of ms r ps m ps' ms'] registry_remove [of ms r] by (auto simp: registry_ok_def)
next
  case (by_collect tp reason ms ws ms')
  have "monset_ok ms" using by_collect.prems by (simp add: registry_ok_def)
  note c = collect_correct [OF this by_collect.hyps]
  with c by_collect.prems show ?case by (auto simp: registry_ok_def references_below_def)
next
  case (by_remove ms r)
  then show ?case by (rule registry_remove)
qed (simp add: record_dead_def registry_ok_def references_below_def)

lemma registry_reachable: "monitor_step\<^sup>*\<^sup>* monitorset_new ms \<Longrightarrow> registry_ok ms"
proof (induction rule: rtranclp_induct)
  case base
  show ?case by (simp add: registry_ok_def monset_ok_def monitorset_new_def targeting_def references_below_def)
qed (rule registry_step)

text \<open>
  Every registry the scheduler can reach is consistent: references are distinct and below the
  counter, and the index of a target lists exactly its monitors' references, in registration
  order. So the reference of every later monitor is fresh, until the counter saturates.
\<close>

lemma monitor_registry_reachable_ok:
  "monitor_step\<^sup>*\<^sup>* monitorset_new ms \<longrightarrow>
     registry_ok ms \<and> (next_reference ms < -1 \<longrightarrow> active ms (fst (allocate_reference ms)) = None)"
  using registry_reachable [of ms] allocate_below(2) [of ms] by (auto simp: registry_ok_def allocate_reference_def)

lemma monitor_registry_reachable_ok_witness:
  "active (snd (snd (snd (monitor (process_new 1) (process_new 2) monitorset_new)))) 1 = None"
proof -
  let ?ms = "snd (snd (snd (monitor (process_new 1) (process_new 2) monitorset_new)))"
  have "monitor_step monitorset_new ?ms"
    by (rule by_monitor [where w = "process_new 1" and t = "process_new 2" and r = 0
          and w' = "fst (snd (monitor (process_new 1) (process_new 2) monitorset_new))"
          and t' = "fst (snd (snd (monitor (process_new 1) (process_new 2) monitorset_new)))"])
      (simp_all add: monitorset_new_def monitor_def allocate_reference_def word_less_nat_alt Let_def unsigned_minus_1_eq_mask mask_eq_exp_minus_1)
  then have "monitor_step\<^sup>*\<^sup>* monitorset_new ?ms" by (rule r_into_rtranclp)
  moreover have "next_reference ?ms = 1"
    by (simp add: monitor_def allocate_reference_def monitorset_new_def Let_def index_push_def saturating_add_u64_def)
  ultimately show ?thesis
    using monitor_registry_reachable_ok [of ?ms] by (simp add: allocate_reference_def word_less_nat_alt unsigned_minus_1_eq_mask mask_eq_exp_minus_1)
qed

text \<open>
  C27. The monitor registry implements a map from references to monitors: registering updates the
  map, removing deletes the reference, and collecting a dead target hands out each of its watchers
  exactly once, with its reference, and removes exactly those; collecting it again gives nothing.
\<close>

theorem monitor_registry_refines_map:
  assumes "monset_ok ms"
  shows "active (register_monitor (mon_reference m) m (mon_target m) ms) = (active ms)(mon_reference m \<mapsto> m) \<and>
    active (ms_remove_monitor r ms) = (active ms)(r := None) \<and>
    (collect_watchers_and_remove t reason ms = (ws, ms') \<longrightarrow>
       distinct (map snd ws) \<and> set ws = {(mon_watcher m, r) | m r. active ms r = Some m \<and> mon_target m = t} \<and>
       active ms' = (\<lambda>r. case active ms r of None \<Rightarrow> None | Some m \<Rightarrow> if mon_target m = t then None else Some m) \<and>
       fst (collect_watchers_and_remove t reason' ms') = [])"
proof (intro conjI impI)
  assume "collect_watchers_and_remove t reason ms = (ws, ms')"
  note once = reg.collected_once [OF assms this]
  show "fst (collect_watchers_and_remove t reason' ms') = []"
    using once by (cases "collect_watchers_and_remove t reason' ms'") simp
qed (use reg.register_law [OF assms, of m] reg.cancel_law [OF assms, of r]
    reg.collect_law [OF assms, of t reason ws ms'] in blast)+

theorem monitor_registry_refines_map_witness:
  "set (fst (collect_watchers_and_remove 9 Killed
     (register_monitor 5 \<lparr>mon_reference = 5, mon_watcher = 3, mon_target = 9\<rparr> 9 monitorset_new))) = {(3, 5)}"
proof -
  let ?m = "\<lparr>mon_reference = 5, mon_watcher = 3, mon_target = 9\<rparr> :: Monitor"
  let ?ms = "register_monitor 5 ?m 9 monitorset_new"
  have ok: "monset_ok monitorset_new" by (simp add: monset_ok_def monitorset_new_def targeting_def)
  have act: "active ?ms = [5 \<mapsto> ?m]"
    using monitor_registry_refines_map [OF ok, of ?m] by (simp add: active_def monitorset_new_def)
  have "monset_ok ?ms"
    by (simp add: register_monitor_def get_monitor_def monitorset_new_def index_push_def monset_ok_def targeting_def)
  from monitor_registry_refines_map [OF this, of ?m 5 9 Killed "fst (collect_watchers_and_remove 9 Killed ?ms)"
      "snd (collect_watchers_and_remove 9 Killed ?ms)" Normal]
  show ?thesis by (auto simp: act)
qed

text \<open>
  C14. The death of a target reaches every watcher exactly once: each process of the slice receives
  one \<open>DOWN\<close> message per monitor it holds on the target, in registration order, with the
  reference and the reason, and nothing else of its status or links changes; the registry keeps
  exactly the monitors of other targets and remembers the reason for later monitors.
\<close>

theorem down_delivered_exactly_once:
  assumes "monset_ok ms" "distinct (map pid ps)" "\<forall>q. fits DOWN_MESSAGE_WORDS q"
    "monitored_process_exited fits t reason ps ms = (ms', ps')"
  shows "length ps' = length ps \<and>
    (\<forall>i<length ps. pid (ps' ! i) = pid (ps ! i) \<and> status (ps' ! i) = status (ps ! i) \<and> links (ps' ! i) = links (ps ! i) \<and>
       inbox (ps' ! i) = inbox (ps ! i) @ map (\<lambda>m. DownMessage (mon_reference m) t reason)
         (filter (\<lambda>m. mon_target m = t \<and> mon_watcher m = pid (ps ! i)) (ms_monitors ms))) \<and>
    ms_monitors ms' = filter (\<lambda>m. mon_target m \<noteq> t) (ms_monitors ms) \<and> by_target ms' t = None \<and>
    ms_dead ms' t = Some reason"
  using monitored_exit_correct [OF assms]
  by (auto simp: list_all2_conv_all_nth notified_def targeting_def conj.commute)

theorem down_delivered_exactly_once_witness:
  "inbox (snd (monitored_process_exited (\<lambda>_ _. True) 9 Killed [process_new 3]
     (register_monitor 5 \<lparr>mon_reference = 5, mon_watcher = 3, mon_target = 9\<rparr> 9 monitorset_new)) ! 0) =
     [DownMessage 5 9 Killed]"
proof -
  let ?m = "\<lparr>mon_reference = 5, mon_watcher = 3, mon_target = 9\<rparr> :: Monitor"
  let ?ms = "register_monitor 5 ?m 9 monitorset_new"
  have "monset_ok ?ms" "ms_monitors ?ms = [?m]"
    by (simp_all add: register_monitor_def get_monitor_def monitorset_new_def index_push_def monset_ok_def targeting_def)
  with down_delivered_exactly_once [of ?ms "[process_new 3]" "\<lambda>_ _. True" 9 Killed
      "fst (monitored_process_exited (\<lambda>_ _. True) 9 Killed [process_new 3] ?ms)"
      "snd (monitored_process_exited (\<lambda>_ _. True) 9 Killed [process_new 3] ?ms)"]
  show ?thesis by (simp add: process_new_def)
qed

end
