(* ===== verification/Run_Queue.thy ===== *)
theory Run_Queue
  imports Beamr_Prelude "HOL-Library.Multiset"
begin

text \<open>
  Scheduler run queues (\<^verbatim>\<open>crates/beamr/src/scheduler/run_queue.rs\<close>) and work stealing
  (\<^verbatim>\<open>scheduler/steal.rs\<close>). A lane is a FIFO list, oldest first; a stealer handle shares the lanes
  of its queue, so a victim is the queue itself. The deque of the crossbeam package is not part of
  the repository: \<open>batch limit victim dest\<close> stands for \<open>steal_batch_with_limit_and_pop\<close>, and
  \<open>batch_law\<close> is what its documentation promises of one call. Steals run one at a time here.
\<close>

section \<open>Queue\<close>

datatype Priority = PLow | PNormal | PHigh | PMax

record RunQueue =
  q_max :: "u64 list"
  q_high :: "u64 list"
  q_normal :: "u64 list"
  q_low :: "u64 list"
  low_fairness_window :: nat
  non_low_pops_since_low :: nat
  in_slice :: bool

definition with_low_fairness_window :: "nat \<Rightarrow> RunQueue" where
  "with_low_fairness_window w = \<lparr>q_max = [], q_high = [], q_normal = [], q_low = [],
     low_fairness_window = w, non_low_pops_since_low = 0, in_slice = False\<rparr>"

definition DEFAULT_LOW_PRIORITY_FAIRNESS_WINDOW :: nat where
  "DEFAULT_LOW_PRIORITY_FAIRNESS_WINDOW = 8"

definition runqueue_new :: RunQueue where
  "runqueue_new = with_low_fairness_window DEFAULT_LOW_PRIORITY_FAIRNESS_WINDOW"

text \<open>\<open>worker\<close> and \<open>stealer\<close> select the lane of a priority; \<open>set_worker\<close> stores it back.\<close>

definition worker :: "Priority \<Rightarrow> RunQueue \<Rightarrow> u64 list" where
  "worker priority q = (case priority of
     PLow \<Rightarrow> q_low q | PNormal \<Rightarrow> q_normal q | PHigh \<Rightarrow> q_high q | PMax \<Rightarrow> q_max q)"

definition set_worker :: "Priority \<Rightarrow> u64 list \<Rightarrow> RunQueue \<Rightarrow> RunQueue" where
  "set_worker priority lane q = (case priority of
     PLow \<Rightarrow> q\<lparr>q_low := lane\<rparr> | PNormal \<Rightarrow> q\<lparr>q_normal := lane\<rparr>
   | PHigh \<Rightarrow> q\<lparr>q_high := lane\<rparr> | PMax \<Rightarrow> q\<lparr>q_max := lane\<rparr>)"

definition push_with_priority :: "u64 \<Rightarrow> Priority \<Rightarrow> RunQueue \<Rightarrow> RunQueue" where
  "push_with_priority p priority q = set_worker priority (worker priority q @ [p]) q"

definition push :: "u64 \<Rightarrow> RunQueue \<Rightarrow> RunQueue" where
  "push p q = push_with_priority p PNormal q"

definition pop_priority :: "Priority \<Rightarrow> RunQueue \<Rightarrow> u64 option \<times> RunQueue" where
  "pop_priority priority q =
     (case worker priority q of
        [] \<Rightarrow> (None, q)
      | p # lane \<Rightarrow> (Some p, set_worker priority lane q))"

definition should_prefer_low :: "RunQueue \<Rightarrow> bool" where
  "should_prefer_low q \<longleftrightarrow>
     low_fairness_window q > 0 \<and> non_low_pops_since_low q \<ge> low_fairness_window q \<and> q_low q \<noteq> []"

definition record_pop :: "Priority \<Rightarrow> RunQueue \<Rightarrow> RunQueue" where
  "record_pop priority q =
     (if priority = PLow then q\<lparr>non_low_pops_since_low := 0\<rparr>
      else q\<lparr>non_low_pops_since_low := min (non_low_pops_since_low q + 1) (2 ^ 64 - 1)\<rparr>)"

fun pop_in_order :: "Priority list \<Rightarrow> RunQueue \<Rightarrow> u64 option \<times> RunQueue" where
  "pop_in_order [] q = (None, q)"
| "pop_in_order (priority # priorities) q =
     (case pop_priority priority q of
        (Some p, q) \<Rightarrow> (Some p, record_pop priority q)
      | (None, q) \<Rightarrow> pop_in_order priorities q)"

definition pop :: "RunQueue \<Rightarrow> u64 option \<times> RunQueue" where
  "pop q =
     (case (if should_prefer_low q then pop_priority PLow q else (None, q)) of
        (Some p, q) \<Rightarrow> (Some p, q\<lparr>non_low_pops_since_low := 0\<rparr>)
      | (None, q) \<Rightarrow> pop_in_order [PMax, PHigh, PNormal, PLow] q)"

definition queue_len :: "RunQueue \<Rightarrow> nat" where
  "queue_len q = length (q_max q) + length (q_high q) + length (q_normal q) + length (q_low q)"

definition queue_is_empty :: "RunQueue \<Rightarrow> bool" where
  "queue_is_empty q \<longleftrightarrow> q_max q = [] \<and> q_high q = [] \<and> q_normal q = [] \<and> q_low q = []"

text \<open>Raising the flag, and lowering it when the guard drops.\<close>

definition enter_slice :: "RunQueue \<Rightarrow> RunQueue" where
  "enter_slice q = q\<lparr>in_slice := True\<rparr>"

definition leave_slice :: "RunQueue \<Rightarrow> RunQueue" where
  "leave_slice q = q\<lparr>in_slice := False\<rparr>"

section \<open>Stealing\<close>

type_synonym deque_batch = "nat \<Rightarrow> u64 list \<Rightarrow> u64 list \<Rightarrow> u64 option \<times> u64 list \<times> u64 list"

text \<open>
  Success moves between one and \<open>limit\<close> tasks from the victim to the destination and pops one of the
  destination's tasks; otherwise nothing changes.
\<close>

definition batch_law :: "deque_batch \<Rightarrow> bool" where
  "batch_law batch \<longleftrightarrow> (\<forall>limit v d r v' d'. 0 < limit \<longrightarrow> batch limit v d = (r, v', d') \<longrightarrow>
     (case r of
        None \<Rightarrow> v' = v \<and> d' = d
      | Some p \<Rightarrow> \<exists>taken. taken \<noteq> [] \<and> length taken \<le> limit \<and> mset v = mset taken + mset v' \<and>
          mset (p # d') = mset d + mset taken))"

definition steal_from_priority ::
  "deque_batch \<Rightarrow> Priority \<Rightarrow> nat \<Rightarrow> RunQueue \<Rightarrow> RunQueue \<Rightarrow> nat \<times> RunQueue \<times> RunQueue" where
  "steal_from_priority batch priority limit me victim =
     (let before = length (worker priority me) in
      case batch limit (worker priority victim) (worker priority me) of
        (Some p, v, d) \<Rightarrow>
          let d = d @ [p]
          in (length d - before, set_worker priority d me, set_worker priority v victim)
      | (None, v, d) \<Rightarrow> (0, set_worker priority d me, set_worker priority v victim))"

fun steal_lanes ::
  "deque_batch \<Rightarrow> Priority list \<Rightarrow> nat \<Rightarrow> nat \<Rightarrow> RunQueue \<Rightarrow> RunQueue \<Rightarrow> nat \<times> RunQueue \<times> RunQueue" where
  "steal_lanes batch [] remaining stolen me victim = (stolen, me, victim)"
| "steal_lanes batch (priority # priorities) remaining stolen me victim =
     (if remaining = 0 then (stolen, me, victim)
      else case steal_from_priority batch priority remaining me victim of
          (got, me, victim) \<Rightarrow> steal_lanes batch priorities (remaining - got) (stolen + got) me victim)"

definition steal_half_from :: "deque_batch \<Rightarrow> RunQueue \<Rightarrow> RunQueue \<Rightarrow> nat \<times> RunQueue \<times> RunQueue" where
  "steal_half_from batch me victim =
     (let victim_len = queue_len victim in
      if victim_len = 0 then (0, me, victim)
      else
        let remaining = (if in_slice victim then max (victim_len div 2) 1 else victim_len div 2)
        in if remaining = 0 then (0, me, victim)
           else steal_lanes batch [PMax, PHigh, PNormal, PLow] remaining 0 me victim)"

datatype StealResult = Stolen nat nat | StealEmpty

definition next_victim :: "nat \<Rightarrow> nat \<Rightarrow> nat \<Rightarrow> nat" where
  "next_victim current my_index thread_count =
     (let victim = (current + 1) mod thread_count
      in if victim = my_index then (victim + 1) mod thread_count else victim)"

text \<open>The queues of all schedulers; the thief's own is at \<open>my_index\<close>.\<close>

fun steal_round ::
  "deque_batch \<Rightarrow> nat \<Rightarrow> nat \<Rightarrow> RunQueue list \<Rightarrow> nat \<Rightarrow> StealResult \<times> nat \<times> RunQueue list" where
  "steal_round batch 0 my_index queues victim = (StealEmpty, victim, queues)"
| "steal_round batch (Suc n) my_index queues victim =
     (let victim = next_victim victim my_index (length queues);
          (got, me, v) = steal_half_from batch (queues ! my_index) (queues ! victim);
          queues = queues[victim := v, my_index := me]
      in if got > 0 then (Stolen got victim, victim, queues)
         else steal_round batch n my_index queues victim)"

definition try_steal :: "deque_batch \<Rightarrow> nat \<Rightarrow> RunQueue list \<Rightarrow> nat \<Rightarrow> StealResult \<times> nat \<times> RunQueue list" where
  "try_steal batch my_index queues last_victim =
     (if length queues \<le> 1 then (StealEmpty, last_victim, queues)
      else steal_round batch (length queues - 1) my_index queues last_victim)"

lemma worker_set_worker [simp]:
  "worker a (set_worker b lane q) = (if a = b then lane else worker a q)"
  by (cases a; cases b) (simp_all add: worker_def set_worker_def)

lemma queue_fields [simp]:
  "low_fairness_window (set_worker a lane q) = low_fairness_window q"
  "non_low_pops_since_low (set_worker a lane q) = non_low_pops_since_low q"
  "in_slice (set_worker a lane q) = in_slice q"
  by (cases a; simp add: set_worker_def)+

section \<open>Bounded wait of the low lane\<close>

text \<open>The owner's work on its queue: processes become runnable and time slices are handed out.\<close>

datatype queue_op = QPush u64 Priority | QPop

fun run_queue_ops :: "queue_op list \<Rightarrow> RunQueue \<Rightarrow> u64 list" where
  "run_queue_ops [] q = []"
| "run_queue_ops (QPush p priority # ops) q = run_queue_ops ops (push_with_priority p priority q)"
| "run_queue_ops (QPop # ops) q =
     (case pop q of (None, q) \<Rightarrow> run_queue_ops ops q | (Some p, q) \<Rightarrow> p # run_queue_ops ops q)"

fun pops :: "queue_op list \<Rightarrow> nat" where
  "pops [] = 0"
| "pops (QPush _ _ # ops) = pops ops"
| "pops (QPop # ops) = Suc (pops ops)"

text \<open>Pops that are enough before the process behind \<open>ahead\<close> others in the low lane runs.\<close>

definition low_wait :: "nat \<Rightarrow> RunQueue \<Rightarrow> nat" where
  "low_wait ahead q = ahead * (low_fairness_window q + 1) + (low_fairness_window q - non_low_pops_since_low q) + 1"

lemma pop_cases:
  assumes low: "q_low q = y # ys" and w: "0 < low_fairness_window q" "low_fairness_window q < 2 ^ 64"
    and res: "pop q = (r, q')"
  obtains "r = Some y" "q_low q' = ys" "non_low_pops_since_low q' = 0" "low_fairness_window q' = low_fairness_window q"
  | x where "r = Some x" "q_low q' = y # ys" "non_low_pops_since_low q' = non_low_pops_since_low q + 1"
    "non_low_pops_since_low q < low_fairness_window q" "low_fairness_window q' = low_fairness_window q"
proof (cases "should_prefer_low q")
  case True
  with low res that(1) show thesis
    by (auto simp: pop_def pop_priority_def worker_def set_worker_def)
next
  case False
  with low w have c: "non_low_pops_since_low q < low_fairness_window q" by (auto simp: should_prefer_low_def)
  then have "min (non_low_pops_since_low q + 1) (2 ^ 64 - 1) = non_low_pops_since_low q + 1" using w by simp
  with False low res c show thesis
    by (cases "q_max q"; cases "q_high q"; cases "q_normal q")
      (auto simp: pop_def pop_priority_def worker_def set_worker_def record_pop_def intro: that)
qed

lemma low_lane_served:
  assumes "q_low q = pre @ x # post" "0 < low_fairness_window q" "low_fairness_window q < 2 ^ 64"
    "low_wait (length pre) q \<le> pops ops"
  shows "x \<in> set (run_queue_ops ops q)"
  using assms
proof (induction ops q arbitrary: pre post rule: run_queue_ops.induct)
  case (1 q)
  then show ?case by (simp add: low_wait_def)
next
  case (2 p priority ops q)
  let ?q = "push_with_priority p priority q"
  obtain post' where "q_low ?q = pre @ x # post'"
    using "2.prems"(1) by (cases priority) (auto simp: push_with_priority_def worker_def set_worker_def)
  moreover have "low_wait (length pre) ?q = low_wait (length pre) q" "low_fairness_window ?q = low_fairness_window q"
    by (simp_all add: low_wait_def push_with_priority_def)
  ultimately show ?case using "2.IH" "2.prems" by simp
next
  case (3 ops q)
  obtain r q' where res: "pop q = (r, q')" by fastforce
  obtain y ys where low: "q_low q = y # ys" using "3.prems"(1) by (cases pre) auto
  from low "3.prems"(2,3) res show ?case
  proof (cases rule: pop_cases)
    case 1
    show ?thesis
    proof (cases pre)
      case Nil
      then show ?thesis using "3.prems"(1) low 1 res by simp
    next
      case (Cons z zs)
      then have "q_low q' = zs @ x # post" using "3.prems"(1) low 1 by simp
      moreover have "low_wait (length zs) q' \<le> pops ops"
        using "3.prems"(4) 1 Cons by (simp add: low_wait_def)
      ultimately show ?thesis using "3.IH"(2) [OF res [symmetric]] 1 "3.prems" res by simp
    qed
  next
    case (2 x')
    have "low_wait (length pre) q' \<le> pops ops" using "3.prems"(4) 2 by (simp add: low_wait_def)
    then show ?thesis using "3.IH"(2) [OF res [symmetric]] 2 "3.prems" low res by simp
  qed
qed

text \<open>
  C11. No process starves in the low-priority lane: with a positive fairness window \<open>w\<close>, the
  process behind \<open>n\<close> others in that lane is handed a time slice within \<open>(n + 1) * (w + 1)\<close> pops of
  its owner, whatever is pushed in between, at any priority.
\<close>

theorem low_priority_not_starved:
  assumes "q_low q = pre @ x # post" "0 < low_fairness_window q" "low_fairness_window q < 2 ^ 64"
    "(length pre + 1) * (low_fairness_window q + 1) \<le> pops ops"
  shows "x \<in> set (run_queue_ops ops q)"
  by (rule low_lane_served [OF assms(1-3)]) (use assms(4) in \<open>simp add: low_wait_def\<close>)

theorem low_priority_not_starved_witness:
  "7 \<in> set (run_queue_ops (concat (replicate 9 [QPush 3 PMax, QPop])) (push_with_priority 7 PLow runqueue_new))"
proof -
  let ?q = "push_with_priority 7 PLow runqueue_new" and ?ops = "concat (replicate 9 [QPush 3 PMax, QPop])"
  have "q_low ?q = [] @ 7 # []" "low_fairness_window ?q = 8"
    by (simp_all add: push_with_priority_def worker_def set_worker_def runqueue_new_def with_low_fairness_window_def
        DEFAULT_LOW_PRIORITY_FAIRNESS_WINDOW_def)
  moreover have "pops ?ops = 9" by (simp add: eval_nat_numeral)
  ultimately show ?thesis using low_priority_not_starved [of ?q "[]" 7 "[]" ?ops] by simp
qed

section \<open>Stealing moves work and loses none\<close>

text \<open>\<open>moved n me victim me' victim'\<close>: \<open>n\<close> processes went from the victim to the thief, each within its lane.\<close>

definition moved :: "nat \<Rightarrow> RunQueue \<Rightarrow> RunQueue \<Rightarrow> RunQueue \<Rightarrow> RunQueue \<Rightarrow> bool" where
  "moved n me victim me' victim' \<longleftrightarrow>
     (\<forall>a. mset (worker a me') + mset (worker a victim') = mset (worker a me) + mset (worker a victim) \<and>
        mset (worker a victim') \<subseteq># mset (worker a victim)) \<and>
     queue_len victim = queue_len victim' + n \<and> queue_len me' = queue_len me + n"

lemma queue_len_worker:
  "queue_len q = length (worker PMax q) + length (worker PHigh q) + length (worker PNormal q) + length (worker PLow q)"
  by (simp add: queue_len_def worker_def)

lemma moved_refl: "moved 0 me victim me victim"
  by (simp add: moved_def)

lemma moved_trans:
  assumes "moved n me victim me1 victim1" "moved k me1 victim1 me2 victim2"
  shows "moved (n + k) me victim me2 victim2"
proof -
  have "mset (worker a victim2) \<subseteq># mset (worker a victim)" for a
    using assms unfolding moved_def by (meson subset_mset.order_trans)
  with assms show ?thesis by (simp add: moved_def)
qed

lemma batch_lawD:
  assumes "batch_law batch" "0 < limit"
  shows "batch limit v d = (None, v', d') \<Longrightarrow> v' = v \<and> d' = d"
    "batch limit v d = (Some p, v', d') \<Longrightarrow> \<exists>taken. taken \<noteq> [] \<and> length taken \<le> limit \<and>
       mset v = mset taken + mset v' \<and> mset (p # d') = mset d + mset taken"
proof -
  note law = assms(1) [unfolded batch_law_def, rule_format, OF assms(2)]
  show "batch limit v d = (None, v', d') \<Longrightarrow> v' = v \<and> d' = d"
    using law [of v d None v' d'] by simp
  show "batch limit v d = (Some p, v', d') \<Longrightarrow> \<exists>taken. taken \<noteq> [] \<and> length taken \<le> limit \<and>
      mset v = mset taken + mset v' \<and> mset (p # d') = mset d + mset taken"
    using law [of v d "Some p" v' d'] by simp
qed

lemma set_worker_same [simp]: "set_worker a (worker a q) q = q"
  by (cases a) (simp_all add: worker_def set_worker_def)

lemma steal_from_priority_moved:
  assumes "batch_law batch" "0 < limit" "steal_from_priority batch a limit me victim = (n, me', victim')"
  shows "moved n me victim me' victim' \<and> n \<le> limit \<and> (n = 0 \<longrightarrow> me' = me \<and> victim' = victim)"
proof -
  obtain r v d where b: "batch limit (worker a victim) (worker a me) = (r, v, d)" by (cases "batch limit (worker a victim) (worker a me)") auto
  show ?thesis
  proof (cases r)
    case None
    with b batch_lawD(1) [OF assms(1,2), of "worker a victim" "worker a me" v d]
    have "v = worker a victim" "d = worker a me" by simp_all
    with None assms(3) b have "n = 0" "me' = me" "victim' = victim"
      by (auto simp: steal_from_priority_def Let_def)
    then show ?thesis by (simp add: moved_refl)
  next
    case (Some p)
    with batch_lawD(2) [OF assms(1,2)] b obtain taken where t: "taken \<noteq> []" "length taken \<le> limit"
      "mset (worker a victim) = mset taken + mset v" "mset (p # d) = mset (worker a me) + mset taken" by blast
    then have len: "length (worker a victim) = length taken + length v" "Suc (length d) = length (worker a me) + length taken"
      by (metis size_mset size_union, metis length_Cons size_mset size_union)
    have res: "n = length taken" "me' = set_worker a (d @ [p]) me" "victim' = set_worker a v victim"
      using assms(3) b Some len by (auto simp: steal_from_priority_def Let_def)
    have "queue_len victim = queue_len victim' + n \<and> queue_len me' = queue_len me + n"
      using len res by (cases a) (simp_all add: queue_len_worker)
    moreover have "mset (worker b me') + mset (worker b victim') = mset (worker b me) + mset (worker b victim) \<and>
        mset (worker b victim') \<subseteq># mset (worker b victim)" for b
      using t(3,4) res by (auto simp: ac_simps)
    ultimately show ?thesis using t(2) res(1) t(1) by (simp add: moved_def)
  qed
qed

lemma steal_lanes_moved:
  assumes "batch_law batch" "steal_lanes batch ps remaining stolen me victim = (n, me', victim')"
  shows "\<exists>k. n = stolen + k \<and> k \<le> remaining \<and> moved k me victim me' victim' \<and> (k = 0 \<longrightarrow> me' = me \<and> victim' = victim)"
  using assms(2)
proof (induction ps arbitrary: remaining stolen me victim)
  case Nil
  then show ?case using moved_refl by auto
next
  case (Cons a ps)
  show ?case
  proof (cases "remaining = 0")
    case True
    then show ?thesis using Cons.prems moved_refl by auto
  next
    case False
    obtain j me1 victim1 where s: "steal_from_priority batch a remaining me victim = (j, me1, victim1)"
      by (cases "steal_from_priority batch a remaining me victim") auto
    then have "steal_lanes batch ps (remaining - j) (stolen + j) me1 victim1 = (n, me', victim')"
      using Cons.prems False by simp
    from Cons.IH [OF this] obtain k where "n = stolen + j + k" "k \<le> remaining - j" "moved k me1 victim1 me' victim'"
      "k = 0 \<longrightarrow> me' = me1 \<and> victim' = victim1" by auto
    then show ?thesis
      using steal_from_priority_moved [OF assms(1) _ s] False moved_trans [of j me victim me1 victim1 k]
      by (intro exI [of _ "j + k"]) auto
  qed
qed

lemma steal_half_moved:
  assumes "batch_law batch" "steal_half_from batch me victim = (n, me', victim')"
  shows "moved n me victim me' victim'"
    "n \<le> (if in_slice victim then max (queue_len victim div 2) 1 else queue_len victim div 2)"
    "n = 0 \<Longrightarrow> me' = me \<and> victim' = victim"
  using assms steal_lanes_moved [OF assms(1), of "[PMax, PHigh, PNormal, PLow]"
      "if in_slice victim then max (queue_len victim div 2) 1 else queue_len victim div 2" 0 me victim n me' victim']
    moved_refl
  by (auto simp: steal_half_from_def Let_def split: if_splits)

text \<open>
  C29. Stealing loses and duplicates no process: whatever the deque takes within its documented
  bounds, each lane of thief and victim together keeps its processes, the reported number is the
  number moved, and it is at most half of the victim's queue, except that the single process of
  an owner busy in a slice may be taken; the single process of an idle owner never is.
\<close>

theorem steal_conserves_processes:
  assumes "batch_law batch" "steal_half_from batch me victim = (n, me', victim')"
  shows "moved n me victim me' victim' \<and>
    n \<le> (if in_slice victim then max (queue_len victim div 2) 1 else queue_len victim div 2)"
  using steal_half_moved(1,2) [OF assms] by simp

text \<open>One deque that keeps the law: it takes the front half, at most \<open>limit\<close>.\<close>

definition half_batch :: deque_batch where
  "half_batch limit v d =
     (case v of
        [] \<Rightarrow> (None, v, d)
      | p # v' \<Rightarrow> let n = min limit ((length v + 1) div 2) - 1 in (Some p, drop n v', d @ take n v'))"

lemma half_batch_law: "batch_law half_batch"
proof -
  have "\<exists>taken. taken \<noteq> [] \<and> length taken \<le> limit \<and> mset (p # v') = mset taken + mset (drop n v') \<and>
      mset (p # (d @ take n v')) = mset d + mset taken"
    if "0 < limit" "n = min limit ((length (p # v') + 1) div 2) - 1" for limit n and p :: u64 and v' d
  proof (intro exI [of _ "p # take n v'"] conjI)
    show "mset (p # v') = mset (p # take n v') + mset (drop n v')"
      by simp (metis append_take_drop_id mset_append)
  qed (use that in auto)
  then show ?thesis unfolding batch_law_def half_batch_def by (auto simp: Let_def split: list.splits)
qed

theorem steal_conserves_processes_witness:
  "moved (fst (steal_half_from half_batch runqueue_new (push 2 (push 1 runqueue_new))))
     runqueue_new (push 2 (push 1 runqueue_new))
     (fst (snd (steal_half_from half_batch runqueue_new (push 2 (push 1 runqueue_new)))))
     (snd (snd (steal_half_from half_batch runqueue_new (push 2 (push 1 runqueue_new)))))"
  using steal_conserves_processes [OF half_batch_law, of runqueue_new "push 2 (push 1 runqueue_new)"
      "fst (steal_half_from half_batch runqueue_new (push 2 (push 1 runqueue_new)))"
      "fst (snd (steal_half_from half_batch runqueue_new (push 2 (push 1 runqueue_new))))"
      "snd (snd (steal_half_from half_batch runqueue_new (push 2 (push 1 runqueue_new))))"]
  by simp

section \<open>A thief visits every other queue\<close>

text \<open>The distance of an index from the thief's own, counted upwards and around.\<close>

definition offset_from :: "nat \<Rightarrow> nat \<Rightarrow> nat \<Rightarrow> nat" where
  "offset_from my n v = (if my \<le> v then v - my else v + n - my)"

lemma offset_next:
  assumes "my < n" "1 < n" "v < n"
  shows "next_victim v my n < n" "next_victim v my n \<noteq> my"
    "offset_from my n (next_victim v my n) = offset_from my n v mod (n - 1) + 1"
proof -
  have succ: "Suc u mod n = (if Suc u = n then 0 else Suc u)" if "u < n" for u using that by auto
  define u where "u = (if Suc v = n then 0 else Suc v)"
  have nv: "next_victim v my n = (if u = my then (if Suc u = n then 0 else Suc u) else u)"
    using assms succ [of v] succ [of u] by (auto simp: next_victim_def Let_def u_def)
  have wrap: "u mod (n - 1) = (if u = n - 1 then 0 else u)" if "u < n" for u using that assms(2) by auto
  have "offset_from my n v < n" using assms by (auto simp: offset_from_def)
  note w = wrap [OF this]
  have cases: "Suc v = n \<and> my = 0 \<and> next_victim v my n = 1 \<or> Suc v = n \<and> my \<noteq> 0 \<and> next_victim v my n = 0 \<or>
      Suc v < n \<and> Suc v = my \<and> next_victim v my n = (if Suc my = n then 0 else Suc my) \<or>
      Suc v < n \<and> Suc v \<noteq> my \<and> next_victim v my n = Suc v"
    using assms unfolding nv u_def by auto
  then show "next_victim v my n < n" "next_victim v my n \<noteq> my" using assms by (auto split: if_splits)
  show "offset_from my n (next_victim v my n) = offset_from my n v mod (n - 1) + 1"
    using cases assms(1,2) unfolding w by (elim disjE conjE) (simp_all add: offset_from_def, arith+)
qed

lemma offset_inj: "my < n \<Longrightarrow> u < n \<Longrightarrow> v < n \<Longrightarrow> offset_from my n u = offset_from my n v \<Longrightarrow> u = v"
  by (auto simp: offset_from_def split: if_splits)

text \<open>The victims of \<open>k\<close> rounds.\<close>

definition victims :: "nat \<Rightarrow> nat \<Rightarrow> nat \<Rightarrow> nat \<Rightarrow> nat set" where
  "victims my n v k = (\<lambda>j. ((\<lambda>u. next_victim u my n) ^^ Suc j) v) ` {..<k}"

lemma victim_offset:
  assumes "my < n" "1 < n" "v < n"
  shows "((\<lambda>u. next_victim u my n) ^^ Suc j) v < n \<and>
    offset_from my n (((\<lambda>u. next_victim u my n) ^^ Suc j) v) = (offset_from my n v + j) mod (n - 1) + 1"
proof (induction j)
  case 0
  then show ?case using offset_next [OF assms] by simp
next
  case (Suc j)
  let ?u = "((\<lambda>u. next_victim u my n) ^^ Suc j) v"
  have "offset_from my n (next_victim ?u my n) = offset_from my n ?u mod (n - 1) + 1" "next_victim ?u my n < n"
    using offset_next [OF assms(1,2), of ?u] Suc by auto
  then show ?case using Suc by (simp add: mod_simps)
qed

lemma victims_all:
  assumes "my < n" "1 < n" "v < n" "i < n" "i \<noteq> my"
  shows "i \<in> victims my n v (n - 1)"
proof -
  let ?o = "offset_from my n"
  have i: "1 \<le> ?o i" "?o i < n" using assms by (auto simp: offset_from_def)
  define j where "j = (?o i - 1 + (n - 1) * ?o v - ?o v) mod (n - 1)"
  have le: "?o v \<le> (n - 1) * ?o v" using assms(2) by (cases "n - 1") simp_all
  have "(?o v + j) mod (n - 1) = (?o v + (?o i - 1 + (n - 1) * ?o v - ?o v)) mod (n - 1)"
    by (simp add: j_def mod_add_right_eq)
  also have "?o v + (?o i - 1 + (n - 1) * ?o v - ?o v) = ?o i - 1 + (n - 1) * ?o v" using le by linarith
  also have "(?o i - 1 + (n - 1) * ?o v) mod (n - 1) = ?o i - 1"
    using i by (simp only: mod_mult_self2) (simp add: mod_less)
  finally have "?o (((\<lambda>u. next_victim u my n) ^^ Suc j) v) = ?o i"
    using victim_offset [OF assms(1-3), of j] i by simp
  then have "((\<lambda>u. next_victim u my n) ^^ Suc j) v = i"
    using offset_inj [OF assms(1)] victim_offset [OF assms(1-3), of j] assms(4) by blast
  moreover have "j < n - 1" using assms(2) by (simp add: j_def)
  ultimately show ?thesis unfolding victims_def by blast
qed

lemma victims_Suc: "victims my n v (Suc k) = insert (next_victim v my n) (victims my n (next_victim v my n) k)"
proof -
  have "((\<lambda>u. next_victim u my n) ^^ Suc (Suc j)) v = ((\<lambda>u. next_victim u my n) ^^ Suc j) (next_victim v my n)" for j
    by (simp only: funpow_Suc_right o_apply)
  then show ?thesis unfolding victims_def lessThan_Suc_eq_insert_0 image_insert image_image by simp
qed

definition steal_outcome :: "nat \<Rightarrow> nat \<Rightarrow> RunQueue list \<Rightarrow> nat \<Rightarrow> RunQueue list \<Rightarrow> bool" where
  "steal_outcome n my queues v queues' \<longleftrightarrow> 0 < n \<and> v < length queues \<and> v \<noteq> my \<and> length queues' = length queues \<and>
     moved n (queues ! my) (queues ! v) (queues' ! my) (queues' ! v) \<and>
     (\<forall>i<length queues. i \<noteq> my \<longrightarrow> i \<noteq> v \<longrightarrow> queues' ! i = queues ! i)"

lemma steal_round_correct:
  assumes "batch_law batch" "my < length queues" "1 < length queues" "v < length queues"
    "steal_round batch k my queues v = (res, latest, queues')"
  shows "case res of
      StealEmpty \<Rightarrow> queues' = queues \<and>
        (\<forall>i\<in>victims my (length queues) v k. fst (steal_half_from batch (queues ! my) (queues ! i)) = 0)
    | Stolen n u \<Rightarrow> steal_outcome n my queues u queues' \<and> latest = u"
  using assms(4,5)
proof (induction k arbitrary: v)
  case 0
  then show ?case by (auto simp: victims_def)
next
  case (Suc k)
  let ?u = "next_victim v my (length queues)"
  note u = offset_next [OF assms(2,3) Suc.prems(1)]
  obtain n me vic where s: "steal_half_from batch (queues ! my) (queues ! ?u) = (n, me, vic)"
    by (cases "steal_half_from batch (queues ! my) (queues ! ?u)") auto
  note m = steal_half_moved [OF assms(1) s]
  show ?case
  proof (cases "n = 0")
    case True
    then have "queues[?u := vic, my := me] = queues" using m(3) by simp
    then have "steal_round batch k my queues ?u = (res, latest, queues')" using Suc.prems(2) s True by (simp add: Let_def)
    from Suc.IH [OF u(1) this] show ?thesis using s True by (simp add: victims_Suc split: StealResult.splits)
  next
    case False
    then have "res = Stolen n ?u" "latest = ?u" "queues' = queues[?u := vic, my := me]"
      using Suc.prems(2) s by (auto simp: Let_def)
    then show ?thesis using False m(1) u(1,2) assms(2) by (simp add: steal_outcome_def)
  qed
qed

text \<open>
  An idle scheduler finds work if there is any it may take: when the round of steal attempts
  reports nothing, every other scheduler's queue was tried and gave nothing, and no queue has
  changed; when it reports a theft, the processes came from one other queue, none was lost, and
  every third queue is untouched.
\<close>

lemma try_steal_visits_all:
  assumes "batch_law batch" "my < length queues" "v < length queues"
    "try_steal batch my queues v = (res, latest, queues')"
  shows "case res of
      StealEmpty \<Rightarrow> queues' = queues \<and>
        (\<forall>i<length queues. i \<noteq> my \<longrightarrow> fst (steal_half_from batch (queues ! my) (queues ! i)) = 0)
    | Stolen n u \<Rightarrow> steal_outcome n my queues u queues' \<and> latest = u"
proof (cases "length queues \<le> 1")
  case True
  then have "i = my" if "i < length queues" for i using that assms(2) by linarith
  with True assms(4) show ?thesis by (auto simp: try_steal_def)
next
  case False
  then show ?thesis
    using steal_round_correct [OF assms(1,2) _ assms(3), of "length queues - 1" res latest queues'] assms(4)
      victims_all [OF assms(2) _ assms(3)]
    by (auto simp: try_steal_def split: StealResult.splits)
qed

lemma try_steal_visits_all_witness:
  "try_steal half_batch 0 [runqueue_new, runqueue_new, push 5 runqueue_new] 0 =
     (StealEmpty, 2, [runqueue_new, runqueue_new, push 5 runqueue_new]) \<and>
   fst (steal_half_from half_batch runqueue_new (push 5 runqueue_new)) = 0"
proof -
  let ?qs = "[runqueue_new, runqueue_new, push 5 runqueue_new]"
  have res: "try_steal half_batch 0 ?qs 0 = (StealEmpty, 2, ?qs)"
    by (simp add: try_steal_def next_victim_def steal_half_from_def queue_len_def push_def push_with_priority_def
        worker_def set_worker_def runqueue_new_def with_low_fairness_window_def numeral_2_eq_2)
  from try_steal_visits_all [OF half_batch_law _ _ res] have
    "\<forall>i<3. i \<noteq> 0 \<longrightarrow> fst (steal_half_from half_batch (?qs ! 0) (?qs ! i)) = 0" by (simp add: numeral_3_eq_3)
  from spec [OF this, of 2] res show ?thesis by simp
qed

end
