(* ===== verification/Exit_Store.thy ===== *)
theory Exit_Store
  imports Process_State
begin

text \<open>
  The exit record store (\<^verbatim>\<open>crates/beamr/src/scheduler/exit_tombstones.rs\<close>) with the exit events and
  one-shot exit watches it drives (\<^verbatim>\<open>scheduler/exit_events.rs\<close>). \<open>'t\<close> is the owned result term. A
  one-shot channel is the notification placed in it, \<open>slot w\<close> for watch \<open>w\<close>; the event channel
  is its bounded queue. Watch numbers are naturals (the counter of the source wraps after
  \<open>2 ^ 64\<close> registrations). The subscriber keeps its handle, and the
  test-only publication gate is left out.

  Writers are serialised by a mutex only while they install a record; publishing the event and
  firing the watches come after. The step relation therefore interleaves the critical section,
  the two later stages, and the two halves of a registration.
\<close>

section \<open>Definitions\<close>

datatype ExitEvent = ExitedEvent u64 ExitReason | Lagged

record 't Store =
  reasons :: "u64 \<rightharpoonup> ExitReason"
  outcomes :: "u64 \<rightharpoonup> ExitReason \<times> 't option"
  t_order :: "u64 list"
  t_capacity :: nat
  subscribed :: bool
  event_capacity :: nat
  event_queue :: "ExitEvent list"
  overflowed :: bool
  watches :: "u64 \<rightharpoonup> nat list"
  next_watch_id :: nat
  slot :: "nat \<rightharpoonup> u64 \<times> ExitReason"

definition EXIT_EVENT_CAPACITY :: nat where
  "EXIT_EVENT_CAPACITY = 1024"

definition TOMBSTONE_CAPACITY :: nat where
  "TOMBSTONE_CAPACITY = 65536"

definition store_with_capacity :: "nat \<Rightarrow> 't Store" where
  "store_with_capacity n =
     \<lparr>reasons = Map.empty, outcomes = Map.empty, t_order = [], t_capacity = max n 1,
      subscribed = False, event_capacity = max EXIT_EVENT_CAPACITY 1, event_queue = [], overflowed = False,
      watches = Map.empty, next_watch_id = 0, slot = Map.empty\<rparr>"

definition store_new :: "'t Store" where
  "store_new = store_with_capacity TOMBSTONE_CAPACITY"

definition store_get :: "u64 \<Rightarrow> 't Store \<Rightarrow> ExitReason option" where
  "store_get p s = reasons s p"

definition store_contains_key :: "u64 \<Rightarrow> 't Store \<Rightarrow> bool" where
  "store_contains_key p s \<longleftrightarrow> reasons s p \<noteq> None"

definition take_outcome :: "u64 \<Rightarrow> 't Store \<Rightarrow> (ExitReason \<times> 't) option \<times> 't Store" where
  "take_outcome p s =
     (case outcomes s p of
        Some (reason, Some t) \<Rightarrow> (Some (reason, t), s\<lparr>outcomes := (outcomes s)(p \<mapsto> (reason, None))\<rparr>)
      | _ \<Rightarrow> (None, s))"

definition finalized_reason :: "u64 \<Rightarrow> 't Store \<Rightarrow> ExitReason option" where
  "finalized_reason p s = map_option fst (outcomes s p)"

subsection \<open>Events\<close>

text \<open>The second component is whether a subscription was handed out: only the first caller gets it.\<close>

definition subscribe :: "'t Store \<Rightarrow> 't Store \<times> bool" where
  "subscribe s = (if subscribed s then (s, False) else (s\<lparr>subscribed := True\<rparr>, True))"

definition publish :: "ExitEvent \<Rightarrow> 't Store \<Rightarrow> 't Store" where
  "publish event s =
     (if \<not> subscribed s then s
      else if length (event_queue s) < event_capacity s then s\<lparr>event_queue := event_queue s @ [event]\<rparr>
      else s\<lparr>overflowed := True\<rparr>)"

definition take_lag_marker :: "'t Store \<Rightarrow> bool \<times> 't Store" where
  "take_lag_marker s =
     (if \<not> overflowed s then (False, s) else (True, s\<lparr>overflowed := False, event_queue := []\<rparr>))"

text \<open>\<open>None\<close>: the receiver blocks on an empty queue.\<close>

definition recv_event :: "'t Store \<Rightarrow> ExitEvent option \<times> 't Store" where
  "recv_event s =
     (case take_lag_marker s of
        (True, s) \<Rightarrow> (Some Lagged, s)
      | (False, s) \<Rightarrow>
          (case event_queue s of
             [] \<Rightarrow> (None, s)
           | e # es \<Rightarrow> (Some e, s\<lparr>event_queue := es\<rparr>)))"

subsection \<open>Watches\<close>

definition register :: "u64 \<Rightarrow> 't Store \<Rightarrow> nat \<times> 't Store" where
  "register p s =
     (let w = next_watch_id s
      in (w, s\<lparr>next_watch_id := w + 1,
               watches := (watches s)(p \<mapsto> (case watches s p of None \<Rightarrow> [] | Some ws \<Rightarrow> ws) @ [w])\<rparr>))"

text \<open>\<open>try_send\<close> into the one-slot channel: a full slot keeps what it has.\<close>

definition fill :: "u64 \<times> ExitReason \<Rightarrow> nat \<Rightarrow> (nat \<rightharpoonup> u64 \<times> ExitReason) \<Rightarrow> (nat \<rightharpoonup> u64 \<times> ExitReason)" where
  "fill note w slots = (if slots w = None then slots(w \<mapsto> note) else slots)"

definition fire :: "u64 \<Rightarrow> ExitReason \<Rightarrow> 't Store \<Rightarrow> 't Store" where
  "fire p reason s =
     (case watches s p of
        None \<Rightarrow> s
      | Some ws \<Rightarrow> s\<lparr>watches := (watches s)(p := None), slot := fold (fill (p, reason)) ws (slot s)\<rparr>)"

definition deregister :: "u64 \<Rightarrow> nat \<Rightarrow> 't Store \<Rightarrow> 't Store" where
  "deregister p w s =
     (case watches s p of
        None \<Rightarrow> s
      | Some ws \<Rightarrow>
          let ws = filter (\<lambda>i. i \<noteq> w) ws
          in if ws = [] then s\<lparr>watches := (watches s)(p := None)\<rparr> else s\<lparr>watches := (watches s)(p \<mapsto> ws)\<rparr>)"

datatype StoreWatch = WatchArmed nat | AlreadyExited ExitReason

definition check_watch :: "u64 \<Rightarrow> nat \<Rightarrow> 't Store \<Rightarrow> StoreWatch \<times> 't Store" where
  "check_watch p w s =
     (case finalized_reason p s of
        Some reason \<Rightarrow> (AlreadyExited reason, deregister p w s)
      | None \<Rightarrow> (WatchArmed w, s))"

definition watch :: "u64 \<Rightarrow> 't Store \<Rightarrow> StoreWatch \<times> 't Store" where
  "watch p s = (case register p s of (w, s) \<Rightarrow> check_watch p w s)"

subsection \<open>Recording an exit\<close>

fun evict_loop :: "u64 list \<Rightarrow> (u64 \<rightharpoonup> ExitReason) \<Rightarrow> u64 option \<times> u64 list \<times> (u64 \<rightharpoonup> ExitReason)" where
  "evict_loop [] m = (None, [], m)"
| "evict_loop (oldest # rest_order) m =
     (if m oldest \<noteq> None then (Some oldest, rest_order, m(oldest := None)) else evict_loop rest_order m)"

text \<open>The critical section: the evicted pid, whether the caller must publish, and the new store.\<close>

definition install ::
  "u64 \<Rightarrow> ExitReason \<Rightarrow> 't option \<Rightarrow> 't Store \<Rightarrow> u64 option \<times> bool \<times> 't Store" where
  "install p reason outcome s =
     (if store_contains_key p s then (None, False, s\<lparr>reasons := (reasons s)(p \<mapsto> reason)\<rparr>)
      else
        let publish_event = (outcome \<noteq> None \<and> outcomes s p = None);
            s = (if publish_event then s\<lparr>outcomes := (outcomes s)(p \<mapsto> (reason, outcome))\<rparr> else s);
            s = s\<lparr>reasons := (reasons s)(p \<mapsto> reason), t_order := t_order s @ [p]\<rparr>
        in if length (t_order s) > t_capacity s then
             (case evict_loop (t_order s) (reasons s) of
                (evicted, ord, m) \<Rightarrow> (evicted, publish_event, s\<lparr>t_order := ord, reasons := m\<rparr>))
           else (None, publish_event, s))"

definition insert_inner :: "u64 \<Rightarrow> ExitReason \<Rightarrow> 't option \<Rightarrow> 't Store \<Rightarrow> u64 option \<times> 't Store" where
  "insert_inner p reason outcome s =
     (case install p reason outcome s of
        (evicted, publish_event, s) \<Rightarrow>
          (evicted, if publish_event then fire p reason (publish (ExitedEvent p reason) s) else s))"

definition insert_outcome :: "u64 \<Rightarrow> ExitReason \<Rightarrow> 't \<Rightarrow> 't Store \<Rightarrow> u64 option \<times> 't Store" where
  "insert_outcome p reason outcome s = insert_inner p reason (Some outcome) s"

section \<open>Bounded first-in first-out tombstones\<close>

definition store_ok :: "'t Store \<Rightarrow> bool" where
  "store_ok s \<longleftrightarrow> distinct (t_order s) \<and> set (t_order s) = dom (reasons s) \<and>
     length (t_order s) \<le> t_capacity s \<and> 0 < t_capacity s"

lemma publish_fields [simp]:
  "reasons (publish e s) = reasons s" "outcomes (publish e s) = outcomes s" "t_order (publish e s) = t_order s"
  "t_capacity (publish e s) = t_capacity s" "watches (publish e s) = watches s" "slot (publish e s) = slot s"
  "next_watch_id (publish e s) = next_watch_id s"
  by (simp_all add: publish_def)

lemma fire_fields [simp]:
  "reasons (fire p r s) = reasons s" "outcomes (fire p r s) = outcomes s" "t_order (fire p r s) = t_order s"
  "t_capacity (fire p r s) = t_capacity s" "next_watch_id (fire p r s) = next_watch_id s"
  by (simp_all add: fire_def split: option.split)

definition recorded :: "u64 \<Rightarrow> ExitReason \<Rightarrow> 't option \<Rightarrow> 't Store \<Rightarrow> 't Store" where
  "recorded p reason outcome s =
     (if outcome \<noteq> None \<and> outcomes s p = None then s\<lparr>outcomes := (outcomes s)(p \<mapsto> (reason, outcome))\<rparr> else s)"

lemma recorded_fields [simp]:
  "reasons (recorded p r oc s) = reasons s" "t_order (recorded p r oc s) = t_order s"
  "t_capacity (recorded p r oc s) = t_capacity s" "watches (recorded p r oc s) = watches s"
  "slot (recorded p r oc s) = slot s" "next_watch_id (recorded p r oc s) = next_watch_id s"
  by (simp_all add: recorded_def)

text \<open>The three outcomes of the critical section: overwritten, appended, appended with an eviction.\<close>

lemma install_live:
  "reasons s p \<noteq> None \<Longrightarrow> install p reason oc s = (None, False, s\<lparr>reasons := (reasons s)(p \<mapsto> reason)\<rparr>)"
  by (simp add: install_def store_contains_key_def)

lemma install_room:
  "reasons s p = None \<Longrightarrow> length (t_order s) < t_capacity s \<Longrightarrow>
   install p reason oc s = (None, oc \<noteq> None \<and> outcomes s p = None,
     (recorded p reason oc s)\<lparr>reasons := (reasons s)(p \<mapsto> reason), t_order := t_order s @ [p]\<rparr>)"
  by (simp add: install_def store_contains_key_def recorded_def Let_def)

lemma install_full:
  assumes "store_ok s" "reasons s p = None" "length (t_order s) = t_capacity s"
  shows "install p reason oc s = (Some (hd (t_order s)), oc \<noteq> None \<and> outcomes s p = None,
     (recorded p reason oc s)\<lparr>reasons := ((reasons s)(p \<mapsto> reason))(hd (t_order s) := None),
        t_order := tl (t_order s) @ [p]\<rparr>)"
proof -
  obtain o1 os where ord: "t_order s = o1 # os" using assms(1,3) by (cases "t_order s") (auto simp: store_ok_def)
  then have "reasons s o1 \<noteq> None" using assms(1) by (auto simp: store_ok_def)
  then have "evict_loop (t_order s @ [p]) ((reasons s)(p \<mapsto> reason)) =
      (Some o1, os @ [p], ((reasons s)(p \<mapsto> reason))(o1 := None))"
    by (auto simp: ord)
  with ord assms(2,3) show ?thesis
    by (simp add: install_def store_contains_key_def recorded_def Let_def)
qed

lemma install_cases:
  assumes "store_ok s"
  obtains "reasons s p \<noteq> None" | "reasons s p = None" "length (t_order s) < t_capacity s"
  | "reasons s p = None" "length (t_order s) = t_capacity s"
  using assms by (auto simp: store_ok_def dest: le_neq_implies_less)

lemma install_ok:
  assumes ok: "store_ok s" and inst: "install p reason oc s = (evicted, publish_event, s')"
  shows "store_ok s'"
  using ok
proof (rule install_cases [of s p])
  assume "reasons s p \<noteq> None"
  then show ?thesis using ok inst by (auto simp: install_live store_ok_def split: if_splits)
next
  assume "reasons s p = None" "length (t_order s) < t_capacity s"
  then show ?thesis using ok inst by (auto simp: install_room store_ok_def)
next
  assume full: "reasons s p = None" "length (t_order s) = t_capacity s"
  then obtain o1 os where ord: "t_order s = o1 # os" using ok by (cases "t_order s") (auto simp: store_ok_def)
  have fields: "reasons s' = ((reasons s)(p \<mapsto> reason))(o1 := None)" "t_order s' = os @ [p]" "t_capacity s' = t_capacity s"
    using inst install_full [OF ok full, of reason oc] ord by auto
  have "insert o1 (set os) = dom (reasons s)" "o1 \<notin> set os" "distinct os" using ok ord by (auto simp: store_ok_def)
  moreover have "p \<notin> dom (reasons s)" using full by auto
  ultimately show ?thesis using full ok ord unfolding store_ok_def fields by (auto simp: insert_eq_iff)
qed

lemma install_outcomes:
  assumes "install p reason oc s = (evicted, publish_event, s')"
  shows "outcomes s' = (if publish_event then (outcomes s)(p \<mapsto> (reason, oc)) else outcomes s)"
    and "publish_event \<Longrightarrow> outcomes s p = None" and "watches s' = watches s" and "slot s' = slot s"
    and "next_watch_id s' = next_watch_id s"
  using assms by (auto simp: install_def Let_def split: if_splits prod.splits)

lemma insert_outcome_fields:
  "install p reason (Some oc) s = (evicted, publish_event, s1) \<Longrightarrow> insert_outcome p reason oc s = (evicted', s') \<Longrightarrow>
   evicted' = evicted \<and> reasons s' = reasons s1 \<and> outcomes s' = outcomes s1 \<and> t_order s' = t_order s1 \<and>
   t_capacity s' = t_capacity s1"
  by (auto simp: insert_outcome_def insert_inner_def)

lemma insert_outcome_order:
  assumes ok: "store_ok s" and ins: "insert_outcome p reason oc s = (evicted, s')"
  shows "(t_order s', evicted) =
      (if reasons s p \<noteq> None then (t_order s, None)
       else if length (t_order s) < t_capacity s then (t_order s @ [p], None)
       else (tl (t_order s) @ [p], Some (hd (t_order s))))"
  using ok
proof (rule install_cases [of s p])
  assume "reasons s p \<noteq> None"
  then show ?thesis using insert_outcome_fields [OF install_live ins] by simp
next
  assume "reasons s p = None" "length (t_order s) < t_capacity s"
  then show ?thesis using insert_outcome_fields [OF install_room ins] by simp
next
  assume "reasons s p = None" "length (t_order s) = t_capacity s"
  then show ?thesis using insert_outcome_fields [OF install_full [OF ok] ins] by simp
qed

lemma insert_outcome_reason:
  assumes ok: "store_ok s" and ins: "insert_outcome p reason oc s = (evicted, s')"
  shows "reasons s' p = Some reason"
  using ok
proof (rule install_cases [of s p])
  assume "reasons s p \<noteq> None"
  then show ?thesis using insert_outcome_fields [OF install_live ins] by simp
next
  assume "reasons s p = None" "length (t_order s) < t_capacity s"
  then show ?thesis using insert_outcome_fields [OF install_room ins] by simp
next
  assume full: "reasons s p = None" "length (t_order s) = t_capacity s"
  have "t_order s \<noteq> []" using ok full by (auto simp: store_ok_def)
  then have "hd (t_order s) \<in> dom (reasons s)" using ok by (metis hd_in_set store_ok_def)
  then have "hd (t_order s) \<noteq> p" using full by auto
  then show ?thesis using insert_outcome_fields [OF install_full [OF ok full] ins] by simp
qed

lemma insert_outcome_ok:
  assumes "store_ok s" "insert_outcome p reason oc s = (evicted, s')"
  shows "store_ok s'"
proof -
  obtain e b s1 where inst: "install p reason (Some oc) s = (e, b, s1)" by (metis prod_cases3)
  show ?thesis using install_ok [OF assms(1) inst] insert_outcome_fields [OF inst assms(2)] by (simp add: store_ok_def)
qed

lemma insert_outcome_finalized:
  assumes "insert_outcome p reason oc s = (evicted, s')" "finalized_reason q s = Some r"
  shows "finalized_reason q s' = Some r"
proof -
  obtain e b s1 where inst: "install p reason (Some oc) s = (e, b, s1)" by (metis prod_cases3)
  show ?thesis using install_outcomes(1,2) [OF inst] insert_outcome_fields [OF inst assms(1)] assms(2)
    by (auto simp: finalized_reason_def)
qed

lemma take_outcome_once:
  "take_outcome q s = (Some (r, t), s2) \<Longrightarrow>
   fst (take_outcome q s2) = None \<and> finalized_reason q s2 = Some r \<and> finalized_reason q s = Some r"
  by (auto simp: take_outcome_def finalized_reason_def split: option.splits prod.splits)

text \<open>
  C33. Exit tombstones are a bounded first-in first-out store: recording an exit keeps the
  invariant (the order lists exactly the live tombstones, each once, at most \<open>capacity\<close> of them);
  a new tombstone goes to the back and, when the store is full, exactly the oldest is evicted; a
  live one is overwritten in place. The finalized reason of an exit never changes once recorded,
  eviction included, and its outcome is handed out once.
\<close>

theorem tombstones_bounded_fifo:
  assumes "store_ok s" "insert_outcome p reason oc s = (evicted, s')"
  shows "store_ok s' \<and> reasons s' p = Some reason \<and>
    (t_order s', evicted) =
      (if reasons s p \<noteq> None then (t_order s, None)
       else if length (t_order s) < t_capacity s then (t_order s @ [p], None)
       else (tl (t_order s) @ [p], Some (hd (t_order s)))) \<and>
    (\<forall>q r. finalized_reason q s = Some r \<longrightarrow> finalized_reason q s' = Some r) \<and>
    (\<forall>q r t s2. take_outcome q s' = (Some (r, t), s2) \<longrightarrow>
       fst (take_outcome q s2) = None \<and> finalized_reason q s2 = Some r \<and> finalized_reason q s' = Some r)"
  by (intro conjI allI impI insert_outcome_ok [OF assms] insert_outcome_reason [OF assms]
      insert_outcome_order [OF assms])
    (auto dest: take_outcome_once insert_outcome_finalized [OF assms(2)])

text \<open>A second exit on a store of capacity one.\<close>

definition one_exit :: "nat Store" where
  "one_exit = snd (insert_outcome 7 Normal 70 (store_with_capacity 1))"

lemmas store_eval = store_with_capacity_def EXIT_EVENT_CAPACITY_def insert_outcome_def insert_inner_def install_def
  store_contains_key_def publish_def fire_def finalized_reason_def take_outcome_def

theorem tombstones_bounded_fifo_witness:
  "store_ok one_exit \<and> fst (insert_outcome 8 Kill 80 one_exit) = Some 7 \<and>
   store_ok (snd (insert_outcome 8 Kill 80 one_exit)) \<and> t_order (snd (insert_outcome 8 Kill 80 one_exit)) = [8] \<and>
   finalized_reason 7 (snd (insert_outcome 8 Kill 80 one_exit)) = Some Normal"
proof -
  have ok: "store_ok one_exit"
    by (auto simp: one_exit_def store_ok_def store_eval Let_def split: if_splits)
  have "t_order one_exit = [7]" "reasons one_exit 8 = None" "t_capacity one_exit = 1" "finalized_reason 7 one_exit = Some Normal"
    by (simp_all add: one_exit_def store_eval Let_def)
  then show ?thesis
    using tombstones_bounded_fifo [OF ok prod.collapse [symmetric], of 8 Kill 80] ok by auto
qed

section \<open>Interleaved exits and watches\<close>

text \<open>
  A world is the store, the exits whose record is installed and that have not finished firing
  (with whether their event is out), the events published so far, and what each watch has seen.
\<close>

datatype Phase = Registered u64 | Armed u64 | Reported u64 ExitReason | Received u64 ExitReason

primrec phase_pid :: "Phase \<Rightarrow> u64" where
  "phase_pid (Registered p) = p"
| "phase_pid (Armed p) = p"
| "phase_pid (Reported p r) = p"
| "phase_pid (Received p r) = p"

record 't World =
  w_store :: "'t Store"
  inflight :: "(u64 \<times> ExitReason \<times> bool) list"
  event_log :: "(u64 \<times> ExitReason) list"
  phase :: "nat \<rightharpoonup> Phase"

definition world_init :: "nat \<Rightarrow> 't World" where
  "world_init n = \<lparr>w_store = store_with_capacity n, inflight = [], event_log = [], phase = Map.empty\<rparr>"

inductive exit_step :: "'t World \<Rightarrow> 't World \<Rightarrow> bool" where
  step_install: "install p r (Some oc) (w_store x) = (evicted, publish_event, s') \<Longrightarrow>
     exit_step x (x\<lparr>w_store := s', inflight := inflight x @ (if publish_event then [(p, r, False)] else [])\<rparr>)"
| step_publish: "inflight x = before @ (p, r, False) # after \<Longrightarrow>
     exit_step x (x\<lparr>w_store := publish (ExitedEvent p r) (w_store x), inflight := before @ (p, r, True) # after,
       event_log := event_log x @ [(p, r)]\<rparr>)"
| step_fire: "inflight x = before @ (p, r, True) # after \<Longrightarrow>
     exit_step x (x\<lparr>w_store := fire p r (w_store x), inflight := before @ after\<rparr>)"
| step_register: "register p (w_store x) = (w, s') \<Longrightarrow>
     exit_step x (x\<lparr>w_store := s', phase := (phase x)(w \<mapsto> Registered p)\<rparr>)"
| step_check_live: "phase x w = Some (Registered p) \<Longrightarrow> finalized_reason p (w_store x) = None \<Longrightarrow>
     exit_step x (x\<lparr>phase := (phase x)(w \<mapsto> Armed p)\<rparr>)"
| step_check_dead: "phase x w = Some (Registered p) \<Longrightarrow> finalized_reason p (w_store x) = Some r \<Longrightarrow>
     exit_step x (x\<lparr>phase := (phase x)(w \<mapsto> Reported p r)\<rparr>)"
| step_drop: "phase x w = Some f \<Longrightarrow>
     exit_step x (x\<lparr>w_store := deregister (phase_pid f) w (w_store x), phase := (phase x)(w := None)\<rparr>)"
| step_watch_recv: "phase x w = Some (Armed p) \<Longrightarrow> slot (w_store x) w = Some (q, r) \<Longrightarrow>
     exit_step x (x\<lparr>w_store := (w_store x)\<lparr>slot := (slot (w_store x))(w := None)\<rparr>, phase := (phase x)(w \<mapsto> Received q r)\<rparr>)"
| step_take: "take_outcome p (w_store x) = (taken, s') \<Longrightarrow> exit_step x (x\<lparr>w_store := s'\<rparr>)"
| step_subscribe: "subscribe (w_store x) = (s', granted) \<Longrightarrow> exit_step x (x\<lparr>w_store := s'\<rparr>)"
| step_event_recv: "recv_event (w_store x) = (e, s') \<Longrightarrow> exit_step x (x\<lparr>w_store := s'\<rparr>)"

definition watching :: "u64 \<Rightarrow> 't Store \<Rightarrow> nat list" where
  "watching p s = (case watches s p of None \<Rightarrow> [] | Some ws \<Rightarrow> ws)"

definition pending_events :: "'t World \<Rightarrow> (u64 \<times> ExitReason) list" where
  "pending_events x = map (\<lambda>(p, r, b). (p, r)) (filter (\<lambda>(p, r, b). \<not> b) (inflight x))"

text \<open>What the registry operations do to the watches and slots.\<close>

lemma fold_fill:
  "fold (fill note) ws slots w = (if w \<in> set ws \<and> slots w = None then Some note else slots w)"
  by (induction ws arbitrary: slots) (auto simp: fill_def)

lemma fire_watching:
  "watching q (fire p r s) = (if q = p then [] else watching q s)"
  "slot (fire p r s) w = (if w \<in> set (watching p s) \<and> slot s w = None then Some (p, r) else slot s w)"
  by (auto simp: fire_def watching_def fold_fill split: option.split)

lemma register_watching:
  assumes "register p s = (w, s')"
  shows "w = next_watch_id s" "next_watch_id s' = Suc w" "slot s' = slot s" "outcomes s' = outcomes s"
    "watching q s' = (if q = p then watching p s @ [w] else watching q s)"
  using assms by (auto simp: register_def watching_def Let_def)

lemma deregister_fields [simp]:
  "outcomes (deregister p w s) = outcomes s" "slot (deregister p w s) = slot s"
  "next_watch_id (deregister p w s) = next_watch_id s"
  by (simp_all add: deregister_def Let_def split: option.split)

lemma deregister_watching:
  "watching q (deregister p w s) = (if q = p then filter (\<lambda>i. i \<noteq> w) (watching p s) else watching q s)"
  by (auto simp: deregister_def watching_def Let_def split: option.split)

lemma events_keep_fields:
  "subscribe s = (s', granted) \<Longrightarrow> outcomes s' = outcomes s \<and> watches s' = watches s \<and> slot s' = slot s \<and> next_watch_id s' = next_watch_id s"
  "recv_event s = (e, s') \<Longrightarrow> outcomes s' = outcomes s \<and> watches s' = watches s \<and> slot s' = slot s \<and> next_watch_id s' = next_watch_id s"
  by (auto simp: subscribe_def recv_event_def take_lag_marker_def split: if_splits list.splits)

lemma take_outcome_fields:
  "take_outcome p s = (taken, s') \<Longrightarrow> watches s' = watches s \<and> slot s' = slot s \<and> next_watch_id s' = next_watch_id s \<and>
     finalized_reason q s' = finalized_reason q s"
  by (auto simp: take_outcome_def finalized_reason_def split: option.splits prod.splits)

text \<open>
  The invariant. Events: installed exits and published events carry the finalized reason, at most
  one event per process, and every finalized process has one, published or pending.
\<close>

definition events_ok :: "'t World \<Rightarrow> bool" where
  "events_ok x \<longleftrightarrow>
     (\<forall>p r b. (p, r, b) \<in> set (inflight x) \<longrightarrow> finalized_reason p (w_store x) = Some r) \<and>
     (\<forall>p r. (p, r) \<in> set (event_log x @ pending_events x) \<longrightarrow> finalized_reason p (w_store x) = Some r) \<and>
     distinct (map fst (event_log x @ pending_events x)) \<and>
     (\<forall>p. finalized_reason p (w_store x) \<noteq> None \<longrightarrow> p \<in> fst ` set (event_log x @ pending_events x))"

text \<open>
  Watches: ids are fresh; a watch that waits without a notification is registered; one armed
  without a notification watches a live process or one whose exit is still to be fired; what a
  watch holds or has reported is the finalized reason of its process.
\<close>

definition watches_ok :: "'t World \<Rightarrow> bool" where
  "watches_ok x \<longleftrightarrow>
     (\<forall>w. phase x w \<noteq> None \<or> slot (w_store x) w \<noteq> None \<longrightarrow> w < next_watch_id (w_store x)) \<and>
     (\<forall>w q r. slot (w_store x) w = Some (q, r) \<longrightarrow> finalized_reason q (w_store x) = Some r) \<and>
     (\<forall>w q r f. slot (w_store x) w = Some (q, r) \<longrightarrow> phase x w = Some f \<longrightarrow> phase_pid f = q) \<and>
     (\<forall>w p. w \<in> set (watching p (w_store x)) \<longrightarrow> (\<exists>f. phase x w = Some f \<and> phase_pid f = p)) \<and>
     (\<forall>w p. phase x w = Some (Registered p) \<or> phase x w = Some (Armed p) \<longrightarrow>
        slot (w_store x) w = None \<longrightarrow> w \<in> set (watching p (w_store x))) \<and>
     (\<forall>w p. phase x w = Some (Armed p) \<longrightarrow> slot (w_store x) w = None \<longrightarrow>
        finalized_reason p (w_store x) = None \<or> p \<in> fst ` set (inflight x)) \<and>
     (\<forall>w p r. phase x w = Some (Reported p r) \<or> phase x w = Some (Received p r) \<longrightarrow>
        finalized_reason p (w_store x) = Some r)"

lemma install_finalized:
  assumes "install p r (Some oc) s = (evicted, publish_event, s')"
  shows "finalized_reason q s' = (if publish_event \<and> q = p then Some r else finalized_reason q s)"
    and "publish_event \<Longrightarrow> finalized_reason p s = None"
    and "watching q s' = watching q s" "slot s' = slot s" "next_watch_id s' = next_watch_id s"
  using install_outcomes [OF assms] by (auto simp: finalized_reason_def watching_def)

lemma finalized_outcomes: "outcomes s' = outcomes s \<Longrightarrow> finalized_reason q s' = finalized_reason q s"
  by (simp add: finalized_reason_def)

lemma finalized_fields [simp]:
  "finalized_reason q (publish e s) = finalized_reason q s" "finalized_reason q (fire p r s) = finalized_reason q s"
  "finalized_reason q (deregister p w s) = finalized_reason q s"
  "finalized_reason q (s\<lparr>slot := m\<rparr>) = finalized_reason q s"
  by (simp_all add: finalized_reason_def)

lemma watching_watches: "watches s' = watches s \<Longrightarrow> watching q s' = watching q s"
  by (simp add: watching_def)

lemma quiet_step_fields:
  assumes "take_outcome p s = (taken, s') \<or> subscribe s = (s', granted) \<or> recv_event s = (e, s')"
  shows "finalized_reason q s' = finalized_reason q s" "watching q s' = watching q s" "slot s' = slot s"
    "next_watch_id s' = next_watch_id s"
  using assms take_outcome_fields events_keep_fields finalized_outcomes watching_watches by metis+

lemma pending_events_simps [simp]:
  "inflight x = before @ (p, r, False) # after \<Longrightarrow>
   pending_events x = pending_events (x\<lparr>inflight := before\<rparr>) @ (p, r) # pending_events (x\<lparr>inflight := after\<rparr>)"
  by (simp add: pending_events_def)

lemma events_ok_step:
  assumes "exit_step x y" "events_ok x"
  shows "events_ok y"
  using assms
proof cases
  case (step_install p r oc evicted publish_event s')
  note inst = install_finalized [OF step_install(2)]
  show ?thesis
  proof (cases publish_event)
    case True
    have new: "pending_events y = pending_events x @ [(p, r)]" "event_log y = event_log x"
      "inflight y = inflight x @ [(p, r, False)]"
      using True step_install(1) by (simp_all add: pending_events_def)
    have fin: "finalized_reason q (w_store y) = (if q = p then Some r else finalized_reason q (w_store x))" for q
      using inst(1) [of q] True step_install(1) by simp
    have none: "finalized_reason p (w_store x) = None" using inst(2) True by simp
    moreover have "(p, q, b) \<notin> set (inflight x)" for q b using assms(2) none
      unfolding events_ok_def by (metis option.distinct(1))
    ultimately show ?thesis using assms(2) unfolding events_ok_def new fin by (intro conjI) (auto split: if_splits)
  next
    case False
    then show ?thesis using assms(2) inst step_install(1) by (simp add: events_ok_def pending_events_def)
  qed
next
  case (step_publish before p r after)
  then show ?thesis using assms(2)
    by (auto simp: events_ok_def pending_events_def)
next
  case (step_fire before p r after)
  then show ?thesis using assms(2)
    by (auto simp: events_ok_def pending_events_def)
next
  case (step_register p w s')
  then show ?thesis using assms(2) finalized_outcomes [OF register_watching(4) [OF step_register(2)]]
    by (simp add: events_ok_def pending_events_def)
next
  case (step_take p taken s')
  then show ?thesis using assms(2) quiet_step_fields(1) [of p "w_store x" taken s']
    by (simp add: events_ok_def pending_events_def)
next
  case (step_subscribe s' granted)
  then show ?thesis using assms(2) quiet_step_fields(1) [of _ "w_store x" _ s' granted]
    by (simp add: events_ok_def pending_events_def)
next
  case (step_event_recv e s')
  then show ?thesis using assms(2) quiet_step_fields(1) [of _ "w_store x" _ s' _ e]
    by (simp add: events_ok_def pending_events_def)
qed (auto simp: events_ok_def pending_events_def)

lemma watches_okD:
  assumes "watches_ok x"
  shows "phase x w = Some f \<Longrightarrow> w < next_watch_id (w_store x)"
    "slot (w_store x) w = Some note \<Longrightarrow> w < next_watch_id (w_store x)"
    "slot (w_store x) w = Some (q, r) \<Longrightarrow> finalized_reason q (w_store x) = Some r"
    "slot (w_store x) w = Some (q, r) \<Longrightarrow> phase x w = Some f \<Longrightarrow> phase_pid f = q"
    "w \<in> set (watching p (w_store x)) \<Longrightarrow> \<exists>f. phase x w = Some f \<and> phase_pid f = p"
    "phase x w \<in> {Some (Registered p), Some (Armed p)} \<Longrightarrow> slot (w_store x) w = None \<Longrightarrow> w \<in> set (watching p (w_store x))"
    "phase x w = Some (Armed p) \<Longrightarrow> slot (w_store x) w = None \<Longrightarrow>
       finalized_reason p (w_store x) = None \<or> p \<in> fst ` set (inflight x)"
    "phase x w \<in> {Some (Reported p r), Some (Received p r)} \<Longrightarrow> finalized_reason p (w_store x) = Some r"
  using assms unfolding watches_ok_def by blast+

lemma watches_okI:
  assumes "\<And>w f. phase x w = Some f \<Longrightarrow> w < next_watch_id (w_store x)"
    "\<And>w note. slot (w_store x) w = Some note \<Longrightarrow> w < next_watch_id (w_store x)"
    "\<And>w q r. slot (w_store x) w = Some (q, r) \<Longrightarrow> finalized_reason q (w_store x) = Some r"
    "\<And>w q r f. slot (w_store x) w = Some (q, r) \<Longrightarrow> phase x w = Some f \<Longrightarrow> phase_pid f = q"
    "\<And>w p. w \<in> set (watching p (w_store x)) \<Longrightarrow> \<exists>f. phase x w = Some f \<and> phase_pid f = p"
    "\<And>w p. phase x w \<in> {Some (Registered p), Some (Armed p)} \<Longrightarrow> slot (w_store x) w = None \<Longrightarrow>
       w \<in> set (watching p (w_store x))"
    "\<And>w p. phase x w = Some (Armed p) \<Longrightarrow> slot (w_store x) w = None \<Longrightarrow>
       finalized_reason p (w_store x) = None \<or> p \<in> fst ` set (inflight x)"
    "\<And>w p r. phase x w \<in> {Some (Reported p r), Some (Received p r)} \<Longrightarrow> finalized_reason p (w_store x) = Some r"
  shows "watches_ok x"
  using assms unfolding watches_ok_def by blast

lemma watches_ok_quiet:
  assumes "watches_ok x" "\<And>q. finalized_reason q s' = finalized_reason q (w_store x)"
    "\<And>q. watching q s' = watching q (w_store x)" "slot s' = slot (w_store x)"
    "next_watch_id s' = next_watch_id (w_store x)"
  shows "watches_ok (x\<lparr>w_store := s'\<rparr>)"
  using assms(1) unfolding watches_ok_def by (simp add: assms(2-5))

lemma watches_ok_install:
  assumes "watches_ok x" "install p r (Some oc) (w_store x) = (evicted, publish_event, s')"
  shows "watches_ok (x\<lparr>w_store := s', inflight := inflight x @ (if publish_event then [(p, r, False)] else [])\<rparr>)"
proof (cases publish_event)
  case True
  have none: "finalized_reason p (w_store x) = None" using install_finalized(2) [OF assms(2)] True by simp
  have mono: "finalized_reason q (w_store x) = Some r' \<Longrightarrow> finalized_reason q s' = Some r'" for q r'
    using install_finalized(1) [OF assms(2), of q] none by auto
  have fin: "finalized_reason q s' = (if q = p then Some r else finalized_reason q (w_store x))" for q
    using install_finalized(1) [OF assms(2), of q] True by simp
  show ?thesis using assms(1) mono True
    unfolding watches_ok_def by (simp add: install_finalized(3-5) [OF assms(2)] fin)
next
  case False
  show ?thesis using watches_ok_quiet [OF assms(1), of s'] install_finalized [OF assms(2)] False by simp
qed

lemma watches_ok_fire:
  assumes ok: "watches_ok x" and rec: "finalized_reason p (w_store x) = Some r"
    and fl: "inflight x = before @ (p, r, True) # after"
  shows "watches_ok (x\<lparr>w_store := fire p r (w_store x), inflight := before @ after\<rparr>)"
proof -
  have fin: "finalized_reason q (fire p r (w_store x)) = finalized_reason q (w_store x)" for q
    by simp
  note ok' = watches_okD [OF ok]
  show ?thesis
  proof (rule watches_okI, goal_cases)
    case (2 w nt)
    then show ?case using ok'(1,2,5) by (fastforce simp: fire_watching split: if_splits)
  next
    case (3 w q r')
    then show ?case using ok'(3) rec by (auto simp: fire_watching fin split: if_splits)
  next
    case (4 w q r' f)
    then show ?case using ok'(4,5) by (fastforce simp: fire_watching split: if_splits)
  next
    case (6 w q)
    then show ?case using ok'(6) [of w q] by (auto simp: fire_watching split: if_splits)
  next
    case (7 w q)
    then show ?case using ok'(6,7) [of w q] fl by (auto simp: fire_watching fin split: if_splits)
  qed (use ok'(1,5,8) in \<open>auto simp: fire_watching fin split: if_splits\<close>)
qed

lemma watches_ok_register:
  assumes ok: "watches_ok x" and reg: "register p (w_store x) = (w, s')"
  shows "watches_ok (x\<lparr>w_store := s', phase := (phase x)(w \<mapsto> Registered p)\<rparr>)"
proof -
  note reg' = register_watching [OF reg] and ok' = watches_okD [OF ok]
  have fresh: "phase x w = None" "slot (w_store x) w = None"
    using ok'(1,2) [of w] reg'(1) by (meson less_irrefl not_Some_eq)+
  have fin: "finalized_reason q s' = finalized_reason q (w_store x)" for q
    using reg'(4) by (rule finalized_outcomes)
  show ?thesis
  proof (rule watches_okI, goal_cases)
    case (1 v f)
    then show ?case using ok'(1) reg' by (auto simp: less_Suc_eq split: if_splits)
  next
    case (2 v nt)
    then show ?case using ok'(2) reg' by (auto simp: less_Suc_eq)
  next
    case (5 v q)
    then show ?case using ok'(5) [of v q] fresh reg' by (auto split: if_splits)
  next
    case (6 v q)
    then show ?case using ok'(6) [of v q] reg' by (auto split: if_splits)
  qed (use ok'(3,4,7,8) fresh reg' fin in \<open>auto split: if_splits\<close>)
qed

lemma watches_ok_phase:
  assumes ok: "watches_ok x" and ph: "phase x w = Some (Registered p)"
  shows "finalized_reason p (w_store x) = None \<Longrightarrow> watches_ok (x\<lparr>phase := (phase x)(w \<mapsto> Armed p)\<rparr>)"
    and "finalized_reason p (w_store x) = Some r \<Longrightarrow> watches_ok (x\<lparr>phase := (phase x)(w \<mapsto> Reported p r)\<rparr>)"
proof -
  note ok' = watches_okD [OF ok]
  assume live: "finalized_reason p (w_store x) = None"
  show "watches_ok (x\<lparr>phase := (phase x)(w \<mapsto> Armed p)\<rparr>)"
  proof (rule watches_okI, goal_cases)
    case (4 v q r f)
    then show ?case using ok'(4) ph by (fastforce split: if_splits)
  next
    case (5 v q)
    then show ?case using ok'(5) [of v q] ph by auto
  qed (use ok'(1,2,3,6,7,8) ph live in \<open>auto split: if_splits\<close>)
next
  note ok' = watches_okD [OF ok]
  assume dead: "finalized_reason p (w_store x) = Some r"
  show "watches_ok (x\<lparr>phase := (phase x)(w \<mapsto> Reported p r)\<rparr>)"
  proof (rule watches_okI, goal_cases)
    case (4 v q r f)
    then show ?case using ok'(4) ph by (fastforce split: if_splits)
  next
    case (5 v q)
    then show ?case using ok'(5) [of v q] ph by auto
  qed (use ok'(1,2,3,6,7,8) ph dead in \<open>auto split: if_splits\<close>)
qed

lemma watches_ok_drop:
  assumes ok: "watches_ok x" and ph: "phase x w = Some f"
  shows "watches_ok (x\<lparr>w_store := deregister (phase_pid f) w (w_store x), phase := (phase x)(w := None)\<rparr>)"
proof -
  note ok' = watches_okD [OF ok]
  show ?thesis
  proof (rule watches_okI, goal_cases)
    case (5 v q)
    then show ?case using ok'(5) [of v q] ph by (auto simp: deregister_watching split: if_splits)
  next
    case (6 v q)
    then show ?case using ok'(6) [of v q] by (auto simp: deregister_watching split: if_splits)
  qed (use ok'(1,2,3,4,7,8) in \<open>auto split: if_splits\<close>)
qed

lemma watching_slot [simp]: "watching q (s\<lparr>slot := m\<rparr>) = watching q s"
  by (simp add: watching_def)

lemma watches_ok_recv:
  assumes ok: "watches_ok x" and ph: "phase x w = Some (Armed p)" and full: "slot (w_store x) w = Some (q, r)"
  shows "watches_ok (x\<lparr>w_store := (w_store x)\<lparr>slot := (slot (w_store x))(w := None)\<rparr>,
    phase := (phase x)(w \<mapsto> Received q r)\<rparr>)"
proof -
  note ok' = watches_okD [OF ok]
  have "p = q" "finalized_reason q (w_store x) = Some r" using ok'(3,4) [OF full] ph by auto
  show ?thesis
  proof (rule watches_okI, goal_cases)
    case (5 v q')
    then show ?case using ok'(5) [of v q'] ph \<open>p = q\<close> by auto
  qed (use ok'(1,2,3,4,6,7,8) ph \<open>finalized_reason q (w_store x) = Some r\<close> in \<open>auto split: if_splits\<close>)
qed

lemma watches_ok_publish:
  assumes "watches_ok x" "inflight x = before @ (p, r, False) # after"
  shows "watches_ok (x\<lparr>w_store := publish e (w_store x), inflight := before @ (p, r, True) # after, event_log := l\<rparr>)"
proof -
  have "watching q (publish e (w_store x)) = watching q (w_store x)" for q by (simp add: watching_def)
  moreover have "fst ` set (before @ (p, r, True) # after) = fst ` set (inflight x)" using assms(2) by simp
  ultimately show ?thesis using assms(1) unfolding watches_ok_def by simp
qed

lemma watches_ok_quiet_step:
  assumes "watches_ok x"
    and quiet: "take_outcome p (w_store x) = (taken, s') \<or> subscribe (w_store x) = (s', granted) \<or> recv_event (w_store x) = (e, s')"
  shows "watches_ok (x\<lparr>w_store := s'\<rparr>)"
  by (rule watches_ok_quiet [OF assms(1) quiet_step_fields [OF quiet]])

lemma watches_ok_step:
  assumes "exit_step x y" "events_ok x" "watches_ok x"
  shows "watches_ok y"
  using assms(1)
proof cases
  case (step_fire before p r after)
  moreover have "finalized_reason p (w_store x) = Some r"
    using assms(2) step_fire(2) unfolding events_ok_def by (metis in_set_conv_decomp)
  ultimately show ?thesis using watches_ok_fire [OF assms(3)] by simp
next
  case (step_take p taken s')
  then show ?thesis using watches_ok_quiet_step [OF assms(3), of p taken s'] by simp
next
  case (step_subscribe s' granted)
  then show ?thesis using watches_ok_quiet_step [OF assms(3), of _ _ s' granted] by simp
next
  case (step_event_recv e s')
  then show ?thesis using watches_ok_quiet_step [OF assms(3), of _ _ s' _ e] by simp
qed (simp_all add: watches_ok_install watches_ok_publish watches_ok_register watches_ok_phase watches_ok_drop
    watches_ok_recv assms(3))

lemma world_init_ok: "events_ok (world_init n)" "watches_ok (world_init n)"
  by (simp_all add: events_ok_def watches_ok_def world_init_def store_with_capacity_def pending_events_def
      finalized_reason_def watching_def)

lemma reachable_world_ok:
  assumes "exit_step\<^sup>*\<^sup>* (world_init n) x"
  shows "events_ok x \<and> watches_ok x"
  using assms by (induction rule: rtranclp_induct) (auto simp: world_init_ok events_ok_step watches_ok_step)

text \<open>
  C15. However installations, publications, fires, registrations, checks, drops and outcome
  consumption interleave, no exit is missed and none is announced twice: once the exit of a
  watched process is recorded and its writer has finished, an armed watch holds the notification
  with the recorded reason; an answer given at registration or received later is the recorded
  reason; and each recorded exit has been published exactly once, with its reason.
\<close>

theorem exit_watch_never_lost:
  assumes "exit_step\<^sup>*\<^sup>* (world_init n) x"
  shows "(finalized_reason p (w_store x) = Some r \<longrightarrow> p \<notin> fst ` set (inflight x) \<longrightarrow>
      (\<forall>w. phase x w = Some (Armed p) \<longrightarrow> slot (w_store x) w = Some (p, r)) \<and> (p, r) \<in> set (event_log x)) \<and>
    (phase x w = Some (Reported p r) \<or> phase x w = Some (Received p r) \<longrightarrow> finalized_reason p (w_store x) = Some r) \<and>
    distinct (map fst (event_log x))"
proof (intro conjI impI allI)
  have ok: "events_ok x" "watches_ok x" using reachable_world_ok [OF assms] by auto
  show "distinct (map fst (event_log x))" using ok(1) by (auto simp: events_ok_def)
  show "finalized_reason p (w_store x) = Some r" if "phase x w = Some (Reported p r) \<or> phase x w = Some (Received p r)"
    using that watches_okD(8) [OF ok(2)] by auto
  assume fin: "finalized_reason p (w_store x) = Some r" and quiet: "p \<notin> fst ` set (inflight x)"
  have "p \<notin> fst ` set (pending_events x)" using quiet by (force simp: pending_events_def)
  then have "p \<in> fst ` set (event_log x)" using ok(1) fin by (auto simp: events_ok_def image_Un)
  then obtain r' where "(p, r') \<in> set (event_log x)" by auto
  moreover have "r' = r" using ok(1) fin calculation by (auto simp: events_ok_def)
  ultimately show "(p, r) \<in> set (event_log x)" by simp
  fix w assume armed: "phase x w = Some (Armed p)"
  then obtain q r2 where slot: "slot (w_store x) w = Some (q, r2)"
    using watches_okD(7) [OF ok(2) armed] fin quiet by (cases "slot (w_store x) w") auto
  then show "slot (w_store x) w = Some (p, r)"
    using watches_okD(3,4) [OF ok(2) slot] armed fin by auto
qed

text \<open>A process watched while alive exits; the writer runs to its end.\<close>

definition watched_world :: "nat World" where
  "watched_world = \<lparr>w_store = fire 7 Kill (publish (ExitedEvent 7 Kill) (snd (snd (install 7 Kill (Some 1)
     (snd (register 7 (store_with_capacity 4))))))), inflight = [], event_log = [(7, Kill)], phase = [0 \<mapsto> Armed 7]\<rparr>"

lemma watched_world_reachable: "exit_step\<^sup>*\<^sup>* (world_init 4) watched_world"
proof -
  let ?s1 = "snd (register 7 (store_with_capacity 4 :: nat Store))"
  let ?s2 = "snd (snd (install 7 Kill (Some 1) ?s1))"
  have "exit_step (world_init 4) \<lparr>w_store = ?s1, inflight = [], event_log = [], phase = [0 \<mapsto> Registered 7]\<rparr>"
    using step_register [of 7 "world_init 4" 0 ?s1] by (simp add: world_init_def register_def store_with_capacity_def Let_def)
  also have "exit_step\<^sup>*\<^sup>* \<dots> \<lparr>w_store = ?s1, inflight = [], event_log = [], phase = [0 \<mapsto> Armed 7]\<rparr>"
    using step_check_live [of "\<lparr>w_store = ?s1, inflight = [], event_log = [], phase = [0 \<mapsto> Registered 7]\<rparr>" 0 7]
    by (simp add: store_eval register_def Let_def)
  also have "exit_step\<^sup>*\<^sup>* \<dots> \<lparr>w_store = ?s2, inflight = [(7, Kill, False)], event_log = [], phase = [0 \<mapsto> Armed 7]\<rparr>"
    using step_install [of 7 Kill 1 "\<lparr>w_store = ?s1, inflight = [], event_log = [], phase = [0 \<mapsto> Armed 7]\<rparr>" None True ?s2]
    by (simp add: store_eval register_def Let_def)
  also have "exit_step\<^sup>*\<^sup>* \<dots> \<lparr>w_store = publish (ExitedEvent 7 Kill) ?s2, inflight = [(7, Kill, True)],
      event_log = [(7, Kill)], phase = [0 \<mapsto> Armed 7]\<rparr>"
    using step_publish [of "\<lparr>w_store = ?s2, inflight = [(7, Kill, False)], event_log = [], phase = [0 \<mapsto> Armed 7]\<rparr>" "[]" 7 Kill "[]"]
    by simp
  also have "exit_step\<^sup>*\<^sup>* \<dots> watched_world"
    using step_fire [of "\<lparr>w_store = publish (ExitedEvent 7 Kill) ?s2, inflight = [(7, Kill, True)],
      event_log = [(7, Kill)], phase = [0 \<mapsto> Armed 7]\<rparr>" "[]" 7 Kill "[]"]
    by (simp add: watched_world_def)
  finally show ?thesis .
qed

theorem exit_watch_never_lost_witness:
  "exit_step\<^sup>*\<^sup>* (world_init 4) watched_world \<and> phase watched_world 0 = Some (Armed 7) \<and>
   slot (w_store watched_world) 0 = Some (7, Kill) \<and> (7, Kill) \<in> set (event_log watched_world)"
proof -
  have "finalized_reason 7 (w_store watched_world) = Some Kill" "phase watched_world 0 = Some (Armed 7)"
    "inflight watched_world = []"
    by (simp_all add: watched_world_def store_eval register_def Let_def)
  then show ?thesis using exit_watch_never_lost [OF watched_world_reachable, of 7 Kill] watched_world_reachable by simp
qed

end
