(* ===== verification/Atom_Table.thy ===== *)
theory Atom_Table
  imports Beamr_Prelude
begin

text \<open>
  The atom table (\<^verbatim>\<open>crates/beamr/src/atom/table.rs\<close>): names interned to 32-bit indices, with the
  common atoms at fixed indices. A \<open>&str\<close> is its UTF-8 bytes. The index counter is a word and
  wraps as \<open>fetch_add\<close> does. Interning holds the lock of the name's entry only, so the step
  relation lets interning of different names interleave between taking an index, publishing the
  name under the index, and publishing the index under the name.
\<close>

section \<open>Definitions\<close>

record AtomTable =
  by_name :: "u8 list \<rightharpoonup> u32"
  by_index :: "u32 \<rightharpoonup> u8 list"
  next_index :: u32

definition str_bytes :: "string \<Rightarrow> u8 list" where
  "str_bytes s = map (\<lambda>c. word_of_nat (of_char c)) s"

text \<open>The constants are numbered in the order of the table.\<close>

definition COMMON_ATOMS :: "string list" where
  "COMMON_ATOMS = [
    ''ok'', ''error'', ''true'', ''false'', ''nil'', ''undefined'', ''normal'', ''kill'', ''EXIT'',
    ''badarg'', ''badarith'', ''badmatch'', ''function_clause'', ''case_clause'', ''if_clause'',
    ''undef'', ''badfun'', ''badarity'', ''noproc'', ''timeout'', ''killed'', ''DOWN'',
    ''process'', ''trap_exit'', ''badkey'', ''flush'', ''info'', ''utf8'', ''latin1'', ''module'',
    ''throw'', ''exit'', ''line'', ''enoent'', ''eacces'', ''eexist'', ''eisdir'', ''enotdir'',
    ''enospc'', ''emfile'', ''enfile'', ''ebadf'', ''epipe'', ''eagain'', ''einval'',
    ''enotempty'', ''exdev'', ''eloop'', ''erofs'', ''enametoolong'', ''eperm'', ''unknown_error'',
    ''closed'', ''incomplete'', ''read'', ''write'', ''append'', ''create'', ''truncate'', ''bof'',
    ''cur'', ''eof'', ''econnrefused'', ''econnreset'', ''einprogress'', ''enotconn'',
    ''noconnection'', ''capability_denied'', ''ensure_at_least'', ''ensure_exactly'', ''integer'',
    ''float'', ''binary'', ''skip'', ''get_tail'', ''=:='', ''infinity'', ''worker_crashed'']"

definition seat_common :: "nat \<times> string \<Rightarrow> AtomTable \<Rightarrow> AtomTable" where
  "seat_common entry t = (case entry of (i, name) \<Rightarrow>
     t\<lparr>by_name := (by_name t)(str_bytes name \<mapsto> of_nat i), by_index := (by_index t)(of_nat i \<mapsto> str_bytes name)\<rparr>)"

definition atom_table_new :: AtomTable where
  "atom_table_new =
     (fold seat_common (zip [0..<length COMMON_ATOMS] COMMON_ATOMS)
        \<lparr>by_name = Map.empty, by_index = Map.empty, next_index = 0\<rparr>)
     \<lparr>next_index := of_nat (length COMMON_ATOMS)\<rparr>"

definition intern :: "u8 list \<Rightarrow> AtomTable \<Rightarrow> u32 \<times> AtomTable" where
  "intern name t =
     (case by_name t name of
        Some atom \<Rightarrow> (atom, t)
      | None \<Rightarrow>
          let index = next_index t
          in (index, t\<lparr>next_index := index + 1, by_index := (by_index t)(index \<mapsto> name),
                       by_name := (by_name t)(name \<mapsto> index)\<rparr>))"

definition atom_lookup :: "u8 list \<Rightarrow> AtomTable \<Rightarrow> u32 option" where
  "atom_lookup name t = by_name t name"

definition atom_resolve :: "u32 \<Rightarrow> AtomTable \<Rightarrow> u8 list option" where
  "atom_resolve atom t = by_index t atom"

section \<open>Interleaved interning\<close>

text \<open>
  Indices in flight: taken for a name whose entry is locked, with whether the index is published.
  \<open>taken\<close> counts the indices handed out, the common atoms included.
\<close>

record InternWorld =
  table :: AtomTable
  interning :: "(u8 list \<times> u32 \<times> bool) list"
  taken :: nat

definition intern_init :: InternWorld where
  "intern_init = \<lparr>table = atom_table_new, interning = [], taken = length COMMON_ATOMS\<rparr>"

inductive intern_step :: "InternWorld \<Rightarrow> InternWorld \<Rightarrow> bool" where
  take_index: "by_name (table x) name = None \<Longrightarrow> name \<notin> fst ` set (interning x) \<Longrightarrow>
     intern_step x (x\<lparr>table := (table x)\<lparr>next_index := next_index (table x) + 1\<rparr>,
       interning := interning x @ [(name, next_index (table x), False)], taken := taken x + 1\<rparr>)"
| publish_index: "interning x = before @ (name, index, False) # after \<Longrightarrow>
     intern_step x (x\<lparr>table := (table x)\<lparr>by_index := (by_index (table x))(index \<mapsto> name)\<rparr>,
       interning := before @ (name, index, True) # after\<rparr>)"
| publish_name: "interning x = before @ (name, index, True) # after \<Longrightarrow>
     intern_step x (x\<lparr>table := (table x)\<lparr>by_name := (by_name (table x))(name \<mapsto> index)\<rparr>,
       interning := before @ after\<rparr>)"

definition table_ok :: "InternWorld \<Rightarrow> bool" where
  "table_ok x \<longleftrightarrow>
     next_index (table x) = of_nat (taken x) \<and>
     distinct (map fst (interning x)) \<and> distinct (map (fst \<circ> snd) (interning x)) \<and>
     (\<forall>name index published. (name, index, published) \<in> set (interning x) \<longrightarrow>
        unat index < taken x \<and> by_name (table x) name = None \<and>
        by_index (table x) index = (if published then Some name else None)) \<and>
     (\<forall>name index. by_name (table x) name = Some index \<longrightarrow> by_index (table x) index = Some name) \<and>
     (\<forall>index name. by_index (table x) index = Some name \<longrightarrow> unat index < taken x \<and>
        (by_name (table x) name = Some index \<or> (name, index, True) \<in> set (interning x)))"

text \<open>The seated common atoms.\<close>

lemma seat_common_fold:
  assumes "distinct (map str_bytes xs)" "length xs < 2 ^ 32"
  defines "t \<equiv> fold seat_common (zip [0..<length xs] xs) \<lparr>by_name = Map.empty, by_index = Map.empty, next_index = 0\<rparr>"
  shows "(by_name t name = Some index \<longleftrightarrow> unat index < length xs \<and> str_bytes (xs ! unat index) = name) \<and>
    (by_index t index = Some name \<longleftrightarrow> unat index < length xs \<and> str_bytes (xs ! unat index) = name)"
  using assms(1,2) unfolding t_def
proof (induction xs arbitrary: name index rule: rev_induct)
  case (snoc x xs)
  let ?t = "fold seat_common (zip [0..<length xs] xs) \<lparr>by_name = Map.empty, by_index = Map.empty, next_index = 0\<rparr>"
  have fresh: "str_bytes x \<notin> str_bytes ` set xs" and dist: "distinct (map str_bytes xs)" and len: "length xs < 2 ^ 32"
    using snoc.prems by auto
  have n: "unat (of_nat (length xs) :: u32) = length xs"
    using len by (simp add: unsigned_of_nat take_bit_nat_eq_self)
  have eq: "of_nat (length xs) = index \<longleftrightarrow> unat index = length xs" "index = of_nat (length xs) \<longleftrightarrow> unat index = length xs"
    for index :: u32
    using n by (metis unsigned_word_eqI)+
  have step: "fold seat_common (zip [0..<length (xs @ [x])] (xs @ [x])) \<lparr>by_name = Map.empty, by_index = Map.empty, next_index = 0\<rparr> =
      ?t\<lparr>by_name := (by_name ?t)(str_bytes x \<mapsto> of_nat (length xs)),
         by_index := (by_index ?t)(of_nat (length xs) \<mapsto> str_bytes x)\<rparr>"
    by (simp add: seat_common_def)
  have seated: "unat index < length xs \<Longrightarrow> str_bytes (xs ! unat index) \<noteq> str_bytes x"
    using fresh by (metis imageI nth_mem)
  show ?case unfolding step using snoc.IH [OF dist len, of name index] seated
    by (auto simp: nth_append eq less_Suc_eq)
qed simp

lemma inj_str_bytes: "inj str_bytes"
proof -
  have "inj (\<lambda>c :: char. word_of_nat (of_char c) :: u8)"
  proof (rule injI)
    fix a b :: char
    assume "word_of_nat (of_char a) = (word_of_nat (of_char b) :: u8)"
    then have "unat (word_of_nat (of_char a) :: u8) = unat (word_of_nat (of_char b) :: u8)" by simp
    then have "(of_char a :: nat) = of_char b"
      unfolding unsigned_of_nat by (simp add: take_bit_nat_eq_self)
    then show "a = b" by simp
  qed
  then show ?thesis unfolding str_bytes_def by (rule inj_mapI)
qed

lemma common_atoms_distinct: "distinct (map str_bytes COMMON_ATOMS)" "length COMMON_ATOMS < 2 ^ 32"
proof -
  have "distinct COMMON_ATOMS" by code_simp
  then show "distinct (map str_bytes COMMON_ATOMS)" by (simp add: distinct_map inj_on_subset [OF inj_str_bytes])
qed (simp add: COMMON_ATOMS_def)

lemma intern_init_ok: "table_ok intern_init"
  using seat_common_fold [OF common_atoms_distinct]
  by (auto simp: table_ok_def intern_init_def atom_table_new_def)

lemma taken_mono: "intern_step x y \<Longrightarrow> taken x \<le> taken y"
  by (auto elim: intern_step.cases)

lemma table_ok_take:
  assumes ok: "table_ok x" and fresh: "by_name (table x) name = None" "name \<notin> fst ` set (interning x)"
    and bound: "taken x < 2 ^ 32"
  shows "table_ok (x\<lparr>table := (table x)\<lparr>next_index := next_index (table x) + 1\<rparr>,
       interning := interning x @ [(name, next_index (table x), False)], taken := taken x + 1\<rparr>)"
proof -
  let ?i = "next_index (table x)"
  have n: "unat ?i = taken x" using ok bound by (simp add: table_ok_def unsigned_of_nat take_bit_nat_eq_self)
  have free: "by_index (table x) ?i = None"
  proof (rule ccontr)
    assume "by_index (table x) ?i \<noteq> None"
    then show False using ok n by (fastforce simp: table_ok_def)
  qed
  have "?i \<notin> (fst \<circ> snd) ` set (interning x)" using ok n by (fastforce simp: table_ok_def)
  then show ?thesis using ok fresh free n unfolding table_ok_def
    by (intro conjI allI impI) (auto simp: less_Suc_eq)
qed

lemma table_okD:
  assumes "table_ok x"
  shows "next_index (table x) = of_nat (taken x)" "distinct (map fst (interning x))" "distinct (map (fst \<circ> snd) (interning x))"
    "(name, index, published) \<in> set (interning x) \<Longrightarrow> unat index < taken x"
    "(name, index, published) \<in> set (interning x) \<Longrightarrow> by_name (table x) name = None"
    "(name, index, published) \<in> set (interning x) \<Longrightarrow> by_index (table x) index = (if published then Some name else None)"
    "by_name (table x) name = Some index \<Longrightarrow> by_index (table x) index = Some name"
    "by_index (table x) index = Some name \<Longrightarrow> unat index < taken x"
    "by_index (table x) index = Some name \<Longrightarrow> by_name (table x) name = Some index \<or> (name, index, True) \<in> set (interning x)"
  using assms unfolding table_ok_def by blast+

lemma table_ok_publish_index:
  assumes ok: "table_ok x" and fl: "interning x = before @ (name, index, False) # after"
  shows "table_ok (x\<lparr>table := (table x)\<lparr>by_index := (by_index (table x))(index \<mapsto> name)\<rparr>,
       interning := before @ (name, index, True) # after\<rparr>)"
proof -
  have here: "unat index < taken x" "by_name (table x) name = None" "by_index (table x) index = None"
    using ok fl unfolding table_ok_def by (metis in_set_conv_decomp)+
  have "distinct (map (fst \<circ> snd) (interning x))" using ok by (simp add: table_ok_def)
  then have "index \<notin> (fst \<circ> snd) ` set (before @ after)" unfolding fl by (simp add: image_Un)
  then have others: "i \<noteq> index" if "(m, i, b) \<in> set (before @ after)" for m i b
    using image_eqI [OF _ that, of i "fst \<circ> snd"] by auto
  have unnamed: "by_name (table x) m \<noteq> Some index" for m
    using ok here(3) by (metis option.distinct(1) table_ok_def)
  note ok' = table_okD [OF ok]
  have sets: "set (interning x) = insert (name, index, False) (set (before @ after))" using fl by auto
  show ?thesis unfolding table_ok_def
  proof (intro conjI allI impI, goal_cases)
    case (4 m i b)
    then show ?case using ok'(4) [of m i] here sets by auto
  next
    case (5 m i b)
    then show ?case using ok'(5) [of m i] here sets by auto
  next
    case (6 m i b)
    then show ?case using ok'(6) [of m i b] others [of m i b] sets by (auto split: if_splits)
  next
    case (7 m i)
    then show ?case using ok'(7) [of m i] unnamed [of m] by auto
  next
    case (8 i m)
    then show ?case using ok'(8) [of i m] here by (auto split: if_splits)
  next
    case (9 i m)
    then show ?case using ok'(9) [of i m] sets by (auto split: if_splits)
  qed (use ok'(1,2,3) fl in \<open>auto\<close>)
qed

lemma table_ok_publish_name:
  assumes ok: "table_ok x" and fl: "interning x = before @ (name, index, True) # after"
  shows "table_ok (x\<lparr>table := (table x)\<lparr>by_name := (by_name (table x))(name \<mapsto> index)\<rparr>, interning := before @ after\<rparr>)"
proof -
  have here: "by_name (table x) name = None" "by_index (table x) index = Some name"
    using ok fl unfolding table_ok_def by (metis in_set_conv_decomp)+
  have "distinct (map fst (interning x))" using ok by (simp add: table_ok_def)
  then have "name \<notin> fst ` set (before @ after)" unfolding fl by (simp add: image_Un)
  then have others: "m \<noteq> name" if "(m, i, b) \<in> set (before @ after)" for m i b
    using image_eqI [OF _ that, of m fst] by auto
  note ok' = table_okD [OF ok]
  have sets: "set (interning x) = insert (name, index, True) (set (before @ after))" using fl by auto
  show ?thesis unfolding table_ok_def
  proof (intro conjI allI impI, goal_cases)
    case (5 m i b)
    then show ?case using ok'(5) [of m i b] others [of m i b] sets by auto
  next
    case (7 m i)
    then show ?case using ok'(7) [of m i] here by (auto split: if_splits)
  next
    case (9 i m)
    then show ?case using ok'(9) [of i m] here sets by (auto split: if_splits)
  qed (use ok'(1,2,3) ok'(4,6,8) sets fl in \<open>auto\<close>)
qed

lemma reachable_table_ok:
  assumes "intern_step\<^sup>*\<^sup>* intern_init x" "taken x \<le> 2 ^ 32"
  shows "table_ok x"
  using assms
proof (induction rule: rtranclp_induct)
  case base
  show ?case by (rule intern_init_ok)
next
  case (step y z)
  have ok: "table_ok y" using step taken_mono [OF step.hyps(2)] by simp
  from step.hyps(2) show ?case
  proof cases
    case (take_index name)
    then show ?thesis using table_ok_take [OF ok] step.prems by simp
  next
    case (publish_index before name index after)
    then show ?thesis using table_ok_publish_index [OF ok] by simp
  next
    case (publish_name before name index after)
    then show ?thesis using table_ok_publish_name [OF ok] by simp
  qed
qed

text \<open>An undisturbed \<open>intern\<close> is the three steps in a row.\<close>

lemma intern_steps:
  assumes "by_name (table x) name = None" "name \<notin> fst ` set (interning x)"
  shows "intern_step\<^sup>*\<^sup>* x (x\<lparr>table := snd (intern name (table x)), taken := taken x + 1\<rparr>)"
proof -
  let ?i = "next_index (table x)"
  let ?x1 = "x\<lparr>table := (table x)\<lparr>next_index := ?i + 1\<rparr>, interning := interning x @ [(name, ?i, False)], taken := taken x + 1\<rparr>"
  let ?x2 = "?x1\<lparr>table := (table ?x1)\<lparr>by_index := (by_index (table x))(?i \<mapsto> name)\<rparr>, interning := interning x @ [(name, ?i, True)]\<rparr>"
  have "intern_step x ?x1" by (rule take_index [OF assms])
  moreover have "intern_step ?x1 ?x2" using publish_index [of ?x1 "interning x" name ?i "[]"] by simp
  moreover have "intern_step ?x2 (x\<lparr>table := snd (intern name (table x)), taken := taken x + 1\<rparr>)"
    using publish_name [of ?x2 "interning x" name ?i "[]"] assms(1)
    by (cases x) (simp add: intern_def Let_def)
  ultimately show ?thesis by (meson converse_rtranclp_into_rtranclp rtranclp.rtrancl_refl)
qed

lemma common_atoms_seated:
  assumes "i < length COMMON_ATOMS"
  shows "by_name atom_table_new (str_bytes (COMMON_ATOMS ! i)) = Some (of_nat i)"
    "by_index atom_table_new (of_nat i) = Some (str_bytes (COMMON_ATOMS ! i))"
proof -
  have "unat (of_nat i :: u32) = i" using assms common_atoms_distinct(2) by (simp add: unsigned_of_nat take_bit_nat_eq_self)
  then show "by_name atom_table_new (str_bytes (COMMON_ATOMS ! i)) = Some (of_nat i)"
    "by_index atom_table_new (of_nat i) = Some (str_bytes (COMMON_ATOMS ! i))"
    using seat_common_fold [OF common_atoms_distinct] assms by (simp_all add: atom_table_new_def)
qed

text \<open>No step replaces a published name or index.\<close>

lemma intern_step_keeps:
  assumes "table_ok x" "intern_step x y"
  shows "by_name (table x) \<subseteq>\<^sub>m by_name (table y) \<and> by_index (table x) \<subseteq>\<^sub>m by_index (table y)"
  using assms(2)
proof cases
  case (take_index name)
  then show ?thesis by simp
next
  case (publish_index before name index after)
  then have "by_index (table x) index = None" using table_okD(6) [OF assms(1), of name index False] by simp
  then show ?thesis using publish_index(1) by (simp add: map_le_def dom_def)
next
  case (publish_name before name index after)
  then have "by_name (table x) name = None" using table_okD(5) [OF assms(1), of name index True] by simp
  then show ?thesis using publish_name(1) by (simp add: map_le_def dom_def)
qed

lemma intern_steps_keep:
  assumes "intern_step\<^sup>*\<^sup>* x y" "intern_step\<^sup>*\<^sup>* intern_init x" "taken y \<le> 2 ^ 32"
  shows "by_name (table x) \<subseteq>\<^sub>m by_name (table y) \<and> by_index (table x) \<subseteq>\<^sub>m by_index (table y)"
  using assms
proof (induction rule: rtranclp_induct)
  case (step y z)
  have "taken y \<le> 2 ^ 32" using taken_mono [OF step.hyps(2)] step.prems(2) by simp
  moreover from this have "table_ok y" using reachable_table_ok [OF rtranclp_trans [OF step.prems(1) step.hyps(1)]] by simp
  ultimately show ?case using step.IH [OF step.prems(1)] intern_step_keeps [OF _ step.hyps(2)] by (blast intro: map_le_trans)
qed simp

text \<open>
  C17. However interning by several threads interleaves, as long as no more than \<open>2 ^ 32\<close> indices
  have been taken: a name that can be looked up resolves back to itself, so no two names share an
  atom; the common atoms have the indices of their constants; whatever interning follows, names keep
  their atoms and atoms their names; an undisturbed intern returns an atom that resolves to the name
  and is found again, and leaves every other name and atom alone.
\<close>

theorem atom_table_round_trip:
  assumes "intern_step\<^sup>*\<^sup>* intern_init x" "taken x < 2 ^ 32"
  shows "(\<forall>name atom. atom_lookup name (table x) = Some atom \<longrightarrow> atom_resolve atom (table x) = Some name) \<and>
    (\<forall>i<length COMMON_ATOMS. atom_lookup (str_bytes (COMMON_ATOMS ! i)) (table x) = Some (of_nat i) \<and>
       atom_resolve (of_nat i) (table x) = Some (str_bytes (COMMON_ATOMS ! i))) \<and>
    (\<forall>y name atom. intern_step\<^sup>*\<^sup>* x y \<longrightarrow> taken y \<le> 2 ^ 32 \<longrightarrow>
       (atom_lookup name (table x) = Some atom \<longrightarrow> atom_lookup name (table y) = Some atom) \<and>
       (atom_resolve atom (table x) = Some name \<longrightarrow> atom_resolve atom (table y) = Some name)) \<and>
    (\<forall>name atom t'. name \<notin> fst ` set (interning x) \<longrightarrow> intern name (table x) = (atom, t') \<longrightarrow>
       atom_lookup name t' = Some atom \<and> atom_resolve atom t' = Some name \<and>
       (\<forall>other. other \<noteq> name \<longrightarrow> atom_lookup other t' = atom_lookup other (table x)) \<and>
       (\<forall>i other. atom_resolve i (table x) = Some other \<longrightarrow> atom_resolve i t' = Some other))"
proof (intro conjI allI impI)
  have ok: "table_ok x" using reachable_table_ok [OF assms(1)] assms(2) by simp
  show "atom_lookup (str_bytes (COMMON_ATOMS ! i)) (table x) = Some (of_nat i)"
    "atom_resolve (of_nat i) (table x) = Some (str_bytes (COMMON_ATOMS ! i))" if "i < length COMMON_ATOMS" for i
    using intern_steps_keep [OF assms(1)] assms(2) common_atoms_seated [OF that]
    by (auto simp: atom_lookup_def atom_resolve_def intern_init_def map_le_def dom_def)
  fix name atom
  show round: "atom_resolve atom (table x) = Some name" if "atom_lookup name (table x) = Some atom"
    using ok that by (simp add: table_ok_def atom_lookup_def atom_resolve_def)
  show "atom_lookup name (table y) = Some atom"
    if "intern_step\<^sup>*\<^sup>* x y" "taken y \<le> 2 ^ 32" "atom_lookup name (table x) = Some atom" for y
    using intern_steps_keep [OF that(1) assms(1) that(2)] that(3) by (auto simp: atom_lookup_def map_le_def dom_def)
  show "atom_resolve atom (table y) = Some name"
    if "intern_step\<^sup>*\<^sup>* x y" "taken y \<le> 2 ^ 32" "atom_resolve atom (table x) = Some name" for y
    using intern_steps_keep [OF that(1) assms(1) that(2)] that(3) by (auto simp: atom_resolve_def map_le_def dom_def)
  fix t' assume fresh: "name \<notin> fst ` set (interning x)" and int: "intern name (table x) = (atom, t')"
  show "atom_lookup name t' = Some atom"
    using int by (auto simp: intern_def atom_lookup_def Let_def split: option.splits)
  show "atom_lookup other t' = atom_lookup other (table x)" if "other \<noteq> name" for other
    using int that by (auto simp: intern_def atom_lookup_def Let_def split: option.splits)
  show "atom_resolve atom t' = Some name"
    using int round by (auto simp: intern_def atom_lookup_def atom_resolve_def Let_def split: option.splits)
  have "by_index (table x) (next_index (table x)) = None"
  proof (cases "by_index (table x) (next_index (table x))")
    case (Some other)
    then have "unat (next_index (table x)) < taken x" "next_index (table x) = of_nat (taken x)"
      using ok unfolding table_ok_def by blast+
    then show ?thesis using assms(2) by (simp add: unsigned_of_nat take_bit_nat_eq_self)
  qed simp
  then show "atom_resolve i t' = Some other" if "atom_resolve i (table x) = Some other" for i other
    using int that by (auto simp: intern_def atom_resolve_def Let_def split: option.splits)
qed

theorem atom_table_round_trip_witness:
  "intern_step\<^sup>*\<^sup>* intern_init intern_init \<and> taken intern_init = 78 \<and>
   atom_resolve (fst (intern (str_bytes ''gleam'') atom_table_new)) (snd (intern (str_bytes ''gleam'') atom_table_new)) =
     Some (str_bytes ''gleam'')"
proof -
  have n: "taken intern_init = 78" by (simp add: intern_init_def COMMON_ATOMS_def)
  have "atom_resolve a t' = Some (str_bytes ''gleam'')" if "intern (str_bytes ''gleam'') (table intern_init) = (a, t')" for a t'
    using atom_table_round_trip [of intern_init] that n by (simp add: intern_init_def)
  then show ?thesis using n by (simp add: intern_init_def)
qed

text \<open>
  The limit the table reports, \<open>u32::MAX\<close>, is not enforced: once the counter has reached it, the
  next name gets index 0, which is the common atom \<open>ok\<close>.
\<close>

lemma intern_wraps_to_ok:
  assumes "next_index t = - 1" "by_name t n = None" "by_name t m = None" "n \<noteq> m"
  shows "fst (intern m (snd (intern n t))) = 0 \<and> atom_resolve 0 (snd (intern m (snd (intern n t)))) = Some m"
  using assms by (simp add: intern_def atom_resolve_def Let_def)

end
