(* ===== verification/Chunk_Cursor.thy ===== *)
theory Chunk_Cursor
  imports Code_Roundtrip Atom_Table
begin

text \<open>
  What the chunk decoders share: the bounds-checked cursor
  (\<^verbatim>\<open>crates/beamr/src/loader/decode/bounded.rs\<close>), the decode budget and atom table they charge, and the
  error values of \<open>LoadError::DecodeError\<close>, one constructor per message.

  A decoder is a function on the budget and the atom table; an error leaves both as they were when
  it was raised, so the atoms a failed load has interned stay. \<open>Inl None\<close> is running out of fuel.
  Sizes of Rust types, which the compiler chooses, are the fields of \<open>Layout\<close>.
\<close>

section \<open>Errors and state\<close>

datatype ChunkMessage =
    CompactMessage DecodeMessage
  | ChunkTruncated
  | CursorOverflow
  | ExceedsLimit string
  | RequirementOverflows string
  | ImpossibleForPayload string
  | TrailingData string
  | AllocationOverflow string
  | MalformedAtomLength
  | AtomNotUtf8
  | AtomIndexInvalid u32
  | ArityOutOfRange u32
  | LineNumberOutOfRange int
  | LineFileOutOfRange int
  | ExpectedLineNumber u8
  | UnsupportedLineTag u8
  | LineCountMismatch nat nat
  | MissingVersionByte
  | InflateFailed
  | LiteralOverBudget
  | InflatedSize nat nat
  | UnsupportedEtfTag u8
  | ExportComponents
  | ExportArityOutOfRange
  | InvalidBignumSign u8
  | AtomChunkEmpty
  | ModuleNotInterned
  | LambdaNotInterned

record DecodeState =
  st_budget :: DecodeBudget
  st_table :: AtomTable

record Layout =
  size_of_ImportEntry :: nat
  size_of_ExportEntry :: nat
  size_of_LambdaEntry :: nat
  size_of_LineInfo :: nat
  size_of_Literal :: nat
  size_of_pair :: nat

type_synonym 'a decode = "DecodeState \<Rightarrow> (ChunkMessage option + 'a) \<times> DecodeState"

definition dbind ::
  "(DecodeState \<Rightarrow> ('e + 'a) \<times> DecodeState) \<Rightarrow> ('a \<Rightarrow> DecodeState \<Rightarrow> ('e + 'b) \<times> DecodeState) \<Rightarrow>
   DecodeState \<Rightarrow> ('e + 'b) \<times> DecodeState" where
  "dbind m k s = (case m s of (Inl e, s') \<Rightarrow> (Inl e, s') | (Inr a, s') \<Rightarrow> k a s')"

definition dreturn :: "'a \<Rightarrow> DecodeState \<Rightarrow> ('e + 'a) \<times> DecodeState" where
  "dreturn a s = (Inr a, s)"

definition dfail :: "ChunkMessage \<Rightarrow> 'a decode" where
  "dfail e s = (Inl (Some e), s)"

definition out_of_fuel :: "'a decode" where
  "out_of_fuel s = (Inl None, s)"

definition lift_result :: "ChunkMessage + 'a \<Rightarrow> 'a decode" where
  "lift_result r = (case r of Inl e \<Rightarrow> dfail e | Inr a \<Rightarrow> dreturn a)"

text \<open>An operation of the budget, and \<open>charge_bytes\<close> of a count times a size that may overflow.\<close>

definition with_budget :: "(DecodeBudget \<Rightarrow> DecodeMessage + DecodeBudget) \<Rightarrow> unit decode" where
  "with_budget f s =
     (case f (st_budget s) of
        Inl e \<Rightarrow> (Inl (Some (CompactMessage e)), s)
      | Inr b \<Rightarrow> (Inr (), s\<lparr>st_budget := b\<rparr>))"

definition charge_table :: "nat \<Rightarrow> nat \<Rightarrow> string \<Rightarrow> unit decode" where
  "charge_table n elem label =
     (if n * elem \<ge> 2 ^ 64 then dfail (AllocationOverflow label) else with_budget (charge_bytes (n * elem)))"

text \<open>\<open>budget.descend()?; let result = ...; budget.ascend(); result\<close>\<close>

definition nested :: "'a decode \<Rightarrow> 'a decode" where
  "nested m = dbind (with_budget descend) (\<lambda>_. \<lambda>s.
     case m s of (r, s') \<Rightarrow> (r, s'\<lparr>st_budget := ascend (st_budget s')\<rparr>))"

section \<open>The bounded cursor\<close>

definition MAX_TABLE_ENTRIES :: nat where
  "MAX_TABLE_ENTRIES = 16777216"

record BoundedCursor =
  cur_bytes :: "u8 list"
  cur_offset :: nat

definition cursor_new :: "u8 list \<Rightarrow> BoundedCursor" where
  "cursor_new bytes = \<lparr>cur_bytes = bytes, cur_offset = 0\<rparr>"

definition cur_remaining :: "BoundedCursor \<Rightarrow> u8 list" where
  "cur_remaining c = drop (cur_offset c) (cur_bytes c)"

definition remaining_len :: "BoundedCursor \<Rightarrow> nat" where
  "remaining_len c = length (cur_remaining c)"

definition ensure_count :: "nat \<Rightarrow> nat \<Rightarrow> string \<Rightarrow> BoundedCursor \<Rightarrow> ChunkMessage + unit" where
  "ensure_count n min_elem_bytes label c =
     (if n > MAX_TABLE_ENTRIES then Inl (ExceedsLimit label)
      else if n * min_elem_bytes \<ge> 2 ^ 64 then Inl (RequirementOverflows label)
      else if n * min_elem_bytes > remaining_len c then Inl (ImpossibleForPayload label)
      else Inr ())"

definition cur_advance :: "nat \<Rightarrow> BoundedCursor \<Rightarrow> ChunkMessage + BoundedCursor" where
  "cur_advance len c =
     (if cur_offset c + len \<ge> 2 ^ 64 then Inl CursorOverflow
      else if cur_offset c + len > length (cur_bytes c) then Inl ChunkTruncated
      else Inr (c\<lparr>cur_offset := cur_offset c + len\<rparr>))"

definition expect_empty :: "string \<Rightarrow> BoundedCursor \<Rightarrow> ChunkMessage + unit" where
  "expect_empty name c = (if cur_remaining c = [] then Inr () else Inl (TrailingData name))"

definition cur_read_u8 :: "BoundedCursor \<Rightarrow> ChunkMessage + u8 \<times> BoundedCursor" where
  "cur_read_u8 c =
     (case vec_get (cur_bytes c) (cur_offset c) of
        None \<Rightarrow> Inl ChunkTruncated
      | Some b \<Rightarrow> Inr (b, c\<lparr>cur_offset := cur_offset c + 1\<rparr>))"

definition cur_read_bytes :: "nat \<Rightarrow> BoundedCursor \<Rightarrow> ChunkMessage + u8 list \<times> BoundedCursor" where
  "cur_read_bytes len c =
     (if cur_offset c + len \<ge> 2 ^ 64 then Inl CursorOverflow
      else if cur_offset c + len > length (cur_bytes c) then Inl ChunkTruncated
      else Inr (take len (drop (cur_offset c) (cur_bytes c)), c\<lparr>cur_offset := cur_offset c + len\<rparr>))"

definition u16_from_be :: "u8 list \<Rightarrow> u16" where
  "u16_from_be bs = word_of_nat (bytes_le_val (rev bs))"

definition u16_to_be :: "u16 \<Rightarrow> u8 list" where
  "u16_to_be w = [ucast (drop_bit 8 w), ucast w]"

definition u64_from_be :: "u8 list \<Rightarrow> u64" where
  "u64_from_be bs = from_le_bytes (rev bs)"

definition cur_read_u16 :: "BoundedCursor \<Rightarrow> ChunkMessage + u16 \<times> BoundedCursor" where
  "cur_read_u16 c = result_bind (cur_read_bytes 2 c) (\<lambda>(bs, c). Inr (u16_from_be bs, c))"

definition cur_read_u32 :: "BoundedCursor \<Rightarrow> ChunkMessage + u32 \<times> BoundedCursor" where
  "cur_read_u32 c = result_bind (cur_read_bytes 4 c) (\<lambda>(bs, c). Inr (u32_from_be bs, c))"

definition cur_read_i32 :: "BoundedCursor \<Rightarrow> ChunkMessage + int \<times> BoundedCursor" where
  "cur_read_i32 c = result_bind (cur_read_bytes 4 c) (\<lambda>(bs, c). Inr (sint (u32_from_be bs), c))"

section \<open>Atom names\<close>

text \<open>\<open>std::str::from_utf8\<close>: the well-formed byte sequences of Unicode.\<close>

definition continuation :: "u8 \<Rightarrow> bool" where
  "continuation b \<longleftrightarrow> 0x80 \<le> b \<and> b \<le> 0xBF"

fun utf8_valid :: "u8 list \<Rightarrow> bool" where
  "utf8_valid [] \<longleftrightarrow> True"
| "utf8_valid (a # bs) \<longleftrightarrow>
     (if a < 0x80 then utf8_valid bs
      else case bs of
        [] \<Rightarrow> False
      | b # bs1 \<Rightarrow>
          if 0xC2 \<le> a \<and> a \<le> 0xDF then continuation b \<and> utf8_valid bs1
          else case bs1 of
            [] \<Rightarrow> False
          | c # bs2 \<Rightarrow>
              if 0xE0 \<le> a \<and> a \<le> 0xEF then
                continuation b \<and> continuation c \<and> (a = 0xE0 \<longrightarrow> 0xA0 \<le> b) \<and> (a = 0xED \<longrightarrow> b \<le> 0x9F) \<and> utf8_valid bs2
              else case bs2 of
                [] \<Rightarrow> False
              | d # bs3 \<Rightarrow>
                  0xF0 \<le> a \<and> a \<le> 0xF4 \<and> continuation b \<and> continuation c \<and> continuation d \<and>
                  (a = 0xF0 \<longrightarrow> 0x90 \<le> b) \<and> (a = 0xF4 \<longrightarrow> b \<le> 0x8F) \<and> utf8_valid bs3)"

text \<open>Look the name up, or charge for a new atom and intern it.\<close>

definition decode_atom_name :: "u8 list \<Rightarrow> u32 decode" where
  "decode_atom_name bytes =
     (if \<not> utf8_valid bytes then dfail AtomNotUtf8
      else (\<lambda>s. case atom_lookup bytes (st_table s) of
          Some atom \<Rightarrow> (Inr atom, s)
        | None \<Rightarrow> dbind (with_budget charge_atom)
            (\<lambda>_ s. case intern bytes (st_table s) of (atom, t) \<Rightarrow> (Inr atom, s\<lparr>st_table := t\<rparr>)) s))"

section \<open>Reading what was written\<close>

definition cadv :: "nat \<Rightarrow> BoundedCursor \<Rightarrow> BoundedCursor" where
  "cadv n c = c\<lparr>cur_offset := cur_offset c + n\<rparr>"

definition cursor_ok :: "BoundedCursor \<Rightarrow> bool" where
  "cursor_ok c \<longleftrightarrow> length (cur_bytes c) < 2 ^ 64"

text \<open>The cursor stands before \<open>bs\<close>, with \<open>r\<close> after it.\<close>

definition stands :: "BoundedCursor \<Rightarrow> u8 list \<Rightarrow> u8 list \<Rightarrow> bool" where
  "stands c bs r \<longleftrightarrow> cursor_ok c \<and> cur_offset c \<le> length (cur_bytes c) \<and> cur_remaining c = bs @ r"

lemma cadv_simps [simp]: "cadv n (cadv m c) = cadv (m + n) c" "cadv 0 c = c"
  by (simp_all add: cadv_def add.assoc)

lemma stands_append: "stands c (bs @ bs') r \<longleftrightarrow> stands c bs (bs' @ r)"
  by (simp add: stands_def)

lemma stands_length: "stands c bs r \<Longrightarrow> cur_offset c + length bs + length r = length (cur_bytes c)"
proof -
  assume a: "stands c bs r"
  then have "length (drop (cur_offset c) (cur_bytes c)) = length bs + length r" by (simp add: stands_def cur_remaining_def)
  moreover have "cur_offset c \<le> length (cur_bytes c)" using a by (simp add: stands_def)
  ultimately show ?thesis by simp
qed

lemma stands_cadv: "stands c bs (bs' @ r) \<Longrightarrow> stands (cadv (length bs) c) bs' r"
  using stands_length [of c bs "bs' @ r"] drop_drop [of "length bs" "cur_offset c" "cur_bytes c"]
  by (simp add: stands_def cadv_def cursor_ok_def cur_remaining_def add.commute)

lemma stands_cadv0: "stands c bs r \<Longrightarrow> stands (cadv (length bs) c) [] r"
  using stands_cadv [of c bs "[]" r] by simp

lemma cursor_new_stands: "length bs < 2 ^ 64 \<Longrightarrow> stands (cursor_new bs) bs []"
  by (simp add: stands_def cursor_ok_def cursor_new_def cur_remaining_def)

lemma read_bytes_stands: "stands c bs r \<Longrightarrow> cur_read_bytes (length bs) c = Inr (bs, cadv (length bs) c)"
  using stands_length [of c bs r]
  by (simp add: stands_def cursor_ok_def cur_read_bytes_def cadv_def cur_remaining_def)

lemma read_u8_stands: "stands c (b # bs) r \<Longrightarrow> cur_read_u8 c = Inr (b, cadv 1 c)"
  using stands_length [of c "b # bs" r]
  by (simp add: stands_def cur_read_u8_def vec_get_def cadv_def cur_remaining_def nth_via_drop)

lemma u16_from_to_be [simp]: "u16_from_be (u16_to_be w) = w" "length (u16_to_be w) = 2"
proof -
  have "unat (ucast w :: u8) = unat w mod 256" by (simp add: unsigned_ucast_eq take_bit_eq_mod)
  moreover have "unat (drop_bit 8 w) = unat w div 256"
    using unsigned_less [where ?'a = nat and ?'b = 16, of w]
    by (simp only: unsigned_drop_bit_eq) (simp add: drop_bit_eq_div take_bit_nat_eq_self)
  moreover have "unat w div 256 < 256" using unsigned_less [where ?'a = nat and ?'b = 16, of w] by simp
  ultimately have "bytes_le_val (rev (u16_to_be w)) = unat w"
    by (simp add: u16_to_be_def unsigned_ucast_eq take_bit_eq_mod)
  then show "u16_from_be (u16_to_be w) = w" by (simp add: u16_from_be_def)
qed (simp add: u16_to_be_def)

lemma read_u16_stands: "stands c (u16_to_be w) r \<Longrightarrow> cur_read_u16 c = Inr (w, cadv 2 c)"
  using read_bytes_stands [of c "u16_to_be w" r] by (simp add: cur_read_u16_def)

lemma read_u32_stands: "stands c (u32_to_be w) r \<Longrightarrow> cur_read_u32 c = Inr (w, cadv 4 c)"
  using read_bytes_stands [of c "u32_to_be w" r] by (simp add: cur_read_u32_def)

lemma read_i32_stands: "stands c (u32_to_be w) r \<Longrightarrow> cur_read_i32 c = Inr (sint w, cadv 4 c)"
  using read_bytes_stands [of c "u32_to_be w" r] by (simp add: cur_read_i32_def)

end
