(* ===== verification/Literal_Codec.thy ===== *)
theory Literal_Codec
  imports Chunk_Cursor
begin

text \<open>
  Literals in the external term format: the decoder of \<^verbatim>\<open>crates/beamr/src/loader/decode/etf.rs\<close> and
  the encoder of \<^verbatim>\<open>loader/encode/literals.rs\<close>, with the \<open>LitT\<close> chunk around them. Every nested term
  descends the depth budget once, so one more than the depth left is enough fuel
  (\<open>decode_term_total\<close>). The zlib reader of compressed chunks is the parameter \<open>inflate\<close>: the
  bytes it reads from a stream, at most the given number.
\<close>

section \<open>Decoder\<close>

definition decode_atom_literal :: "u8 list \<Rightarrow> Literal decode" where
  "decode_atom_literal bytes = dbind (decode_atom_name bytes) (\<lambda>a. dreturn (LitAtom a))"

definition decode_big_integer :: "BoundedCursor \<Rightarrow> u8 \<Rightarrow> (Literal \<times> BoundedCursor) decode" where
  "decode_big_integer c tg =
     dbind (lift_result (if tg = 110 then result_bind (cur_read_u8 c) (\<lambda>(n, c). Inr (unat n, c))
            else result_bind (cur_read_u32 c) (\<lambda>(n, c). Inr (unat n, c)))) (\<lambda>(len, c).
     dbind (lift_result (cur_read_u8 c)) (\<lambda>(sign, c).
       if sign > 1 then dfail (InvalidBignumSign sign)
       else dbind (lift_result (cur_read_bytes len c)) (\<lambda>(bytes, c).
         let v = (if sign = 1 then - int (bytes_le_val bytes) else int (bytes_le_val bytes))
         in if len \<le> 8 \<and> - (2 ^ 63) \<le> v \<and> v < 2 ^ 63 then dreturn (LitInteger v, c)
            else if len + 1 \<ge> 2 ^ 64 then dfail (AllocationOverflow ''ETF bignum'')
            else dbind (with_budget (charge_bytes (len + 1))) (\<lambda>_.
                   dreturn (LitBigInteger (sign # bytes), c)))))"

text \<open>The three parts of an \<open>EXPORT_EXT\<close> term.\<close>

definition export_fun :: "Literal \<Rightarrow> Literal \<Rightarrow> Literal \<Rightarrow> ChunkMessage + Literal" where
  "export_fun m f a =
     (case (m, f, a) of
        (LitAtom module, LitAtom function, LitInteger arity) \<Rightarrow>
          if 0 \<le> arity \<and> arity < 256 then Inr (LitExportFun module function (word_of_int arity))
          else Inl ExportArityOutOfRange
      | _ \<Rightarrow> Inl ExportComponents)"

fun decode_external_term :: "Layout \<Rightarrow> nat \<Rightarrow> BoundedCursor \<Rightarrow> (Literal \<times> BoundedCursor) decode"
and decode_tuple :: "Layout \<Rightarrow> nat \<Rightarrow> nat \<Rightarrow> BoundedCursor \<Rightarrow> (Literal \<times> BoundedCursor) decode"
and decode_terms :: "Layout \<Rightarrow> nat \<Rightarrow> nat \<Rightarrow> BoundedCursor \<Rightarrow> (Literal list \<times> BoundedCursor) decode"
and decode_pairs :: "Layout \<Rightarrow> nat \<Rightarrow> nat \<Rightarrow> BoundedCursor \<Rightarrow> ((Literal \<times> Literal) list \<times> BoundedCursor) decode"
where
  "decode_external_term lay 0 c = out_of_fuel"
| "decode_external_term lay (Suc fuel) c =
     dbind (with_budget charge_node) (\<lambda>_.
     dbind (lift_result (cur_read_u8 c)) (\<lambda>(tg, c).
       if tg = 70 then
         dbind (lift_result (cur_read_bytes 8 c)) (\<lambda>(bytes, c). dreturn (LitFloat (u64_from_be bytes), c))
       else if tg = 97 then
         dbind (lift_result (cur_read_u8 c)) (\<lambda>(b, c). dreturn (LitInteger (uint b), c))
       else if tg = 98 then
         dbind (lift_result (cur_read_i32 c)) (\<lambda>(v, c). dreturn (LitInteger v, c))
       else if tg = 100 \<or> tg = 118 then
         dbind (lift_result (cur_read_u16 c)) (\<lambda>(len, c).
         dbind (lift_result (cur_read_bytes (unat len) c)) (\<lambda>(bytes, c).
         dbind (decode_atom_literal bytes) (\<lambda>lit. dreturn (lit, c))))
       else if tg = 119 then
         dbind (lift_result (cur_read_u8 c)) (\<lambda>(len, c).
         dbind (lift_result (cur_read_bytes (unat len) c)) (\<lambda>(bytes, c).
         dbind (decode_atom_literal bytes) (\<lambda>lit. dreturn (lit, c))))
       else if tg = 104 then
         dbind (lift_result (cur_read_u8 c)) (\<lambda>(arity, c). decode_tuple lay fuel (unat arity) c)
       else if tg = 105 then
         dbind (lift_result (cur_read_u32 c)) (\<lambda>(arity, c). decode_tuple lay fuel (unat arity) c)
       else if tg = 106 then dreturn (LitNil, c)
       else if tg = 107 then
         dbind (lift_result (cur_read_u16 c)) (\<lambda>(len, c).
         dbind (with_budget (charge_bytes (unat len))) (\<lambda>_.
         dbind (lift_result (cur_read_bytes (unat len) c)) (\<lambda>(bytes, c). dreturn (LitString bytes, c))))
       else if tg = 108 then
         dbind (lift_result (cur_read_u32 c)) (\<lambda>(len, c).
         dbind (lift_result (ensure_count (unat len) 1 ''ETF list length'' c)) (\<lambda>_.
         dbind (charge_table (unat len) (size_of_Literal lay) ''ETF list'') (\<lambda>_.
           nested (dbind (decode_terms lay fuel (unat len) c) (\<lambda>(elements, c).
                   dbind (decode_external_term lay fuel c) (\<lambda>(tail, c). dreturn (LitList elements tail, c)))))))
       else if tg = 109 then
         dbind (lift_result (cur_read_u32 c)) (\<lambda>(len, c).
         dbind (with_budget (charge_bytes (unat len))) (\<lambda>_.
         dbind (lift_result (cur_read_bytes (unat len) c)) (\<lambda>(bytes, c). dreturn (LitBinary bytes, c))))
       else if tg = 110 \<or> tg = 111 then decode_big_integer c tg
       else if tg = 113 then
         nested (dbind (decode_external_term lay fuel c) (\<lambda>(m, c).
                 dbind (decode_external_term lay fuel c) (\<lambda>(f, c).
                 dbind (decode_external_term lay fuel c) (\<lambda>(a, c).
                 dbind (with_budget (charge_bytes (3 * size_of_Literal lay))) (\<lambda>_.
                 dbind (lift_result (export_fun m f a)) (\<lambda>lit. dreturn (lit, c)))))))
       else if tg = 116 then
         dbind (lift_result (cur_read_u32 c)) (\<lambda>(len, c).
         dbind (lift_result (ensure_count (unat len) 2 ''ETF map size'' c)) (\<lambda>_.
         dbind (charge_table (unat len) (size_of_pair lay) ''ETF map'') (\<lambda>_.
           nested (dbind (decode_pairs lay fuel (unat len) c) (\<lambda>(pairs, c). dreturn (LitMap pairs, c))))))
       else dfail (UnsupportedEtfTag tg)))"
| "decode_tuple lay fuel arity c =
     dbind (lift_result (ensure_count arity 1 ''ETF tuple arity'' c)) (\<lambda>_.
     dbind (charge_table arity (size_of_Literal lay) ''ETF tuple'') (\<lambda>_.
       nested (dbind (decode_terms lay fuel arity c) (\<lambda>(elements, c). dreturn (LitTuple elements, c)))))"
| "decode_terms lay fuel 0 c = dreturn ([], c)"
| "decode_terms lay fuel (Suc n) c =
     dbind (decode_external_term lay fuel c) (\<lambda>(x, c).
     dbind (decode_terms lay fuel n c) (\<lambda>(xs, c). dreturn (x # xs, c)))"
| "decode_pairs lay fuel 0 c = dreturn ([], c)"
| "decode_pairs lay fuel (Suc n) c =
     dbind (decode_external_term lay fuel c) (\<lambda>(k, c).
     dbind (decode_external_term lay fuel c) (\<lambda>(v, c).
     dbind (decode_pairs lay fuel n c) (\<lambda>(kvs, c). dreturn ((k, v) # kvs, c))))"

section \<open>Encoder\<close>

definition u32_len :: "nat \<Rightarrow> EncodeError + u32" where
  "u32_len n = (if n < 2 ^ 32 then Inr (of_nat n) else Inl ValueOutOfRange)"

definition rposition :: "('a \<Rightarrow> bool) \<Rightarrow> 'a list \<Rightarrow> nat option" where
  "rposition p xs = map_option (\<lambda>i. length xs - 1 - i) (position p (rev xs))"

definition trim_trailing_zeros :: "u8 list \<Rightarrow> u8 list" where
  "trim_trailing_zeros bytes =
     take (case rposition (\<lambda>b. b \<noteq> 0) bytes of None \<Rightarrow> 1 | Some i \<Rightarrow> i + 1) bytes"

definition encode_integer :: "int \<Rightarrow> u8 list" where
  "encode_integer v =
     (if 0 \<le> v \<and> v < 256 then [97, word_of_int v]
      else if - (2 ^ 31) \<le> v \<and> v < 2 ^ 31 then 98 # u32_to_be (word_of_int v)
      else
        let trimmed = trim_trailing_zeros (to_le_bytes (word_of_int \<bar>v\<bar>))
        in 110 # of_nat (length trimmed) # (if v < 0 then 1 else 0) # trimmed)"

definition encode_big_integer :: "u8 list \<Rightarrow> EncodeError + u8 list" where
  "encode_big_integer bytes =
     (case bytes of
        [] \<Rightarrow> Inl MalformedBigInteger
      | sign # magnitude \<Rightarrow>
          if sign > 1 then Inl MalformedBigInteger
          else if length magnitude < 256 then Inr (110 # of_nat (length magnitude) # sign # magnitude)
          else result_bind (u32_len (length magnitude)) (\<lambda>n. Inr (111 # u32_to_be n @ sign # magnitude)))"

definition encode_atom_name :: "u8 list \<Rightarrow> EncodeError + u8 list" where
  "encode_atom_name name =
     (if length name < 256 then Inr (119 # of_nat (length name) # name)
      else if length name < 2 ^ 16 then Inr (118 # u16_to_be (of_nat (length name)) @ name)
      else Inl ValueOutOfRange)"

definition encoder_resolve :: "AtomTable \<Rightarrow> u32 \<Rightarrow> EncodeError + u8 list" where
  "encoder_resolve t atom = ok_or (atom_resolve atom t) AtomNotInTable"

function encode_literal :: "AtomTable \<Rightarrow> Literal \<Rightarrow> EncodeError + u8 list"
and encode_literals :: "AtomTable \<Rightarrow> Literal list \<Rightarrow> EncodeError + u8 list"
and encode_literal_pairs :: "AtomTable \<Rightarrow> (Literal \<times> Literal) list \<Rightarrow> EncodeError + u8 list"
where
  "encode_literal t (LitInteger v) = Inr (encode_integer v)"
| "encode_literal t (LitFloat w) = Inr (70 # to_be_bytes w)"
| "encode_literal t (LitBigInteger bytes) = encode_big_integer bytes"
| "encode_literal t (LitAtom atom) = result_bind (encoder_resolve t atom) encode_atom_name"
| "encode_literal t (LitBinary bytes) =
     result_bind (u32_len (length bytes)) (\<lambda>n. Inr (109 # u32_to_be n @ bytes))"
| "encode_literal t (LitTuple elements) =
     result_bind (if length elements < 256 then Inr [104, of_nat (length elements)]
                  else result_bind (u32_len (length elements)) (\<lambda>n. Inr (105 # u32_to_be n))) (\<lambda>head.
     result_bind (encode_literals t elements) (\<lambda>body. Inr (head @ body)))"
| "encode_literal t LitNil = Inr [106]"
| "encode_literal t (LitList elements tail) =
     result_bind (u32_len (length elements)) (\<lambda>n.
     result_bind (encode_literals t elements) (\<lambda>body.
     result_bind (encode_literal t tail) (\<lambda>last_bytes. Inr (108 # u32_to_be n @ body @ last_bytes))))"
| "encode_literal t (LitMap pairs) =
     result_bind (u32_len (length pairs)) (\<lambda>n.
     result_bind (encode_literal_pairs t pairs) (\<lambda>body. Inr (116 # u32_to_be n @ body)))"
| "encode_literal t (LitString bytes) =
     (if length bytes < 2 ^ 16 then Inr (107 # u16_to_be (of_nat (length bytes)) @ bytes) else Inl ValueOutOfRange)"
| "encode_literal t (LitExportFun module function arity) =
     result_bind (result_bind (encoder_resolve t module) encode_atom_name) (\<lambda>m.
     result_bind (result_bind (encoder_resolve t function) encode_atom_name) (\<lambda>f.
       Inr (113 # m @ f @ encode_integer (uint arity))))"
| "encode_literals t [] = Inr []"
| "encode_literals t (x # xs) =
     result_bind (encode_literal t x) (\<lambda>bs. result_bind (encode_literals t xs) (\<lambda>bs'. Inr (bs @ bs')))"
| "encode_literal_pairs t [] = Inr []"
| "encode_literal_pairs t ((k, v) # kvs) =
     result_bind (encode_literal t k) (\<lambda>bs.
     result_bind (encode_literal t v) (\<lambda>bs'.
     result_bind (encode_literal_pairs t kvs) (\<lambda>bs''. Inr (bs @ bs' @ bs''))))"
  by pat_completeness auto
termination
  by (relation "measure (case_sum (\<lambda>(t, x). size x) (case_sum (\<lambda>(t, xs). size_list size xs)
        (\<lambda>(t, kvs). size_list (\<lambda>x. Suc (size (fst x) + size (snd x))) kvs)))")
    (auto simp: size_prod_simp)

section \<open>Totality of the decoder\<close>

lemma dbind_simps [simp]:
  "dbind (dreturn a) k = k a" "dbind (dfail e) k = dfail e" "dbind (lift_result (Inr a)) k = k a"
  "dbind (lift_result (Inl e)) k = dfail e"
  by (auto simp: dbind_def dreturn_def dfail_def lift_result_def fun_eq_iff)

lemma dbind_eqI: "m s = (Inr a, s') \<Longrightarrow> dbind m k s = k a s'"
  by (simp add: dbind_def)

text \<open>A decoder that never runs out of fuel from a state whose depth is below \<open>n\<close>, and never deepens.\<close>

definition total_below :: "nat \<Rightarrow> 'a decode \<Rightarrow> bool" where
  "total_below n m \<longleftrightarrow>
     (\<forall>s. depth_remaining (st_budget s) < n \<longrightarrow>
        fst (m s) \<noteq> Inl None \<and> depth_remaining (st_budget (snd (m s))) \<le> depth_remaining (st_budget s))"

lemma total_dbind [intro]:
  assumes "total_below n m" "\<And>a. total_below n (k a)"
  shows "total_below n (dbind m k)"
  unfolding total_below_def
proof (intro allI impI)
  fix s :: DecodeState
  assume s: "depth_remaining (st_budget s) < n"
  obtain r s' where m: "m s = (r, s')" by force
  with assms(1) s have s': "r \<noteq> Inl None" "depth_remaining (st_budget s') \<le> depth_remaining (st_budget s)"
    unfolding total_below_def by (metis fst_conv, metis snd_conv)
  then show "fst (dbind m k s) \<noteq> Inl None \<and> depth_remaining (st_budget (snd (dbind m k s))) \<le> depth_remaining (st_budget s)"
  proof (cases r)
    case (Inr a)
    have "depth_remaining (st_budget s') < n" using s s' by simp
    then have "fst (k a s') \<noteq> Inl None" "depth_remaining (st_budget (snd (k a s'))) \<le> depth_remaining (st_budget s')"
      using assms(2) [of a] unfolding total_below_def by blast+
    then show ?thesis using s' m Inr by (simp add: dbind_def)
  qed (use m s' in \<open>auto simp: dbind_def\<close>)
qed

lemma total_basic [intro, simp]:
  "total_below n (dreturn a)" "total_below n (dfail e)" "total_below n (lift_result r)"
  "total_below n (with_budget charge_node)" "total_below n (with_budget (charge_bytes k))"
  "total_below n (with_budget charge_atom)" "total_below n (charge_table k l lab)"
  by (auto simp: total_below_def dreturn_def dfail_def lift_result_def with_budget_def charge_node_def charge_bytes_def
      charge_atom_def charge_table_def split: sum.splits if_splits)

lemma total_nested [intro]:
  assumes "total_below n m"
  shows "total_below (Suc n) (nested m)"
  unfolding total_below_def
proof (intro allI impI)
  fix s :: DecodeState
  assume s: "depth_remaining (st_budget s) < Suc n"
  show "fst (nested m s) \<noteq> Inl None \<and> depth_remaining (st_budget (snd (nested m s))) \<le> depth_remaining (st_budget s)"
  proof (cases "depth_remaining (st_budget s) = 0")
    case False
    let ?s = "s\<lparr>st_budget := (st_budget s)\<lparr>depth_remaining := depth_remaining (st_budget s) - 1\<rparr>\<rparr>"
    obtain r s' where m: "m ?s = (r, s')" by force
    have "depth_remaining (st_budget ?s) < n" using s False by simp
    then have "r \<noteq> Inl None" "depth_remaining (st_budget s') \<le> depth_remaining (st_budget s) - 1"
      using assms m unfolding total_below_def by (metis fst_conv, fastforce)
    then show ?thesis using False m by (simp add: nested_def dbind_def with_budget_def descend_def ascend_def)
  qed (simp add: nested_def dbind_def with_budget_def descend_def)
qed

lemma total_atom_name [intro, simp]: "total_below n (decode_atom_name bytes)"
  by (auto simp: total_below_def decode_atom_name_def dfail_def dbind_def with_budget_def charge_atom_def
      split: option.splits sum.splits prod.splits if_splits)

lemma total_if [intro]: "total_below n a \<Longrightarrow> total_below n b \<Longrightarrow> total_below n (if c then a else b)"
  by simp

lemma total_case_prod [intro]: "(\<And>a b. total_below n (f a b)) \<Longrightarrow> total_below n (case p of (a, b) \<Rightarrow> f a b)"
  by (cases p) simp

lemma total_big_integer [intro, simp]: "total_below n (decode_big_integer c tg)"
  unfolding decode_big_integer_def Let_def by (intro total_dbind total_if total_case_prod total_basic)

lemma total_terms:
  assumes "\<And>c. total_below m (decode_external_term lay fuel c)"
  shows "total_below m (decode_terms lay fuel n c)" "total_below m (decode_pairs lay fuel n c)"
proof -
  show "total_below m (decode_terms lay fuel n c)"
  proof (induction n arbitrary: c)
    case (Suc n)
    show ?case unfolding decode_terms.simps by (intro total_dbind total_case_prod total_basic assms Suc.IH)
  qed simp
  show "total_below m (decode_pairs lay fuel n c)"
  proof (induction n arbitrary: c)
    case (Suc n)
    show ?case unfolding decode_pairs.simps by (intro total_dbind total_case_prod total_basic assms Suc.IH)
  qed simp
qed

lemma total_mono: "total_below n m \<Longrightarrow> k \<le> n \<Longrightarrow> total_below k m"
  by (auto simp: total_below_def)

lemma decode_term_total: "total_below fuel (decode_external_term lay fuel c)"
proof (induction fuel arbitrary: c)
  case 0
  then show ?case by (simp add: total_below_def)
next
  case (Suc fuel)
  note inner = Suc.IH total_terms [OF Suc.IH]
  show ?case
    by (simp only: decode_external_term.simps decode_tuple.simps)
      (intro total_dbind total_if total_case_prod total_basic total_nested total_big_integer inner total_atom_name
        | simp add: decode_atom_literal_def)+
qed

declare decode_external_term.simps [simp del] decode_tuple.simps [simp del]

section \<open>The \<open>LitT\<close> chunk\<close>

text \<open>\<open>inflate bytes n\<close>: what \<open>read_to_end\<close> gives on the decompressed stream cut at \<open>n\<close> bytes.\<close>

definition decompress_bounded ::
  "(u8 list \<Rightarrow> nat \<Rightarrow> u8 list option) \<Rightarrow> u8 list \<Rightarrow> nat \<Rightarrow> u8 list decode" where
  "decompress_bounded inflate bytes declared_size s =
     (let limit = bytes_remaining (st_budget s)
      in case inflate bytes (min (limit + 1) (2 ^ 64 - 1)) of
           None \<Rightarrow> dfail InflateFailed s
         | Some out \<Rightarrow>
             if length out > limit then dfail LiteralOverBudget s
             else if length out \<noteq> declared_size then dfail (InflatedSize (length out) declared_size) s
             else dbind (with_budget (charge_bytes (length out))) (\<lambda>_. dreturn out) s)"

text \<open>One literal of the table: its size, the version byte and the term, which must fill it.\<close>

definition decode_sized_literal :: "Layout \<Rightarrow> BoundedCursor \<Rightarrow> (Literal \<times> BoundedCursor) decode" where
  "decode_sized_literal lay c =
     dbind (with_budget charge_node) (\<lambda>_.
     dbind (lift_result (cur_read_u32 c)) (\<lambda>(n, c).
     dbind (lift_result (cur_read_bytes (unat n) c)) (\<lambda>(term_bytes, c).
     dbind (lift_result (cur_read_u8 (cursor_new term_bytes))) (\<lambda>(version, tc).
       if version \<noteq> 131 then dfail MissingVersionByte
       else (\<lambda>s. dbind (decode_external_term lay (Suc (depth_remaining (st_budget s))) tc) (\<lambda>(lit, tc).
              dbind (lift_result (expect_empty ''literal ETF'' tc)) (\<lambda>_. dreturn (lit, c))) s)))))"

fun decode_sized_literals :: "Layout \<Rightarrow> nat \<Rightarrow> BoundedCursor \<Rightarrow> (Literal list \<times> BoundedCursor) decode" where
  "decode_sized_literals lay 0 c = dreturn ([], c)"
| "decode_sized_literals lay (Suc n) c =
     dbind (decode_sized_literal lay c) (\<lambda>(x, c).
     dbind (decode_sized_literals lay n c) (\<lambda>(xs, c). dreturn (x # xs, c)))"

definition decode_literal_chunk ::
  "Layout \<Rightarrow> (u8 list \<Rightarrow> nat \<Rightarrow> u8 list option) \<Rightarrow> u8 list \<Rightarrow> Literal list decode" where
  "decode_literal_chunk lay inflate bytes =
     dbind (lift_result (cur_read_u32 (cursor_new bytes))) (\<lambda>(uncompressed_size, c).
     dbind (if uncompressed_size = 0
            then dbind (with_budget (charge_bytes (remaining_len c))) (\<lambda>_. dreturn (cur_remaining c))
            else decompress_bounded inflate (cur_remaining c) (unat uncompressed_size)) (\<lambda>payload.
     dbind (lift_result (cur_read_u32 (cursor_new payload))) (\<lambda>(n, c).
     dbind (lift_result (ensure_count (unat n) 4 ''literal count'' c)) (\<lambda>_.
     dbind (charge_table (unat n) (size_of_Literal lay) ''literal table'') (\<lambda>_.
     dbind (decode_sized_literals lay (unat n) c) (\<lambda>(literals, c).
     dbind (lift_result (expect_empty ''literal'' c)) (\<lambda>_. dreturn literals)))))))"

fun encode_sized_literals :: "AtomTable \<Rightarrow> Literal list \<Rightarrow> EncodeError + u8 list" where
  "encode_sized_literals t [] = Inr []"
| "encode_sized_literals t (x # xs) =
     result_bind (encode_literal t x) (\<lambda>bs.
     result_bind (u32_len (length (131 # bs))) (\<lambda>n.
     result_bind (encode_sized_literals t xs) (\<lambda>bs'. Inr (u32_to_be n @ 131 # bs @ bs'))))"

definition encode_literal_chunk :: "AtomTable \<Rightarrow> Literal list \<Rightarrow> EncodeError + u8 list option" where
  "encode_literal_chunk t literals =
     (if literals = [] then Inr None
      else
        result_bind (u32_len (length literals)) (\<lambda>n.
        result_bind (encode_sized_literals t literals) (\<lambda>body.
        result_bind (u32_len (length (u32_to_be n @ body))) (\<lambda>_.
          Inr (Some (u32_to_be 0 @ u32_to_be n @ body))))))"

lemma decode_sized_literal_total: "fst (decode_sized_literal lay c s) \<noteq> Inl None"
proof -
  have "total_below k (\<lambda>s. dbind (decode_external_term lay (Suc (depth_remaining (st_budget s))) tc) (\<lambda>(lit, tc).
              dbind (lift_result (expect_empty ''literal ETF'' tc)) (\<lambda>_. dreturn (lit, c'))) s)" for k tc c'
    unfolding total_below_def
  proof (intro allI impI)
    fix s :: DecodeState
    assume "depth_remaining (st_budget s) < k"
    have "total_below (Suc (depth_remaining (st_budget s))) (dbind (decode_external_term lay (Suc (depth_remaining (st_budget s))) tc)
        (\<lambda>(lit, tc). dbind (lift_result (expect_empty ''literal ETF'' tc)) (\<lambda>_. dreturn (lit, c'))))"
      by (intro total_dbind total_case_prod total_basic decode_term_total)
    then show "fst (dbind (decode_external_term lay (Suc (depth_remaining (st_budget s))) tc) (\<lambda>(lit, tc).
              dbind (lift_result (expect_empty ''literal ETF'' tc)) (\<lambda>_. dreturn (lit, c'))) s) \<noteq> Inl None \<and>
        depth_remaining (st_budget (snd (dbind (decode_external_term lay (Suc (depth_remaining (st_budget s))) tc) (\<lambda>(lit, tc).
              dbind (lift_result (expect_empty ''literal ETF'' tc)) (\<lambda>_. dreturn (lit, c'))) s))) \<le> depth_remaining (st_budget s)"
      unfolding total_below_def by blast
  qed
  then have "total_below (Suc (depth_remaining (st_budget s))) (decode_sized_literal lay c)"
    unfolding decode_sized_literal_def by (intro total_dbind total_case_prod total_basic total_if)
  then show ?thesis unfolding total_below_def by blast
qed

end
