(* ===== verification/Literal_Roundtrip.thy ===== *)
theory Literal_Roundtrip
  imports Literal_Codec
begin

text \<open>
  Literals survive the round trip through the external term format: what the encoder writes for a
  well-formed literal, the decoder reads back, charging an amount of budget that is computed from
  the literal. The decoder's acceptance is stated for a cursor anywhere in a longer input, and for
  every budget that affords the literal.
\<close>

section \<open>Budgets\<close>

definition spend :: "nat \<Rightarrow> nat \<Rightarrow> DecodeState \<Rightarrow> DecodeState" where
  "spend k n s = s\<lparr>st_budget := (st_budget s)\<lparr>nodes_remaining := nodes_remaining (st_budget s) - k,
     bytes_remaining := bytes_remaining (st_budget s) - n\<rparr>\<rparr>"

definition deeper :: "DecodeState \<Rightarrow> DecodeState" where
  "deeper s = s\<lparr>st_budget := (st_budget s)\<lparr>depth_remaining := depth_remaining (st_budget s) - 1\<rparr>\<rparr>"

definition affords :: "DecodeState \<Rightarrow> nat \<Rightarrow> nat \<Rightarrow> nat \<Rightarrow> bool" where
  "affords s k n d \<longleftrightarrow> k \<le> nodes_remaining (st_budget s) \<and> n \<le> bytes_remaining (st_budget s) \<and>
     d \<le> depth_remaining (st_budget s) \<and> depth_remaining (st_budget s) < 2 ^ 64 \<and> bytes_remaining (st_budget s) < 2 ^ 64"

lemma spend_simps [simp]:
  "spend 0 0 s = s" "spend k n (spend k' n' s) = spend (k' + k) (n' + n) s" "st_table (spend k n s) = st_table s"
  "st_table (deeper s) = st_table s" "depth_remaining (st_budget (spend k n s)) = depth_remaining (st_budget s)"
  "bytes_remaining (st_budget (spend k n s)) = bytes_remaining (st_budget s) - n"
  by (simp_all add: spend_def deeper_def)

lemma affords_spend: "affords s (k + k') (n + n') d \<Longrightarrow> affords (spend k n s) k' n' d"
  by (auto simp: affords_def spend_def)

lemma affords_mono: "affords s k n d \<Longrightarrow> k' \<le> k \<Longrightarrow> n' \<le> n \<Longrightarrow> d' \<le> d \<Longrightarrow> affords s k' n' d'"
  by (auto simp: affords_def)

lemma affords_deeper: "affords s k n (Suc d) \<Longrightarrow> affords (deeper s) k n d"
  by (auto simp: affords_def deeper_def)

lemma charge_affords:
  "affords s 1 0 d \<Longrightarrow> with_budget charge_node s = (Inr (), spend 1 0 s)"
  "affords s 0 n d \<Longrightarrow> with_budget (charge_bytes n) s = (Inr (), spend 0 n s)"
  "affords s 0 (n * elem) d \<Longrightarrow> charge_table n elem label s = (Inr (), spend 0 (n * elem) s)"
  by (auto simp: affords_def with_budget_def charge_node_def charge_bytes_def charge_table_def spend_def)

lemma nested_eqI:
  assumes "affords s 0 0 (Suc d)" "m (deeper s) = (Inr a, spend k n (deeper s))"
  shows "nested m s = (Inr a, spend k n s)"
  using assms by (auto simp: nested_def dbind_def with_budget_def descend_def ascend_def affords_def deeper_def spend_def)

section \<open>Well-formed literals and their cost\<close>

definition name_ok :: "AtomTable \<Rightarrow> u32 \<Rightarrow> bool" where
  "name_ok t a \<longleftrightarrow> (case atom_resolve a t of None \<Rightarrow> False
     | Some n \<Rightarrow> atom_lookup n t = Some a \<and> utf8_valid n)"

definition short_name :: "AtomTable \<Rightarrow> u32 \<Rightarrow> bool" where
  "short_name t a \<longleftrightarrow> (case atom_resolve a t of None \<Rightarrow> False | Some n \<Rightarrow> length n < 2 ^ 16)"

definition bignum_value :: "u8 list \<Rightarrow> int" where
  "bignum_value bs = (if hd bs = 1 then - int (bytes_le_val (tl bs)) else int (bytes_le_val (tl bs)))"

primrec literal_ok :: "AtomTable \<Rightarrow> Literal \<Rightarrow> bool" where
  "literal_ok t (LitInteger v) \<longleftrightarrow> - (2 ^ 63) \<le> v \<and> v < 2 ^ 63"
| "literal_ok t (LitFloat w) \<longleftrightarrow> True"
| "literal_ok t (LitBigInteger bs) \<longleftrightarrow> bs \<noteq> [] \<and> hd bs \<le> 1 \<and> length bs \<le> 2 ^ 32 \<and>
     (length bs \<le> 9 \<longrightarrow> bignum_value bs < - (2 ^ 63) \<or> 2 ^ 63 \<le> bignum_value bs)"
| "literal_ok t (LitAtom a) \<longleftrightarrow> name_ok t a \<and> short_name t a"
| "literal_ok t (LitBinary bs) \<longleftrightarrow> length bs < 2 ^ 32"
| "literal_ok t (LitTuple xs) \<longleftrightarrow> length xs \<le> MAX_TABLE_ENTRIES \<and> list_all id (map (literal_ok t) xs)"
| "literal_ok t LitNil \<longleftrightarrow> True"
| "literal_ok t (LitList xs tail) \<longleftrightarrow> length xs \<le> MAX_TABLE_ENTRIES \<and> list_all id (map (literal_ok t) xs) \<and> literal_ok t tail"
| "literal_ok t (LitMap kvs) \<longleftrightarrow> length kvs \<le> MAX_TABLE_ENTRIES \<and>
     list_all (\<lambda>(a, b). a \<and> b) (map (map_prod (literal_ok t) (literal_ok t)) kvs)"
| "literal_ok t (LitString bs) \<longleftrightarrow> length bs < 2 ^ 16"
| "literal_ok t (LitExportFun m f a) \<longleftrightarrow> name_ok t m \<and> short_name t m \<and> name_ok t f \<and> short_name t f"

primrec lit_nodes :: "Literal \<Rightarrow> nat" where
  "lit_nodes (LitInteger v) = 1"
| "lit_nodes (LitFloat w) = 1"
| "lit_nodes (LitBigInteger bs) = 1"
| "lit_nodes (LitAtom a) = 1"
| "lit_nodes (LitBinary bs) = 1"
| "lit_nodes (LitTuple xs) = 1 + sum_list (map lit_nodes xs)"
| "lit_nodes LitNil = 1"
| "lit_nodes (LitList xs tail) = 1 + sum_list (map lit_nodes xs) + lit_nodes tail"
| "lit_nodes (LitMap kvs) = 1 + sum_list (map (\<lambda>(a, b). a + b) (map (map_prod lit_nodes lit_nodes) kvs))"
| "lit_nodes (LitString bs) = 1"
| "lit_nodes (LitExportFun m f a) = 4"

primrec lit_bytes :: "Layout \<Rightarrow> Literal \<Rightarrow> nat" where
  "lit_bytes lay (LitInteger v) = 0"
| "lit_bytes lay (LitFloat w) = 0"
| "lit_bytes lay (LitBigInteger bs) = length bs"
| "lit_bytes lay (LitAtom a) = 0"
| "lit_bytes lay (LitBinary bs) = length bs"
| "lit_bytes lay (LitTuple xs) = length xs * size_of_Literal lay + sum_list (map (lit_bytes lay) xs)"
| "lit_bytes lay LitNil = 0"
| "lit_bytes lay (LitList xs tail) =
     length xs * size_of_Literal lay + sum_list (map (lit_bytes lay) xs) + lit_bytes lay tail"
| "lit_bytes lay (LitMap kvs) = length kvs * size_of_pair lay +
     sum_list (map (\<lambda>(a, b). a + b) (map (map_prod (lit_bytes lay) (lit_bytes lay)) kvs))"
| "lit_bytes lay (LitString bs) = length bs"
| "lit_bytes lay (LitExportFun m f a) = 3 * size_of_Literal lay"

primrec lit_depth :: "Literal \<Rightarrow> nat" where
  "lit_depth (LitInteger v) = 0"
| "lit_depth (LitFloat w) = 0"
| "lit_depth (LitBigInteger bs) = 0"
| "lit_depth (LitAtom a) = 0"
| "lit_depth (LitBinary bs) = 0"
| "lit_depth (LitTuple xs) = Suc (foldr max (map lit_depth xs) 0)"
| "lit_depth LitNil = 0"
| "lit_depth (LitList xs tail) = Suc (foldr max (map lit_depth xs) (lit_depth tail))"
| "lit_depth (LitMap kvs) = Suc (foldr max (map (\<lambda>(a, b). max a b) (map (map_prod lit_depth lit_depth) kvs)) 0)"
| "lit_depth (LitString bs) = 0"
| "lit_depth (LitExportFun m f a) = 1"

text \<open>The bytes are one term, read as \<open>lit\<close> wherever the budget affords it.\<close>

definition etf_reads :: "Layout \<Rightarrow> AtomTable \<Rightarrow> u8 list \<Rightarrow> Literal \<Rightarrow> bool" where
  "etf_reads lay t bs lit \<longleftrightarrow> bs \<noteq> [] \<and>
     (\<forall>c r s fuel. stands c bs r \<longrightarrow> st_table s = t \<longrightarrow>
        affords s (lit_nodes lit) (lit_bytes lay lit) (lit_depth lit) \<longrightarrow> lit_depth lit < fuel \<longrightarrow>
        decode_external_term lay fuel c s =
          (Inr (lit, cadv (length bs) c), spend (lit_nodes lit) (lit_bytes lay lit) s))"

lemma etf_readsI:
  assumes "bs \<noteq> []"
    and "\<And>c r s fuel. stands c bs r \<Longrightarrow> st_table s = t \<Longrightarrow>
      affords s (lit_nodes lit) (lit_bytes lay lit) (lit_depth lit) \<Longrightarrow> lit_depth lit < Suc fuel \<Longrightarrow>
      decode_external_term lay (Suc fuel) c s =
        (Inr (lit, cadv (length bs) c), spend (lit_nodes lit) (lit_bytes lay lit) s)"
  shows "etf_reads lay t bs lit"
  unfolding etf_reads_def
proof (intro conjI allI impI)
  fix c r s and fuel :: nat
  assume "lit_depth lit < fuel"
  then show "decode_external_term lay fuel c s = (Inr (lit, cadv (length bs) c), spend (lit_nodes lit) (lit_bytes lay lit) s)"
    if "stands c bs r" "st_table s = t" "affords s (lit_nodes lit) (lit_bytes lay lit) (lit_depth lit)"
    using assms(2) [OF that] by (cases fuel) auto
qed (rule assms(1))

lemma etf_readsD:
  "etf_reads lay t bs lit \<Longrightarrow> stands c bs r \<Longrightarrow> st_table s = t \<Longrightarrow>
   affords s (lit_nodes lit) (lit_bytes lay lit) (lit_depth lit) \<Longrightarrow> lit_depth lit < fuel \<Longrightarrow>
   decode_external_term lay fuel c s = (Inr (lit, cadv (length bs) c), spend (lit_nodes lit) (lit_bytes lay lit) s)"
  unfolding etf_reads_def by blast

section \<open>Leaves\<close>

lemma decode_head:
  assumes "stands c (tg # bs) r" "affords s 1 0 0"
  shows "with_budget charge_node s = (Inr (), spend 1 0 s)" "cur_read_u8 c = Inr (tg, cadv 1 c)"
    "stands (cadv 1 c) bs r"
  using charge_affords(1) [OF assms(2)] read_u8_stands [OF assms(1)] stands_cadv [of c "[tg]" bs r] assms(1)
  by (simp_all add: stands_def)

lemma etf_reads_float: "etf_reads lay t (70 # to_be_bytes w) (LitFloat w)"
proof (rule etf_readsI)
  fix c r s fuel
  assume "stands c (70 # to_be_bytes w) r"
    and "affords s (lit_nodes (LitFloat w)) (lit_bytes lay (LitFloat w)) (lit_depth (LitFloat w))"
  then have h: "stands c (70 # to_be_bytes w) r" "affords s 1 0 0" by simp_all
  have "cur_read_bytes 8 (cadv 1 c) = Inr (to_be_bytes w, cadv 9 c)"
    using read_bytes_stands [OF decode_head(3) [OF h]] by simp
  moreover have "u64_from_be (to_be_bytes w) = w"
    by (simp add: u64_from_be_def to_be_bytes_def from_le_bytes_def)
  ultimately show "decode_external_term lay (Suc fuel) c s = (Inr (LitFloat w, cadv (length (70 # to_be_bytes w)) c),
      spend (lit_nodes (LitFloat w)) (lit_bytes lay (LitFloat w)) s)"
    using decode_head(1,2) [OF h] by (simp add: decode_external_term.simps dbind_def dreturn_def lift_result_def)
qed simp

lemmas decode_eval = decode_external_term.simps dbind_def dreturn_def lift_result_def

lemma unat_of_nat_u8: "n < 256 \<Longrightarrow> unat (of_nat n :: u8) = n"
  by (simp add: unsigned_of_nat take_bit_nat_eq_self)

lemma unat_of_nat_u16: "n < 2 ^ 16 \<Longrightarrow> unat (of_nat n :: u16) = n"
  by (simp add: unsigned_of_nat take_bit_nat_eq_self)

lemma unat_of_nat_u32: "n < 2 ^ 32 \<Longrightarrow> unat (of_nat n :: u32) = n"
  by (simp add: unsigned_of_nat take_bit_nat_eq_self)

text \<open>A small or large big-integer term, by its length, sign and magnitude.\<close>

lemma decode_big_integer_stands:
  assumes c: "stands c (sign # bytes) r" and sign: "sign \<le> 1"
    and len: "(if tg = 110 then result_bind (cur_read_u8 c0) (\<lambda>(n, c). Inr (unat n, c))
            else result_bind (cur_read_u32 c0) (\<lambda>(n, c). Inr (unat n, c))) = Inr (length bytes, c)"
  defines "v \<equiv> bignum_value (sign # bytes)"
  assumes aff: "\<not> (length bytes \<le> 8 \<and> - (2 ^ 63) \<le> v \<and> v < 2 ^ 63) \<Longrightarrow> affords s 0 (length bytes + 1) d"
  shows "decode_big_integer c0 tg s =
    (if length bytes \<le> 8 \<and> - (2 ^ 63) \<le> v \<and> v < 2 ^ 63 then (Inr (LitInteger v, cadv (Suc (length bytes)) c), s)
     else (Inr (LitBigInteger (sign # bytes), cadv (Suc (length bytes)) c), spend 0 (length bytes + 1) s))"
proof -
  have "\<not> sign > 1" using sign by simp
  moreover have "cur_read_u8 c = Inr (sign, cadv 1 c)" using read_u8_stands [OF c] .
  moreover have "cur_read_bytes (length bytes) (cadv 1 c) = Inr (bytes, cadv (Suc (length bytes)) c)"
    using read_bytes_stands [OF stands_cadv [of c "[sign]" bytes r]] c by (simp add: stands_def)
  moreover have "with_budget (charge_bytes (Suc (length bytes))) s = (Inr (), spend 0 (Suc (length bytes)) s) \<and>
      length bytes + 1 < 2 ^ 64" if "\<not> (length bytes \<le> 8 \<and> - (2 ^ 63) \<le> v \<and> v < 2 ^ 63)"
    using charge_affords(2) [OF aff [OF that]] aff [OF that] by (simp add: affords_def)
  ultimately show ?thesis
    unfolding decode_big_integer_def len v_def bignum_value_def
    by (auto simp: dbind_def dreturn_def lift_result_def dfail_def Let_def)
qed

lemma trim_trailing_zeros_eq:
  assumes "bytes_le_val bs \<noteq> 0"
  shows "bytes_le_val (trim_trailing_zeros bs) = bytes_le_val bs" "length (trim_trailing_zeros bs) \<le> length bs"
proof -
  have "\<exists>b\<in>set bs. b \<noteq> 0"
  proof (rule ccontr)
    assume "\<not> (\<exists>b\<in>set bs. b \<noteq> 0)"
    then have "bs = replicate (length bs) 0" by (auto intro: replicate_eqI)
    then show False using assms bytes_le_val_replicate by metis
  qed
  then obtain i where i: "position (\<lambda>b. b \<noteq> 0) (rev bs) = Some i"
    by (cases "position (\<lambda>b. b \<noteq> 0) (rev bs)") auto
  let ?n = "length bs - i"
  have pos: "i < length bs" "\<forall>j<i. rev bs ! j = 0" using i by (auto simp: position_Some_iff)
  have "drop ?n bs = replicate i 0"
  proof (rule nth_equalityI)
    fix j assume "j < length (drop ?n bs)"
    then have "j < i" using pos(1) by simp
    then have "rev bs ! (i - 1 - j) = 0" using pos(2) by simp
    then show "drop ?n bs ! j = replicate i 0 ! j" using pos(1) \<open>j < i\<close> by (simp add: rev_nth)
  qed (use pos(1) in simp)
  then have "bytes_le_val bs = bytes_le_val (take ?n bs)"
    using bytes_le_val_append [of "take ?n bs" "drop ?n bs"] by (simp del: append_take_drop_id) (metis append_take_drop_id)
  moreover have "trim_trailing_zeros bs = take ?n bs"
    using i pos(1) by (simp add: trim_trailing_zeros_def rposition_def Suc_diff_Suc)
  ultimately show "bytes_le_val (trim_trailing_zeros bs) = bytes_le_val bs" "length (trim_trailing_zeros bs) \<le> length bs"
    by simp_all
qed

lemma etf_reads_integer_big:
  assumes v: "- (2 ^ 63) \<le> v" "v < 2 ^ 63" "v \<noteq> 0"
  defines "trimmed \<equiv> trim_trailing_zeros (to_le_bytes (word_of_int \<bar>v\<bar>))"
  shows "etf_reads lay t (110 # of_nat (length trimmed) # (if v < 0 then 1 else 0) # trimmed) (LitInteger v)"
proof (rule etf_readsI)
  let ?sign = "if v < 0 then 1 else 0 :: u8"
  fix c r s fuel
  assume "stands c (110 # of_nat (length trimmed) # ?sign # trimmed) r"
    and "affords s (lit_nodes (LitInteger v)) (lit_bytes lay (LitInteger v)) (lit_depth (LitInteger v))"
  then have h: "stands c (110 # of_nat (length trimmed) # ?sign # trimmed) r" "affords s 1 0 0" by simp_all
  have w: "unat (word_of_int \<bar>v\<bar> :: u64) = nat \<bar>v\<bar>"
    using v by (simp add: unsigned_of_int take_bit_int_eq_self)
  then have nz: "bytes_le_val (to_le_bytes (word_of_int \<bar>v\<bar>)) \<noteq> 0" using v(3) by simp
  have tr: "bytes_le_val trimmed = nat \<bar>v\<bar>" "length trimmed \<le> 8"
    using trim_trailing_zeros_eq [OF nz] w by (simp_all add: trimmed_def)
  then have n: "unat (of_nat (length trimmed) :: u8) = length trimmed" by (simp add: unat_of_nat_u8)
  have val: "bignum_value (?sign # trimmed) = v" using tr by (simp add: bignum_value_def)
  have c2: "stands (cadv 2 c) (?sign # trimmed) r"
    using stands_cadv [of "cadv 1 c" "[of_nat (length trimmed)]" "?sign # trimmed" r] decode_head(3) [OF h]
    by (simp add: stands_def numeral_2_eq_2)
  have len: "(if (110 :: u8) = 110 then result_bind (cur_read_u8 (cadv 1 c)) (\<lambda>(n, c). Inr (unat n, c))
            else result_bind (cur_read_u32 (cadv 1 c)) (\<lambda>(n, c). Inr (unat n, c))) = Inr (length trimmed, cadv 2 c)"
    using read_u8_stands [OF decode_head(3) [OF h]] n by (simp add: numeral_2_eq_2)
  have "decode_big_integer (cadv 1 c) 110 (spend 1 0 s) = (Inr (LitInteger v, cadv (Suc (length trimmed) + 2) c), spend 1 0 s)"
    using decode_big_integer_stands [OF c2 _ len, of "spend 1 0 s" 0] val tr(2) v by simp
  then show "decode_external_term lay (Suc fuel) c s = (Inr (LitInteger v, cadv (length (110 # of_nat (length trimmed) # ?sign # trimmed)) c),
      spend (lit_nodes (LitInteger v)) (lit_bytes lay (LitInteger v)) s)"
    using decode_head(1,2) [OF h] by (simp add: decode_eval)
qed simp

lemma etf_reads_integer:
  assumes v: "- (2 ^ 63) \<le> v" "v < 2 ^ 63"
  shows "etf_reads lay t (encode_integer v) (LitInteger v)"
proof -
  consider "0 \<le> v \<and> v < 256" | "\<not> (0 \<le> v \<and> v < 256)" "- (2 ^ 31) \<le> v \<and> v < 2 ^ 31"
    | "\<not> (0 \<le> v \<and> v < 256)" "\<not> (- (2 ^ 31) \<le> v \<and> v < 2 ^ 31)" by blast
  then show ?thesis
  proof cases
    case 1
    have "etf_reads lay t [97, word_of_int v] (LitInteger v)"
    proof (rule etf_readsI)
      fix c r s fuel
      assume "stands c [97, word_of_int v] r"
        and "affords s (lit_nodes (LitInteger v)) (lit_bytes lay (LitInteger v)) (lit_depth (LitInteger v))"
      then have h: "stands c (97 # [word_of_int v]) r" "affords s 1 0 0" by simp_all
      have "uint (word_of_int v :: u8) = v" using 1 by (simp add: unsigned_of_int take_bit_int_eq_self)
      then show "decode_external_term lay (Suc fuel) c s = (Inr (LitInteger v, cadv (length [97, word_of_int v :: u8]) c),
          spend (lit_nodes (LitInteger v)) (lit_bytes lay (LitInteger v)) s)"
        using decode_head(1,2) [OF h] read_u8_stands [OF decode_head(3) [OF h]] by (simp add: decode_eval flip: numeral_2_eq_2)
    qed simp
    then show ?thesis using 1 by (simp add: encode_integer_def)
  next
    case 2
    have "etf_reads lay t (98 # u32_to_be (word_of_int v)) (LitInteger v)"
    proof (rule etf_readsI)
      fix c r s fuel
      assume "stands c (98 # u32_to_be (word_of_int v)) r"
        and "affords s (lit_nodes (LitInteger v)) (lit_bytes lay (LitInteger v)) (lit_depth (LitInteger v))"
      then have h: "stands c (98 # u32_to_be (word_of_int v)) r" "affords s 1 0 0" by simp_all
      have "sint (word_of_int v :: u32) = v" using 2(2) by (simp add: signed_of_int signed_take_bit_int_eq_self)
      then show "decode_external_term lay (Suc fuel) c s = (Inr (LitInteger v, cadv (length (98 # u32_to_be (word_of_int v))) c),
          spend (lit_nodes (LitInteger v)) (lit_bytes lay (LitInteger v)) s)"
        using decode_head(1,2) [OF h] read_i32_stands [OF decode_head(3) [OF h]] by (simp add: decode_eval)
    qed simp
    then show ?thesis using 2 by (auto simp: encode_integer_def)
  next
    case 3
    then have "v \<noteq> 0" by auto
    then show ?thesis using etf_reads_integer_big [OF v, of lay t] 3 by (auto simp: encode_integer_def Let_def)
  qed
qed

lemma etf_reads_nil: "etf_reads lay t [106] LitNil"
proof (rule etf_readsI)
  fix c r s fuel
  assume "stands c [106] r" and "affords s (lit_nodes LitNil) (lit_bytes lay LitNil) (lit_depth LitNil)"
  then have h: "stands c (106 # []) r" "affords s 1 0 0" by simp_all
  then show "decode_external_term lay (Suc fuel) c s = (Inr (LitNil, cadv (length [106 :: u8]) c),
      spend (lit_nodes LitNil) (lit_bytes lay LitNil) s)"
    using decode_head(1,2) [OF h] by (simp add: decode_eval)
qed simp

text \<open>A length and that many bytes.\<close>

lemma read_counted_u16:
  assumes "stands c (u16_to_be (of_nat (length bs)) @ bs) r" "length bs < 2 ^ 16"
  shows "cur_read_u16 c = Inr (of_nat (length bs), cadv 2 c)" "unat (of_nat (length bs) :: u16) = length bs"
    "cur_read_bytes (length bs) (cadv 2 c) = Inr (bs, cadv (2 + length bs) c)"
  using read_u16_stands [of c "of_nat (length bs)" "bs @ r"] assms(1) unat_of_nat_u16 [OF assms(2)]
    read_bytes_stands [OF stands_cadv [of c "u16_to_be (of_nat (length bs))" bs r]]
  by (simp_all add: stands_append add.commute)

lemma read_counted_u32:
  assumes "stands c (u32_to_be (of_nat (length bs)) @ bs) r" "length bs < 2 ^ 32"
  shows "cur_read_u32 c = Inr (of_nat (length bs), cadv 4 c)" "unat (of_nat (length bs) :: u32) = length bs"
    "cur_read_bytes (length bs) (cadv 4 c) = Inr (bs, cadv (4 + length bs) c)"
  using read_u32_stands [of c "of_nat (length bs)" "bs @ r"] assms(1) unat_of_nat_u32 [OF assms(2)]
    read_bytes_stands [OF stands_cadv [of c "u32_to_be (of_nat (length bs))" bs r]]
  by (simp_all add: stands_append add.commute)

lemma etf_reads_string:
  assumes "length bs < 2 ^ 16"
  shows "etf_reads lay t (107 # u16_to_be (of_nat (length bs)) @ bs) (LitString bs)"
proof (rule etf_readsI)
  fix c r s fuel
  assume h0: "stands c (107 # u16_to_be (of_nat (length bs)) @ bs) r"
    and "affords s (lit_nodes (LitString bs)) (lit_bytes lay (LitString bs)) (lit_depth (LitString bs))"
  then have aff: "affords s (1 + 0) (0 + length bs) 0" by simp
  have "affords s 1 0 0" using aff by (rule affords_mono) simp_all
  note h = h0 this
  note rd = read_counted_u16 [OF decode_head(3) [OF h] assms]
  have "with_budget (charge_bytes (length bs)) (spend 1 0 s) = (Inr (), spend 1 (length bs) s)"
    using charge_affords(2) [OF affords_spend [OF aff]] by simp
  then show "decode_external_term lay (Suc fuel) c s = (Inr (LitString bs, cadv (length (107 # u16_to_be (of_nat (length bs)) @ bs)) c),
      spend (lit_nodes (LitString bs)) (lit_bytes lay (LitString bs)) s)"
    using decode_head(1,2) [OF h] rd by (simp add: decode_eval)
qed simp

lemma etf_reads_binary:
  assumes "length bs < 2 ^ 32"
  shows "etf_reads lay t (109 # u32_to_be (of_nat (length bs)) @ bs) (LitBinary bs)"
proof (rule etf_readsI)
  fix c r s fuel
  assume h0: "stands c (109 # u32_to_be (of_nat (length bs)) @ bs) r"
    and "affords s (lit_nodes (LitBinary bs)) (lit_bytes lay (LitBinary bs)) (lit_depth (LitBinary bs))"
  then have aff: "affords s (1 + 0) (0 + length bs) 0" by simp
  have "affords s 1 0 0" using aff by (rule affords_mono) simp_all
  note h = h0 this
  note rd = read_counted_u32 [OF decode_head(3) [OF h] assms]
  have "with_budget (charge_bytes (length bs)) (spend 1 0 s) = (Inr (), spend 1 (length bs) s)"
    using charge_affords(2) [OF affords_spend [OF aff]] by simp
  then show "decode_external_term lay (Suc fuel) c s = (Inr (LitBinary bs, cadv (length (109 # u32_to_be (of_nat (length bs)) @ bs)) c),
      spend (lit_nodes (LitBinary bs)) (lit_bytes lay (LitBinary bs)) s)"
    using decode_head(1,2) [OF h] rd by (simp add: decode_eval)
qed simp

lemma decode_atom_name_ok:
  assumes "name_ok (st_table s) a" "atom_resolve a (st_table s) = Some n"
  shows "decode_atom_name n s = (Inr a, s)"
  using assms by (simp add: name_ok_def decode_atom_name_def)

lemma etf_reads_atom:
  assumes "name_ok t a" "short_name t a"
  shows "\<exists>bs. result_bind (encoder_resolve t a) encode_atom_name = Inr bs \<and> etf_reads lay t bs (LitAtom a)"
proof -
  obtain n where n: "atom_resolve a t = Some n" "length n < 2 ^ 16"
    using assms(2) by (auto simp: short_name_def split: option.splits)
  show ?thesis
  proof (cases "length n < 256")
    case True
    have "etf_reads lay t (119 # of_nat (length n) # n) (LitAtom a)"
    proof (rule etf_readsI)
      fix c r s fuel
      assume "stands c (119 # of_nat (length n) # n) r" and t: "st_table s = t"
        and "affords s (lit_nodes (LitAtom a)) (lit_bytes lay (LitAtom a)) (lit_depth (LitAtom a))"
      then have h: "stands c (119 # of_nat (length n) # n) r" "affords s 1 0 0" by simp_all
      have "stands (cadv 1 (cadv 1 c)) n r"
        using decode_head(3) [OF h] stands_cadv [of "cadv 1 c" "[of_nat (length n)]" n r] by (simp add: stands_def)
      then have "cur_read_bytes (length n) (cadv 2 c) = Inr (n, cadv (2 + length n) c)"
        using read_bytes_stands by (fastforce simp: numeral_2_eq_2)
      then show "decode_external_term lay (Suc fuel) c s = (Inr (LitAtom a, cadv (length (119 # of_nat (length n) # n)) c),
          spend (lit_nodes (LitAtom a)) (lit_bytes lay (LitAtom a)) s)"
        using decode_head(1,2) [OF h] read_u8_stands [OF decode_head(3) [OF h]] unat_of_nat_u8 [OF True]
          decode_atom_name_ok [of "spend 1 0 s" a n] assms(1) n(1) t
        by (simp add: decode_eval decode_atom_literal_def flip: numeral_2_eq_2)
    qed simp
    then show ?thesis using n True by (simp add: encoder_resolve_def encode_atom_name_def)
  next
    case False
    have "etf_reads lay t (118 # u16_to_be (of_nat (length n)) @ n) (LitAtom a)"
    proof (rule etf_readsI)
      fix c r s fuel
      assume "stands c (118 # u16_to_be (of_nat (length n)) @ n) r" and t: "st_table s = t"
        and "affords s (lit_nodes (LitAtom a)) (lit_bytes lay (LitAtom a)) (lit_depth (LitAtom a))"
      then have h: "stands c (118 # u16_to_be (of_nat (length n)) @ n) r" "affords s 1 0 0" by simp_all
      show "decode_external_term lay (Suc fuel) c s = (Inr (LitAtom a, cadv (length (118 # u16_to_be (of_nat (length n)) @ n)) c),
          spend (lit_nodes (LitAtom a)) (lit_bytes lay (LitAtom a)) s)"
        using decode_head(1,2) [OF h] read_counted_u16 [OF decode_head(3) [OF h] n(2)]
          decode_atom_name_ok [of "spend 1 0 s" a n] assms(1) n(1) t
        by (simp add: decode_eval decode_atom_literal_def)
    qed simp
    then show ?thesis using n False by (simp add: encoder_resolve_def encode_atom_name_def)
  qed
qed

lemma etf_reads_big_integer:
  assumes ok: "literal_ok t (LitBigInteger bs)"
  shows "\<exists>out. encode_big_integer bs = Inr out \<and> etf_reads lay t out (LitBigInteger bs)"
proof -
  obtain sign mag where bs: "bs = sign # mag" using ok by (cases bs) auto
  have sign: "sign \<le> 1" "\<not> sign > 1" and len: "length mag < 2 ^ 32"
    and big: "\<not> (length mag \<le> 8 \<and> - (2 ^ 63) \<le> bignum_value (sign # mag) \<and> bignum_value (sign # mag) < 2 ^ 63)"
    using ok by (auto simp: bs)
  let ?lit = "LitBigInteger (sign # mag)"
  have body: "decode_big_integer c0 tg (spend 1 0 s) = (Inr (?lit, cadv (Suc (length mag)) c), spend 1 (length (sign # mag)) s)"
    if "stands c (sign # mag) r" "affords s (lit_nodes ?lit) (lit_bytes lay ?lit) (lit_depth ?lit)"
      and "(if tg = 110 then result_bind (cur_read_u8 c0) (\<lambda>(n, c). Inr (unat n, c))
            else result_bind (cur_read_u32 c0) (\<lambda>(n, c). Inr (unat n, c))) = Inr (length mag, c)" for c0 tg s c r
  proof -
    have "affords s (1 + 0) (0 + (length mag + 1)) 0" using that(2) by simp
    from decode_big_integer_stands [OF that(1) sign(1) that(3) affords_spend [OF this]] big show ?thesis by auto
  qed
  show ?thesis
  proof (cases "length mag < 256")
    case True
    have "etf_reads lay t (110 # of_nat (length mag) # sign # mag) ?lit"
    proof (rule etf_readsI)
      fix c r s fuel
      assume h0: "stands c (110 # of_nat (length mag) # sign # mag) r"
        and aff: "affords s (lit_nodes ?lit) (lit_bytes lay ?lit) (lit_depth ?lit)"
      have "affords s 1 0 0" using aff by (rule affords_mono) simp_all
      note h = h0 this
      have c2: "stands (cadv 2 c) (sign # mag) r"
        using stands_cadv [of "cadv 1 c" "[of_nat (length mag)]" "sign # mag" r] decode_head(3) [OF h]
        by (simp add: stands_def flip: numeral_2_eq_2)
      have "decode_big_integer (cadv 1 c) 110 (spend 1 0 s) = (Inr (?lit, cadv (Suc (length mag)) (cadv 2 c)), spend 1 (length (sign # mag)) s)"
        by (rule body [OF c2 aff]) (use read_u8_stands [OF decode_head(3) [OF h]] unat_of_nat_u8 [OF True] in \<open>simp flip: numeral_2_eq_2\<close>)
      then show "decode_external_term lay (Suc fuel) c s = (Inr (?lit, cadv (length (110 # of_nat (length mag) # sign # mag)) c),
          spend (lit_nodes ?lit) (lit_bytes lay ?lit) s)"
        using decode_head(1,2) [OF h] by (simp add: decode_eval)
    qed simp
    then show ?thesis using True sign by (simp add: bs encode_big_integer_def)
  next
    case False
    have "etf_reads lay t (111 # u32_to_be (of_nat (length mag)) @ sign # mag) ?lit"
    proof (rule etf_readsI)
      fix c r s fuel
      assume h0: "stands c (111 # u32_to_be (of_nat (length mag)) @ sign # mag) r"
        and aff: "affords s (lit_nodes ?lit) (lit_bytes lay ?lit) (lit_depth ?lit)"
      have "affords s 1 0 0" using aff by (rule affords_mono) simp_all
      note h = h0 this
      have c1: "stands (cadv 1 c) (u32_to_be (of_nat (length mag))) (sign # mag @ r)"
        using decode_head(3) [OF h] by (simp add: stands_def)
      have c5: "stands (cadv 4 (cadv 1 c)) (sign # mag) r"
        using stands_cadv [of "cadv 1 c" "u32_to_be (of_nat (length mag))" "sign # mag" r] c1 by simp
      have "decode_big_integer (cadv 1 c) 111 (spend 1 0 s) = (Inr (?lit, cadv (Suc (length mag)) (cadv 4 (cadv 1 c))), spend 1 (length (sign # mag)) s)"
        by (rule body [OF c5 aff]) (use read_u32_stands [OF c1] unat_of_nat_u32 [OF len] in simp)
      then show "decode_external_term lay (Suc fuel) c s = (Inr (?lit, cadv (length (111 # u32_to_be (of_nat (length mag)) @ sign # mag)) c),
          spend (lit_nodes ?lit) (lit_bytes lay ?lit) s)"
        using decode_head(1,2) [OF h] by (simp add: decode_eval)
    qed simp
    then show ?thesis using False sign len by (simp add: bs encode_big_integer_def u32_len_def)
  qed
qed

section \<open>Sequences and the induction\<close>

lemma foldr_max_le: "foldr max xs (m :: nat) \<le> d \<longleftrightarrow> (\<forall>x\<in>set xs. x \<le> d) \<and> m \<le> d"
  by (induction xs) auto

lemma decode_terms_reads:
  assumes "list_all2 (etf_reads lay t) bss xs" "stands c (concat bss) r" "st_table s = t"
    "affords s (sum_list (map lit_nodes xs)) (sum_list (map (lit_bytes lay) xs)) (foldr max (map lit_depth xs) 0)"
    "foldr max (map lit_depth xs) 0 < fuel"
  shows "decode_terms lay fuel (length xs) c s =
    (Inr (xs, cadv (length (concat bss)) c), spend (sum_list (map lit_nodes xs)) (sum_list (map (lit_bytes lay) xs)) s)"
  using assms
proof (induction bss xs arbitrary: c s rule: list_all2_induct)
  case Nil
  then show ?case by (simp add: dreturn_def)
next
  case (Cons bs bss x xs)
  have c: "stands c bs (concat bss @ r)" using Cons.prems(1) by (simp add: stands_def)
  have "affords s (lit_nodes x) (lit_bytes lay x) (lit_depth x)"
    using Cons.prems(3) by (rule affords_mono) simp_all
  with Cons c have x: "decode_external_term lay fuel c s = (Inr (x, cadv (length bs) c), spend (lit_nodes x) (lit_bytes lay x) s)"
    by (intro etf_readsD) simp_all
  have "affords s (lit_nodes x + sum_list (map lit_nodes xs)) (lit_bytes lay x + sum_list (map (lit_bytes lay) xs))
      (foldr max (map lit_depth xs) 0)"
    using Cons.prems(3) by (rule affords_mono) simp_all
  from Cons.IH [OF stands_cadv [OF c] _ affords_spend [OF this]] Cons.prems x show ?case
    by (simp add: dbind_def dreturn_def add.assoc)
qed

lemma decode_pairs_reads:
  assumes "list_all2 (\<lambda>(b1, b2) (k, v). etf_reads lay t b1 k \<and> etf_reads lay t b2 v) bss kvs"
    "stands c (concat (map (\<lambda>(b1, b2). b1 @ b2) bss)) r" "st_table s = t"
    "affords s (sum_list (map (\<lambda>(a, b). a + b) (map (map_prod lit_nodes lit_nodes) kvs)))
       (sum_list (map (\<lambda>(a, b). a + b) (map (map_prod (lit_bytes lay) (lit_bytes lay)) kvs)))
       (foldr max (map (\<lambda>(a, b). max a b) (map (map_prod lit_depth lit_depth) kvs)) 0)"
    "foldr max (map (\<lambda>(a, b). max a b) (map (map_prod lit_depth lit_depth) kvs)) 0 < fuel"
  shows "decode_pairs lay fuel (length kvs) c s =
    (Inr (kvs, cadv (length (concat (map (\<lambda>(b1, b2). b1 @ b2) bss))) c),
     spend (sum_list (map (\<lambda>(a, b). a + b) (map (map_prod lit_nodes lit_nodes) kvs)))
       (sum_list (map (\<lambda>(a, b). a + b) (map (map_prod (lit_bytes lay) (lit_bytes lay)) kvs))) s)"
  using assms
proof (induction bss kvs arbitrary: c s rule: list_all2_induct)
  case Nil
  then show ?case by (simp add: dreturn_def)
next
  case (Cons bb bss kv kvs)
  obtain b1 b2 where bb: "bb = (b1, b2)" by force
  obtain k v where kv: "kv = (k, v)" by force
  let ?body = "concat (map (\<lambda>(b1, b2). b1 @ b2) bss)"
  let ?kn = "sum_list (map (\<lambda>(a, b). a + b) (map (map_prod lit_nodes lit_nodes) kvs))"
  let ?kb = "sum_list (map (\<lambda>(a, b). a + b) (map (map_prod (lit_bytes lay) (lit_bytes lay)) kvs))"
  let ?d = "foldr max (map (\<lambda>(a, b). max a b) (map (map_prod lit_depth lit_depth) kvs)) 0"
  have rd: "etf_reads lay t b1 k" "etf_reads lay t b2 v" using Cons.hyps(1) by (simp_all add: bb kv)
  have c: "stands c b1 (b2 @ ?body @ r)" using Cons.prems(1) by (simp add: stands_def bb)
  have c2: "stands (cadv (length b1) c) b2 (?body @ r)" using stands_cadv [OF c] .
  have c3: "stands (cadv (length b2) (cadv (length b1) c)) ?body r" using stands_cadv [OF c2] .
  have "affords s (lit_nodes k) (lit_bytes lay k) (lit_depth k)"
    using Cons.prems(3) by (rule affords_mono) (simp_all add: kv)
  then have k: "decode_external_term lay fuel c s = (Inr (k, cadv (length b1) c), spend (lit_nodes k) (lit_bytes lay k) s)"
    using rd c Cons.prems(2,4) by (intro etf_readsD) (simp_all add: kv)
  have "affords s (lit_nodes k + lit_nodes v) (lit_bytes lay k + lit_bytes lay v) (lit_depth v)"
    using Cons.prems(3) by (rule affords_mono) (simp_all add: kv)
  from affords_spend [OF this] have v: "decode_external_term lay fuel (cadv (length b1) c) (spend (lit_nodes k) (lit_bytes lay k) s) =
      (Inr (v, cadv (length b2) (cadv (length b1) c)), spend (lit_nodes v) (lit_bytes lay v) (spend (lit_nodes k) (lit_bytes lay k) s))"
    using rd c2 Cons.prems(2,4) by (intro etf_readsD) (simp_all add: kv)
  have "affords s ((lit_nodes k + lit_nodes v) + ?kn) ((lit_bytes lay k + lit_bytes lay v) + ?kb) ?d"
    using Cons.prems(3) by (rule affords_mono) (simp_all add: kv)
  from Cons.IH [OF c3 _ affords_spend [OF this]] Cons.prems k v show ?case
    by (simp add: dbind_def dreturn_def bb kv add.assoc)
qed

lemma ensure_count_ok:
  assumes "stands c bs r" "n \<le> MAX_TABLE_ENTRIES" "n * k \<le> length bs"
  shows "ensure_count n k label c = Inr ()"
proof -
  have "length bs \<le> remaining_len c" "length bs < 2 ^ 64"
    using assms(1) stands_length [OF assms(1)] by (auto simp: stands_def remaining_len_def cursor_ok_def)
  then show ?thesis using assms(2,3) by (simp add: ensure_count_def)
qed

lemma concat_reads_length: "list_all2 (etf_reads lay t) bss xs \<Longrightarrow> length xs \<le> length (concat bss)"
proof (induction rule: list_all2_induct)
  case (Cons bs bss x xs)
  then show ?case by (cases bs) (simp_all add: etf_reads_def)
qed simp

lemma concat_pairs_length:
  "list_all2 (\<lambda>(b1, b2) (k, v). etf_reads lay t b1 k \<and> etf_reads lay t b2 v) bss kvs \<Longrightarrow>
   length kvs * 2 \<le> length (concat (map (\<lambda>(b1, b2). b1 @ b2) bss))"
proof (induction rule: list_all2_induct)
  case (Cons bb bss kv kvs)
  obtain b1 b2 where bb: "bb = (b1, b2)" by force
  have "b1 \<noteq> []" "b2 \<noteq> []" using Cons.hyps(1) by (auto simp: bb etf_reads_def split: prod.splits)
  then show ?case using Cons.IH by (cases b1; cases b2) (simp_all add: bb)
qed simp

lemma decode_tuple_reads:
  assumes rd: "list_all2 (etf_reads lay t) bss xs" and c: "stands c (concat bss) r" and t: "st_table s = t"
    and len: "length xs \<le> MAX_TABLE_ENTRIES"
    and aff: "affords s (sum_list (map lit_nodes xs)) (lit_bytes lay (LitTuple xs)) (lit_depth (LitTuple xs))"
    and fuel: "lit_depth (LitTuple xs) < Suc fuel"
  shows "decode_tuple lay fuel (length xs) c s =
    (Inr (LitTuple xs, cadv (length (concat bss)) c), spend (sum_list (map lit_nodes xs)) (lit_bytes lay (LitTuple xs)) s)"
proof -
  let ?n = "length xs * size_of_Literal lay" and ?d = "foldr max (map lit_depth xs) 0"
  let ?s1 = "spend 0 ?n s"
  have "affords s 0 ?n 0" using aff by (rule affords_mono) simp_all
  then have charge: "charge_table (length xs) (size_of_Literal lay) ''ETF tuple'' s = (Inr (), ?s1)"
    by (rule charge_affords)
  have "affords s (0 + sum_list (map lit_nodes xs)) (?n + sum_list (map (lit_bytes lay) xs)) (Suc ?d)" using aff by simp
  note aff1 = affords_spend [OF this]
  have "decode_terms lay fuel (length xs) c (deeper ?s1) = (Inr (xs, cadv (length (concat bss)) c),
      spend (sum_list (map lit_nodes xs)) (sum_list (map (lit_bytes lay) xs)) (deeper ?s1))"
    by (rule decode_terms_reads [OF rd c _ affords_deeper [OF aff1]]) (use t fuel in simp_all)
  then have "nested (dbind (decode_terms lay fuel (length xs) c) (\<lambda>(elements, c). dreturn (LitTuple elements, c))) ?s1 =
      (Inr (LitTuple xs, cadv (length (concat bss)) c),
       spend (sum_list (map lit_nodes xs)) (sum_list (map (lit_bytes lay) xs)) ?s1)"
    by (intro nested_eqI [OF affords_mono [OF aff1 le0 le0 le_refl]]) (simp add: dbind_def dreturn_def)
  then show ?thesis
    using charge ensure_count_ok [OF c len, of 1 "''ETF tuple arity''"] concat_reads_length [OF rd]
    by (simp add: decode_tuple.simps dbind_def lift_result_def dreturn_def)
qed

lemma etf_reads_tuple:
  assumes rd: "list_all2 (etf_reads lay t) bss xs" and len: "length xs \<le> MAX_TABLE_ENTRIES"
    and hd: "(if length xs < 256 then Inr [104, of_nat (length xs)]
              else result_bind (u32_len (length xs)) (\<lambda>n. Inr (105 # u32_to_be n))) = Inr head"
  shows "etf_reads lay t (head @ concat bss) (LitTuple xs)"
proof (rule etf_readsI)
  show "head @ concat bss \<noteq> []" using hd by (auto simp: result_bind_eq_Inr_conv split: if_splits)
  fix c r s fuel
  assume h0: "stands c (head @ concat bss) r" and t: "st_table s = t"
    and aff: "affords s (lit_nodes (LitTuple xs)) (lit_bytes lay (LitTuple xs)) (lit_depth (LitTuple xs))"
    and fuel: "lit_depth (LitTuple xs) < Suc fuel"
  have a1: "affords s 1 0 0" using aff by (rule affords_mono) simp_all
  have "affords s (1 + sum_list (map lit_nodes xs)) (0 + lit_bytes lay (LitTuple xs)) (lit_depth (LitTuple xs))"
    using aff by simp
  note body = decode_tuple_reads [OF rd _ _ len affords_spend [OF this] fuel, of _ r, unfolded spend_simps, OF _ t]
  have u32: "length xs < 2 ^ 32" using len by (simp add: MAX_TABLE_ENTRIES_def)
  have c: "stands (cadv (length head) c) (concat bss) r"
    using stands_cadv [of c head "concat bss" r] h0 by (simp add: stands_append)
  show "decode_external_term lay (Suc fuel) c s = (Inr (LitTuple xs, cadv (length (head @ concat bss)) c),
      spend (lit_nodes (LitTuple xs)) (lit_bytes lay (LitTuple xs)) s)"
  proof (cases "length xs < 256")
    case True
    then have head: "head = [104, of_nat (length xs)]" using hd by simp
    then have h: "stands c (104 # of_nat (length xs) # concat bss) r" using h0 by simp
    show ?thesis
      using decode_head(1,2) [OF h a1] read_u8_stands [OF decode_head(3) [OF h a1]] unat_of_nat_u8 [OF True] body [OF c] head
      by (simp add: decode_eval flip: numeral_2_eq_2)
  next
    case False
    then have head: "head = 105 # u32_to_be (of_nat (length xs))" using hd u32 by (simp add: u32_len_def)
    then have h: "stands c (105 # u32_to_be (of_nat (length xs)) @ concat bss) r" using h0 by simp
    have "stands (cadv 1 c) (u32_to_be (of_nat (length xs))) (concat bss @ r)"
      using decode_head(3) [OF h a1] by (simp add: stands_append)
    then show ?thesis
      using decode_head(1,2) [OF h a1] read_u32_stands unat_of_nat_u32 [OF u32] body [OF c] head
      by (simp add: decode_eval)
  qed
qed

lemma foldr_max_base: "foldr max xs (m :: nat) = max (foldr max xs 0) m"
  by (induction xs) auto

lemma etf_reads_list:
  assumes rd: "list_all2 (etf_reads lay t) bss xs" and tl: "etf_reads lay t tb tail" and len: "length xs \<le> MAX_TABLE_ENTRIES"
  shows "etf_reads lay t (108 # u32_to_be (of_nat (length xs)) @ concat bss @ tb) (LitList xs tail)"
proof (rule etf_readsI)
  let ?lit = "LitList xs tail" and ?n = "length xs * size_of_Literal lay" and ?hd = "u32_to_be (of_nat (length xs))"
  let ?k = "sum_list (map lit_nodes xs)" and ?b = "sum_list (map (lit_bytes lay) xs)"
  fix c r s fuel
  assume h: "stands c (108 # ?hd @ concat bss @ tb) r" and t: "st_table s = t"
    and aff: "affords s (lit_nodes ?lit) (lit_bytes lay ?lit) (lit_depth ?lit)" and fuel: "lit_depth ?lit < Suc fuel"
  have a1: "affords s 1 0 0" using aff by (rule affords_mono) simp_all
  have c1: "stands (cadv 1 c) ?hd (concat bss @ tb @ r)" using decode_head(3) [OF h a1] by (simp add: stands_append)
  have c5: "stands (cadv 5 c) (concat bss @ tb) r" using stands_cadv [of "cadv 1 c" ?hd "concat bss @ tb" r] c1 by simp
  have cb: "stands (cadv 5 c) (concat bss) (tb @ r)" using c5 by (simp add: stands_append)
  have ct: "stands (cadv (length (concat bss)) (cadv 5 c)) tb r" using stands_cadv [OF cb] .
  have u32: "unat (of_nat (length xs) :: u32) = length xs" using len by (intro unat_of_nat_u32) (simp add: MAX_TABLE_ENTRIES_def)
  let ?s2 = "spend 1 ?n s"
  have "affords s (1 + 0) (0 + ?n) 0" using aff by (rule affords_mono) simp_all
  from charge_affords(3) [OF affords_spend [OF this]]
  have charge: "charge_table (length xs) (size_of_Literal lay) ''ETF list'' (spend 1 0 s) = (Inr (), ?s2)" by simp
  let ?d = "foldr max (map lit_depth xs) (lit_depth tail)"
  have "affords s (1 + (?k + lit_nodes tail)) (?n + (?b + lit_bytes lay tail)) (Suc ?d)" using aff by (simp add: add.assoc)
  note aff2 = affords_spend [OF this]
  note aff3 = affords_deeper [OF aff2]
  have d: "foldr max (map lit_depth xs) 0 \<le> ?d" "lit_depth tail \<le> ?d" by (simp_all add: foldr_max_base [of _ "lit_depth tail"])
  have "decode_terms lay fuel (length xs) (cadv 5 c) (deeper ?s2) =
      (Inr (xs, cadv (length (concat bss)) (cadv 5 c)), spend ?k ?b (deeper ?s2))"
    by (rule decode_terms_reads [OF rd cb]) (use t fuel d aff3 in \<open>auto intro: affords_mono\<close>)
  moreover have "decode_external_term lay fuel (cadv (length (concat bss)) (cadv 5 c)) (spend ?k ?b (deeper ?s2)) =
      (Inr (tail, cadv (length tb) (cadv (length (concat bss)) (cadv 5 c))),
       spend (lit_nodes tail) (lit_bytes lay tail) (spend ?k ?b (deeper ?s2)))"
    by (rule etf_readsD [OF tl ct]) (use t fuel d affords_mono [OF affords_spend [OF aff3] le_refl le_refl d(2)] in simp_all)
  ultimately have "nested (dbind (decode_terms lay fuel (length xs) (cadv 5 c)) (\<lambda>(elements, c).
        dbind (decode_external_term lay fuel c) (\<lambda>(tail, c). dreturn (LitList elements tail, c)))) ?s2 =
      (Inr (?lit, cadv (5 + length (concat bss @ tb)) c), spend (?k + lit_nodes tail) (?b + lit_bytes lay tail) ?s2)"
    by (intro nested_eqI [OF affords_mono [OF aff2 le0 le0 le_refl]]) (simp add: dbind_def dreturn_def add.assoc)
  moreover have "ensure_count (length xs) 1 ''ETF list length'' (cadv 5 c) = Inr ()"
    using ensure_count_ok [OF cb len, of 1] concat_reads_length [OF rd] by simp
  ultimately show "decode_external_term lay (Suc fuel) c s = (Inr (?lit, cadv (length (108 # ?hd @ concat bss @ tb)) c),
      spend (lit_nodes ?lit) (lit_bytes lay ?lit) s)"
    using decode_head(1,2) [OF h a1] read_u32_stands [OF c1] u32 charge
    by (simp add: decode_eval add.assoc)
qed simp

lemma etf_reads_map:
  assumes rd: "list_all2 (\<lambda>(b1, b2) (k, v). etf_reads lay t b1 k \<and> etf_reads lay t b2 v) bss kvs"
    and len: "length kvs \<le> MAX_TABLE_ENTRIES"
  shows "etf_reads lay t (116 # u32_to_be (of_nat (length kvs)) @ concat (map (\<lambda>(b1, b2). b1 @ b2) bss)) (LitMap kvs)"
proof (rule etf_readsI)
  let ?lit = "LitMap kvs" and ?n = "length kvs * size_of_pair lay" and ?hd = "u32_to_be (of_nat (length kvs))"
  let ?body = "concat (map (\<lambda>(b1, b2). b1 @ b2) bss)"
  let ?k = "sum_list (map (\<lambda>(a, b). a + b) (map (map_prod lit_nodes lit_nodes) kvs))"
  let ?b = "sum_list (map (\<lambda>(a, b). a + b) (map (map_prod (lit_bytes lay) (lit_bytes lay)) kvs))"
  let ?d = "foldr max (map (\<lambda>(a, b). max a b) (map (map_prod lit_depth lit_depth) kvs)) 0"
  fix c r s fuel
  assume h: "stands c (116 # ?hd @ ?body) r" and t: "st_table s = t"
    and aff: "affords s (lit_nodes ?lit) (lit_bytes lay ?lit) (lit_depth ?lit)" and fuel: "lit_depth ?lit < Suc fuel"
  have a1: "affords s 1 0 0" using aff by (rule affords_mono) simp_all
  have c1: "stands (cadv 1 c) ?hd (?body @ r)" using decode_head(3) [OF h a1] by (simp add: stands_append)
  have c5: "stands (cadv 5 c) ?body r" using stands_cadv [of "cadv 1 c" ?hd ?body r] c1 by simp
  have u32: "unat (of_nat (length kvs) :: u32) = length kvs" using len by (intro unat_of_nat_u32) (simp add: MAX_TABLE_ENTRIES_def)
  let ?s2 = "spend 1 ?n s"
  have "affords s (1 + 0) (0 + ?n) 0" using aff by (rule affords_mono) simp_all
  from charge_affords(3) [OF affords_spend [OF this]]
  have charge: "charge_table (length kvs) (size_of_pair lay) ''ETF map'' (spend 1 0 s) = (Inr (), ?s2)" by simp
  have "affords s (1 + ?k) (?n + ?b) (Suc ?d)" using aff by simp
  note aff2 = affords_spend [OF this]
  have "decode_pairs lay fuel (length kvs) (cadv 5 c) (deeper ?s2) = (Inr (kvs, cadv (length ?body) (cadv 5 c)), spend ?k ?b (deeper ?s2))"
    by (rule decode_pairs_reads [OF rd c5 _ affords_deeper [OF aff2]]) (use t fuel in simp_all)
  then have "nested (dbind (decode_pairs lay fuel (length kvs) (cadv 5 c)) (\<lambda>(pairs, c). dreturn (LitMap pairs, c))) ?s2 =
      (Inr (?lit, cadv (5 + length ?body) c), spend ?k ?b ?s2)"
    by (intro nested_eqI [OF affords_mono [OF aff2 le0 le0 le_refl]]) (simp add: dbind_def dreturn_def)
  moreover have "ensure_count (length kvs) 2 ''ETF map size'' (cadv 5 c) = Inr ()"
    using ensure_count_ok [OF c5 len, of 2] concat_pairs_length [OF rd] by simp
  ultimately show "decode_external_term lay (Suc fuel) c s = (Inr (?lit, cadv (length (116 # ?hd @ ?body)) c),
      spend (lit_nodes ?lit) (lit_bytes lay ?lit) s)"
    using decode_head(1,2) [OF h a1] read_u32_stands [OF c1] u32 charge
    by (simp add: decode_eval)
qed simp

lemma etf_reads_export:
  assumes m: "etf_reads lay t mb (LitAtom m)" and f: "etf_reads lay t fb (LitAtom f)"
  shows "etf_reads lay t (113 # mb @ fb @ encode_integer (uint a)) (LitExportFun m f a)"
proof (rule etf_readsI)
  let ?lit = "LitExportFun m f a" and ?ab = "encode_integer (uint a)" and ?n = "3 * size_of_Literal lay"
  have range: "0 \<le> uint a" "uint a < 256" using unsigned_less [where ?'a = int and ?'b = 8, of a] by simp_all
  have "- (2 ^ 63) \<le> uint a" by (rule order_trans [OF _ range(1)]) simp
  moreover have "uint a < 2 ^ 63" by (rule less_trans [OF range(2)]) simp
  ultimately have arity: "etf_reads lay t ?ab (LitInteger (uint a))" by (rule etf_reads_integer)
  fix c r s fuel
  assume h: "stands c (113 # mb @ fb @ ?ab) r" and t: "st_table s = t"
    and aff: "affords s (lit_nodes ?lit) (lit_bytes lay ?lit) (lit_depth ?lit)" and fuel: "lit_depth ?lit < Suc fuel"
  have a1: "affords s 1 0 0" using aff by (rule affords_mono) simp_all
  let ?c1 = "cadv 1 c" and ?s1 = "spend 1 0 s"
  let ?c2 = "cadv (length mb) ?c1" and ?c3 = "cadv (length fb) (cadv (length mb) (cadv 1 c))"
  have c1: "stands ?c1 mb (fb @ ?ab @ r)" using decode_head(3) [OF h a1] by (simp add: stands_append)
  have c2: "stands ?c2 fb (?ab @ r)" using stands_cadv [OF c1] .
  have c3: "stands ?c3 ?ab r" using stands_cadv [OF c2] .
  have "affords s (1 + 3) (0 + ?n) (Suc 0)" using aff by simp
  note aff1 = affords_spend [OF this]
  note aff2 = affords_deeper [OF aff1]
  have aff': "affords (spend k 0 (deeper ?s1)) 1 0 0" if "k \<le> 2" for k
    using affords_spend [of "deeper ?s1" k 1 0 0 0] affords_mono [OF aff2, of "k + 1" "0 + 0" 0] that by simp
  have "decode_external_term lay fuel ?c1 (deeper ?s1) = (Inr (LitAtom m, ?c2), spend 1 0 (deeper ?s1))"
    using etf_readsD [OF m c1, of "deeper ?s1" fuel] t fuel aff' [of 0] by simp
  moreover have "decode_external_term lay fuel ?c2 (spend 1 0 (deeper ?s1)) = (Inr (LitAtom f, ?c3), spend 2 0 (deeper ?s1))"
    using etf_readsD [OF f c2, of "spend 1 0 (deeper ?s1)" fuel] t fuel aff' [of 1] by (simp flip: numeral_2_eq_2)
  moreover have "decode_external_term lay fuel ?c3 (spend 2 0 (deeper ?s1)) =
      (Inr (LitInteger (uint a), cadv (length ?ab) ?c3), spend 3 0 (deeper ?s1))"
    using etf_readsD [OF arity c3, of "spend 2 0 (deeper ?s1)" fuel] t fuel aff' [of 2] by simp
  moreover have "with_budget (charge_bytes ?n) (spend 3 0 (deeper ?s1)) = (Inr (), spend 3 ?n (deeper ?s1))"
    using charge_affords(2) [OF affords_spend [of "deeper ?s1" 3 0 0 ?n 0]] aff2 by simp
  moreover have "export_fun (LitAtom m) (LitAtom f) (LitInteger (uint a)) = Inr ?lit" using range by (simp add: export_fun_def)
  ultimately have "nested (dbind (decode_external_term lay fuel ?c1) (\<lambda>(m, c).
                 dbind (decode_external_term lay fuel c) (\<lambda>(f, c).
                 dbind (decode_external_term lay fuel c) (\<lambda>(a, c).
                 dbind (with_budget (charge_bytes ?n)) (\<lambda>_.
                 dbind (lift_result (export_fun m f a)) (\<lambda>lit. dreturn (lit, c))))))) ?s1 =
      (Inr (?lit, cadv (length ?ab) ?c3), spend 3 ?n ?s1)"
    by (intro nested_eqI [OF affords_mono [OF aff1 le0 le0 le_refl]]) (simp add: dbind_def dreturn_def lift_result_def)
  then show "decode_external_term lay (Suc fuel) c s = (Inr (?lit, cadv (length (113 # mb @ fb @ ?ab)) c),
      spend (lit_nodes ?lit) (lit_bytes lay ?lit) s)"
    using decode_head(1,2) [OF h a1] by (simp add: decode_external_term.simps dbind_def lift_result_def dreturn_def add.assoc)
qed simp

lemma encode_literals_reads:
  assumes "\<And>x. x \<in> set xs \<Longrightarrow> \<exists>bs. encode_literal t x = Inr bs \<and> etf_reads lay t bs x"
  shows "\<exists>bss. encode_literals t xs = Inr (concat bss) \<and> list_all2 (etf_reads lay t) bss xs"
  using assms
proof (induction xs)
  case Nil
  show ?case by (rule exI [of _ "[]"]) simp
next
  case (Cons x xs)
  obtain bs where "encode_literal t x = Inr bs" "etf_reads lay t bs x" using Cons.prems by auto
  moreover obtain bss where "encode_literals t xs = Inr (concat bss)" "list_all2 (etf_reads lay t) bss xs"
    using Cons by fastforce
  ultimately show ?case by (intro exI [of _ "bs # bss"]) simp
qed

lemma encode_pairs_reads:
  assumes "\<And>k v. (k, v) \<in> set kvs \<Longrightarrow> (\<exists>bs. encode_literal t k = Inr bs \<and> etf_reads lay t bs k) \<and>
    (\<exists>bs. encode_literal t v = Inr bs \<and> etf_reads lay t bs v)"
  shows "\<exists>bss. encode_literal_pairs t kvs = Inr (concat (map (\<lambda>(b1, b2). b1 @ b2) bss)) \<and>
    list_all2 (\<lambda>(b1, b2) (k, v). etf_reads lay t b1 k \<and> etf_reads lay t b2 v) bss kvs"
  using assms
proof (induction kvs)
  case Nil
  show ?case by (rule exI [of _ "[]"]) simp
next
  case (Cons kv kvs)
  obtain k v where kv: "kv = (k, v)" by force
  obtain b1 b2 where "encode_literal t k = Inr b1" "etf_reads lay t b1 k" "encode_literal t v = Inr b2" "etf_reads lay t b2 v"
    using Cons.prems [of k v] kv by auto
  moreover obtain bss where "encode_literal_pairs t kvs = Inr (concat (map (\<lambda>(b1, b2). b1 @ b2) bss))"
      "list_all2 (\<lambda>(b1, b2) (k, v). etf_reads lay t b1 k \<and> etf_reads lay t b2 v) bss kvs"
    using Cons by fastforce
  ultimately show ?case by (intro exI [of _ "(b1, b2) # bss"]) (simp add: kv)
qed

lemma encode_literal_reads:
  "literal_ok t lit \<Longrightarrow> \<exists>bs. encode_literal t lit = Inr bs \<and> etf_reads lay t bs lit"
proof (induction lit)
  case (LitInteger v)
  then show ?case by (simp add: etf_reads_integer)
next
  case (LitFloat w)
  show ?case by (simp add: etf_reads_float)
next
  case (LitBigInteger bs)
  then show ?case using etf_reads_big_integer by simp
next
  case (LitAtom a)
  then show ?case using etf_reads_atom [of t a lay] by simp
next
  case (LitBinary bs)
  then show ?case by (simp add: u32_len_def etf_reads_binary)
next
  case (LitTuple xs)
  have len: "length xs \<le> MAX_TABLE_ENTRIES" "length xs < 2 ^ 32"
    using LitTuple.prems by (simp_all add: MAX_TABLE_ENTRIES_def)
  have "\<exists>bs. encode_literal t x = Inr bs \<and> etf_reads lay t bs x" if "x \<in> set xs" for x
    using LitTuple.IH [OF that] LitTuple.prems that by (simp add: list_all_iff)
  from encode_literals_reads [OF this] obtain bss where
    bss: "encode_literals t xs = Inr (concat bss)" "list_all2 (etf_reads lay t) bss xs" by blast
  obtain head where hd: "(if length xs < 256 then Inr [104, of_nat (length xs)]
      else result_bind (u32_len (length xs)) (\<lambda>n. Inr (105 # u32_to_be n))) = (Inr head :: EncodeError + u8 list)"
    using len(2) by (cases "length xs < 256") (simp_all add: u32_len_def)
  show ?case
    by (rule exI [of _ "head @ concat bss"]) (simp only: encode_literal.simps hd result_bind_Inr bss(1) etf_reads_tuple [OF bss(2) len(1) hd])
next
  case LitNil
  show ?case by (simp add: etf_reads_nil)
next
  case (LitList xs tail)
  have len: "length xs \<le> MAX_TABLE_ENTRIES" "length xs < 2 ^ 32"
    using LitList.prems by (simp_all add: MAX_TABLE_ENTRIES_def)
  have "\<exists>bs. encode_literal t x = Inr bs \<and> etf_reads lay t bs x" if "x \<in> set xs" for x
    using LitList.IH(1) [OF that] LitList.prems that by (simp add: list_all_iff)
  from encode_literals_reads [OF this] obtain bss where
    "encode_literals t xs = Inr (concat bss)" "list_all2 (etf_reads lay t) bss xs" by blast
  moreover obtain tb where "encode_literal t tail = Inr tb" "etf_reads lay t tb tail"
    using LitList.IH(2) LitList.prems by auto
  ultimately show ?case using etf_reads_list len by (fastforce simp: u32_len_def)
next
  case (LitMap kvs)
  have len: "length kvs \<le> MAX_TABLE_ENTRIES" "length kvs < 2 ^ 32"
    using LitMap.prems by (simp_all add: MAX_TABLE_ENTRIES_def)
  have "(\<exists>bs. encode_literal t k = Inr bs \<and> etf_reads lay t bs k) \<and> (\<exists>bs. encode_literal t v = Inr bs \<and> etf_reads lay t bs v)"
    if kv: "(k, v) \<in> set kvs" for k v
    using LitMap.IH [OF kv] LitMap.prems kv by (fastforce simp: list_all_iff)
  from encode_pairs_reads [OF this] obtain bss where
    "encode_literal_pairs t kvs = Inr (concat (map (\<lambda>(b1, b2). b1 @ b2) bss))"
    "list_all2 (\<lambda>(b1, b2) (k, v). etf_reads lay t b1 k \<and> etf_reads lay t b2 v) bss kvs" by blast
  then show ?case using etf_reads_map len by (fastforce simp: u32_len_def)
next
  case (LitString bs)
  then show ?case by (simp add: etf_reads_string)
next
  case (LitExportFun m f a)
  then obtain mb fb where "result_bind (encoder_resolve t m) encode_atom_name = Inr mb" "etf_reads lay t mb (LitAtom m)"
    "result_bind (encoder_resolve t f) encode_atom_name = Inr fb" "etf_reads lay t fb (LitAtom f)"
    using etf_reads_atom by (metis literal_ok.simps(11))
  then show ?case using etf_reads_export by (fastforce simp: result_bind_eq_Inr_conv)
qed

section \<open>The \<open>LitT\<close> chunk\<close>

text \<open>What decoding a table of literals costs: one node per entry besides the terms.\<close>

definition table_nodes :: "Literal list \<Rightarrow> nat" where
  "table_nodes lits = sum_list (map (\<lambda>l. 1 + lit_nodes l) lits)"

definition table_bytes :: "Layout \<Rightarrow> Literal list \<Rightarrow> nat" where
  "table_bytes lay lits = sum_list (map (lit_bytes lay) lits)"

definition table_depth :: "Literal list \<Rightarrow> nat" where
  "table_depth lits = foldr max (map lit_depth lits) 0"

lemma decode_sized_literal_reads:
  assumes rd: "etf_reads lay t bs lit" and len: "length (131 # bs) < 2 ^ 32" and t: "st_table s = t"
    and c: "stands c (u32_to_be (of_nat (length (131 # bs))) @ 131 # bs) r"
    and aff: "affords s (1 + lit_nodes lit) (lit_bytes lay lit) (lit_depth lit)"
  shows "decode_sized_literal lay c s = (Inr (lit, cadv (4 + length (131 # bs)) c), spend (1 + lit_nodes lit) (lit_bytes lay lit) s)"
proof -
  let ?n = "of_nat (length (131 # bs)) :: u32" and ?tc = "cursor_new (131 # bs)"
  have a1: "affords s 1 0 0" using aff by (rule affords_mono) simp_all
  note rc = read_counted_u32 [OF c len]
  have tc: "stands ?tc (131 # bs) []" using len by (intro cursor_new_stands) simp
  have tc1: "stands (cadv 1 ?tc) bs []" using stands_cadv [of ?tc "[131]" bs "[]"] tc by (simp add: stands_def)
  have "affords s (1 + lit_nodes lit) (0 + lit_bytes lay lit) (lit_depth lit)" using aff by simp
  note aff1 = affords_spend [OF this]
  then have "lit_depth lit < Suc (depth_remaining (st_budget (spend 1 0 s)))" by (simp add: affords_def)
  from etf_readsD [OF rd tc1 _ aff1 this] t
  have "decode_external_term lay (Suc (depth_remaining (st_budget s))) (cadv 1 ?tc) (spend 1 0 s) =
      (Inr (lit, cadv (length (131 # bs)) ?tc), spend (1 + lit_nodes lit) (lit_bytes lay lit) s)" by simp
  moreover have "expect_empty ''literal ETF'' (cadv (length (131 # bs)) ?tc) = Inr ()"
    using stands_cadv0 [OF tc] by (simp add: expect_empty_def stands_def)
  ultimately show ?thesis
    using charge_affords(1) [OF a1] rc read_u8_stands [OF tc]
    by (simp add: decode_sized_literal_def dbind_def lift_result_def dreturn_def)
qed

lemma decode_sized_literals_reads:
  assumes "\<forall>l\<in>set lits. literal_ok t l" "encode_sized_literals t lits = Inr bs" "stands c bs r" "st_table s = t"
    "affords s (table_nodes lits) (table_bytes lay lits) (table_depth lits)"
  shows "decode_sized_literals lay (length lits) c s =
      (Inr (lits, cadv (length bs) c), spend (table_nodes lits) (table_bytes lay lits) s) \<and> length lits * 4 \<le> length bs"
  using assms
proof (induction lits arbitrary: bs c s)
  case Nil
  then show ?case by (simp add: dreturn_def table_nodes_def table_bytes_def)
next
  case (Cons l lits)
  obtain lb where lb: "encode_literal t l = Inr lb" "etf_reads lay t lb l"
    using encode_literal_reads [of t l lay] Cons.prems(1) by auto
  obtain bs' where bs': "length (131 # lb) < 2 ^ 32" "encode_sized_literals t lits = Inr bs'"
    "bs = u32_to_be (of_nat (length (131 # lb))) @ 131 # lb @ bs'"
    using Cons.prems(2) lb(1) by (auto simp: result_bind_eq_Inr_conv u32_len_def split: if_splits)
  let ?hd = "u32_to_be (of_nat (length (131 # lb))) @ 131 # lb"
  have c1: "stands c ?hd (bs' @ r)" using Cons.prems(3) bs'(3) by (simp add: stands_append stands_def)
  have "affords s (1 + lit_nodes l) (lit_bytes lay l) (lit_depth l)"
    using Cons.prems(5) by (rule affords_mono) (simp_all add: table_nodes_def table_bytes_def table_depth_def)
  note first = decode_sized_literal_reads [OF lb(2) bs'(1) Cons.prems(4) c1 this]
  have "affords s ((1 + lit_nodes l) + table_nodes lits) (lit_bytes lay l + table_bytes lay lits) (table_depth lits)"
    using Cons.prems(5) by (rule affords_mono) (simp_all add: table_nodes_def table_bytes_def table_depth_def)
  note later = Cons.IH [OF _ bs'(2) stands_cadv [OF c1] _ affords_spend [OF this]]
  have hd_len: "length ?hd = 4 + length (131 # lb)" by simp
  show ?case using first later Cons.prems(1,4) bs'(3)
    unfolding hd_len by (simp add: dbind_def dreturn_def table_nodes_def table_bytes_def add.assoc)
qed

text \<open>The \<open>LitT\<close> chunk of a table that fits its length fields.\<close>

lemma literal_chunk_reads:
  assumes ok: "\<forall>l\<in>set lits. literal_ok t l" and enc: "encode_literal_chunk t lits = Inr (Some bs)"
    and len: "length lits \<le> MAX_TABLE_ENTRIES" and bs_len: "length bs < 2 ^ 64" and t: "st_table s = t"
    and aff: "affords s (table_nodes lits) (length bs - 4 + length lits * size_of_Literal lay + table_bytes lay lits) (table_depth lits)"
  shows "decode_literal_chunk lay inflate bs s =
    (Inr lits, spend (table_nodes lits) (length bs - 4 + length lits * size_of_Literal lay + table_bytes lay lits) s)"
proof -
  let ?n = "of_nat (length lits) :: u32"
  obtain body where body: "encode_sized_literals t lits = Inr body" "bs = u32_to_be 0 @ u32_to_be ?n @ body"
    using enc by (auto simp: encode_literal_chunk_def result_bind_eq_Inr_conv u32_len_def split: if_splits)
  let ?payload = "u32_to_be ?n @ body" and ?sz = "length lits * size_of_Literal lay"
  have n: "unat ?n = length lits" using len by (intro unat_of_nat_u32) (simp add: MAX_TABLE_ENTRIES_def)
  have c: "stands (cursor_new bs) bs []" using bs_len by (rule cursor_new_stands)
  then have c0: "stands (cursor_new bs) (u32_to_be 0) ?payload" using body(2) by (simp add: stands_def)
  have c4: "stands (cadv 4 (cursor_new bs)) ?payload []" using stands_cadv [of "cursor_new bs" "u32_to_be 0" ?payload "[]"] c0 by simp
  then have payload: "cur_remaining (cadv 4 (cursor_new bs)) = ?payload" "remaining_len (cadv 4 (cursor_new bs)) = length bs - 4"
    using body(2) by (simp_all add: stands_def remaining_len_def)
  let ?pc = "cursor_new ?payload"
  have p0: "stands ?pc ?payload []" using bs_len body(2) by (intro cursor_new_stands) simp
  then have p1: "stands ?pc (u32_to_be ?n) body" by (simp add: stands_def)
  have p4: "stands (cadv 4 ?pc) body []" using stands_cadv [of ?pc "u32_to_be ?n" body "[]"] p1 by simp
  let ?s1 = "spend 0 (length bs - 4) s" and ?s2 = "spend 0 (length bs - 4 + ?sz) s"
  have "affords s 0 (length bs - 4) 0" using aff by (rule affords_mono) simp_all
  note ch1 = charge_affords(2) [OF this]
  have "affords s (0 + 0) (length bs - 4 + ?sz) 0" using aff by (rule affords_mono) simp_all
  note ch2 = charge_affords(3) [OF affords_spend [OF this], of "''literal table''"]
  have "affords s (0 + table_nodes lits) ((length bs - 4 + ?sz) + table_bytes lay lits) (table_depth lits)" using aff by simp
  note rd = decode_sized_literals_reads [OF ok body(1) p4 _ affords_spend [OF this]]
  have "ensure_count (length lits) 4 ''literal count'' (cadv 4 ?pc) = Inr ()"
    using ensure_count_ok [OF p4 len, of 4] rd t by simp
  moreover have "expect_empty ''literal'' (cadv (length body) (cadv 4 ?pc)) = Inr ()"
    using stands_cadv0 [OF p4] by (simp add: expect_empty_def stands_def)
  ultimately show ?thesis
    using read_u32_stands [OF c0] read_u32_stands [OF p1] payload ch1 ch2 rd t n
    by (simp add: decode_literal_chunk_def dbind_def lift_result_def dreturn_def add.assoc)
qed

end
