(* ===== verification/Chunk_Codec.thy ===== *)
theory Chunk_Codec
  imports Literal_Roundtrip
begin

text \<open>
  The other chunks of a BEAM file: atoms, imports, exports, lambdas, strings and lines, decoded by
  \<^verbatim>\<open>crates/beamr/src/loader/decode/chunks.rs\<close> and written by \<^verbatim>\<open>loader/encode/chunks.rs\<close>. The counted
  loops of the decoders are \<open>decode_n\<close> over one entry. Each chunk has a lemma that its decoder reads
  what its encoder wrote.
\<close>

section \<open>Data\<close>

record ImportEntry =
  imp_module :: u32
  imp_function :: u32
  imp_arity :: u8

record ExportEntry =
  exp_function :: u32
  exp_arity :: u8
  exp_label :: u32

record LambdaEntry =
  lam_function :: u32
  lam_arity :: u8
  lam_label :: u32
  lam_num_free :: u32
  lam_unique_id :: u64

record LineInfo =
  li_file :: u32
  li_line :: u32

section \<open>Decoders\<close>

fun decode_n :: "nat \<Rightarrow> (BoundedCursor \<Rightarrow> ('a \<times> BoundedCursor) decode) \<Rightarrow> BoundedCursor \<Rightarrow> ('a list \<times> BoundedCursor) decode" where
  "decode_n 0 f c = dreturn ([], c)"
| "decode_n (Suc n) f c = dbind (f c) (\<lambda>(x, c). dbind (decode_n n f c) (\<lambda>(xs, c). dreturn (x # xs, c)))"

text \<open>\<open>read_raw_compact_i64\<close> on a decoder over the remaining bytes, with the offset it reached.\<close>

definition read_raw_compact :: "BoundedCursor \<Rightarrow> ChunkMessage + (u8 \<times> int) \<times> nat" where
  "read_raw_compact c =
     (case read_tagged_integer (compact_decoder_new (cur_remaining c) [] []) of
        Inl e \<Rightarrow> Inl (CompactMessage e)
      | Inr (tv, d) \<Rightarrow> Inr (tv, dec_offset d))"

definition read_name_length :: "bool \<Rightarrow> BoundedCursor \<Rightarrow> ChunkMessage + nat \<times> BoundedCursor" where
  "read_name_length compact_lengths c =
     (if compact_lengths then
        result_bind (read_raw_compact c) (\<lambda>((tg, v), offset).
          if tg \<noteq> 0 \<or> v < 0 then Inl MalformedAtomLength
          else result_bind (cur_advance offset c) (\<lambda>c. Inr (nat v, c)))
      else result_bind (cur_read_u8 c) (\<lambda>(n, c). Inr (unat n, c)))"

definition decode_atom_entry :: "bool \<Rightarrow> BoundedCursor \<Rightarrow> (u32 \<times> BoundedCursor) decode" where
  "decode_atom_entry compact_lengths c =
     dbind (with_budget charge_node) (\<lambda>_.
     dbind (lift_result (read_name_length compact_lengths c)) (\<lambda>(len, c).
     dbind (lift_result (cur_read_bytes len c)) (\<lambda>(name, c).
     dbind (decode_atom_name name) (\<lambda>atom. dreturn (atom, c)))))"

definition decode_atom_chunk :: "u8 list \<Rightarrow> u32 list decode" where
  "decode_atom_chunk bytes =
     dbind (lift_result (cur_read_i32 (cursor_new bytes))) (\<lambda>(raw_count, c).
       let n = nat \<bar>raw_count\<bar>
       in dbind (lift_result (ensure_count n 1 ''atom count'' c)) (\<lambda>_.
          dbind (charge_table n 4 ''atom table'') (\<lambda>_.
          dbind (decode_n n (decode_atom_entry (raw_count < 0)) c) (\<lambda>(atoms, c).
          dbind (lift_result (expect_empty ''atom'' c)) (\<lambda>_. dreturn atoms)))))"

definition resolve_atom :: "u32 \<Rightarrow> u32 list \<Rightarrow> ChunkMessage + u32" where
  "resolve_atom index atoms =
     (if index = 0 then Inl (AtomIndexInvalid index)
      else ok_or (vec_get atoms (unat (index - 1))) (AtomIndexInvalid index))"

definition checked_arity :: "u32 \<Rightarrow> ChunkMessage + u8" where
  "checked_arity v = (if unat v < 256 then Inr (ucast v) else Inl (ArityOutOfRange v))"

definition read_atom_index :: "u32 list \<Rightarrow> BoundedCursor \<Rightarrow> ChunkMessage + u32 \<times> BoundedCursor" where
  "read_atom_index atoms c =
     result_bind (cur_read_u32 c) (\<lambda>(i, c). result_bind (resolve_atom i atoms) (\<lambda>a. Inr (a, c)))"

definition read_arity :: "BoundedCursor \<Rightarrow> ChunkMessage + u8 \<times> BoundedCursor" where
  "read_arity c = result_bind (cur_read_u32 c) (\<lambda>(v, c). result_bind (checked_arity v) (\<lambda>a. Inr (a, c)))"

definition decode_import_entry :: "u32 list \<Rightarrow> BoundedCursor \<Rightarrow> (ImportEntry \<times> BoundedCursor) decode" where
  "decode_import_entry atoms c =
     dbind (with_budget charge_node) (\<lambda>_.
     dbind (lift_result (read_atom_index atoms c)) (\<lambda>(m, c).
     dbind (lift_result (read_atom_index atoms c)) (\<lambda>(f, c).
     dbind (lift_result (read_arity c)) (\<lambda>(a, c).
       dreturn (\<lparr>imp_module = m, imp_function = f, imp_arity = a\<rparr>, c)))))"

definition decode_export_entry :: "u32 list \<Rightarrow> BoundedCursor \<Rightarrow> (ExportEntry \<times> BoundedCursor) decode" where
  "decode_export_entry atoms c =
     dbind (with_budget charge_node) (\<lambda>_.
     dbind (lift_result (read_atom_index atoms c)) (\<lambda>(f, c).
     dbind (lift_result (read_arity c)) (\<lambda>(a, c).
     dbind (lift_result (cur_read_u32 c)) (\<lambda>(label, c).
       dreturn (\<lparr>exp_function = f, exp_arity = a, exp_label = label\<rparr>, c)))))"

definition decode_lambda_entry :: "u32 list \<Rightarrow> BoundedCursor \<Rightarrow> (LambdaEntry \<times> BoundedCursor) decode" where
  "decode_lambda_entry atoms c =
     dbind (with_budget charge_node) (\<lambda>_.
     dbind (lift_result (read_atom_index atoms c)) (\<lambda>(f, c).
     dbind (lift_result (read_arity c)) (\<lambda>(a, c).
     dbind (lift_result (cur_read_u32 c)) (\<lambda>(label, c).
     dbind (lift_result (cur_read_u32 c)) (\<lambda>(_, c).
     dbind (lift_result (cur_read_u32 c)) (\<lambda>(num_free, c).
     dbind (lift_result (cur_read_u32 c)) (\<lambda>(_, c).
       dreturn (\<lparr>lam_function = f, lam_arity = a, lam_label = label, lam_num_free = num_free, lam_unique_id = 0\<rparr>, c))))))))"

text \<open>The frame the three tables share: count, plausibility, allocation, entries, nothing left.\<close>

definition decode_table ::
  "nat \<Rightarrow> nat \<Rightarrow> string \<Rightarrow> (BoundedCursor \<Rightarrow> ('a \<times> BoundedCursor) decode) \<Rightarrow> u8 list \<Rightarrow> 'a list decode" where
  "decode_table min_elem_bytes elem label entry bytes =
     dbind (lift_result (cur_read_u32 (cursor_new bytes))) (\<lambda>(n, c).
     dbind (lift_result (ensure_count (unat n) min_elem_bytes (label @ '' count'') c)) (\<lambda>_.
     dbind (charge_table (unat n) elem (label @ '' table'')) (\<lambda>_.
     dbind (decode_n (unat n) entry c) (\<lambda>(xs, c).
     dbind (lift_result (expect_empty label c)) (\<lambda>_. dreturn xs)))))"

definition decode_import_chunk :: "Layout \<Rightarrow> u8 list \<Rightarrow> u32 list \<Rightarrow> ImportEntry list decode" where
  "decode_import_chunk lay bytes atoms =
     decode_table 12 (size_of_ImportEntry lay) ''import'' (decode_import_entry atoms) bytes"

definition decode_export_chunk :: "Layout \<Rightarrow> u8 list \<Rightarrow> u32 list \<Rightarrow> ExportEntry list decode" where
  "decode_export_chunk lay bytes atoms =
     decode_table 12 (size_of_ExportEntry lay) ''export'' (decode_export_entry atoms) bytes"

definition decode_lambda_chunk :: "Layout \<Rightarrow> u8 list \<Rightarrow> u32 list \<Rightarrow> LambdaEntry list decode" where
  "decode_lambda_chunk lay bytes atoms =
     decode_table 24 (size_of_LambdaEntry lay) ''lambda'' (decode_lambda_entry atoms) bytes"

definition decode_string_chunk :: "u8 list \<Rightarrow> u8 list" where
  "decode_string_chunk bytes = bytes"

definition line_number :: "int \<Rightarrow> ChunkMessage + u32" where
  "line_number v = (if 0 \<le> v \<and> v < 2 ^ 32 then Inr (word_of_int v) else Inl (LineNumberOutOfRange v))"

definition line_file :: "int \<Rightarrow> ChunkMessage + u32" where
  "line_file v = (if 0 \<le> v \<and> v < 2 ^ 32 then Inr (word_of_int v) else Inl (LineFileOutOfRange v))"

definition read_compact_advance :: "BoundedCursor \<Rightarrow> ChunkMessage + (u8 \<times> int) \<times> BoundedCursor" where
  "read_compact_advance c =
     result_bind (read_raw_compact c) (\<lambda>(tv, offset).
     result_bind (cur_advance offset c) (\<lambda>c. Inr (tv, c)))"

definition decode_line_entry :: "u32 \<Rightarrow> BoundedCursor \<Rightarrow> (LineInfo \<times> BoundedCursor) decode" where
  "decode_line_entry current_file c =
     dbind (with_budget charge_node) (\<lambda>_.
     dbind (lift_result (read_compact_advance c)) (\<lambda>((tg, v), c).
       if tg = 0 \<or> tg = 1 then
         dbind (lift_result (line_number v)) (\<lambda>l. dreturn (\<lparr>li_file = current_file, li_line = l\<rparr>, c))
       else if tg = 2 then
         dbind (lift_result (line_file v)) (\<lambda>f.
         dbind (lift_result (read_compact_advance c)) (\<lambda>((line_tag, line_value), c).
           if line_tag \<noteq> 1 then dfail (ExpectedLineNumber line_tag)
           else dbind (lift_result (line_number line_value)) (\<lambda>l. dreturn (\<lparr>li_file = f, li_line = l\<rparr>, c))))
       else dfail (UnsupportedLineTag tg)))"

text \<open>The current file is the file of the last entry.\<close>

fun decode_lines :: "nat \<Rightarrow> u32 \<Rightarrow> BoundedCursor \<Rightarrow> (LineInfo list \<times> BoundedCursor) decode" where
  "decode_lines 0 current_file c = dreturn ([], c)"
| "decode_lines (Suc n) current_file c =
     dbind (decode_line_entry current_file c) (\<lambda>(x, c).
     dbind (decode_lines n (li_file x) c) (\<lambda>(xs, c). dreturn (x # xs, c)))"

definition decode_line_chunk :: "Layout \<Rightarrow> u8 list \<Rightarrow> LineInfo list decode" where
  "decode_line_chunk lay bytes =
     (if bytes = [] then dreturn []
      else
        dbind (lift_result (cur_read_u32 (cursor_new bytes))) (\<lambda>(_, c).
        dbind (lift_result (cur_read_u32 c)) (\<lambda>(_, c).
        dbind (lift_result (cur_read_u32 c)) (\<lambda>(_, c).
        dbind (lift_result (cur_read_u32 c)) (\<lambda>(num_lines, c).
        dbind (lift_result (cur_read_u32 c)) (\<lambda>(_, c).
        dbind (lift_result (ensure_count (unat num_lines) 1 ''line count'' c)) (\<lambda>_.
        dbind (charge_table (unat num_lines) (size_of_LineInfo lay) ''line table'') (\<lambda>_.
        dbind (decode_lines (unat num_lines) 0 c) (\<lambda>(lines, c).
          if length lines \<noteq> unat num_lines then dfail (LineCountMismatch (unat num_lines) (length lines))
          else dreturn lines)))))))))"

section \<open>Encoders\<close>

fun resolve_names :: "AtomTable \<Rightarrow> u32 list \<Rightarrow> EncodeError + u8 list list" where
  "resolve_names t [] = Inr []"
| "resolve_names t (a # as) =
     result_bind (encoder_resolve t a) (\<lambda>n. result_bind (resolve_names t as) (\<lambda>ns. Inr (n # ns)))"

definition encode_name :: "bool \<Rightarrow> u8 list \<Rightarrow> u8 list" where
  "encode_name compact_lengths name =
     (if compact_lengths then push_unsigned 0 (of_nat (length name)) else [of_nat (length name)]) @ name"

definition encode_atom_chunk :: "AtomTable \<Rightarrow> u32 list \<Rightarrow> EncodeError + u8 list" where
  "encode_atom_chunk t atoms =
     result_bind (resolve_names t atoms) (\<lambda>names.
       if length names \<ge> 2 ^ 31 then Inl ValueOutOfRange
       else
         let compact_lengths = (\<exists>name\<in>set names. length name > 255)
         in Inr ((if compact_lengths then u32_to_be (- of_nat (length names)) else u32_to_be (of_nat (length names))) @
              concat (map (encode_name compact_lengths) names)))"

definition count_u32 :: "nat \<Rightarrow> EncodeError + u32" where
  "count_u32 n = (if n < 2 ^ 32 then Inr (of_nat n) else Inl ValueOutOfRange)"

definition encode_import_entry :: "AtomEncoder \<Rightarrow> ImportEntry \<Rightarrow> EncodeError + u8 list" where
  "encode_import_entry enc import =
     result_bind (index_of enc (imp_module import)) (\<lambda>m.
     result_bind (index_of enc (imp_function import)) (\<lambda>f.
       Inr (u32_to_be m @ u32_to_be f @ u32_to_be (ucast (imp_arity import)))))"

definition encode_export_entry :: "AtomEncoder \<Rightarrow> ExportEntry \<Rightarrow> EncodeError + u8 list" where
  "encode_export_entry enc export =
     result_bind (index_of enc (exp_function export)) (\<lambda>f.
       Inr (u32_to_be f @ u32_to_be (ucast (exp_arity export)) @ u32_to_be (exp_label export)))"

definition encode_lambda_entry :: "AtomEncoder \<Rightarrow> nat \<Rightarrow> LambdaEntry \<Rightarrow> EncodeError + u8 list" where
  "encode_lambda_entry enc pos lambda =
     result_bind (index_of enc (lam_function lambda)) (\<lambda>f.
     result_bind (count_u32 pos) (\<lambda>i.
       Inr (u32_to_be f @ u32_to_be (ucast (lam_arity lambda)) @ u32_to_be (lam_label lambda) @ u32_to_be i @
            u32_to_be (lam_num_free lambda) @ u32_to_be 0)))"

fun encode_each :: "('a \<Rightarrow> EncodeError + u8 list) \<Rightarrow> 'a list \<Rightarrow> EncodeError + u8 list" where
  "encode_each f [] = Inr []"
| "encode_each f (x # xs) = result_bind (f x) (\<lambda>bs. result_bind (encode_each f xs) (\<lambda>bs'. Inr (bs @ bs')))"

definition encode_import_chunk :: "AtomEncoder \<Rightarrow> ImportEntry list \<Rightarrow> EncodeError + u8 list" where
  "encode_import_chunk enc imports =
     result_bind (count_u32 (length imports)) (\<lambda>n.
     result_bind (encode_each (encode_import_entry enc) imports) (\<lambda>body. Inr (u32_to_be n @ body)))"

definition encode_export_chunk :: "AtomEncoder \<Rightarrow> ExportEntry list \<Rightarrow> EncodeError + u8 list" where
  "encode_export_chunk enc exports =
     result_bind (count_u32 (length exports)) (\<lambda>n.
     result_bind (encode_each (encode_export_entry enc) exports) (\<lambda>body. Inr (u32_to_be n @ body)))"

definition encode_lambda_chunk :: "AtomEncoder \<Rightarrow> LambdaEntry list \<Rightarrow> EncodeError + u8 list" where
  "encode_lambda_chunk enc lambdas =
     result_bind (count_u32 (length lambdas)) (\<lambda>n.
     result_bind (encode_each (\<lambda>(pos, l). encode_lambda_entry enc pos l) (zip [0..<length lambdas] lambdas)) (\<lambda>body.
       Inr (u32_to_be n @ body)))"

definition encode_string_chunk :: "u8 list \<Rightarrow> u8 list" where
  "encode_string_chunk string_table = string_table"

fun encode_lines :: "u32 \<Rightarrow> LineInfo list \<Rightarrow> u8 list" where
  "encode_lines current_file [] = []"
| "encode_lines current_file (info # infos) =
     (if li_file info \<noteq> current_file then push_unsigned 2 (ucast (li_file info)) else []) @
     push_signed 1 (uint (li_line info)) @ encode_lines (li_file info) infos"

definition encode_line_chunk :: "LineInfo list \<Rightarrow> EncodeError + u8 list" where
  "encode_line_chunk line_info =
     result_bind (count_u32 (length line_info)) (\<lambda>n.
       Inr (u32_to_be 0 @ u32_to_be 0 @ u32_to_be n @ u32_to_be n @ u32_to_be 0 @ encode_lines 0 line_info))"

section \<open>Reading what was written\<close>

text \<open>The bytes are one entry, read for one node of budget.\<close>

definition entry_reads ::
  "AtomTable \<Rightarrow> (BoundedCursor \<Rightarrow> ('a \<times> BoundedCursor) decode) \<Rightarrow> u8 list \<Rightarrow> 'a \<Rightarrow> bool" where
  "entry_reads t f bs x \<longleftrightarrow> (\<forall>c r s. stands c bs r \<longrightarrow> st_table s = t \<longrightarrow> affords s 1 0 0 \<longrightarrow>
     f c s = (Inr (x, cadv (length bs) c), spend 1 0 s))"

lemma decode_n_reads:
  assumes "list_all2 (entry_reads t f) bss xs" "stands c (concat bss) r" "st_table s = t" "affords s (length xs) 0 0"
  shows "decode_n (length xs) f c s = (Inr (xs, cadv (length (concat bss)) c), spend (length xs) 0 s)"
  using assms
proof (induction bss xs arbitrary: c s rule: list_all2_induct)
  case Nil
  then show ?case by (simp add: dreturn_def)
next
  case (Cons bs bss x xs)
  have c: "stands c bs (concat bss @ r)" using Cons.prems(1) by (simp add: stands_def)
  have "affords s 1 0 0" using Cons.prems(3) by (rule affords_mono) simp_all
  then have x: "f c s = (Inr (x, cadv (length bs) c), spend 1 0 s)"
    using Cons.hyps(1) c Cons.prems(2) unfolding entry_reads_def by blast
  have "affords s (1 + length xs) (0 + 0) 0" using Cons.prems(3) by simp
  from Cons.IH [OF stands_cadv [OF c] _ affords_spend [OF this]] Cons.prems(2) x show ?case
    by (simp add: dbind_def dreturn_def)
qed

lemma encode_each_reads:
  assumes "\<And>x. x \<in> set xs \<Longrightarrow> \<exists>bs. f x = Inr bs \<and> entry_reads t g bs (h x) \<and> length bs = k"
  shows "\<exists>bss. encode_each f xs = Inr (concat bss) \<and> list_all2 (entry_reads t g) bss (map h xs) \<and>
    length (concat bss) = length xs * k"
  using assms
proof (induction xs)
  case Nil
  show ?case by (rule exI [of _ "[]"]) simp
next
  case (Cons x xs)
  obtain bs where "f x = Inr bs" "entry_reads t g bs (h x)" "length bs = k" using Cons.prems by auto
  moreover obtain bss where "encode_each f xs = Inr (concat bss)" "list_all2 (entry_reads t g) bss (map h xs)"
    "length (concat bss) = length xs * k"
    using Cons by fastforce
  ultimately show ?case by (intro exI [of _ "bs # bss"]) simp
qed

lemma decode_table_reads:
  assumes rd: "list_all2 (entry_reads t entry) bss xs" and len: "length (concat bss) = length xs * k"
    and n: "length xs \<le> MAX_TABLE_ENTRIES" and small: "length (concat bss) + 4 < 2 ^ 64" and t: "st_table s = t"
    and aff: "affords s (length xs) (length xs * elem) 0"
  shows "decode_table k elem label entry (u32_to_be (of_nat (length xs)) @ concat bss) s =
    (Inr xs, spend (length xs) (length xs * elem) s)"
proof -
  let ?hd = "u32_to_be (of_nat (length xs))" let ?c = "cursor_new (?hd @ concat bss)"
  have c: "stands ?c (?hd @ concat bss) []" using small by (intro cursor_new_stands) simp
  have c0: "stands ?c ?hd (concat bss @ [])" using c by (simp add: stands_append)
  have c4: "stands (cadv 4 ?c) (concat bss) []" using stands_cadv [OF c0] by simp
  have u32: "unat (of_nat (length xs) :: u32) = length xs" using n by (intro unat_of_nat_u32) (simp add: MAX_TABLE_ENTRIES_def)
  have "affords s 0 (length xs * elem) 0" using aff by (rule affords_mono) simp_all
  note charge = charge_affords(3) [OF this]
  have "affords s (0 + length xs) (length xs * elem + 0) 0" using aff by simp
  note rd' = decode_n_reads [OF rd c4 _ affords_spend [OF this]]
  have "expect_empty label (cadv (length (concat bss)) (cadv 4 ?c)) = Inr ()"
    using stands_cadv0 [OF c4] by (simp add: expect_empty_def stands_def)
  then show ?thesis
    using read_u32_stands [OF c0] ensure_count_ok [OF c4 n, of k] len charge rd' t u32
    by (simp add: decode_table_def dbind_def lift_result_def dreturn_def)
qed

lemma read_atom_index_ok:
  assumes "a \<in> set atoms" "length atoms < 2 ^ 32"
  shows "\<exists>i. index_of (atom_encoder_new atoms present) a = Inr i \<and>
    (\<forall>c r. stands c (u32_to_be i) r \<longrightarrow> read_atom_index atoms c = Inr (a, cadv 4 c))"
proof -
  obtain p i where i: "index_of (atom_encoder_new atoms present) a = Inr i" "unat i = Suc p" "p < length atoms" "atoms ! p = a"
    using index_of_atom [OF assms] by blast
  have "i \<noteq> 0" using i(2) by auto
  then have "unat (i - 1) = p" using i(2) by (simp add: unat_minus_one)
  then have "resolve_atom i atoms = Inr a" using i \<open>i \<noteq> 0\<close> by (simp add: resolve_atom_def vec_get_def)
  then show ?thesis using i(1) read_u32_stands by (fastforce simp: read_atom_index_def)
qed

lemma read_arity_ok: "stands c (u32_to_be (ucast (a :: u8))) r \<Longrightarrow> read_arity c = Inr (a, cadv 4 c)"
proof -
  assume c: "stands c (u32_to_be (ucast a)) r"
  have "unat (ucast a :: u32) = unat a" by (simp add: unsigned_ucast_eq take_bit_nat_eq_self less_trans [OF unsigned_less])
  moreover have "unat a < 256" using unsigned_less [where ?'a = nat and ?'b = 8, of a] by simp
  moreover have "ucast (ucast a :: u32) = a" by (rule bit_word_eqI) (auto simp: bit_simps)
  ultimately show ?thesis using read_u32_stands [OF c] by (simp add: read_arity_def checked_arity_def)
qed

text \<open>Three or six words in a row.\<close>

lemma stands_words:
  assumes "stands c (u32_to_be a @ bs) r"
  shows "stands c (u32_to_be a) (bs @ r)" "stands (cadv 4 c) bs r"
  using assms stands_cadv [of c "u32_to_be a" bs r] by (simp_all add: stands_append)

lemma import_entry_reads:
  assumes "imp_module x \<in> set atoms" "imp_function x \<in> set atoms" "length atoms < 2 ^ 32"
  shows "\<exists>bs. encode_import_entry (atom_encoder_new atoms present) x = Inr bs \<and>
    entry_reads t (decode_import_entry atoms) bs x \<and> length bs = 12"
proof -
  obtain m where m: "index_of (atom_encoder_new atoms present) (imp_module x) = Inr m"
    "\<And>c r. stands c (u32_to_be m) r \<Longrightarrow> read_atom_index atoms c = Inr (imp_module x, cadv 4 c)"
    using read_atom_index_ok [OF assms(1,3)] by blast
  obtain f where f: "index_of (atom_encoder_new atoms present) (imp_function x) = Inr f"
    "\<And>c r. stands c (u32_to_be f) r \<Longrightarrow> read_atom_index atoms c = Inr (imp_function x, cadv 4 c)"
    using read_atom_index_ok [OF assms(2,3)] by blast
  let ?bs = "u32_to_be m @ u32_to_be f @ u32_to_be (ucast (imp_arity x))"
  have "decode_import_entry atoms c s = (Inr (x, cadv 12 c), spend 1 0 s)"
    if c: "stands c ?bs r" and aff: "affords s 1 0 0" for c r s
  proof -
    note w1 = stands_words [OF c]
    note w2 = stands_words [OF w1(2)]
    show ?thesis using m(2) [OF w1(1)] f(2) [OF w2(1)] read_arity_ok [OF w2(2)] charge_affords(1) [OF aff]
      by (simp add: decode_import_entry_def dbind_def lift_result_def dreturn_def)
  qed
  then show ?thesis using m(1) f(1) by (auto simp: encode_import_entry_def entry_reads_def)
qed

lemma export_entry_reads:
  assumes "exp_function x \<in> set atoms" "length atoms < 2 ^ 32"
  shows "\<exists>bs. encode_export_entry (atom_encoder_new atoms present) x = Inr bs \<and>
    entry_reads t (decode_export_entry atoms) bs x \<and> length bs = 12"
proof -
  obtain f where f: "index_of (atom_encoder_new atoms present) (exp_function x) = Inr f"
    "\<And>c r. stands c (u32_to_be f) r \<Longrightarrow> read_atom_index atoms c = Inr (exp_function x, cadv 4 c)"
    using read_atom_index_ok [OF assms] by blast
  let ?bs = "u32_to_be f @ u32_to_be (ucast (exp_arity x)) @ u32_to_be (exp_label x)"
  have "decode_export_entry atoms c s = (Inr (x, cadv 12 c), spend 1 0 s)"
    if c: "stands c ?bs r" and aff: "affords s 1 0 0" for c r s
  proof -
    note w1 = stands_words [OF c]
    note w2 = stands_words [OF w1(2)]
    show ?thesis using f(2) [OF w1(1)] read_arity_ok [OF w2(1)] read_u32_stands [OF w2(2)] charge_affords(1) [OF aff]
      by (simp add: decode_export_entry_def dbind_def lift_result_def dreturn_def)
  qed
  then show ?thesis using f(1) by (auto simp: encode_export_entry_def entry_reads_def)
qed

lemma lambda_entry_reads:
  assumes "lam_function x \<in> set atoms" "length atoms < 2 ^ 32" "pos < 2 ^ 32"
  shows "\<exists>bs. encode_lambda_entry (atom_encoder_new atoms present) pos x = Inr bs \<and>
    entry_reads t (decode_lambda_entry atoms) bs (x\<lparr>lam_unique_id := 0\<rparr>) \<and> length bs = 24"
proof -
  obtain f where f: "index_of (atom_encoder_new atoms present) (lam_function x) = Inr f"
    "\<And>c r. stands c (u32_to_be f) r \<Longrightarrow> read_atom_index atoms c = Inr (lam_function x, cadv 4 c)"
    using read_atom_index_ok [OF assms(1,2)] by blast
  let ?bs = "u32_to_be f @ u32_to_be (ucast (lam_arity x)) @ u32_to_be (lam_label x) @ u32_to_be (of_nat pos) @
      u32_to_be (lam_num_free x) @ u32_to_be 0"
  have "decode_lambda_entry atoms c s = (Inr (x\<lparr>lam_unique_id := 0\<rparr>, cadv 24 c), spend 1 0 s)"
    if c: "stands c ?bs r" and aff: "affords s 1 0 0" for c r s
  proof -
    note w1 = stands_words [OF c]
    note w2 = stands_words [OF w1(2)]
    note w3 = stands_words [OF w2(2)]
    note w4 = stands_words [OF w3(2)]
    note w5 = stands_words [OF w4(2)]
    show ?thesis using f(2) [OF w1(1)] read_arity_ok [OF w2(1)] read_u32_stands [OF w3(1)] read_u32_stands [OF w4(1)]
        read_u32_stands [OF w5(1)] read_u32_stands [OF w5(2)] charge_affords(1) [OF aff]
      by (cases x) (simp add: decode_lambda_entry_def dbind_def lift_result_def dreturn_def)
  qed
  then show ?thesis using f(1) assms(3) by (auto simp: encode_lambda_entry_def entry_reads_def count_u32_def)
qed

lemma import_chunk_reads:
  assumes "\<forall>x\<in>set xs. imp_module x \<in> set atoms \<and> imp_function x \<in> set atoms" "length atoms < 2 ^ 32"
    and n: "length xs \<le> MAX_TABLE_ENTRIES" and t: "st_table s = t" and aff: "affords s (length xs) (length xs * size_of_ImportEntry lay) 0"
  shows "\<exists>bs. encode_import_chunk (atom_encoder_new atoms present) xs = Inr bs \<and> length bs = 4 + length xs * 12 \<and>
    decode_import_chunk lay bs atoms s = (Inr xs, spend (length xs) (length xs * size_of_ImportEntry lay) s)"
proof -
  obtain bss where bss: "encode_each (encode_import_entry (atom_encoder_new atoms present)) xs = Inr (concat bss)"
    "list_all2 (entry_reads t (decode_import_entry atoms)) bss (map id xs)" "length (concat bss) = length xs * 12"
    using encode_each_reads [of xs "encode_import_entry (atom_encoder_new atoms present)" t "decode_import_entry atoms" id 12]
      import_entry_reads assms(1,2) by auto
  have small: "length (concat bss) + 4 < 2 ^ 64" using bss(3) n by (simp add: MAX_TABLE_ENTRIES_def)
  have u32: "length xs < 2 ^ 32" using n by (simp add: MAX_TABLE_ENTRIES_def)
  show ?thesis using decode_table_reads [OF bss(2) _ _ small t, of 12 "size_of_ImportEntry lay" "''import''"] bss n u32 aff
    by (simp add: encode_import_chunk_def decode_import_chunk_def count_u32_def)
qed

lemma import_chunk_encodes:
  assumes "\<forall>x\<in>set xs. imp_module x \<in> set atoms \<and> imp_function x \<in> set atoms" "length atoms < 2 ^ 32" "length xs \<le> MAX_TABLE_ENTRIES"
  shows "\<exists>bs. encode_import_chunk (atom_encoder_new atoms present) xs = Inr bs"
proof -
  let ?s = "\<lparr>st_budget = \<lparr>depth_remaining = 0, nodes_remaining = length xs, bytes_remaining = 0, atoms_remaining = 0\<rparr>,
    st_table = undefined\<rparr>"
  have "affords ?s (length xs) (length xs * size_of_ImportEntry (undefined\<lparr>size_of_ImportEntry := 0\<rparr>)) 0" by (simp add: affords_def)
  from import_chunk_reads [OF assms refl this] show ?thesis by blast
qed

lemma import_chunk_decodes:
  assumes "\<forall>x\<in>set xs. imp_module x \<in> set atoms \<and> imp_function x \<in> set atoms" "length atoms < 2 ^ 32" "length xs \<le> MAX_TABLE_ENTRIES"
    "encode_import_chunk (atom_encoder_new atoms present) xs = Inr bs"
    "st_table s = t" "affords s (length xs) (length xs * size_of_ImportEntry lay) 0"
  shows "decode_import_chunk lay bs atoms s = (Inr xs, spend (length xs) (length xs * size_of_ImportEntry lay) s)"
  using import_chunk_reads [OF assms(1,2,3,5,6), of present] assms(4) by auto

lemma export_chunk_reads:
  assumes "\<forall>x\<in>set xs. exp_function x \<in> set atoms" "length atoms < 2 ^ 32"
    and n: "length xs \<le> MAX_TABLE_ENTRIES" and t: "st_table s = t" and aff: "affords s (length xs) (length xs * size_of_ExportEntry lay) 0"
  shows "\<exists>bs. encode_export_chunk (atom_encoder_new atoms present) xs = Inr bs \<and> length bs = 4 + length xs * 12 \<and>
    decode_export_chunk lay bs atoms s = (Inr xs, spend (length xs) (length xs * size_of_ExportEntry lay) s)"
proof -
  obtain bss where bss: "encode_each (encode_export_entry (atom_encoder_new atoms present)) xs = Inr (concat bss)"
    "list_all2 (entry_reads t (decode_export_entry atoms)) bss (map id xs)" "length (concat bss) = length xs * 12"
    using encode_each_reads [of xs "encode_export_entry (atom_encoder_new atoms present)" t "decode_export_entry atoms" id 12]
      export_entry_reads assms(1,2) by auto
  have small: "length (concat bss) + 4 < 2 ^ 64" using bss(3) n by (simp add: MAX_TABLE_ENTRIES_def)
  have u32: "length xs < 2 ^ 32" using n by (simp add: MAX_TABLE_ENTRIES_def)
  show ?thesis using decode_table_reads [OF bss(2) _ _ small t, of 12 "size_of_ExportEntry lay" "''export''"] bss n u32 aff
    by (simp add: encode_export_chunk_def decode_export_chunk_def count_u32_def)
qed

lemma export_chunk_encodes:
  assumes "\<forall>x\<in>set xs. exp_function x \<in> set atoms" "length atoms < 2 ^ 32" "length xs \<le> MAX_TABLE_ENTRIES"
  shows "\<exists>bs. encode_export_chunk (atom_encoder_new atoms present) xs = Inr bs"
proof -
  let ?s = "\<lparr>st_budget = \<lparr>depth_remaining = 0, nodes_remaining = length xs, bytes_remaining = 0, atoms_remaining = 0\<rparr>,
    st_table = undefined\<rparr>"
  have "affords ?s (length xs) (length xs * size_of_ExportEntry (undefined\<lparr>size_of_ExportEntry := 0\<rparr>)) 0" by (simp add: affords_def)
  from export_chunk_reads [OF assms refl this] show ?thesis by blast
qed

lemma export_chunk_decodes:
  assumes "\<forall>x\<in>set xs. exp_function x \<in> set atoms" "length atoms < 2 ^ 32" "length xs \<le> MAX_TABLE_ENTRIES"
    "encode_export_chunk (atom_encoder_new atoms present) xs = Inr bs"
    "st_table s = t" "affords s (length xs) (length xs * size_of_ExportEntry lay) 0"
  shows "decode_export_chunk lay bs atoms s = (Inr xs, spend (length xs) (length xs * size_of_ExportEntry lay) s)"
  using export_chunk_reads [OF assms(1,2,3,5,6), of present] assms(4) by auto

lemma lambda_chunk_reads:
  assumes "\<forall>x\<in>set xs. lam_function x \<in> set atoms" "length atoms < 2 ^ 32"
    and n: "length xs \<le> MAX_TABLE_ENTRIES" and t: "st_table s = t" and aff: "affords s (length xs) (length xs * size_of_LambdaEntry lay) 0"
  shows "\<exists>bs. encode_lambda_chunk (atom_encoder_new atoms present) xs = Inr bs \<and> length bs = 4 + length xs * 24 \<and>
    decode_lambda_chunk lay bs atoms s =
      (Inr (map (\<lambda>x. x\<lparr>lam_unique_id := 0\<rparr>) xs), spend (length xs) (length xs * size_of_LambdaEntry lay) s)"
proof -
  let ?enc = "\<lambda>(pos, l). encode_lambda_entry (atom_encoder_new atoms present) pos l"
  let ?zs = "zip [0..<length xs] xs" and ?h = "\<lambda>(pos :: nat, x). x\<lparr>lam_unique_id := 0\<rparr>"
  have u32: "length xs < 2 ^ 32" using n by (simp add: MAX_TABLE_ENTRIES_def)
  have each: "\<exists>bs. ?enc z = Inr bs \<and> entry_reads t (decode_lambda_entry atoms) bs (?h z) \<and> length bs = 24" if "z \<in> set ?zs" for z
  proof -
    obtain pos x where z: "z = (pos, x)" by force
    have "pos < length xs" "x \<in> set xs" using that z by (auto dest: set_zip_leftD set_zip_rightD)
    then show ?thesis using lambda_entry_reads [of x atoms pos present t] assms(1,2) u32 by (simp add: z)
  qed
  obtain bss where bss: "encode_each ?enc ?zs = Inr (concat bss)"
    "list_all2 (entry_reads t (decode_lambda_entry atoms)) bss (map ?h ?zs)" "length (concat bss) = length ?zs * 24"
    using encode_each_reads [of ?zs ?enc t "decode_lambda_entry atoms" ?h 24] each by blast
  have hs: "map ?h ?zs = map (\<lambda>x. x\<lparr>lam_unique_id := 0\<rparr>) xs" by (rule nth_equalityI) simp_all
  have small: "length (concat bss) + 4 < 2 ^ 64" using bss(3) n by (simp add: MAX_TABLE_ENTRIES_def)
  show ?thesis
    using decode_table_reads [OF bss(2) [unfolded hs] _ _ small t, of 24 "size_of_LambdaEntry lay" "''lambda''"] bss n u32 aff
    by (simp add: encode_lambda_chunk_def decode_lambda_chunk_def count_u32_def)
qed

lemma lambda_chunk_encodes:
  assumes "\<forall>x\<in>set xs. lam_function x \<in> set atoms" "length atoms < 2 ^ 32" "length xs \<le> MAX_TABLE_ENTRIES"
  shows "\<exists>bs. encode_lambda_chunk (atom_encoder_new atoms present) xs = Inr bs"
proof -
  let ?s = "\<lparr>st_budget = \<lparr>depth_remaining = 0, nodes_remaining = length xs, bytes_remaining = 0, atoms_remaining = 0\<rparr>,
    st_table = undefined\<rparr>"
  have "affords ?s (length xs) (length xs * size_of_LambdaEntry (undefined\<lparr>size_of_LambdaEntry := 0\<rparr>)) 0" by (simp add: affords_def)
  from lambda_chunk_reads [OF assms refl this] show ?thesis by blast
qed

lemma lambda_chunk_decodes:
  assumes "\<forall>x\<in>set xs. lam_function x \<in> set atoms" "length atoms < 2 ^ 32" "length xs \<le> MAX_TABLE_ENTRIES"
    "encode_lambda_chunk (atom_encoder_new atoms present) xs = Inr bs"
    "st_table s = t" "affords s (length xs) (length xs * size_of_LambdaEntry lay) 0"
  shows "decode_lambda_chunk lay bs atoms s = (Inr (map (\<lambda>x. x\<lparr>lam_unique_id := 0\<rparr>) xs), spend (length xs) (length xs * size_of_LambdaEntry lay) s)"
  using lambda_chunk_reads [OF assms(1,2,3,5,6), of present] assms(4) by auto

text \<open>Compact values at a cursor.\<close>

lemma compact_at_cursor:
  assumes "stands c bs r"
    and "\<And>d. slice_ok d \<Longrightarrow> rest d = bs @ r \<Longrightarrow> read_tagged_value d = Inr ((tg, Small v), advance (length bs) d)"
  shows "read_raw_compact c = Inr ((tg, v), length bs)" "cur_advance (length bs) c = Inr (cadv (length bs) c)"
    "read_compact_advance c = Inr ((tg, v), cadv (length bs) c)"
proof -
  let ?d = "compact_decoder_new (cur_remaining c) [] []"
  have len: "length (cur_remaining c) < 2 ^ 64" using assms(1) stands_length [OF assms(1)] by (simp add: stands_def cursor_ok_def)
  have "slice_ok ?d" "rest ?d = bs @ r" using assms(1) len by (simp_all add: slice_ok_def rest_def compact_decoder_new_def stands_def)
  from assms(2) [OF this] show raw: "read_raw_compact c = Inr ((tg, v), length bs)"
    by (simp add: read_raw_compact_def read_tagged_integer_def compact_decoder_new_def)
  show adv: "cur_advance (length bs) c = Inr (cadv (length bs) c)"
    using stands_length [OF assms(1)] assms(1) by (simp add: cur_advance_def cadv_def stands_def cursor_ok_def)
  show "read_compact_advance c = Inr ((tg, v), cadv (length bs) c)"
    by (simp add: read_compact_advance_def raw adv)
qed

lemma atom_entry_reads:
  assumes "name_ok t a" "atom_resolve a t = Some n" "length n < 2 ^ 63" "\<not> compact \<Longrightarrow> length n < 256"
  shows "entry_reads t (decode_atom_entry compact) (encode_name compact n) a"
  unfolding entry_reads_def
proof (intro allI impI)
  fix c r s
  assume c: "stands c (encode_name compact n) r" and t: "st_table s = t" and aff: "affords s 1 0 0"
  let ?hd = "if compact then push_unsigned 0 (of_nat (length n)) else [of_nat (length n)]"
  have c0: "stands c ?hd (n @ r)" using c by (simp add: encode_name_def stands_append)
  have w: "unat (of_nat (length n) :: u64) = length n" "uint (of_nat (length n) :: u64) = int (length n)"
    using assms(3) by (simp_all add: unsigned_of_nat take_bit_nat_eq_self)
  have "read_name_length compact c = Inr (length n, cadv (length ?hd) c)"
  proof (cases compact)
    case True
    have "read_tagged_value d = Inr ((0, Small (int (length n))), advance (length ?hd) d)"
      if "slice_ok d" "rest d = ?hd @ n @ r" for d
      using read_push_unsigned [of d 0 "of_nat (length n)" "n @ r"] that True w assms(3) by simp
    from compact_at_cursor(1,2) [OF c0 this] show ?thesis using True by (simp add: read_name_length_def)
  next
    case False
    then show ?thesis using read_u8_stands [of c "of_nat (length n)" "[]" "n @ r"] c0 unat_of_nat_u8 [OF assms(4)]
      by (simp add: read_name_length_def)
  qed
  then show "decode_atom_entry compact c s = (Inr (a, cadv (length (encode_name compact n)) c), spend 1 0 s)"
    using read_bytes_stands [OF stands_cadv [OF c0]] charge_affords(1) [OF aff] decode_atom_name_ok [of "spend 1 0 s" a n]
      assms(1,2) t
    by (simp add: decode_atom_entry_def dbind_def lift_result_def dreturn_def encode_name_def)
qed

lemma resolve_names_ok:
  "\<forall>a\<in>set atoms. name_ok t a \<Longrightarrow> \<exists>names. resolve_names t atoms = Inr names \<and>
     list_all2 (\<lambda>n a. atom_resolve a t = Some n) names atoms"
proof (induction atoms)
  case (Cons a atoms)
  then obtain n where "atom_resolve a t = Some n" by (auto simp: name_ok_def split: option.splits)
  then show ?case using Cons by (auto simp: encoder_resolve_def)
qed simp

lemma atom_chunk_reads:
  assumes ok: "\<forall>a\<in>set atoms. name_ok t a \<and> (\<forall>n. atom_resolve a t = Some n \<longrightarrow> length n < 2 ^ 63)"
    and n: "length atoms \<le> MAX_TABLE_ENTRIES" and enc: "encode_atom_chunk t atoms = Inr bs" and len: "length bs < 2 ^ 64"
    and t: "st_table s = t" and aff: "affords s (length atoms) (length atoms * 4) 0"
  shows "decode_atom_chunk bs s = (Inr atoms, spend (length atoms) (length atoms * 4) s)"
proof -
  obtain names where names: "resolve_names t atoms = Inr names" "list_all2 (\<lambda>n a. atom_resolve a t = Some n) names atoms"
    using resolve_names_ok ok by meson
  let ?compact = "\<exists>name\<in>set names. length name > 255" and ?n = "length atoms"
  have ln: "length names = ?n" using list_all2_lengthD [OF names(2)] .
  let ?hd = "if ?compact then u32_to_be (- of_nat ?n) else u32_to_be (of_nat ?n)"
  let ?bss = "map (encode_name ?compact) names"
  have bs: "bs = ?hd @ concat ?bss" using enc names(1) ln by (auto simp: encode_atom_chunk_def Let_def split: if_splits)
  have rd: "list_all2 (entry_reads t (decode_atom_entry ?compact)) ?bss atoms"
    unfolding list_all2_conv_all_nth
  proof (intro conjI allI impI)
    fix i assume "i < length ?bss"
    then have i: "i < ?n" using ln by simp
    have "atom_resolve (atoms ! i) t = Some (names ! i)" using names(2) i ln by (simp add: list_all2_conv_all_nth)
    moreover have "length (names ! i) < 256" if "\<not> ?compact"
    proof -
      have "names ! i \<in> set names" using i ln by simp
      then have "\<not> 255 < length (names ! i)" using that by blast
      then show ?thesis by simp
    qed
    moreover have "name_ok t (atoms ! i)" "length (names ! i) < 2 ^ 63" using ok i calculation(1) nth_mem by blast+
    ultimately show "entry_reads t (decode_atom_entry ?compact) (?bss ! i) (atoms ! i)"
      using i ln atom_entry_reads [of t "atoms ! i" "names ! i" ?compact] by simp
  qed (simp add: ln)
  have pos: "?n > 0" if ?compact using that ln by (cases names) auto
  let ?raw = "if ?compact then - int ?n else int ?n"
  have small: "int ?n < 2 ^ 31" using n by (simp add: MAX_TABLE_ENTRIES_def)
  have "sint (word_of_int (int ?n) :: u32) = int ?n" "sint (word_of_int (- int ?n) :: u32) = - int ?n"
    using small by (simp_all only: signed_of_int) (simp_all add: signed_take_bit_int_eq_self)
  then have raw: "sint (u32_from_be ?hd) = ?raw" by simp
  let ?c = "cursor_new bs"
  have c: "stands ?c bs []" using len by (rule cursor_new_stands)
  have c0: "stands ?c ?hd (concat ?bss)" using c bs by (simp add: stands_def)
  have hl: "length ?hd = 4" by simp
  have c4: "stands (cadv 4 ?c) (concat ?bss) []"
    using stands_cadv [of ?c ?hd "concat ?bss" "[]"] c0 unfolding hl by (simp only: append_Nil2)
  have "cur_read_i32 ?c = Inr (?raw, cadv 4 ?c)"
    using read_bytes_stands [OF c0] unfolding hl cur_read_i32_def by (simp only: result_bind_Inr prod.case raw)
  moreover have "nat \<bar>?raw\<bar> = ?n" "(?raw < 0) = ?compact" using pos by auto
  moreover have "?n \<le> length (concat ?bss)"
  proof -
    have gen: "length ns \<le> length (concat (map (encode_name b) ns))" for ns :: "u8 list list" and b
    proof (induction ns)
      case (Cons a ns)
      have "encode_name b a \<noteq> []" by (simp add: encode_name_def)
      then show ?case using Cons.IH by (cases "encode_name b a") simp_all
    qed simp
    show ?thesis using gen [of names ?compact] ln by simp
  qed
  moreover have "affords s 0 (?n * 4) 0" using aff by (rule affords_mono) simp_all
  note charge = charge_affords(3) [OF this]
  have "affords s (0 + ?n) (?n * 4 + 0) 0" using aff by simp
  note rd' = decode_n_reads [OF rd c4 _ affords_spend [OF this]]
  have "expect_empty ''atom'' (cadv (length (concat ?bss)) (cadv 4 ?c)) = Inr ()"
    using stands_cadv0 [OF c4] by (simp add: expect_empty_def stands_def)
  ultimately show ?thesis
    using ensure_count_ok [OF c4 n, of 1 "''atom count''"] charge rd' t
    unfolding decode_atom_chunk_def Let_def by (simp add: dbind_def lift_result_def dreturn_def)
qed

lemma lines_reads:
  assumes "stands c (encode_lines cf infos) r" "affords s (length infos) 0 0"
  shows "decode_lines (length infos) cf c s = (Inr (infos, cadv (length (encode_lines cf infos)) c), spend (length infos) 0 s)"
  using assms
proof (induction infos arbitrary: cf c s)
  case Nil
  then show ?case by (simp add: dreturn_def)
next
  case (Cons x infos)
  let ?later = "encode_lines (li_file x) infos @ r" and ?ln = "push_signed 1 (uint (li_line x))"
  have line_range: "- (2 ^ 63) \<le> uint (li_line x)" "uint (li_line x) < 2 ^ 63"
    using uint_u32_less [of "li_line x"] order_trans [of "- (2 ^ 63)" 0 "uint (li_line x)"] by simp_all
  have line_at: "read_compact_advance c' = Inr ((1, uint (li_line x)), cadv (length ?ln) c')" if "stands c' ?ln ?later" for c'
    by (rule compact_at_cursor(3) [OF that]) (use read_push_signed line_range in blast)
  have num: "line_number (uint (li_line x)) = Inr (li_line x)" using uint_u32_less [of "li_line x"] by (simp add: line_number_def)
  have a1: "affords s 1 0 0" using Cons.prems(2) by (rule affords_mono) simp_all
  have "affords s (1 + length infos) (0 + 0) 0" using Cons.prems(2) by simp
  note aff = affords_spend [OF this]
  show ?case
  proof (cases "li_file x = cf")
    case True
    have c0: "stands c ?ln ?later" using Cons.prems(1) True by (simp add: stands_append)
    have "decode_line_entry cf c s = (Inr (x, cadv (length ?ln) c), spend 1 0 s)"
      using line_at [OF c0] num charge_affords(1) [OF a1] True
      by (cases x) (simp add: decode_line_entry_def dbind_def lift_result_def dreturn_def)
    then show ?thesis using Cons.IH [OF stands_cadv [OF c0] aff] True by (simp add: dbind_def dreturn_def)
  next
    case False
    let ?fb = "push_unsigned 2 (ucast (li_file x))"
    have c0: "stands c ?fb (?ln @ ?later)" using Cons.prems(1) False by (simp add: stands_append)
    have c1: "stands (cadv (length ?fb) c) ?ln ?later" using stands_cadv [OF c0] .
    have v: "unat (ucast (li_file x) :: u64) < 2 ^ 63" using uint_ucast_u32(3) [of "li_file x"] by simp
    have "read_tagged_value d = Inr ((2, Small (uint (li_file x))), advance (length ?fb) d)"
      if "slice_ok d" "rest d = ?fb @ ?ln @ ?later" for d
      using read_push_unsigned [OF that _ _ v] by (simp add: uint_ucast_u32)
    from compact_at_cursor(3) [OF c0 this]
    have file_at: "read_compact_advance c = Inr ((2, uint (li_file x)), cadv (length ?fb) c)" .
    have "line_file (uint (li_file x)) = Inr (li_file x)" using uint_u32_less [of "li_file x"] by (simp add: line_file_def)
    then have "decode_line_entry cf c s = (Inr (x, cadv (length ?ln) (cadv (length ?fb) c)), spend 1 0 s)"
      using file_at line_at [OF c1] num charge_affords(1) [OF a1]
      by (cases x) (simp add: decode_line_entry_def dbind_def lift_result_def dreturn_def)
    then show ?thesis using Cons.IH [OF stands_cadv [OF c1] aff] False by (simp add: dbind_def dreturn_def add.assoc)
  qed
qed

lemma encode_lines_length: "length infos \<le> length (encode_lines cf infos)"
proof (induction infos arbitrary: cf)
  case (Cons x infos)
  have "push_signed 1 (uint (li_line x)) \<noteq> []" by (simp add: push_signed_def push_extended.simps Let_def)
  then show ?case using Cons.IH [of "li_file x"] by (cases "push_signed 1 (uint (li_line x))") simp_all
qed simp

lemma line_chunk_reads:
  assumes ne: "xs \<noteq> []" and n: "length xs \<le> MAX_TABLE_ENTRIES" and enc: "encode_line_chunk xs = Inr bs" and len: "length bs < 2 ^ 64"
    and aff: "affords s (length xs) (length xs * size_of_LineInfo lay) 0"
  shows "decode_line_chunk lay bs s = (Inr xs, spend (length xs) (length xs * size_of_LineInfo lay) s)"
proof -
  let ?n = "of_nat (length xs) :: u32" and ?c = "cursor_new bs" and ?body = "encode_lines 0 xs"
  have bs: "bs = u32_to_be 0 @ u32_to_be 0 @ u32_to_be ?n @ u32_to_be ?n @ u32_to_be 0 @ ?body"
    using enc n by (simp add: encode_line_chunk_def count_u32_def MAX_TABLE_ENTRIES_def)
  have u32: "unat ?n = length xs" using n by (intro unat_of_nat_u32) (simp add: MAX_TABLE_ENTRIES_def)
  have c: "stands ?c (u32_to_be 0 @ u32_to_be 0 @ u32_to_be ?n @ u32_to_be ?n @ u32_to_be 0 @ ?body) []"
    using cursor_new_stands [OF len] bs by simp
  note w1 = stands_words [OF c]
  note w2 = stands_words [OF w1(2)]
  note w3 = stands_words [OF w2(2)]
  note w4 = stands_words [OF w3(2)]
  note w5 = stands_words [OF w4(2)]
  note reads = read_u32_stands [OF w1(1)] read_u32_stands [OF w2(1)] read_u32_stands [OF w3(1)] read_u32_stands [OF w4(1)]
    read_u32_stands [OF w5(1)]
  have "affords s 0 (length xs * size_of_LineInfo lay) 0" using aff by (rule affords_mono) simp_all
  note charge = charge_affords(3) [OF this]
  have "affords s (0 + length xs) (length xs * size_of_LineInfo lay + 0) 0" using aff by simp
  note rd = lines_reads [OF w5(2) affords_spend [OF this]]
  have "bs \<noteq> []" using bs by (metis append_is_Nil_conv length_u32_to_be list.size(3) zero_neq_numeral)
  then show ?thesis
    using reads charge rd u32 ensure_count_ok [OF w5(2) n, of 1 "''line count''"] encode_lines_length [of xs 0]
    by (simp add: decode_line_chunk_def dbind_def lift_result_def dreturn_def)
qed

end
