(* ===== verification/Beam_File.thy ===== *)
theory Beam_File
  imports Chunk_Codec
begin

text \<open>
  A BEAM file as a whole: the IFF container (\<^verbatim>\<open>crates/beamr/src/loader/parser.rs\<close> and the framing of
  \<^verbatim>\<open>loader/encode/container.rs\<close>), \<open>load_beam_chunks\<close> of \<^verbatim>\<open>loader/load.rs\<close> with the stable identifiers
  of lambdas, and \<open>encode_module\<close>. Loading starts from the default budget and the caller's atom
  table, and gives the table back. A \<open>usize\<close> has 64 bits.
\<close>

section \<open>The container\<close>

datatype ValidationProblem =
    ExportLabelMissing u32
  | XRegisterRange u32
  | YRegisterRange u32
  | YOutsideFrame u32 u32
  | FloatRegisterRange u32
  | CallArityMismatch u8 u32 u8
  | ImportIndexRange nat
  | ResolvedImportRange nat
  | ExternalArityMismatch u8 nat u8
  | AllocateOperand Operand
  | LabelOperandRange Operand
  | LabelOperandKind Operand
  | LabelMissing u32
  | ImportOperand Operand
  | ArityOperand string Operand

datatype LoadError =
    InvalidFormat
  | MissingChunk string
  | DecodeError ChunkMessage
  | ValidationError nat ValidationProblem
  | OldCodeStillRunning
  | UnknownNamespace u64

type_synonym chunk = "u8 list \<times> u8 list"

definition read_fourcc_at :: "u8 list \<Rightarrow> nat \<Rightarrow> LoadError + u8 list" where
  "read_fourcc_at bytes offset =
     (if offset + 4 \<le> length bytes then Inr (take 4 (drop offset bytes)) else Inl InvalidFormat)"

definition read_u32_at :: "u8 list \<Rightarrow> nat \<Rightarrow> LoadError + u32" where
  "read_u32_at bytes offset =
     (if offset + 4 \<le> length bytes then Inr (u32_from_be (take 4 (drop offset bytes))) else Inl InvalidFormat)"

definition padding :: "nat \<Rightarrow> nat" where
  "padding n = (4 - n mod 4) mod 4"

function parse_chunks :: "u8 list \<Rightarrow> nat \<Rightarrow> nat \<Rightarrow> LoadError + chunk list" where
  "parse_chunks bytes end' offset =
     (if offset \<ge> end' then Inr []
      else if end' - offset < 8 then Inl InvalidFormat
      else
        result_bind (read_fourcc_at bytes offset) (\<lambda>tg.
          case read_u32_at bytes (offset + 4) of
            Inl e \<Rightarrow> Inl e
          | Inr len \<Rightarrow>
              let data_start = offset + 8; data_end = data_start + unat len
              in if data_end \<ge> 2 ^ 64 \<or> data_end > end' then Inl InvalidFormat
                 else
                   let next_offset = data_end + padding (unat len)
                   in if next_offset \<ge> 2 ^ 64 \<or> next_offset > end' then Inl InvalidFormat
                      else result_bind (parse_chunks bytes end' next_offset) (\<lambda>chunks.
                             Inr ((tg, take (unat len) (drop data_start bytes)) # chunks))))"
  by auto
termination by (relation "measure (\<lambda>(bytes, end', offset). end' - offset)") auto

declare parse_chunks.simps [simp del]

definition parse_beam_chunks :: "u8 list \<Rightarrow> LoadError + chunk list" where
  "parse_beam_chunks bytes =
     (if length bytes < 12 \<or> take 4 bytes \<noteq> str_bytes ''FOR1'' \<or> take 4 (drop 8 bytes) \<noteq> str_bytes ''BEAM''
      then Inl InvalidFormat
      else result_bind (read_u32_at bytes 4) (\<lambda>declared.
             let total_size = unat declared + 8
             in if total_size \<ge> 2 ^ 64 \<or> total_size > length bytes \<or> unat declared < 4 then Inl InvalidFormat
                else parse_chunks bytes total_size 12))"

definition frame_chunk :: "chunk \<Rightarrow> u8 list" where
  "frame_chunk tc = (case tc of (tg, chunk) \<Rightarrow>
     tg @ u32_to_be (of_nat (length chunk)) @ chunk @ replicate (padding (length chunk)) 0)"

definition frame_container :: "chunk list \<Rightarrow> u8 list" where
  "frame_container chunks =
     (let body = str_bytes ''BEAM'' @ concat (map frame_chunk chunks)
      in str_bytes ''FOR1'' @ u32_to_be (of_nat (length body)) @ body)"

section \<open>Modules\<close>

record ParsedModule =
  pm_name :: u32
  pm_atoms :: "u32 list"
  pm_instructions :: "Instruction list"
  pm_imports :: "ImportEntry list"
  pm_exports :: "ExportEntry list"
  pm_lambdas :: "LambdaEntry list"
  pm_literals :: "Literal list"
  pm_string_table :: "u8 list"
  pm_line_info :: "LineInfo list"
  pm_type_chunk :: "u8 list option"

definition find_chunk :: "chunk list \<Rightarrow> string \<Rightarrow> u8 list option" where
  "find_chunk chunks tg = map_of chunks (str_bytes tg)"

definition hash_write :: "u8 list \<Rightarrow> u64 \<Rightarrow> u64" where
  "hash_write bytes hash = fold (\<lambda>b h. (h XOR ucast b) * 0x100000001b3) bytes hash"

definition hash_bytes_with_len :: "u8 list \<Rightarrow> u64 \<Rightarrow> u64" where
  "hash_bytes_with_len bytes hash = hash_write bytes (hash_write (to_be_bytes (of_nat (length bytes))) hash)"

definition lambda_unique_id :: "AtomTable \<Rightarrow> u32 \<Rightarrow> u32 \<Rightarrow> u8 \<Rightarrow> u32 \<Rightarrow> ChunkMessage + u64" where
  "lambda_unique_id t module_name function_name arity num_free =
     result_bind (ok_or (atom_resolve module_name t) ModuleNotInterned) (\<lambda>m.
     result_bind (ok_or (atom_resolve function_name t) LambdaNotInterned) (\<lambda>f.
       Inr (hash_write (u32_to_be num_free) (hash_write [arity]
             (hash_bytes_with_len f (hash_bytes_with_len m 0xcbf29ce484222325))))))"

fun assign_lambda_unique_ids :: "AtomTable \<Rightarrow> u32 \<Rightarrow> LambdaEntry list \<Rightarrow> ChunkMessage + LambdaEntry list" where
  "assign_lambda_unique_ids t module_name [] = Inr []"
| "assign_lambda_unique_ids t module_name (l # ls) =
     result_bind (lambda_unique_id t module_name (lam_function l) (lam_arity l) (lam_num_free l)) (\<lambda>uid.
     result_bind (assign_lambda_unique_ids t module_name ls) (\<lambda>ls'. Inr (l\<lparr>lam_unique_id := uid\<rparr> # ls')))"

type_synonym 'a load = "DecodeState \<Rightarrow> (LoadError option + 'a) \<times> DecodeState"

definition as_load :: "'a decode \<Rightarrow> 'a load" where
  "as_load m s = (case m s of
     (Inl None, s') \<Rightarrow> (Inl None, s')
   | (Inl (Some e), s') \<Rightarrow> (Inl (Some (DecodeError e)), s')
   | (Inr a, s') \<Rightarrow> (Inr a, s'))"

definition load_result :: "LoadError + 'a \<Rightarrow> 'a load" where
  "load_result r s = (case r of Inl e \<Rightarrow> (Inl (Some e), s) | Inr a \<Rightarrow> (Inr a, s))"

definition optional_chunk :: "chunk list \<Rightarrow> string \<Rightarrow> (u8 list \<Rightarrow> 'a list decode) \<Rightarrow> 'a list load" where
  "optional_chunk chunks tg decoder =
     (case find_chunk chunks tg of None \<Rightarrow> dreturn [] | Some bytes \<Rightarrow> as_load (decoder bytes))"

definition load_code :: "u8 list \<Rightarrow> u32 list \<Rightarrow> Literal list \<Rightarrow> (Instruction list \<times> Literal list) load" where
  "load_code bytes atoms literals s =
     (case decode_code_chunk bytes atoms literals of
        Inl None \<Rightarrow> (Inl None, s)
      | Inl (Some e) \<Rightarrow> (Inl (Some (DecodeError (CompactMessage e))), s)
      | Inr r \<Rightarrow> (Inr r, s))"

definition decode_lambdas :: "Layout \<Rightarrow> u32 \<Rightarrow> u32 list \<Rightarrow> u8 list \<Rightarrow> LambdaEntry list decode" where
  "decode_lambdas lay name atoms bytes =
     dbind (decode_lambda_chunk lay bytes atoms) (\<lambda>lambdas s.
       lift_result (assign_lambda_unique_ids (st_table s) name lambdas) s)"

definition load_chunks ::
  "Layout \<Rightarrow> (u8 list \<Rightarrow> nat \<Rightarrow> u8 list option) \<Rightarrow> u8 list \<Rightarrow> ParsedModule load" where
  "load_chunks lay inflate bytes =
     dbind (load_result (parse_beam_chunks bytes)) (\<lambda>chunks.
     dbind (load_result (ok_or (case find_chunk chunks ''AtU8'' of
                                  Some b \<Rightarrow> Some b
                                | None \<Rightarrow> find_chunk chunks ''Atom'') (MissingChunk ''Atom/AtU8''))) (\<lambda>atom_chunk.
     dbind (as_load (decode_atom_chunk atom_chunk)) (\<lambda>atoms.
     dbind (load_result (case atoms of [] \<Rightarrow> Inl (DecodeError AtomChunkEmpty) | a # _ \<Rightarrow> Inr a)) (\<lambda>name.
     dbind (optional_chunk chunks ''LitT'' (decode_literal_chunk lay inflate)) (\<lambda>literals.
     dbind (load_result (ok_or (find_chunk chunks ''Code'') (MissingChunk ''Code''))) (\<lambda>code_chunk.
     dbind (load_code code_chunk atoms literals) (\<lambda>(instructions, extra_literals).
     dbind (optional_chunk chunks ''ImpT'' (\<lambda>b. decode_import_chunk lay b atoms)) (\<lambda>imports.
     dbind (optional_chunk chunks ''ExpT'' (\<lambda>b. decode_export_chunk lay b atoms)) (\<lambda>exports.
     dbind (optional_chunk chunks ''FunT'' (decode_lambdas lay name atoms)) (\<lambda>lambdas.
     dbind (optional_chunk chunks ''Line'' (decode_line_chunk lay)) (\<lambda>line_info.
       dreturn \<lparr>pm_name = name, pm_atoms = atoms, pm_instructions = instructions, pm_imports = imports,
         pm_exports = exports, pm_lambdas = lambdas, pm_literals = literals @ extra_literals,
         pm_string_table = (case find_chunk chunks ''StrT'' of None \<Rightarrow> [] | Some b \<Rightarrow> decode_string_chunk b),
         pm_line_info = line_info, pm_type_chunk = find_chunk chunks ''Type''\<rparr>)))))))))))"

definition load_beam_chunks ::
  "Layout \<Rightarrow> (u8 list \<Rightarrow> nat \<Rightarrow> u8 list option) \<Rightarrow> u8 list \<Rightarrow> AtomTable \<Rightarrow> (LoadError option + ParsedModule) \<times> AtomTable" where
  "load_beam_chunks lay inflate bytes t =
     (case load_chunks lay inflate bytes \<lparr>st_budget = default_budget, st_table = t\<rparr> of (r, s) \<Rightarrow> (r, st_table s))"

definition encode_module :: "AtomTable \<Rightarrow> ParsedModule \<Rightarrow> EncodeError + u8 list" where
  "encode_module t m =
     (let enc = atom_encoder_new (pm_atoms m) (pm_type_chunk m \<noteq> None)
      in result_bind (encode_atom_chunk t (pm_atoms m)) (\<lambda>atoms_b.
         result_bind (encode_code_chunk enc (pm_instructions m)) (\<lambda>code_b.
         result_bind (encode_import_chunk enc (pm_imports m)) (\<lambda>imp_b.
         result_bind (encode_export_chunk enc (pm_exports m)) (\<lambda>exp_b.
         result_bind (if pm_lambdas m = [] then Inr []
                      else result_bind (encode_lambda_chunk enc (pm_lambdas m)) (\<lambda>b. Inr [(str_bytes ''FunT'', b)])) (\<lambda>fun_c.
         result_bind (encode_literal_chunk t (pm_literals m)) (\<lambda>lit_b.
         result_bind (if pm_line_info m = [] then Inr []
                      else result_bind (encode_line_chunk (pm_line_info m)) (\<lambda>b. Inr [(str_bytes ''Line'', b)])) (\<lambda>line_c.
           Inr (frame_container
             ([(str_bytes ''AtU8'', atoms_b), (str_bytes ''Code'', code_b), (str_bytes ''ImpT'', imp_b), (str_bytes ''ExpT'', exp_b)] @
              fun_c @ (case lit_b of None \<Rightarrow> [] | Some b \<Rightarrow> [(str_bytes ''LitT'', b)]) @
              [(str_bytes ''StrT'', encode_string_chunk (pm_string_table m))] @ line_c @
              (case pm_type_chunk m of None \<Rightarrow> [] | Some b \<Rightarrow> [(str_bytes ''Type'', b)])))))))))))"

section \<open>The container round trip\<close>

lemma length_str_bytes [simp]: "length (str_bytes s) = length s"
  by (simp add: str_bytes_def)

lemma slice_at: "length pre = offset \<Longrightarrow> length mid = n \<Longrightarrow> take n (drop offset (pre @ mid @ post)) = mid"
  by simp

lemma parse_chunks_framed:
  assumes "\<forall>(tg, chunk)\<in>set cs. length tg = 4" "length (pre @ concat (map frame_chunk cs)) < 2 ^ 32"
  shows "parse_chunks (pre @ concat (map frame_chunk cs)) (length (pre @ concat (map frame_chunk cs))) (length pre) = Inr cs"
  using assms
proof (induction cs arbitrary: pre)
  case Nil
  then show ?case by (simp add: parse_chunks.simps)
next
  case (Cons tc cs)
  obtain tg chunk where tc: "tc = (tg, chunk)" by force
  let ?bytes = "pre @ concat (map frame_chunk (tc # cs))" and ?later = "concat (map frame_chunk cs)"
  let ?n = "of_nat (length chunk) :: u32" and ?pad = "replicate (padding (length chunk)) 0"
  have tg: "length tg = 4" using Cons.prems(1) by (simp add: tc)
  have bytes: "?bytes = pre @ tg @ u32_to_be ?n @ chunk @ ?pad @ ?later" by (simp add: tc frame_chunk_def)
  have len: "length ?bytes = length pre + 8 + length chunk + padding (length chunk) + length ?later"
    unfolding bytes using tg by simp
  then have "length chunk < 2 ^ 32" using Cons.prems(2) by simp
  then have n: "unat ?n = length chunk" by (rule unat_of_nat_u32)
  have fourcc: "read_fourcc_at ?bytes (length pre) = Inr tg"
    unfolding read_fourcc_at_def bytes using tg by simp
  have word: "read_u32_at ?bytes (length pre + 4) = Inr ?n"
    unfolding read_u32_at_def bytes using slice_at [of "pre @ tg" "length pre + 4" "u32_to_be ?n" 4 "chunk @ ?pad @ ?later"] tg
    by simp
  have data: "take (length chunk) (drop (length pre + 8) ?bytes) = chunk"
    unfolding bytes using slice_at [of "pre @ tg @ u32_to_be ?n" "length pre + 8" chunk "length chunk" "?pad @ ?later"] tg
    by simp
  let ?next = "length pre + 8 + length chunk + padding (length chunk)"
  have "parse_chunks ((pre @ frame_chunk tc) @ ?later) (length ((pre @ frame_chunk tc) @ ?later)) (length (pre @ frame_chunk tc)) = Inr cs"
    using Cons by (intro Cons.IH) simp_all
  moreover have "length (pre @ frame_chunk tc) = ?next" using tg by (simp add: tc frame_chunk_def)
  moreover have "(pre @ frame_chunk tc) @ ?later = ?bytes" by simp
  ultimately have rest_chunks: "parse_chunks ?bytes (length ?bytes) ?next = Inr cs" by (simp add: add.assoc)
  have "?next < 2 ^ 64" "\<not> ?next > length ?bytes" "\<not> length pre \<ge> length ?bytes" "\<not> length ?bytes - length pre < 8"
    using len Cons.prems(2) by simp_all
  then show ?case
    unfolding parse_chunks.simps [of ?bytes "length ?bytes" "length pre"] fourcc word
    using n data rest_chunks by (simp add: Let_def tc add.assoc)
qed

lemma frame_container_parses:
  assumes "\<forall>(tg, chunk)\<in>set cs. length tg = 4" "length (frame_container cs) < 2 ^ 32"
  shows "parse_beam_chunks (frame_container cs) = Inr cs"
proof -
  let ?later = "concat (map frame_chunk cs)"
  let ?body = "str_bytes ''BEAM'' @ ?later"
  let ?n = "of_nat (length ?body) :: u32"
  let ?pre = "str_bytes ''FOR1'' @ u32_to_be ?n @ str_bytes ''BEAM''"
  have bytes: "frame_container cs = ?pre @ ?later" by (simp add: frame_container_def Let_def)
  have "length ?body < 2 ^ 32" using assms(2) by (simp add: bytes)
  then have n: "unat ?n = length ?body" by (rule unat_of_nat_u32)
  have "take 4 (frame_container cs) = str_bytes ''FOR1''" "take 4 (drop 8 (frame_container cs)) = str_bytes ''BEAM''"
    "read_u32_at (frame_container cs) 4 = Inr ?n"
    unfolding bytes read_u32_at_def by simp_all
  moreover have "parse_chunks (?pre @ ?later) (length (?pre @ ?later)) (length ?pre) = Inr cs"
    using assms by (intro parse_chunks_framed) (simp_all add: bytes)
  then have "parse_chunks (frame_container cs) (unat ?n + 8) 12 = Inr cs" unfolding n bytes by simp
  moreover have "length (frame_container cs) = unat ?n + 8" unfolding n bytes by simp
  ultimately show ?thesis using assms(2) n by (simp add: parse_beam_chunks_def Let_def)
qed

section \<open>The module round trip\<close>

text \<open>What decoding the \<open>LitT\<close> chunk charges for the bytes it copies.\<close>

definition literal_payload :: "AtomTable \<Rightarrow> Literal list \<Rightarrow> nat" where
  "literal_payload t lits = (case encode_literal_chunk t lits of Inr (Some bs) \<Rightarrow> length bs - 4 | _ \<Rightarrow> 0)"

definition module_nodes :: "ParsedModule \<Rightarrow> nat" where
  "module_nodes m = length (pm_atoms m) + table_nodes (pm_literals m) + length (pm_imports m) + length (pm_exports m) +
     length (pm_lambdas m) + length (pm_line_info m)"

definition module_bytes :: "Layout \<Rightarrow> AtomTable \<Rightarrow> ParsedModule \<Rightarrow> nat" where
  "module_bytes lay t m = length (pm_atoms m) * 4 +
     (literal_payload t (pm_literals m) + length (pm_literals m) * size_of_Literal lay + table_bytes lay (pm_literals m)) +
     length (pm_imports m) * size_of_ImportEntry lay + length (pm_exports m) * size_of_ExportEntry lay +
     length (pm_lambdas m) * size_of_LambdaEntry lay + length (pm_line_info m) * size_of_LineInfo lay"

definition module_ok :: "Layout \<Rightarrow> AtomTable \<Rightarrow> ParsedModule \<Rightarrow> bool" where
  "module_ok lay t m \<longleftrightarrow>
     pm_atoms m \<noteq> [] \<and> pm_name m = hd (pm_atoms m) \<and>
     (\<forall>a\<in>set (pm_atoms m). name_ok t a \<and> (\<forall>n. atom_resolve a t = Some n \<longrightarrow> length n < 2 ^ 63)) \<and>
     (\<forall>i\<in>set (pm_instructions m). instruction_ok (pm_atoms m) (pm_literals m) (pm_type_chunk m \<noteq> None) i) \<and>
     (\<forall>x\<in>set (pm_imports m). imp_module x \<in> set (pm_atoms m) \<and> imp_function x \<in> set (pm_atoms m)) \<and>
     (\<forall>x\<in>set (pm_exports m). exp_function x \<in> set (pm_atoms m)) \<and>
     (\<forall>x\<in>set (pm_lambdas m). lam_function x \<in> set (pm_atoms m) \<and>
        lambda_unique_id t (pm_name m) (lam_function x) (lam_arity x) (lam_num_free x) = Inr (lam_unique_id x)) \<and>
     (\<forall>l\<in>set (pm_literals m). literal_ok t l) \<and>
     length (pm_atoms m) \<le> MAX_TABLE_ENTRIES \<and> length (pm_imports m) \<le> MAX_TABLE_ENTRIES \<and>
     length (pm_exports m) \<le> MAX_TABLE_ENTRIES \<and> length (pm_lambdas m) \<le> MAX_TABLE_ENTRIES \<and>
     length (pm_literals m) \<le> MAX_TABLE_ENTRIES \<and> length (pm_line_info m) \<le> MAX_TABLE_ENTRIES \<and>
     module_nodes m \<le> nodes_remaining default_budget \<and> module_bytes lay t m \<le> bytes_remaining default_budget \<and>
     table_depth (pm_literals m) \<le> depth_remaining default_budget"

lemma module_okD:
  assumes "module_ok lay t m"
  shows "pm_atoms m \<noteq> []" "pm_name m = hd (pm_atoms m)"
    "\<forall>a\<in>set (pm_atoms m). name_ok t a \<and> (\<forall>n. atom_resolve a t = Some n \<longrightarrow> length n < 2 ^ 63)"
    "\<forall>i\<in>set (pm_instructions m). instruction_ok (pm_atoms m) (pm_literals m) (pm_type_chunk m \<noteq> None) i"
    "\<forall>x\<in>set (pm_imports m). imp_module x \<in> set (pm_atoms m) \<and> imp_function x \<in> set (pm_atoms m)"
    "\<forall>x\<in>set (pm_exports m). exp_function x \<in> set (pm_atoms m)"
    "\<forall>x\<in>set (pm_lambdas m). lam_function x \<in> set (pm_atoms m)"
    "\<forall>x\<in>set (pm_lambdas m). lambda_unique_id t (pm_name m) (lam_function x) (lam_arity x) (lam_num_free x) = Inr (lam_unique_id x)"
    "\<forall>l\<in>set (pm_literals m). literal_ok t l"
    "length (pm_atoms m) \<le> MAX_TABLE_ENTRIES" "length (pm_imports m) \<le> MAX_TABLE_ENTRIES"
    "length (pm_exports m) \<le> MAX_TABLE_ENTRIES" "length (pm_lambdas m) \<le> MAX_TABLE_ENTRIES"
    "length (pm_literals m) \<le> MAX_TABLE_ENTRIES" "length (pm_line_info m) \<le> MAX_TABLE_ENTRIES"
    "length (pm_atoms m) < 2 ^ 32" "length (pm_literals m) < 2 ^ 63"
  using assms by (auto simp: module_ok_def MAX_TABLE_ENTRIES_def)

lemma default_affords:
  assumes "module_ok lay t m"
  shows "affords \<lparr>st_budget = default_budget, st_table = t\<rparr> (module_nodes m) (module_bytes lay t m) (table_depth (pm_literals m))"
  using assms by (simp add: module_ok_def affords_def default_budget_def)

lemma assign_ids_back:
  "\<forall>x\<in>set ls. lambda_unique_id t name (lam_function x) (lam_arity x) (lam_num_free x) = Inr (lam_unique_id x) \<Longrightarrow>
   assign_lambda_unique_ids t name (map (\<lambda>x. x\<lparr>lam_unique_id := 0\<rparr>) ls) = Inr ls"
  by (induction ls) auto

lemma encode_literal_chunk_cases:
  assumes "\<forall>l\<in>set lits. literal_ok t l"
  shows "encode_literal_chunk t lits = Inl ValueOutOfRange \<or> (\<exists>b. encode_literal_chunk t lits = Inr b \<and> (b = None \<longleftrightarrow> lits = []))"
proof -
  have "encode_sized_literals t lits = Inl ValueOutOfRange \<or> (\<exists>b. encode_sized_literals t lits = Inr b)"
    using assms
  proof (induction lits)
    case (Cons l lits)
    obtain b where "encode_literal t l = Inr b" using encode_literal_reads [of t l undefined] Cons.prems by auto
    then show ?case using Cons by (auto simp: u32_len_def)
  qed simp
  then show ?thesis by (auto simp: encode_literal_chunk_def u32_len_def)
qed

text \<open>The chunks an encoded module has, and where they are found.\<close>

lemma str_bytes_eq [simp]: "str_bytes a = str_bytes b \<longleftrightarrow> a = b"
  using inj_str_bytes by (auto dest: injD)

definition module_chunks ::
  "ParsedModule \<Rightarrow> u8 list \<Rightarrow> u8 list \<Rightarrow> u8 list \<Rightarrow> u8 list \<Rightarrow> u8 list \<Rightarrow> u8 list option \<Rightarrow> u8 list \<Rightarrow> chunk list" where
  "module_chunks m atoms_b code_b imp_b exp_b fun_b lit_b line_b =
     [(str_bytes ''AtU8'', atoms_b), (str_bytes ''Code'', code_b), (str_bytes ''ImpT'', imp_b), (str_bytes ''ExpT'', exp_b)] @
     (if pm_lambdas m = [] then [] else [(str_bytes ''FunT'', fun_b)]) @
     (case lit_b of None \<Rightarrow> [] | Some b \<Rightarrow> [(str_bytes ''LitT'', b)]) @
     [(str_bytes ''StrT'', encode_string_chunk (pm_string_table m))] @
     (if pm_line_info m = [] then [] else [(str_bytes ''Line'', line_b)]) @
     (case pm_type_chunk m of None \<Rightarrow> [] | Some b \<Rightarrow> [(str_bytes ''Type'', b)])"

lemma find_module_chunks:
  fixes m atoms_b code_b imp_b exp_b fun_b lit_b line_b
  defines "cs \<equiv> module_chunks m atoms_b code_b imp_b exp_b fun_b lit_b line_b"
  shows "find_chunk cs ''AtU8'' = Some atoms_b" "find_chunk cs ''Code'' = Some code_b" "find_chunk cs ''ImpT'' = Some imp_b"
    "find_chunk cs ''ExpT'' = Some exp_b" "find_chunk cs ''FunT'' = (if pm_lambdas m = [] then None else Some fun_b)"
    "find_chunk cs ''LitT'' = lit_b" "find_chunk cs ''StrT'' = Some (pm_string_table m)"
    "find_chunk cs ''Line'' = (if pm_line_info m = [] then None else Some line_b)" "find_chunk cs ''Type'' = pm_type_chunk m"
    "\<forall>(tg, chunk)\<in>set cs. length tg = 4"
  by (auto simp: cs_def module_chunks_def find_chunk_def encode_string_chunk_def split: option.splits)

lemma affords_after:
  "affords s k n d \<Longrightarrow> k1 + k2 \<le> k \<Longrightarrow> n1 + n2 \<le> n \<Longrightarrow> d2 \<le> d \<Longrightarrow> affords (spend k1 n1 s) k2 n2 d2"
  by (intro affords_spend) (rule affords_mono)

lemma chunk_shorter: "(tg, chunk) \<in> set cs \<Longrightarrow> length chunk \<le> length (frame_container cs)"
proof -
  assume "(tg, chunk) \<in> set cs"
  then obtain as bs where "cs = as @ (tg, chunk) # bs" by (auto dest: split_list)
  then show ?thesis by (simp add: frame_container_def frame_chunk_def Let_def)
qed

lemma as_load_Inr: "m s = (Inr a, s') \<Longrightarrow> as_load m s = (Inr a, s')"
  by (simp add: as_load_def)

lemma encode_atom_chunk_ok:
  assumes "module_ok lay t m"
  shows "\<exists>b. encode_atom_chunk t (pm_atoms m) = Inr b"
proof -
  obtain names where "resolve_names t (pm_atoms m) = Inr names" "length names = length (pm_atoms m)"
    using resolve_names_ok [of "pm_atoms m" t] module_okD(3) [OF assms] by (meson list_all2_lengthD)
  then show ?thesis using module_okD(10) [OF assms] by (simp add: encode_atom_chunk_def MAX_TABLE_ENTRIES_def Let_def)
qed

lemma literals_load:
  assumes ok: "module_ok lay t m" and enc: "encode_literal_chunk t (pm_literals m) = Inr lit_b"
    and found: "find_chunk cs ''LitT'' = lit_b" and len: "\<And>b. lit_b = Some b \<Longrightarrow> length b < 2 ^ 64" and t: "st_table s = t"
    and aff: "affords s (table_nodes (pm_literals m)) (literal_payload t (pm_literals m) +
      length (pm_literals m) * size_of_Literal lay + table_bytes lay (pm_literals m)) (table_depth (pm_literals m))"
  shows "optional_chunk cs ''LitT'' (decode_literal_chunk lay inflate) s = (Inr (pm_literals m),
    spend (table_nodes (pm_literals m)) (literal_payload t (pm_literals m) +
      length (pm_literals m) * size_of_Literal lay + table_bytes lay (pm_literals m)) s)"
proof (cases lit_b)
  case None
  then have "pm_literals m = []" using enc encode_literal_chunk_cases [OF module_okD(9) [OF ok]] by auto
  then show ?thesis using None found enc
    by (simp add: optional_chunk_def dreturn_def table_nodes_def table_bytes_def literal_payload_def)
next
  case (Some b)
  then have p: "literal_payload t (pm_literals m) = length b - 4" using enc by (simp add: literal_payload_def)
  show ?thesis unfolding optional_chunk_def found Some option.case p
    by (rule as_load_Inr, rule literal_chunk_reads [OF module_okD(9) [OF ok] enc [unfolded Some] module_okD(14) [OF ok] len [OF Some] t])
      (use aff p in simp)
qed

lemma lambdas_load:
  assumes ok: "module_ok lay t m" and found: "find_chunk cs ''FunT'' = (if pm_lambdas m = [] then None else Some b)"
    and dec: "decode_lambda_chunk lay b (pm_atoms m) s = (Inr (map (\<lambda>x. x\<lparr>lam_unique_id := 0\<rparr>) (pm_lambdas m)),
      spend (length (pm_lambdas m)) (length (pm_lambdas m) * size_of_LambdaEntry lay) s)" and t: "st_table s = t"
  shows "optional_chunk cs ''FunT'' (decode_lambdas lay (pm_name m) (pm_atoms m)) s =
    (Inr (pm_lambdas m), spend (length (pm_lambdas m)) (length (pm_lambdas m) * size_of_LambdaEntry lay) s)"
proof (cases "pm_lambdas m = []")
  case False
  then have "find_chunk cs ''FunT'' = Some b" using found by simp
  then show ?thesis unfolding optional_chunk_def
    by (simp add: as_load_Inr decode_lambdas_def dbind_def dec t lift_result_def dreturn_def assign_ids_back [OF module_okD(8) [OF ok]])
qed (use found in \<open>simp add: optional_chunk_def dreturn_def\<close>)

lemma module_loads:
  fixes fun_b line_b :: "u8 list"
  assumes ok: "module_ok lay t m"
    and atoms: "encode_atom_chunk t (pm_atoms m) = Inr atoms_b"
    and code: "length code_b < 2 ^ 64 \<Longrightarrow> decode_code_chunk code_b (pm_atoms m) (pm_literals m) = Inr (pm_instructions m, [])"
    and lits: "encode_literal_chunk t (pm_literals m) = Inr lit_b"
    and imp: "\<And>s. st_table s = t \<Longrightarrow> affords s (length (pm_imports m)) (length (pm_imports m) * size_of_ImportEntry lay) 0 \<Longrightarrow>
      decode_import_chunk lay imp_b (pm_atoms m) s = (Inr (pm_imports m), spend (length (pm_imports m)) (length (pm_imports m) * size_of_ImportEntry lay) s)"
    and exp: "\<And>s. st_table s = t \<Longrightarrow> affords s (length (pm_exports m)) (length (pm_exports m) * size_of_ExportEntry lay) 0 \<Longrightarrow>
      decode_export_chunk lay exp_b (pm_atoms m) s = (Inr (pm_exports m), spend (length (pm_exports m)) (length (pm_exports m) * size_of_ExportEntry lay) s)"
    and lam: "\<And>s. st_table s = t \<Longrightarrow> affords s (length (pm_lambdas m)) (length (pm_lambdas m) * size_of_LambdaEntry lay) 0 \<Longrightarrow>
      decode_lambda_chunk lay fun_b (pm_atoms m) s = (Inr (map (\<lambda>x. x\<lparr>lam_unique_id := 0\<rparr>) (pm_lambdas m)),
        spend (length (pm_lambdas m)) (length (pm_lambdas m) * size_of_LambdaEntry lay) s)"
    and line: "pm_line_info m \<noteq> [] \<Longrightarrow> encode_line_chunk (pm_line_info m) = Inr line_b"
    and len: "length (frame_container (module_chunks m atoms_b code_b imp_b exp_b fun_b lit_b line_b)) < 2 ^ 32"
  shows "load_beam_chunks lay inflate (frame_container (module_chunks m atoms_b code_b imp_b exp_b fun_b lit_b line_b)) t = (Inr m, t)"
proof -
  let ?cs = "module_chunks m atoms_b code_b imp_b exp_b fun_b lit_b line_b"
  note find = find_module_chunks [of m atoms_b code_b imp_b exp_b fun_b lit_b line_b]
  have short: "length b < 2 ^ 64" if "(tg, b) \<in> set ?cs" for tg b using chunk_shorter [OF that] len by simp
  have found: "length b < 2 ^ 64" if "find_chunk ?cs tg = Some b" for tg b
    using short that by (auto simp: find_chunk_def dest: map_of_SomeD)
  let ?s0 = "\<lparr>st_budget = default_budget, st_table = t\<rparr>"
  note all = default_affords [OF ok, unfolded module_nodes_def module_bytes_def]
  let ?na = "length (pm_atoms m)" and ?nl = "table_nodes (pm_literals m)"
    and ?bl = "literal_payload t (pm_literals m) + length (pm_literals m) * size_of_Literal lay + table_bytes lay (pm_literals m)"
  let ?ni = "length (pm_imports m)" and ?ne = "length (pm_exports m)" and ?nf = "length (pm_lambdas m)" and ?nn = "length (pm_line_info m)"
  let ?bi = "?ni * size_of_ImportEntry lay" and ?be = "?ne * size_of_ExportEntry lay" and ?bf = "?nf * size_of_LambdaEntry lay"
    and ?bn = "?nn * size_of_LineInfo lay"
  let ?s1 = "spend ?na (?na * 4) ?s0"
  let ?s2 = "spend (?na + ?nl) (?na * 4 + ?bl) ?s0"
  let ?s3 = "spend (?na + ?nl + ?ni) (?na * 4 + ?bl + ?bi) ?s0"
  let ?s4 = "spend (?na + ?nl + ?ni + ?ne) (?na * 4 + ?bl + ?bi + ?be) ?s0"
  let ?s5 = "spend (?na + ?nl + ?ni + ?ne + ?nf) (?na * 4 + ?bl + ?bi + ?be + ?bf) ?s0"
  let ?s6 = "spend (?na + ?nl + ?ni + ?ne + ?nf + ?nn) (?na * 4 + ?bl + ?bi + ?be + ?bf + ?bn) ?s0"
  have "affords ?s0 ?na (?na * 4) 0" using all by (rule affords_mono) simp_all
  then have 1: "as_load (decode_atom_chunk atoms_b) ?s0 = (Inr (pm_atoms m), ?s1)"
    by (intro as_load_Inr atom_chunk_reads [OF module_okD(3) [OF ok] module_okD(10) [OF ok] atoms found [OF find(1)]]) simp_all
  have 2: "optional_chunk ?cs ''LitT'' (decode_literal_chunk lay inflate) ?s1 = (Inr (pm_literals m), ?s2)"
    using literals_load [OF ok lits find(6) found [OF find(6) [THEN trans]] _ affords_after [OF all], of "?na" "?na * 4" inflate] by simp
  have 3: "optional_chunk ?cs ''ImpT'' (\<lambda>b. decode_import_chunk lay b (pm_atoms m)) ?s2 = (Inr (pm_imports m), ?s3)"
    using imp [OF _ affords_after [OF all], of "?na + ?nl" "?na * 4 + ?bl"] find(3) by (simp add: optional_chunk_def as_load_Inr)
  have 4: "optional_chunk ?cs ''ExpT'' (\<lambda>b. decode_export_chunk lay b (pm_atoms m)) ?s3 = (Inr (pm_exports m), ?s4)"
    using exp [OF _ affords_after [OF all], of "?na + ?nl + ?ni" "?na * 4 + ?bl + ?bi"] find(4) by (simp add: optional_chunk_def as_load_Inr)
  have 5: "optional_chunk ?cs ''FunT'' (decode_lambdas lay (pm_name m) (pm_atoms m)) ?s4 = (Inr (pm_lambdas m), ?s5)"
    using lambdas_load [OF ok find(5) lam [OF _ affords_after [OF all], of "?na + ?nl + ?ni + ?ne" "?na * 4 + ?bl + ?bi + ?be"]] by simp
  have 6: "optional_chunk ?cs ''Line'' (decode_line_chunk lay) ?s5 = (Inr (pm_line_info m), ?s6)"
  proof (cases "pm_line_info m = []")
    case False
    have "affords ?s5 ?nn ?bn 0" using affords_after [OF all, of _ ?nn _ ?bn 0] by simp
    from line_chunk_reads [OF False module_okD(15) [OF ok] line [OF False] _ this] False find(8) found [of "''Line''" line_b]
    show ?thesis by (simp add: optional_chunk_def as_load_Inr)
  qed (use find(8) in \<open>simp add: optional_chunk_def dreturn_def\<close>)
  have 7: "load_code code_b (pm_atoms m) (pm_literals m) ?s2 = (Inr (pm_instructions m, []), ?s2)"
    using code found [OF find(2)] by (simp add: load_code_def)
  have parsed: "parse_beam_chunks (frame_container ?cs) = Inr ?cs" by (rule frame_container_parses [OF find(10) len])
  have name: "(case pm_atoms m of [] \<Rightarrow> Inl (DecodeError AtomChunkEmpty) | a # _ \<Rightarrow> Inr a) = Inr (pm_name m)"
    using module_okD(1,2) [OF ok] by (cases "pm_atoms m") simp_all
  have "load_chunks lay inflate (frame_container ?cs) ?s0 = (Inr m, ?s6)"
    unfolding load_chunks_def
    by (simp only: dbind_def load_result_def parsed sum.case prod.case find(1,2,7,9) option.case ok_or_simps 1 name 2 7 3 4 5 6
        dreturn_def append_Nil2 decode_string_chunk_def) (cases m, simp)
  then show ?thesis by (simp add: load_beam_chunks_def)
qed

lemma beam_file_loads:
  assumes "module_ok lay t m"
  shows "case encode_module t m of
      Inl e \<Rightarrow> e = ValueOutOfRange
    | Inr bytes \<Rightarrow> length bytes < 2 ^ 32 \<longrightarrow> load_beam_chunks lay inflate bytes t = (Inr m, t)"
proof -
  let ?enc = "atom_encoder_new (pm_atoms m) (pm_type_chunk m \<noteq> None)"
  let ?s0 = "\<lparr>st_budget = default_budget, st_table = t\<rparr>"
  note ok = module_okD [OF assms]
  obtain atoms_b where atoms: "encode_atom_chunk t (pm_atoms m) = Inr atoms_b" using encode_atom_chunk_ok [OF assms] by blast
  obtain code_b where code: "encode_code_chunk ?enc (pm_instructions m) = Inr code_b"
    "length code_b < 2 ^ 64 \<Longrightarrow> decode_code_chunk code_b (pm_atoms m) (pm_literals m) = Inr (pm_instructions m, [])"
    using code_chunk_encodes [OF ok(4,16,17)] by blast
  obtain imp_b where imp: "encode_import_chunk ?enc (pm_imports m) = Inr imp_b"
    using import_chunk_encodes [OF ok(5,16,11)] by blast
  obtain exp_b where exp: "encode_export_chunk ?enc (pm_exports m) = Inr exp_b"
    using export_chunk_encodes [OF ok(6,16,12)] by blast
  obtain fun_b where lam: "encode_lambda_chunk ?enc (pm_lambdas m) = Inr fun_b"
    using lambda_chunk_encodes [OF ok(7,16,13)] by blast
  obtain line_b where line: "encode_line_chunk (pm_line_info m) = Inr line_b"
    using ok(15) by (simp add: encode_line_chunk_def count_u32_def MAX_TABLE_ENTRIES_def)
  consider "encode_literal_chunk t (pm_literals m) = Inl ValueOutOfRange"
    | lit_b where "encode_literal_chunk t (pm_literals m) = Inr lit_b" using encode_literal_chunk_cases [OF ok(9)] by blast
  then show ?thesis
  proof cases
    case 1
    then show ?thesis using atoms code(1) imp exp lam line by (simp add: encode_module_def Let_def)
  next
    case 2
    have "encode_module t m = Inr (frame_container (module_chunks m atoms_b code_b imp_b exp_b fun_b lit_b line_b))"
      using atoms code(1) imp exp lam line 2 by (simp add: encode_module_def module_chunks_def Let_def)
    then show ?thesis
      using module_loads [OF assms atoms code(2) 2 import_chunk_decodes [OF ok(5,16,11) imp] export_chunk_decodes [OF ok(6,16,12) exp]
          lambda_chunk_decodes [OF ok(7,16,13) lam] line] by simp
  qed
qed

text \<open>
  C3. Writing a module and loading it back gives the same module: atoms, instructions, imports,
  exports, lambdas with their stable identifiers, literals, strings, lines and the type chunk. For
  a well-formed module within the loader's limits (\<open>module_ok\<close>: atoms interned, operands and
  literals expressible, tables and literal nesting within the decode budget), the encoder either
  reports a literal too large for its 32-bit length field, or gives bytes that, when they fit a
  container, the loader reads back as the module, leaving the atom table as it was.
\<close>

theorem beam_file_round_trip:
  assumes "module_ok lay t m"
  shows "case encode_module t m of
      Inl e \<Rightarrow> e = ValueOutOfRange
    | Inr bytes \<Rightarrow> length bytes < 2 ^ 32 \<longrightarrow> load_beam_chunks lay inflate bytes t = (Inr m, t)"
  by (rule beam_file_loads [OF assms])

text \<open>A module named \<open>ok\<close> with an export, a tuple literal, a line and three instructions.\<close>

definition sample_layout :: Layout where
  "sample_layout = \<lparr>size_of_ImportEntry = 12, size_of_ExportEntry = 12, size_of_LambdaEntry = 24, size_of_LineInfo = 8,
     size_of_Literal = 32, size_of_pair = 64\<rparr>"

definition sample_module :: ParsedModule where
  "sample_module = \<lparr>pm_name = 0, pm_atoms = [0], pm_instructions = [I_Label 1, I_Move (OpLiteral 0) (OpX 0), I_Return],
     pm_imports = [], pm_exports = [\<lparr>exp_function = 0, exp_arity = 0, exp_label = 1\<rparr>], pm_lambdas = [],
     pm_literals = [LitTuple [LitInteger 300, LitAtom 0]], pm_string_table = [104, 105],
     pm_line_info = [\<lparr>li_file = 1, li_line = 7\<rparr>], pm_type_chunk = None\<rparr>"

lemma common_atom_ok: "atom_resolve 0 atom_table_new = Some (str_bytes ''ok'')" "atom_lookup (str_bytes ''ok'') atom_table_new = Some 0"
proof -
  have "COMMON_ATOMS ! 0 = ''ok''" "0 < length COMMON_ATOMS" by (simp_all add: COMMON_ATOMS_def)
  then have "by_name atom_table_new (str_bytes ''ok'') = Some 0 \<and> by_index atom_table_new 0 = Some (str_bytes ''ok'')"
    using seat_common_fold [OF common_atoms_distinct, of "str_bytes ''ok''" 0] by (simp only: atom_table_new_def) simp
  then show "atom_resolve 0 atom_table_new = Some (str_bytes ''ok'')" "atom_lookup (str_bytes ''ok'') atom_table_new = Some 0"
    unfolding atom_resolve_def atom_lookup_def by blast+
qed

lemma sample_literals:
  "encode_literal_chunk atom_table_new (pm_literals sample_module) =
     Inr (Some (u32_to_be 0 @ u32_to_be 1 @ u32_to_be 12 @ [131, 104, 2] @ (98 # u32_to_be 300) @ [119, 2] @ str_bytes ''ok''))"
  by (simp add: sample_module_def encode_literal_chunk_def encode_integer_def encoder_resolve_def common_atom_ok
      encode_atom_name_def u32_len_def)

lemma sample_module_ok: "module_ok sample_layout atom_table_new sample_module"
proof -
  have name: "name_ok atom_table_new 0" "short_name atom_table_new 0"
    using common_atom_ok by (simp_all add: name_ok_def short_name_def) (simp_all add: str_bytes_def)
  have "literal_payload atom_table_new (pm_literals sample_module) = 20" by (simp add: literal_payload_def sample_literals)
  then have "module_bytes sample_layout atom_table_new sample_module \<le> bytes_remaining default_budget"
    by (simp add: module_bytes_def sample_layout_def table_bytes_def default_budget_def) (simp add: sample_module_def)
  moreover have "module_nodes sample_module \<le> nodes_remaining default_budget" "table_depth (pm_literals sample_module) \<le> depth_remaining default_budget"
    by (simp_all add: module_nodes_def table_nodes_def table_depth_def default_budget_def sample_module_def)
  ultimately show ?thesis using name
    by (simp add: module_ok_def) (simp add: sample_module_def common_atom_ok MAX_TABLE_ENTRIES_def instruction_ok_def wire_ok_def)
qed

lemma sample_module_bytes: "\<exists>bytes. encode_module atom_table_new sample_module = Inr bytes \<and> length bytes < 2 ^ 32"
proof -
  let ?enc = "atom_encoder_new [0] False"
  let ?m = sample_module
  have atoms: "encode_atom_chunk atom_table_new [0] = Inr (u32_to_be 1 @ 2 # str_bytes ''ok'')"
    by (simp add: encode_atom_chunk_def common_atom_ok encode_name_def encoder_resolve_def Let_def)
  obtain code where code: "encode_code_chunk ?enc (pm_instructions ?m) = Inr code" "length code = 27"
    by (auto simp: sample_module_def encode_code_chunk_def encode_instruction_def push_unsigned.simps push_signed_def
        push_extended.simps index_to_u64_def Let_def)
  have tables: "encode_import_chunk ?enc [] = Inr (u32_to_be 0)"
    "encode_export_chunk ?enc (pm_exports ?m) = Inr (u32_to_be 1 @ u32_to_be 1 @ u32_to_be 0 @ u32_to_be 1)"
    by (simp_all add: encode_import_chunk_def encode_export_chunk_def encode_export_entry_def count_u32_def sample_module_def
        index_of_def atom_encoder_new_def or_insert_def)
  obtain line where line: "encode_line_chunk (pm_line_info ?m) = Inr line" "length line = 22"
    by (auto simp: sample_module_def encode_line_chunk_def count_u32_def push_unsigned.simps push_signed_def)
  have fields: "pm_atoms ?m = [0]" "pm_imports ?m = []" "pm_lambdas ?m = []" "pm_type_chunk ?m = None" "pm_line_info ?m \<noteq> []"
    "length (pm_string_table ?m) = 2" by (simp_all add: sample_module_def)
  show ?thesis using code line fields
    by (simp add: encode_module_def atoms tables sample_literals frame_container_def frame_chunk_def padding_def encode_string_chunk_def Let_def)
qed

theorem beam_file_round_trip_witness:
  "\<exists>bytes. encode_module atom_table_new sample_module = Inr bytes \<and>
     load_beam_chunks sample_layout (\<lambda>_ _. None) bytes atom_table_new = (Inr sample_module, atom_table_new)"
proof -
  obtain bytes where "encode_module atom_table_new sample_module = Inr bytes" "length bytes < 2 ^ 32"
    using sample_module_bytes by blast
  then show ?thesis using beam_file_round_trip [OF sample_module_ok, of "\<lambda>_ _. None"] by simp
qed

end
