(* ===== verification/Load_Bounds.thy ===== *)
theory Load_Bounds
  imports Beam_File
begin

text \<open>
  What loading can cost on any input (\<^verbatim>\<open>loader/load.rs\<close>, \<^verbatim>\<open>loader/decode/budget.rs\<close>): its
  recursions end, and the decode budget bounds the atoms it interns and the entries of the tables it
  builds. Literals and instructions that the budget does not pay for cost a byte of the file each.
\<close>

section \<open>Decoders that return and stay within the budget\<close>

definition returns :: "(DecodeState \<Rightarrow> ('e option + 'a) \<times> DecodeState) \<Rightarrow> bool" where
  "returns m \<longleftrightarrow> (\<forall>s. fst (m s) \<noteq> Inl None)"

definition interned :: "u8 list list \<Rightarrow> AtomTable \<Rightarrow> AtomTable" where
  "interned names t = fold (\<lambda>n t. snd (intern n t)) names t"

text \<open>Every atom interned is charged, and a result \<open>a\<close> cost at least \<open>f a\<close> nodes.\<close>

definition charged :: "('a \<Rightarrow> nat) \<Rightarrow> DecodeState \<Rightarrow> ('e option + 'a) \<times> DecodeState \<Rightarrow> bool" where
  "charged f s rs \<longleftrightarrow>
     nodes_remaining (st_budget (snd rs)) + (case fst rs of Inl _ \<Rightarrow> 0 | Inr a \<Rightarrow> f a) \<le> nodes_remaining (st_budget s) \<and>
     (\<exists>names. st_table (snd rs) = interned names (st_table s) \<and>
        length names + atoms_remaining (st_budget (snd rs)) = atoms_remaining (st_budget s))"

definition spends :: "('a \<Rightarrow> nat) \<Rightarrow> (DecodeState \<Rightarrow> ('e option + 'a) \<times> DecodeState) \<Rightarrow> bool" where
  "spends f m \<longleftrightarrow> (\<forall>s. charged f s (m s))"

lemma charged_same:
  assumes "st_table s' = st_table s" "atoms_remaining (st_budget s') = atoms_remaining (st_budget s)"
    "nodes_remaining (st_budget s') + (case r of Inl _ \<Rightarrow> 0 | Inr a \<Rightarrow> f a) \<le> nodes_remaining (st_budget s)"
  shows "charged f s (r, s')"
  using assms unfolding charged_def by (auto intro: exI [of _ "[]"] simp: interned_def)

lemma returns_dbind:
  assumes "returns m" "\<And>a. returns (k a)"
  shows "returns (dbind m k)"
  unfolding returns_def
proof
  fix s
  show "fst (dbind m k s) \<noteq> Inl None"
    using assms unfolding returns_def by (cases "m s"; cases "fst (m s)") (auto simp: dbind_def dest: spec [of _ s])
qed

lemma charged_trans:
  assumes "charged f s (Inr a :: 'e option + 'a, s')" "charged (\<lambda>b. h b - f a) s' rs"
  shows "charged h s rs"
proof -
  from assms obtain ns ns' where
    "st_table (snd rs) = interned (ns @ ns') (st_table s)"
    "length (ns @ ns') + atoms_remaining (st_budget (snd rs)) = atoms_remaining (st_budget s)"
    unfolding charged_def interned_def by fastforce
  moreover have "nodes_remaining (st_budget (snd rs)) + (case fst rs of Inl _ \<Rightarrow> 0 | Inr a \<Rightarrow> h a) \<le> nodes_remaining (st_budget s)"
    using assms unfolding charged_def by (auto split: sum.splits)
  ultimately show ?thesis unfolding charged_def by blast
qed

lemma spends_dbind:
  assumes m: "spends f m" and k: "\<And>a. spends (\<lambda>b. h b - f a) (k a)"
  shows "spends h (dbind m k)"
  unfolding spends_def
proof
  fix s
  obtain r s' where rs: "m s = (r, s')" by force
  have c: "charged f s (r, s')" using m rs unfolding spends_def by metis
  show "charged h s (dbind m k s)"
  proof (cases r)
    case (Inl e)
    then show ?thesis using c rs by (auto simp: charged_def dbind_def)
  next
    case (Inr a)
    then show ?thesis using charged_trans [of f s a s' h "k a s'"] c k [of a] rs by (simp add: dbind_def spends_def)
  qed
qed

lemma returns_basic:
  "returns (dreturn a)" "returns (dfail e)" "returns (lift_result r)" "returns (charge_table k l lab)"
  "returns (with_budget f)" "returns (load_result r')"
  by (auto simp: returns_def dreturn_def dfail_def lift_result_def with_budget_def charge_table_def load_result_def split: sum.splits)

lemma charged_mono: "charged f s rs \<Longrightarrow> (\<And>a. h a \<le> f a) \<Longrightarrow> charged h s rs"
  unfolding charged_def by (cases "fst rs") (simp, metis add_left_mono le_trans sum.simps(6))

lemma spends_mono: "spends f m \<Longrightarrow> (\<And>a. h a \<le> f a) \<Longrightarrow> spends h m"
  unfolding spends_def using charged_mono by metis

lemma spends_basic:
  "f a = 0 \<Longrightarrow> spends f (dreturn a)" "spends f (dfail e)" "spends (\<lambda>_. 0) (lift_result r)" "spends (\<lambda>_. 0) (charge_table k l lab)"
  "spends (\<lambda>_. 1) (with_budget charge_node)" "spends (\<lambda>_. 0) (with_budget (charge_bytes n))" "spends (\<lambda>_. 0) (load_result r')"
  by (auto simp: spends_def dreturn_def dfail_def lift_result_def with_budget_def charge_table_def load_result_def
      charge_node_def charge_bytes_def intro!: charged_same split: sum.splits if_splits)

lemma spends_then: "spends (\<lambda>_. 0) m \<Longrightarrow> (\<And>a. spends h (k a)) \<Longrightarrow> spends h (dbind m k)"
  using spends_dbind [of "\<lambda>_. 0" m h k] by simp

lemma spends_node: "(\<And>a. spends (\<lambda>b. h b - 1) (k a)) \<Longrightarrow> spends h (dbind (with_budget charge_node) k)"
  by (rule spends_dbind [OF spends_basic(5)])

lemma spends_if: "spends f a \<Longrightarrow> spends f b \<Longrightarrow> spends f (if c then a else b)"
  by simp

lemma spends_case_prod: "(\<And>a b. spends f (g a b)) \<Longrightarrow> spends f (case p of (a, b) \<Rightarrow> g a b)"
  by (cases p) simp

lemma returns_if: "returns a \<Longrightarrow> returns b \<Longrightarrow> returns (if c then a else b)"
  by simp

lemma returns_case_prod: "(\<And>a b. returns (g a b)) \<Longrightarrow> returns (case p of (a, b) \<Rightarrow> g a b)"
  by (cases p) simp

lemma within_case_prod_app:
  "(\<And>a b. spends f (g a b c)) \<Longrightarrow> spends f ((case p of (a, b) \<Rightarrow> g a b) c)"
  "(\<And>a b. returns (g' a b c)) \<Longrightarrow> returns ((case p of (a, b) \<Rightarrow> g' a b) c)"
  by (cases p; simp)+

lemmas spends_rules = spends_node spends_then spends_if spends_case_prod spends_basic
lemmas returns_rules = returns_dbind returns_if returns_case_prod returns_basic

lemma spends_atom_name: "spends (\<lambda>_. 0) (decode_atom_name bytes)"
proof -
  have "charged (\<lambda>_. 0) s (dbind (with_budget charge_atom)
      (\<lambda>_ s. case intern bytes (st_table s) of (atom, t) \<Rightarrow> (Inr atom, s\<lparr>st_table := t\<rparr>)) s)" for s
    by (auto simp: charged_def interned_def dbind_def with_budget_def charge_atom_def split: prod.splits
        intro: exI [of _ "[bytes]"] exI [of _ "[]"])
  then show ?thesis
    by (auto simp: spends_def decode_atom_name_def dfail_def split: option.splits intro: charged_same)
qed

lemma returns_atom_name: "returns (decode_atom_name bytes)"
  by (auto simp: returns_def decode_atom_name_def dfail_def dbind_def with_budget_def charge_atom_def
      split: option.splits sum.splits prod.splits if_splits)

lemma spends_nested:
  assumes "spends f m"
  shows "spends f (nested m)"
  unfolding nested_def
proof (rule spends_then)
  show "spends (\<lambda>_. 0) (with_budget descend)"
    by (auto simp: spends_def with_budget_def descend_def intro!: charged_same split: sum.splits if_splits)
  show "spends f (\<lambda>s. case m s of (r, s') \<Rightarrow> (r, s'\<lparr>st_budget := ascend (st_budget s')\<rparr>))"
    unfolding spends_def
  proof
    fix s
    have "charged f s (m s)" using assms by (simp add: spends_def)
    then show "charged f s (case m s of (r, s') \<Rightarrow> (r, s'\<lparr>st_budget := ascend (st_budget s')\<rparr>))"
      by (cases "m s") (simp add: charged_def ascend_def)
  qed
qed

lemma spends_terms:
  assumes "\<And>c. spends (\<lambda>_. 0) (decode_external_term lay fuel c)"
  shows "spends (\<lambda>_. 0) (decode_terms lay fuel n c)" "spends (\<lambda>_. 0) (decode_pairs lay fuel n c)"
proof -
  show "spends (\<lambda>_. 0) (decode_terms lay fuel n c)"
    by (induction n arbitrary: c) (auto intro!: spends_rules assms)
  show "spends (\<lambda>_. 0) (decode_pairs lay fuel n c)"
    by (induction n arbitrary: c) (auto intro!: spends_rules assms)
qed

lemma spends_big_integer: "spends (\<lambda>_. 0) (decode_big_integer c tg)"
  unfolding decode_big_integer_def Let_def by (intro spends_rules) simp_all

lemma spends_term: "spends (\<lambda>_. 0) (decode_external_term lay fuel c)"
proof (induction fuel arbitrary: c)
  case 0
  show ?case by (simp add: decode_external_term.simps spends_def out_of_fuel_def charged_same)
next
  case (Suc fuel)
  note inner = Suc.IH spends_terms [OF Suc.IH]
  show ?case
    by (simp only: decode_external_term.simps decode_tuple.simps)
      (intro spends_rules spends_nested inner spends_atom_name refl
        | simp add: decode_tuple.simps decode_atom_literal_def spends_big_integer)+
qed

lemma spends_sized_literal: "spends (\<lambda>_. 1) (decode_sized_literal lay c)"
proof -
  have "spends (\<lambda>_. 0) (\<lambda>s. dbind (decode_external_term lay (Suc (depth_remaining (st_budget s))) tc) (\<lambda>(lit, tc).
              dbind (lift_result (expect_empty ''literal ETF'' tc)) (\<lambda>_. dreturn (lit, c'))) s)" for tc c'
  proof -
    have "spends (\<lambda>_. 0) (dbind (decode_external_term lay fuel tc) (\<lambda>(lit, tc).
              dbind (lift_result (expect_empty ''literal ETF'' tc)) (\<lambda>_. dreturn (lit, c'))))" for fuel
      by (intro spends_rules spends_term) simp
    then show ?thesis by (simp add: spends_def)
  qed
  then show ?thesis unfolding decode_sized_literal_def by (intro spends_rules) simp_all
qed

lemma returns_sized_literal: "returns (decode_sized_literal lay c)"
  by (simp add: returns_def decode_sized_literal_total)

lemma spends_n:
  assumes "\<And>c. spends (\<lambda>_. 1) (f c)"
  shows "spends (\<lambda>(xs, _). length xs) (decode_n n f c)"
proof (induction n arbitrary: c)
  case (Suc n)
  have "spends (\<lambda>b. (case b of (ys, _) \<Rightarrow> length ys) - 1 - (case a of (xs, _) \<Rightarrow> length xs))
      (case a of (xs, c) \<Rightarrow> dreturn (x # xs, c))" for x :: 'a and a :: "'a list \<times> BoundedCursor"
    by (cases a) (simp add: spends_basic)
  then show ?case
    by (auto intro!: spends_dbind [OF assms] spends_dbind [OF Suc.IH])
qed (simp add: spends_basic)

lemma returns_n: "(\<And>c. returns (f c)) \<Longrightarrow> returns (decode_n n f c)"
  by (induction n arbitrary: c) (auto intro!: returns_rules)

lemma sized_literals_n: "decode_sized_literals lay n c = decode_n n (decode_sized_literal lay) c"
  by (induction n arbitrary: c) simp_all

lemma spends_lines: "spends (\<lambda>(xs, _). length xs) (decode_lines n f c)"
proof (induction n arbitrary: f c)
  case (Suc n)
  have entry: "spends (\<lambda>_. 1) (decode_line_entry f c)"
    unfolding decode_line_entry_def by (intro spends_rules within_case_prod_app) simp_all
  have "spends (\<lambda>b. (case b of (ys, _) \<Rightarrow> length ys) - 1 - (case a of (xs, _) \<Rightarrow> length xs))
      (case a of (xs, c) \<Rightarrow> dreturn (x # xs, c))" for x :: LineInfo and a :: "LineInfo list \<times> BoundedCursor"
    by (cases a) (simp add: spends_basic)
  then show ?case
    by (auto intro!: spends_dbind [OF entry] spends_dbind [OF Suc.IH])
qed (simp add: spends_basic)

lemma returns_lines: "returns (decode_lines n f c)"
proof (induction n arbitrary: f c)
  case (Suc n)
  have "returns (decode_line_entry f c)"
    unfolding decode_line_entry_def by (intro returns_rules within_case_prod_app)
  then show ?case by (auto intro!: returns_rules Suc.IH)
qed (simp add: returns_basic)

text \<open>The end of every table: nothing may be left, and the entries are the result.\<close>

lemma spends_entries:
  assumes "spends (\<lambda>(xs, _). length xs) m" "\<And>xs c. spends (\<lambda>b. length b - length xs) (k xs c)"
  shows "spends length (dbind m (\<lambda>(xs, c). k xs c))"
  using assms by (auto intro!: spends_dbind [OF assms(1)])

lemma spends_finish: "spends (\<lambda>b. length b - length xs) (dbind (lift_result r) (\<lambda>_. dreturn xs))"
  by (intro spends_rules) simp

lemma entries_within:
  "spends (\<lambda>_. 1) (decode_atom_entry compact c)" "spends (\<lambda>_. 1) (decode_import_entry atoms c)"
  "spends (\<lambda>_. 1) (decode_export_entry atoms c)" "spends (\<lambda>_. 1) (decode_lambda_entry atoms c)"
  "returns (decode_atom_entry compact c)" "returns (decode_import_entry atoms c)"
  "returns (decode_export_entry atoms c)" "returns (decode_lambda_entry atoms c)"
  unfolding decode_atom_entry_def decode_import_entry_def decode_export_entry_def decode_lambda_entry_def
  by (intro spends_rules returns_rules spends_mono [OF spends_atom_name] returns_atom_name; simp)+

lemma table_within:
  assumes "\<And>c. spends (\<lambda>_. 1) (entry c)" "\<And>c. returns (entry c)"
  shows "spends length (decode_table k elem label entry bytes)" "returns (decode_table k elem label entry bytes)"
  unfolding decode_table_def
  by (intro spends_then spends_case_prod spends_basic spends_entries spends_n spends_finish assms)
    (intro returns_rules returns_n assms)

lemma tables_within:
  "spends length (decode_import_chunk lay bytes atoms)" "returns (decode_import_chunk lay bytes atoms)"
  "spends length (decode_export_chunk lay bytes atoms)" "returns (decode_export_chunk lay bytes atoms)"
  "spends length (decode_lambda_chunk lay bytes atoms)" "returns (decode_lambda_chunk lay bytes atoms)"
  unfolding decode_import_chunk_def decode_export_chunk_def decode_lambda_chunk_def
  by (intro table_within entries_within)+

lemma atom_chunk_within: "spends length (decode_atom_chunk bytes)" "returns (decode_atom_chunk bytes)"
  unfolding decode_atom_chunk_def Let_def
  by (intro spends_then spends_case_prod spends_basic spends_entries spends_n spends_finish entries_within)
    (intro returns_rules returns_n entries_within)

lemma line_chunk_within: "spends length (decode_line_chunk lay bytes)" "returns (decode_line_chunk lay bytes)"
  unfolding decode_line_chunk_def
  by (intro spends_if spends_then spends_case_prod spends_basic spends_entries spends_lines; simp add: spends_basic)
    (intro returns_rules returns_lines)

lemma inflate_within: "spends (\<lambda>_. 0) (decompress_bounded inflate bytes n)" "returns (decompress_bounded inflate bytes n)"
  by (auto simp: spends_def returns_def decompress_bounded_def Let_def dfail_def dreturn_def dbind_def with_budget_def charge_bytes_def
      intro!: charged_same split: option.splits)

lemma literal_chunk_within: "spends length (decode_literal_chunk lay inflate bytes)" "returns (decode_literal_chunk lay inflate bytes)"
  unfolding decode_literal_chunk_def sized_literals_n
  by (intro spends_then spends_case_prod spends_if spends_basic spends_entries spends_n spends_finish spends_sized_literal inflate_within refl)
    (intro returns_rules returns_n returns_sized_literal inflate_within)

section \<open>What the code chunk can hold\<close>

text \<open>Only integers beyond the small range add literals, one each, and every operand takes a byte.\<close>

lemma reads_no_literal:
  "read_byte d = Inr (b, d') \<Longrightarrow> extra_literals d' = extra_literals d"
  "read_bytes n d = Inr (bs, d') \<Longrightarrow> extra_literals d' = extra_literals d"
  "read_small_signed n sg d = Inr (v, d') \<Longrightarrow> extra_literals d' = extra_literals d"
  by (auto simp: read_byte_def read_small_signed_def read_bytes_def result_bind_eq_Inr_conv Let_def split: option.splits if_splits)

lemma read_tagged_value_no_literal: "read_tagged_value d = Inr (x, d') \<Longrightarrow> extra_literals d' = extra_literals d"
proof (induction d arbitrary: x d' rule: read_tagged_value.induct)
  case (1 d0)
  from "1.prems" obtain first d where first: "read_byte d0 = Inr (first, d)"
    by (subst (asm) read_tagged_value.simps) (auto split: sum.splits)
  note IH = "1.IH" [OF first refl refl]
  show ?case
    using "1.prems" first reads_no_literal(1) [OF first] IH
    by (subst (asm) read_tagged_value.simps)
      (auto simp: Let_def result_bind_eq_Inr_conv unsigned_u32_def dest!: reads_no_literal split: if_splits sum.splits CompactValue.splits)
qed

lemma read_tagged_integer_no_literal: "read_tagged_integer d = Inr (x, d') \<Longrightarrow> extra_literals d' = extra_literals d"
  by (cases "read_tagged_value d")
    (auto simp: read_tagged_integer_def dest: read_tagged_value_no_literal split: CompactValue.splits prod.splits)

lemma read_unsigned_no_literal:
  "read_unsigned d = Inr (x, d') \<Longrightarrow> extra_literals d' = extra_literals d"
  "read_unsigned_u64 d = Inr (y, d') \<Longrightarrow> extra_literals d' = extra_literals d"
  by (auto simp: read_unsigned_def read_unsigned_u64_def result_bind_eq_Inr_conv dest: read_tagged_integer_no_literal split: if_splits)

lemma read_allocations_no_literal: "read_allocations n d = Inr (es, d') \<Longrightarrow> extra_literals d' = extra_literals d"
proof (induction n arbitrary: d es)
  case (Suc n)
  then obtain tg d1 v d2 es' where steps: "read_unsigned_u64 d = Inr (tg, d1)" "read_unsigned_u64 d1 = Inr (v, d2)"
      "read_allocations n d2 = Inr (es', d')"
    by (auto simp: result_bind_eq_Inr_conv)
  then show ?case using Suc.IH [OF steps(3)] by (simp add: read_unsigned_no_literal(2))
qed simp

lemma integer_operand_literals:
  "integer_operand v d = (op, d') \<Longrightarrow> length (extra_literals d') \<le> Suc (length (extra_literals d))"
  "big_integer_operand p d = Inr (op, d') \<Longrightarrow> length (extra_literals d') \<le> Suc (length (extra_literals d))"
proof -
  show *: "integer_operand v d = (op, d') \<Longrightarrow> length (extra_literals d') \<le> Suc (length (extra_literals d))" for v d d'
    by (auto simp: integer_operand_def push_extra_literal_def split: if_splits)
  show "big_integer_operand p d = Inr (op, d') \<Longrightarrow> length (extra_literals d') \<le> Suc (length (extra_literals d))"
    by (auto simp: big_integer_operand_def result_bind_eq_Inr_conv Let_def push_extra_literal_def split: option.splits prod.splits dest!: *)
qed

text \<open>The bytes left and the literals added.\<close>

definition load_of :: "CompactDecoder \<Rightarrow> nat" where
  "load_of d = remaining d + length (extra_literals d)"

lemma read_load:
  "read_operand fuel d = Inr (op, d') \<Longrightarrow> load_of d' \<le> load_of d"
  "read_extended fuel k d = Inr (op, d') \<Longrightarrow> load_of d' \<le> load_of d"
  "read_operands fuel n d = Inr (ops, d') \<Longrightarrow> load_of d' \<le> load_of d"
proof (induction fuel d and fuel k d and fuel n d arbitrary: op d' and op d' and ops d'
    rule: read_operand_read_extended_read_operands.induct)
  case (2 fuel d)
  from "2.prems" obtain tg cv d1 where tv: "read_tagged_value d = Inr ((tg, cv), d1)"
    by (auto simp: result_bind_eq_Inr_conv)
  from read_tagged_value_progress [OF tv] read_tagged_value_no_literal [OF tv]
  have lt: "load_of d1 < load_of d" and eq: "extra_literals d1 = extra_literals d" by (simp_all add: load_of_def)
  have io: "integer_operand v d1 = (op, d') \<Longrightarrow> load_of d' \<le> Suc (load_of d1)" for v
    using integer_operand_remaining [of v d1] integer_operand_literals(1) [of v d1 op d'] by (simp add: load_of_def)
  show ?case
  proof (cases cv)
    case (Small v)
    show ?thesis
    proof (cases "tg = 7")
      case True
      then have "read_extended fuel v d1 = Inr (op, d')" using "2.prems" by (simp add: tv Small)
      from "2.IH" [OF refl _ _ _ _ _ _ _ refl this] lt show ?thesis by simp
    next
      case False
      then have "load_of d' \<le> Suc (load_of d1)"
        using "2.prems"
        by (auto simp: tv Small result_bind_eq_Inr_conv dest: io split: if_splits)
      with lt show ?thesis by linarith
    qed
  next
    case (Big payload)
    then have "big_integer_operand payload d1 = Inr (op, d')"
      using "2.prems" by (simp add: tv split: if_splits)
    from big_integer_operand_progress [OF this] integer_operand_literals(2) [OF this] lt show ?thesis by (simp add: load_of_def)
  qed
next
  case (3 fuel k d)
  have un: "load_of d2 \<le> load_of d1" if "read_unsigned d1 = Inr (x, d2)" for d1 d2 x
    using read_unsigned_progress(1) [OF that] read_unsigned_no_literal(1) [OF that] by (simp add: load_of_def)
  have un64: "load_of d2 \<le> load_of d1" if "read_unsigned_u64 d1 = Inr (x, d2)" for d1 d2 x
    using read_unsigned_progress(2) [OF that] read_unsigned_no_literal(2) [OF that] by (simp add: load_of_def)
  have al: "load_of d2 \<le> load_of d1" if "read_allocations n d1 = Inr (x, d2)" for d1 d2 x n
    using read_allocations_progress [OF that] read_allocations_no_literal [OF that] by (simp add: load_of_def)
  have lst: "k = 1 \<Longrightarrow> read_operands fuel (unat len) d1 = Inr (ops, d2) \<Longrightarrow> load_of d2 \<le> load_of d1"
    for len :: u32 and d1 ops d2 using "3.IH"(1) by blast
  have reg: "k = 5 \<Longrightarrow> read_operand fuel d = Inr (a, b) \<Longrightarrow> load_of b \<le> load_of d"
    for a b using "3.IH"(2) by simp
  from "3.prems" show ?case
    by (auto simp: result_bind_eq_Inr_conv read_literal_index_def split: if_splits dest!: un un64 lst reg al)
next
  case (5 fuel n d)
  from "5.prems" obtain op1 d1 ops1 where
    steps: "read_operand fuel d = Inr (op1, d1)" "read_operands fuel n d1 = Inr (ops1, d')"
    by (auto simp: result_bind_eq_Inr_conv)
  from "5.IH"(1) [OF steps(1)] "5.IH"(2) [OF steps(2)] show ?case by linarith
qed simp_all

lemma decode_loop_load: "decode_loop d = Inr (is, d') \<Longrightarrow> length is + load_of d' \<le> load_of d"
proof (induction d arbitrary: "is" d' rule: decode_loop.induct)
  case (1 d)
  show ?case
  proof (cases "decoder_is_empty d")
    case True
    then show ?thesis using "1.prems" by (subst (asm) decode_loop.simps) simp
  next
    case False
    then obtain opcode d1 where first: "read_byte d = Inr (opcode, d1)"
      using "1.prems" by (subst (asm) decode_loop.simps) (auto split: sum.splits)
    have lt: "load_of d1 < load_of d" using read_byte_progress [OF first] reads_no_literal(1) [OF first] by (simp add: load_of_def)
    show ?thesis
    proof (cases "opcode = 3")
      case True
      then show ?thesis using "1.prems" False first lt by (subst (asm) decode_loop.simps) simp
    next
      case more: False
      obtain i d2 is' where steps: "decode_instruction opcode d1 = Inr (i, d2)" "decode_loop d2 = Inr (is', d')" "is = i # is'"
        using "1.prems" False first more by (subst (asm) decode_loop.simps) (auto split: sum.splits)
      have "load_of d2 \<le> load_of d1"
        using steps(1) by (auto simp: decode_instruction_def read_instr_operands_def result_bind_eq_Inr_conv dest: read_load(3))
      then show ?thesis using "1.IH" [OF False first refl more steps(1) refl steps(2)] lt steps(3) by simp
    qed
  qed
qed

lemma code_chunk_size:
  assumes "decode_code_chunk bytes atoms lits = Inr (is, extra)"
  shows "length is + length extra \<le> length bytes"
proof -
  obtain d where "decode_loop (compact_decoder_new (drop 20 bytes) atoms lits) = Inr (is, d)" "extra = extra_literals d"
    using assms by (auto simp: decode_code_chunk_def decode_instructions_def take_extra_literals_def result_bind_eq_Inr_conv
        split: if_splits option.splits)
  then show ?thesis using decode_loop_load [of "compact_decoder_new (drop 20 bytes) atoms lits" "is" d]
    by (simp add: load_of_def remaining_def compact_decoder_new_def)
qed
text \<open>
  The reservation the bounds say nothing about: \<open>read_extended\<close> reserves a vector for the announced
  number of elements before it reads the first one, and nothing relates that number to the bytes
  left. At most nine bytes announce any 32-bit number.
\<close>

definition extended_capacity :: "int \<Rightarrow> CompactDecoder \<Rightarrow> nat option" where
  "extended_capacity subtag d =
     (if subtag = 1 \<or> subtag = 3 then (case read_unsigned d of Inl _ \<Rightarrow> None | Inr (len, _) \<Rightarrow> Some (unat len)) else None)"

lemma reservation_unchecked:
  fixes n :: u32
  shows "\<exists>bs. length bs \<le> 9 \<and> (\<forall>atoms lits. extended_capacity 1 (compact_decoder_new bs atoms lits) = Some (unat n) \<and>
    (n \<noteq> 0 \<longrightarrow> read_extended (Suc fuel) 1 (compact_decoder_new bs atoms lits) = Inl (Some Truncated)))"
proof (intro exI conjI allI impI)
  let ?v = "ucast n :: u64"
  show len: "length (push_unsigned 0 ?v) \<le> 9" using length_minimal_unsigned_be_le [of ?v] by (simp add: push_unsigned.simps push_extended.simps Let_def)
  have v: "unat ?v < 2 ^ 32" "ucast ?v = n" by (rule uint_ucast_u32(3)) (rule bit_word_eqI, simp add: bit_simps)
  fix atoms lits
  let ?d = "compact_decoder_new (push_unsigned 0 ?v) atoms lits"
  have r: "read_unsigned ?d = Inr (n, advance (length (push_unsigned 0 ?v)) ?d)"
    using read_unsigned_push [of ?d ?v "[]"] v len by (simp add: slice_ok_def rest_def compact_decoder_new_def)
  then show "extended_capacity 1 ?d = Some (unat n)" by (simp add: extended_capacity_def)
  assume "n \<noteq> 0"
  then obtain k where "unat n = Suc k" by (cases "unat n") (simp_all add: unsigned_eq_0_iff)
  then show "read_extended (Suc fuel) 1 ?d = Inl (Some Truncated)"
    using r by (simp add: read_tagged_value.simps read_byte_def vec_get_def advance_def compact_decoder_new_def)
qed

section \<open>Loading\<close>

lemma as_load_within: "spends f m \<Longrightarrow> spends f (as_load m)" "returns m \<Longrightarrow> returns (as_load m)"
proof -
  have "as_load m s = (case fst (m s) of Inl None \<Rightarrow> Inl None | Inl (Some e) \<Rightarrow> Inl (Some (DecodeError e)) | Inr a \<Rightarrow> Inr a, snd (m s))" for s
    by (auto simp: as_load_def split: prod.splits sum.splits option.splits)
  then show "spends f m \<Longrightarrow> spends f (as_load m)" "returns m \<Longrightarrow> returns (as_load m)"
    by (auto simp: spends_def charged_def returns_def split: sum.splits option.splits)
qed

lemma optional_within:
  "(\<And>b. spends length (d b)) \<Longrightarrow> spends length (optional_chunk chunks tg d)"
  "(\<And>b. returns (d b)) \<Longrightarrow> returns (optional_chunk chunks tg d)"
  by (auto simp: optional_chunk_def spends_basic returns_basic intro: as_load_within split: option.splits)

lemma code_within: "spends (\<lambda>_. 0) (load_code bytes atoms lits)" "returns (load_code bytes atoms lits)"
  using decode_loop_total [of "compact_decoder_new (drop 20 bytes) atoms lits"]
  by (auto simp: spends_def load_code_def intro!: charged_same split: sum.splits option.splits)
    (auto simp: returns_def load_code_def decode_code_chunk_def decode_instructions_def result_bind_def fuelled_def
        split: sum.splits option.splits if_splits prod.splits)

lemma assign_ids_length: "assign_lambda_unique_ids t name ls = Inr ls' \<Longrightarrow> length ls' = length ls"
  by (induction ls arbitrary: ls') (auto simp: result_bind_eq_Inr_conv)

lemma lambdas_within: "spends length (decode_lambdas lay name atoms bytes)" "returns (decode_lambdas lay name atoms bytes)"
proof -
  have "spends (\<lambda>b. length b - length ls) (\<lambda>s. lift_result (assign_lambda_unique_ids (st_table s) name ls) s)" for ls
    by (auto simp: spends_def lift_result_def dfail_def dreturn_def intro!: charged_same split: sum.splits dest: assign_ids_length)
  then show "spends length (decode_lambdas lay name atoms bytes)"
    unfolding decode_lambdas_def by (rule spends_dbind [OF tables_within(5)])
  have "returns (\<lambda>s. lift_result (assign_lambda_unique_ids (st_table s) name ls) s)" for ls
    by (auto simp: returns_def lift_result_def dfail_def dreturn_def split: sum.splits)
  then show "returns (decode_lambdas lay name atoms bytes)"
    unfolding decode_lambdas_def by (rule returns_dbind [OF tables_within(6)])
qed

text \<open>All entries of the tables of a module, its literals and its instructions.\<close>

definition module_entries :: "ParsedModule \<Rightarrow> nat" where
  "module_entries m = length (pm_atoms m) + length (pm_imports m) + length (pm_exports m) + length (pm_lambdas m) +
     length (pm_line_info m) + length (pm_literals m) + length (pm_instructions m)"

lemma load_returns: "returns (load_chunks lay inflate bytes)"
  unfolding load_chunks_def
  by (intro returns_rules as_load_within(2) atom_chunk_within optional_within(2) literal_chunk_within line_chunk_within
      lambdas_within tables_within code_within)

lemma spends_known:
  "(\<And>a. r = Inr a \<Longrightarrow> spends h (k a)) \<Longrightarrow> spends h (dbind (load_result r) k)"
  "(\<And>is extra. length is + length extra \<le> length bytes \<Longrightarrow> spends h (k' is extra)) \<Longrightarrow> spends h (dbind (load_code bytes atoms lits) (\<lambda>(is, extra). k' is extra))"
proof -
  show "(\<And>a. r = Inr a \<Longrightarrow> spends h (k a)) \<Longrightarrow> spends h (dbind (load_result r) k)"
    by (cases r) (auto simp: spends_def dbind_def load_result_def intro: charged_same)
  show "(\<And>is extra. length is + length extra \<le> length bytes \<Longrightarrow> spends h (k' is extra)) \<Longrightarrow> spends h (dbind (load_code bytes atoms lits) (\<lambda>(is, extra). k' is extra))"
    using code_chunk_size [of bytes atoms lits]
    by (auto simp: spends_def dbind_def load_code_def intro: charged_same split: sum.splits option.splits)
qed

lemma parsed_chunk_size: "parse_chunks bytes end' offset = Inr cs \<Longrightarrow> c \<in> set cs \<Longrightarrow> length (snd c) \<le> length bytes"
proof (induction bytes end' offset arbitrary: cs rule: parse_chunks.induct)
  case (1 bytes end' offset)
  show ?case
  proof (cases "offset \<ge> end'")
    case True
    then show ?thesis using "1.prems" by (subst (asm) parse_chunks.simps) simp
  next
    case False
    note step = "1.prems"(1) [unfolded parse_chunks.simps [of bytes end' offset]]
    obtain len where len: "read_u32_at bytes (offset + 4) = Inr len"
      using step False by (cases "read_u32_at bytes (offset + 4)") (auto simp: result_bind_eq_Inr_conv split: if_splits)
    obtain tg cs' where rest: "end' - offset \<ge> 8" "read_fourcc_at bytes offset = Inr tg"
      "\<not> (offset + 8 + unat len \<ge> 2 ^ 64 \<or> offset + 8 + unat len > end')"
      "\<not> (offset + 8 + unat len + padding (unat len) \<ge> 2 ^ 64 \<or> offset + 8 + unat len + padding (unat len) > end')"
      "parse_chunks bytes end' (offset + 8 + unat len + padding (unat len)) = Inr cs'" "cs = (tg, take (unat len) (drop (offset + 8) bytes)) # cs'"
      using step False by (auto simp: len Let_def result_bind_eq_Inr_conv split: if_splits)
    have "length (snd c) \<le> length bytes" if "c \<in> set cs'"
      using "1.IH" [OF False _ len refl refl _ refl _ rest(5) that] rest by simp
    then show ?thesis using "1.prems"(2) rest(6) by auto
  qed
qed

lemma code_chunk_within:
  assumes "parse_beam_chunks bytes = Inr chunks" "ok_or (find_chunk chunks tg) e = Inr chunk"
  shows "length chunk \<le> length bytes"
proof -
  obtain end' where "parse_chunks bytes end' 12 = Inr chunks"
    using assms(1) by (auto simp: parse_beam_chunks_def Let_def result_bind_eq_Inr_conv split: if_splits)
  moreover have "(str_bytes tg, chunk) \<in> set chunks"
    using assms(2) by (auto simp: find_chunk_def ok_or_def dest: map_of_SomeD split: option.splits)
  ultimately show ?thesis using parsed_chunk_size by fastforce
qed

lemma load_spends: "spends (\<lambda>m. module_entries m - length bytes) (load_chunks lay inflate bytes)"
  unfolding load_chunks_def
  by (intro spends_known spends_case_prod
      spends_dbind [OF as_load_within(1) [OF atom_chunk_within(1)]]
      spends_dbind [OF optional_within(1) [OF literal_chunk_within(1)]]
      spends_dbind [OF optional_within(1) [OF tables_within(1)]] spends_dbind [OF optional_within(1) [OF tables_within(3)]]
      spends_dbind [OF optional_within(1) [OF lambdas_within(1)]] spends_dbind [OF optional_within(1) [OF line_chunk_within(1)]]
      spends_basic(1)) (auto simp: module_entries_def dest!: code_chunk_within)

text \<open>
  C16. On any bytes the recursions of the loader end with a module or an error, and what they produce
  is bounded: the atom table is left as interning at most \<open>65536\<close> names leaves it, and the atoms,
  imports, exports, lambdas, lines, literals and instructions of an accepted module are together at most a
  million and one for each byte of the file. The memory a decoder asks for is a different matter: the
  operand decoder reserves room for a list of any 32-bit length before it has read an element.
\<close>

theorem load_bounded:
  "\<exists>r names. load_beam_chunks lay inflate bytes t = (r, interned names t) \<and> r \<noteq> Inl None \<and> length names \<le> 65536 \<and>
     (case r of Inl _ \<Rightarrow> True | Inr m \<Rightarrow> module_entries m \<le> 1000000 + length bytes)"
proof -
  let ?s = "\<lparr>st_budget = default_budget, st_table = t\<rparr>"
  obtain r s where rs: "load_chunks lay inflate bytes ?s = (r, s)" by force
  have "r \<noteq> Inl None" using load_returns [of lay inflate bytes] rs unfolding returns_def by (metis fst_conv)
  moreover have "charged (\<lambda>m. module_entries m - length bytes) ?s (r, s)"
    using load_spends [of bytes lay inflate] rs unfolding spends_def by metis
  ultimately show ?thesis using rs
    by (auto simp: charged_def load_beam_chunks_def default_budget_def split: sum.splits)
qed

theorem load_bounded_witness:
  "\<exists>bytes names. encode_module atom_table_new sample_module = Inr bytes \<and>
     load_beam_chunks sample_layout (\<lambda>_ _. None) bytes atom_table_new = (Inr sample_module, interned names atom_table_new) \<and>
     length names \<le> 65536 \<and> module_entries sample_module \<le> 1000000 + length bytes"
proof -
  obtain bytes where bytes: "encode_module atom_table_new sample_module = Inr bytes" "length bytes < 2 ^ 32"
    using sample_module_bytes by blast
  then have "load_beam_chunks sample_layout (\<lambda>_ _. None) bytes atom_table_new = (Inr sample_module, atom_table_new)"
    using beam_file_loads [OF sample_module_ok, of "\<lambda>_ _. None"] by simp
  then show ?thesis using load_bounded [of sample_layout "\<lambda>_ _. None" bytes atom_table_new] bytes(1) by auto
qed

end
