(* ===== verification/Module_Registry.thy ===== *)
theory Module_Registry
  imports Beam_File
begin

text \<open>
  Loaded modules and their registry (\<^verbatim>\<open>crates/beamr/src/module.rs\<close>). A shared module
  (\<open>Arc<Module>\<close>) is an address in \<open>arcs\<close> with its strong count; the registry keeps the current
  and the old version of each name, and numbers the versions. The storage of materialised
  literals is the type parameter of \<open>Module\<close>.
\<close>

section \<open>Native functions and import targets\<close>

datatype Capability = Pure | ProcessLocal | Clock | Entropy | ExternalIo | Spawn

datatype DirtySchedulerKind = DirtyCpu | DirtyIo

record NativeEntry =
  native_function :: nat
  dirty_kind :: "DirtySchedulerKind option"
  capability :: Capability

datatype ResolvedImportTarget =
    TargetCode u32 u32
  | TargetNative NativeEntry
  | TargetDenied Capability
  | TargetDeferred u32 u32 u8
  | TargetUnresolved u32 u32 u8

record ResolvedImport =
  ri_module :: u32
  ri_function :: u32
  ri_arity :: u8
  ri_target :: ResolvedImportTarget

datatype ModuleOrigin = Filesystem "u8 list" | Embedded | Preloaded | Fetched

section \<open>Modules\<close>

record 'p Module =
  m_name :: u32
  m_generation :: u64
  m_origin :: ModuleOrigin
  m_exports :: "u32 \<times> u8 \<rightharpoonup> u32"
  m_label_index :: "u32 \<rightharpoonup> nat"
  m_code :: "Instruction list"
  m_function_table :: "(nat \<times> u32 \<times> u8) list"
  m_line_table :: "(nat \<times> nat) list"
  m_literals :: "Literal list"
  m_constant_pool :: 'p
  m_resolved_imports :: "ResolvedImport list"
  m_lambdas :: "LambdaEntry list"
  m_string_table :: "u8 list"
  m_line_info :: "LineInfo list"

datatype ExecError = Undef u32 u32 u8 | InvalidLabel u32

definition find_lambda_by_id :: "'p Module \<Rightarrow> u64 \<Rightarrow> LambdaEntry option" where
  "find_lambda_by_id m unique_id = find (\<lambda>l. lam_unique_id l = unique_id) (m_lambdas m)"

definition label_ip :: "'p Module \<Rightarrow> u32 \<Rightarrow> ExecError + nat" where
  "label_ip m label = ok_or (m_label_index m label) (InvalidLabel label)"

definition export_ip :: "'p Module \<Rightarrow> u32 \<Rightarrow> u8 \<Rightarrow> ExecError + nat" where
  "export_ip m function arity =
     result_bind (ok_or (m_exports m (function, arity)) (Undef (m_name m) function arity)) (label_ip m)"

text \<open>
  \<open>binary_search_by_key\<close> on a table whose keys increase: the index of the key, or on the left the
  index where it would be inserted.
\<close>

definition binary_search_by_key :: "('a \<Rightarrow> nat) \<Rightarrow> nat \<Rightarrow> 'a list \<Rightarrow> nat + nat" where
  "binary_search_by_key f k xs =
     (let i = length (takeWhile (\<lambda>x. f x < k) xs)
      in if i < length xs \<and> f (xs ! i) = k then Inr i else Inl i)"

text \<open>\<open>.map_or_else(|insertion| insertion.checked_sub(1), Some)\<close>\<close>

definition at_or_before :: "nat + nat \<Rightarrow> nat option" where
  "at_or_before r = (case r of Inr i \<Rightarrow> Some i | Inl 0 \<Rightarrow> None | Inl (Suc i) \<Rightarrow> Some i)"

definition function_at_ip :: "'p Module \<Rightarrow> nat \<Rightarrow> (u32 \<times> u8) option" where
  "function_at_ip m ip =
     Option.bind (at_or_before (binary_search_by_key fst ip (m_function_table m)))
       (\<lambda>i. map_option snd (vec_get (m_function_table m) i))"

definition mfa_at_ip :: "'p Module \<Rightarrow> nat \<Rightarrow> (u32 \<times> u32 \<times> u8) option" where
  "mfa_at_ip m ip = map_option (\<lambda>(f, a). (m_name m, f, a)) (function_at_ip m ip)"

definition is_function_entry :: "'p Module \<Rightarrow> nat \<Rightarrow> bool" where
  "is_function_entry m ip =
     (if ip \<ge> length (m_code m) then False
      else case binary_search_by_key fst ip (m_function_table m) of
          Inr _ \<Rightarrow> True
        | Inl 0 \<Rightarrow> False
        | Inl (Suc i) \<Rightarrow> (case vec_get (m_function_table m) i of None \<Rightarrow> False | Some e \<Rightarrow> ip = fst e + 1))"

fun is_func_info :: "Instruction \<Rightarrow> bool" where
  "is_func_info (I_FuncInfo _ _ _) = True"
| "is_func_info _ = False"

fun is_line :: "Instruction \<Rightarrow> bool" where
  "is_line (I_Line _) = True"
| "is_line _ = False"

fun is_label :: "Instruction \<Rightarrow> bool" where
  "is_label (I_Label _) = True"
| "is_label _ = False"

fun back_over_lines :: "Instruction list \<Rightarrow> nat \<Rightarrow> nat" where
  "back_over_lines code 0 = 0"
| "back_over_lines code (Suc start) =
     (if start < length code \<and> is_line (code ! start) then back_over_lines code start else Suc start)"

definition func_info_ip :: "Instruction list \<Rightarrow> nat \<Rightarrow> nat option" where
  "func_info_ip code entry_ip =
     (if entry_ip \<ge> length code then None
      else if is_func_info (code ! entry_ip) then Some entry_ip
      else case entry_ip of
          0 \<Rightarrow> None
        | Suc ip \<Rightarrow> (if is_func_info (code ! ip) then Some ip else None))"

definition function_instructions :: "'p Module \<Rightarrow> nat \<Rightarrow> Instruction list option" where
  "function_instructions m entry_ip =
     (if \<not> is_function_entry m entry_ip then None
      else
        map_option (\<lambda>funcinfo_ip.
          let code = m_code m;
              start = back_over_lines code funcinfo_ip;
              start = (if start > 0 \<and> is_label (code ! (start - 1)) then start - 1 else start);
              end' = (case position is_func_info (drop (funcinfo_ip + 1) code) of
                        None \<Rightarrow> length code
                      | Some i \<Rightarrow> funcinfo_ip + 1 + i)
          in take (end' - start) (drop start code))
          (func_info_ip (m_code m) entry_ip))"

definition line_at_ip :: "'p Module \<Rightarrow> nat \<Rightarrow> u32 option" where
  "line_at_ip m ip =
     Option.bind (at_or_before (binary_search_by_key fst ip (m_line_table m))) (\<lambda>i.
     Option.bind (vec_get (m_line_table m) i) (\<lambda>(_, line_info_index).
       map_option li_line (vec_get (m_line_info m) line_info_index)))"

section \<open>Shared modules\<close>

record ModuleVersions =
  v_current :: nat
  v_old :: "nat option"

record ModuleSlot =
  versions :: "ModuleVersions option"
  next_generation :: u64

record 'p ModuleRegistry =
  modules :: "u32 \<rightharpoonup> ModuleSlot"
  arcs :: "nat \<rightharpoonup> 'p Module"
  strong :: "nat \<Rightarrow> nat"
  next_arc :: nat

definition registry_new :: "'p ModuleRegistry" where
  "registry_new = \<lparr>modules = Map.empty, arcs = Map.empty, strong = (\<lambda>_. 0), next_arc = 0\<rparr>"

definition arc_new :: "'p Module \<Rightarrow> 'p ModuleRegistry \<Rightarrow> nat \<times> 'p ModuleRegistry" where
  "arc_new m r = (next_arc r, r\<lparr>arcs := (arcs r)(next_arc r \<mapsto> m), strong := (strong r)(next_arc r := 1),
     next_arc := next_arc r + 1\<rparr>)"

definition arc_clone :: "nat \<Rightarrow> 'p ModuleRegistry \<Rightarrow> 'p ModuleRegistry" where
  "arc_clone a r = r\<lparr>strong := (strong r)(a := strong r a + 1)\<rparr>"

definition arc_drop :: "nat \<Rightarrow> 'p ModuleRegistry \<Rightarrow> 'p ModuleRegistry" where
  "arc_drop a r = r\<lparr>strong := (strong r)(a := strong r a - 1),
     arcs := (if strong r a = 1 then (arcs r)(a := None) else arcs r)\<rparr>"

definition drop_versions :: "ModuleVersions option \<Rightarrow> 'p ModuleRegistry \<Rightarrow> 'p ModuleRegistry" where
  "drop_versions vs r = (case vs of None \<Rightarrow> r
     | Some v \<Rightarrow> (case v_old v of None \<Rightarrow> arc_drop (v_current v) r
                  | Some o' \<Rightarrow> arc_drop o' (arc_drop (v_current v) r)))"

definition set_slot :: "u32 \<Rightarrow> ModuleSlot \<Rightarrow> 'p ModuleRegistry \<Rightarrow> 'p ModuleRegistry" where
  "set_slot name slot r = r\<lparr>modules := (modules r)(name \<mapsto> slot)\<rparr>"

section \<open>The registry\<close>

definition insert_version :: "'p Module \<Rightarrow> 'p ModuleRegistry \<Rightarrow> nat \<times> 'p ModuleRegistry" where
  "insert_version m r =
     (case modules r (m_name m) of
        Some slot \<Rightarrow>
          let (generation, previous_current, r1) =
                (case versions slot of
                   Some v \<Rightarrow> (saturating_add_u64 (m_generation (the (arcs r (v_current v)))) 1,
                     Some (v_current v), arc_clone (v_current v) r)
                 | None \<Rightarrow> (max (next_generation slot) 1, None, r));
              (a, r2) = arc_new (m\<lparr>m_generation := generation\<rparr>) r1;
              r3 = drop_versions (versions slot) (arc_clone a r2)
          in (a, set_slot (m_name m) \<lparr>versions = Some \<lparr>v_current = a, v_old = previous_current\<rparr>,
                   next_generation = saturating_add_u64 generation 1\<rparr> r3)
      | None \<Rightarrow>
          let (a, r1) = arc_new (m\<lparr>m_generation := 1\<rparr>) r
          in (a, set_slot (m_name m) \<lparr>versions = Some \<lparr>v_current = a, v_old = None\<rparr>, next_generation = 2\<rparr> (arc_clone a r1)))"

definition versions_of :: "u32 \<Rightarrow> 'p ModuleRegistry \<Rightarrow> ModuleVersions option" where
  "versions_of name r = Option.bind (modules r name) versions"

definition shared :: "nat option \<Rightarrow> 'p ModuleRegistry \<Rightarrow> nat option \<times> 'p ModuleRegistry" where
  "shared a r = (case a of None \<Rightarrow> (None, r) | Some a \<Rightarrow> (Some a, arc_clone a r))"

definition registry_lookup :: "u32 \<Rightarrow> 'p ModuleRegistry \<Rightarrow> nat option \<times> 'p ModuleRegistry" where
  "registry_lookup name r = shared (map_option v_current (versions_of name r)) r"

definition lookup_old :: "u32 \<Rightarrow> 'p ModuleRegistry \<Rightarrow> nat option \<times> 'p ModuleRegistry" where
  "lookup_old name r = shared (Option.bind (versions_of name r) v_old) r"

definition module_version_count :: "u32 \<Rightarrow> 'p ModuleRegistry \<Rightarrow> nat" where
  "module_version_count name r =
     (case versions_of name r of None \<Rightarrow> 0 | Some v \<Rightarrow> 1 + (if v_old v = None then 0 else 1))"

datatype PurgeError = StillReferenced u32 nat | NoOldVersion u32

definition purge_old :: "u32 \<Rightarrow> 'p ModuleRegistry \<Rightarrow> (PurgeError + unit) \<times> 'p ModuleRegistry" where
  "purge_old name r =
     (case modules r name of
        None \<Rightarrow> (Inl (NoOldVersion name), r)
      | Some slot \<Rightarrow>
          (case versions slot of
             None \<Rightarrow> (Inl (NoOldVersion name), r)
           | Some v \<Rightarrow>
               (case v_old v of
                  None \<Rightarrow> (Inl (NoOldVersion name), r)
                | Some old \<Rightarrow>
                    if strong r old \<noteq> 1 then (Inl (StillReferenced name (strong r old)), r)
                    else (Inr (), set_slot name (slot\<lparr>versions := Some (v\<lparr>v_old := None\<rparr>)\<rparr>) (arc_drop old r)))))"

record CodePointer =
  cp_module :: nat
  cp_label :: u32
  cp_generation :: u64

definition lookup_mfa :: "u32 \<Rightarrow> u32 \<Rightarrow> u8 \<Rightarrow> 'p ModuleRegistry \<Rightarrow> (ExecError + CodePointer) \<times> 'p ModuleRegistry" where
  "lookup_mfa module function arity r =
     (case registry_lookup module r of
        (None, r) \<Rightarrow> (Inl (Undef module function arity), r)
      | (Some a, r) \<Rightarrow>
          (let loaded = the (arcs r a)
           in case m_exports loaded (function, arity) of
                None \<Rightarrow> (Inl (Undef module function arity), arc_drop a r)
              | Some label \<Rightarrow> (Inr \<lparr>cp_module = a, cp_label = label, cp_generation = m_generation loaded\<rparr>, r)))"

definition has_old_code :: "u32 \<Rightarrow> 'p ModuleRegistry \<Rightarrow> bool" where
  "has_old_code name r \<longleftrightarrow> fst (lookup_old name r) \<noteq> None"

definition delete_module :: "u32 \<Rightarrow> 'p ModuleRegistry \<Rightarrow> bool \<times> 'p ModuleRegistry" where
  "delete_module name r =
     (case modules r name of
        None \<Rightarrow> (False, r)
      | Some slot \<Rightarrow> (versions slot \<noteq> None, drop_versions (versions slot) (set_slot name (slot\<lparr>versions := None\<rparr>) r)))"

definition force_remove_old :: "u32 \<Rightarrow> 'p ModuleRegistry \<Rightarrow> (PurgeError + unit) \<times> 'p ModuleRegistry" where
  "force_remove_old name r =
     (case modules r name of
        None \<Rightarrow> (Inl (NoOldVersion name), r)
      | Some slot \<Rightarrow>
          (case versions slot of
             None \<Rightarrow> (Inl (NoOldVersion name), r)
           | Some v \<Rightarrow>
               (case v_old v of
                  None \<Rightarrow> (Inl (NoOldVersion name), r)
                | Some old \<Rightarrow> (Inr (), arc_drop old (set_slot name (slot\<lparr>versions := Some (v\<lparr>v_old := None\<rparr>)\<rparr>) r)))))"

section \<open>Handles and versions\<close>

text \<open>
  A client step with what the clients hold: \<open>handles\<close> counts the shared modules outside the
  registry and \<open>loads\<close> the insertions of each name so far, deleted versions included.
\<close>

record 'p RegistryWorld =
  reg :: "'p ModuleRegistry"
  handles :: "nat \<Rightarrow> nat"
  loads :: "u32 \<Rightarrow> nat"

definition world_init :: "'p RegistryWorld" where
  "world_init = \<lparr>reg = registry_new, handles = (\<lambda>_. 0), loads = (\<lambda>_. 0)\<rparr>"

definition gains :: "nat \<Rightarrow> (nat \<Rightarrow> nat) \<Rightarrow> nat \<Rightarrow> nat" where
  "gains a h = h(a := h a + 1)"

definition loses :: "nat \<Rightarrow> (nat \<Rightarrow> nat) \<Rightarrow> nat \<Rightarrow> nat" where
  "loses a h = h(a := h a - 1)"

inductive reg_step :: "'p RegistryWorld \<Rightarrow> 'p RegistryWorld \<Rightarrow> bool" where
  step_insert: "insert_version m (reg w) = (a, r) \<Longrightarrow>
     reg_step w (w\<lparr>reg := r, handles := gains a (handles w), loads := (loads w)(m_name m := loads w (m_name m) + 1)\<rparr>)"
| step_lookup: "registry_lookup name (reg w) = (Some a, r) \<Longrightarrow> reg_step w (w\<lparr>reg := r, handles := gains a (handles w)\<rparr>)"
| step_lookup_old: "lookup_old name (reg w) = (Some a, r) \<Longrightarrow> reg_step w (w\<lparr>reg := r, handles := gains a (handles w)\<rparr>)"
| step_lookup_mfa: "lookup_mfa name f n (reg w) = (Inr cp, r) \<Longrightarrow> reg_step w (w\<lparr>reg := r, handles := gains (cp_module cp) (handles w)\<rparr>)"
| step_undef: "lookup_mfa name f n (reg w) = (Inl e, r) \<Longrightarrow> reg_step w (w\<lparr>reg := r\<rparr>)"
| step_clone: "handles w a > 0 \<Longrightarrow> reg_step w (w\<lparr>reg := arc_clone a (reg w), handles := gains a (handles w)\<rparr>)"
| step_drop: "handles w a > 0 \<Longrightarrow> reg_step w (w\<lparr>reg := arc_drop a (reg w), handles := loses a (handles w)\<rparr>)"
| step_purge: "purge_old name (reg w) = (res, r) \<Longrightarrow> reg_step w (w\<lparr>reg := r\<rparr>)"
| step_delete: "delete_module name (reg w) = (res, r) \<Longrightarrow> reg_step w (w\<lparr>reg := r\<rparr>)"
| step_force: "force_remove_old name (reg w) = (res, r) \<Longrightarrow> reg_step w (w\<lparr>reg := r\<rparr>)"

definition version_ok :: "'p ModuleRegistry \<Rightarrow> u32 \<Rightarrow> nat \<Rightarrow> nat \<Rightarrow> bool" where
  "version_ok r name n a \<longleftrightarrow>
     (\<exists>m. arcs r a = Some m \<and> m_name m = name \<and> unat (m_generation m) = min n (2 ^ 64 - 1))"

definition versions_ok :: "'p ModuleRegistry \<Rightarrow> u32 \<Rightarrow> nat \<Rightarrow> ModuleVersions \<Rightarrow> bool" where
  "versions_ok r name n v \<longleftrightarrow> version_ok r name n (v_current v) \<and>
     (\<forall>old. v_old v = Some old \<longrightarrow> old \<noteq> v_current v \<and> 1 < n \<and> version_ok r name (n - 1) old)"

definition slot_ok :: "'p ModuleRegistry \<Rightarrow> u32 \<Rightarrow> nat \<Rightarrow> ModuleSlot \<Rightarrow> bool" where
  "slot_ok r name n slot \<longleftrightarrow> 0 < n \<and> unat (next_generation slot) = min (n + 1) (2 ^ 64 - 1) \<and>
     (\<forall>v. versions slot = Some v \<longrightarrow> versions_ok r name n v)"

text \<open>How many references the registry itself holds.\<close>

definition holds :: "ModuleVersions option \<Rightarrow> nat \<Rightarrow> nat" where
  "holds vs a = (case vs of None \<Rightarrow> 0
     | Some v \<Rightarrow> (if v_current v = a then 1 else 0) + (if v_old v = Some a then 1 else 0))"

definition held :: "'p ModuleRegistry \<Rightarrow> nat \<Rightarrow> nat" where
  "held r a = (case arcs r a of None \<Rightarrow> 0 | Some m \<Rightarrow> holds (versions_of (m_name m) r) a)"

definition reg_ok :: "'p ModuleRegistry \<Rightarrow> (nat \<Rightarrow> nat) \<Rightarrow> (u32 \<Rightarrow> nat) \<Rightarrow> bool" where
  "reg_ok r h l \<longleftrightarrow>
     (\<forall>a. strong r a = h a + held r a) \<and> (\<forall>a. 0 < strong r a \<longleftrightarrow> arcs r a \<noteq> None) \<and>
     (\<forall>a. next_arc r \<le> a \<longrightarrow> arcs r a = None) \<and>
     (\<forall>name. modules r name = None \<longrightarrow> l name = 0) \<and>
     (\<forall>name slot. modules r name = Some slot \<longrightarrow> slot_ok r name (l name) slot)"

lemma reg_okI:
  assumes "\<And>a. strong r a = h a + held r a" "\<And>a. 0 < strong r a \<longleftrightarrow> arcs r a \<noteq> None"
    "\<And>a. next_arc r \<le> a \<Longrightarrow> arcs r a = None" "\<And>name. modules r name = None \<Longrightarrow> l name = 0"
    "\<And>name slot. modules r name = Some slot \<Longrightarrow> slot_ok r name (l name) slot"
  shows "reg_ok r h l"
  using assms unfolding reg_ok_def by blast

lemma reg_okD:
  assumes "reg_ok r h l"
  shows "strong r a = h a + held r a" "0 < strong r a \<longleftrightarrow> arcs r a \<noteq> None"
    "next_arc r \<le> a \<Longrightarrow> arcs r a = None" "modules r name = None \<Longrightarrow> l name = 0"
    "modules r name = Some slot \<Longrightarrow> slot_ok r name (l name) slot"
  using assms unfolding reg_ok_def by blast+

lemma slot_ok_cong:
  assumes "slot_ok r name n slot"
    "\<And>v a. versions slot = Some v \<Longrightarrow> a = v_current v \<or> v_old v = Some a \<Longrightarrow> arcs r' a = arcs r a"
  shows "slot_ok r' name n slot"
  using assms unfolding slot_ok_def versions_ok_def version_ok_def by metis

lemma held_cong: "arcs r' a = arcs r a \<Longrightarrow> modules r' = modules r \<Longrightarrow> held r' a = held r a"
  by (auto simp: held_def versions_of_def split: option.split)

text \<open>What the registry holds is allocated under the name of its slot.\<close>

lemma held_slot:
  assumes "reg_ok r h l" "modules r name = Some slot" "versions slot = Some v" "a = v_current v \<or> v_old v = Some a"
  shows "0 < held r a" "arcs r a \<noteq> None"
proof -
  have "versions_ok r name (l name) v" using reg_okD(5) [OF assms(1,2)] assms(3) by (simp add: slot_ok_def)
  then obtain m where m: "arcs r a = Some m" "m_name m = name"
    using assms(4) by (auto simp: versions_ok_def version_ok_def)
  then show "arcs r a \<noteq> None" by simp
  show "0 < held r a" using m assms(2-4) by (auto simp: held_def versions_of_def holds_def)
qed

lemma reg_ok_clone:
  assumes ok: "reg_ok r h l" and pos: "0 < strong r a"
  shows "reg_ok (arc_clone a r) (gains a h) l"
proof (rule reg_okI)
  have held: "held (arc_clone a r) b = held r b" for b by (rule held_cong) (simp_all add: arc_clone_def)
  show "strong (arc_clone a r) b = gains a h b + held (arc_clone a r) b" for b
    using reg_okD(1) [OF ok, of b] unfolding held by (auto simp: arc_clone_def gains_def)
  show "0 < strong (arc_clone a r) b \<longleftrightarrow> arcs (arc_clone a r) b \<noteq> None" for b
    using reg_okD(2) [OF ok, of b] pos by (auto simp: arc_clone_def)
  show "slot_ok (arc_clone a r) name (l name) slot" if "modules (arc_clone a r) name = Some slot" for name slot
    using reg_okD(5) [OF ok, of name slot] that by (auto simp: arc_clone_def intro: slot_ok_cong)
qed (use ok in \<open>auto simp: arc_clone_def dest: reg_okD(3,4)\<close>)

lemma reg_ok_drop:
  assumes ok: "reg_ok r h l" and pos: "0 < h a"
  shows "reg_ok (arc_drop a r) (loses a h) l"
proof (rule reg_okI)
  have count: "strong r a = h a + held r a" by (rule reg_okD(1) [OF ok])
  have gone: "held r a = 0" if "strong r a = 1" using count pos that by simp
  have held: "held (arc_drop a r) b = held r b" for b
  proof (cases "b = a \<and> strong r a = 1")
    case True
    then show ?thesis using gone by (simp add: held_def arc_drop_def)
  qed (rule held_cong; auto simp: arc_drop_def)
  show "strong (arc_drop a r) b = loses a h b + held (arc_drop a r) b" for b
    using reg_okD(1) [OF ok, of b] pos unfolding held by (auto simp: arc_drop_def loses_def)
  show "0 < strong (arc_drop a r) b \<longleftrightarrow> arcs (arc_drop a r) b \<noteq> None" for b
    using reg_okD(2) [OF ok, of b] count pos by (auto simp: arc_drop_def)
  show "slot_ok (arc_drop a r) name (l name) slot" if "modules (arc_drop a r) name = Some slot" for name slot
  proof (rule slot_ok_cong [of r])
    have slot: "modules r name = Some slot" using that by (simp add: arc_drop_def)
    then show "slot_ok r name (l name) slot" by (rule reg_okD(5) [OF ok])
    show "arcs (arc_drop a r) b = arcs r b" if "versions slot = Some v" "b = v_current v \<or> v_old v = Some b" for v b
      using held_slot [OF ok slot that] gone by (auto simp: arc_drop_def)
  qed
qed (use ok in \<open>auto simp: arc_drop_def dest: reg_okD(3,4)\<close>)

lemma reg_ok_new:
  assumes ok: "reg_ok r h l" and new: "arc_new m r = (a, r')"
  shows "reg_ok r' (h(a := 1)) l" "arcs r' a = Some m" "h a = 0" "\<And>b. arcs r b \<noteq> None \<Longrightarrow> b \<noteq> a \<and> arcs r' b = arcs r b"
proof -
  have a: "a = next_arc r" and r': "r' = r\<lparr>arcs := (arcs r)(a \<mapsto> m), strong := (strong r)(a := 1), next_arc := a + 1\<rparr>"
    using new by (auto simp: arc_new_def)
  have none: "arcs r a = None" using reg_okD(3) [OF ok, of a] a by simp
  then have "strong r a = 0" using reg_okD(2) [OF ok, of a] by simp
  then show ha: "h a = 0" using reg_okD(1) [OF ok, of a] by simp
  show "arcs r' a = Some m" by (simp add: r')
  show other: "b \<noteq> a \<and> arcs r' b = arcs r b" if "arcs r b \<noteq> None" for b using that none by (auto simp: r')
  have unheld: "\<not> (a = v_current v \<or> v_old v = Some a)" if "modules r name = Some slot" "versions slot = Some v" for name slot v
    using held_slot(2) [OF ok that, of a] none by blast
  have held: "held r' b = (if b = a then 0 else held r b)" for b
  proof (cases "b = a")
    case True
    then show ?thesis using unheld by (auto simp: held_def r' versions_of_def holds_def split: option.splits bind_splits)
  qed (use held_cong [of r' b r] in \<open>simp add: r'\<close>)
  show "reg_ok r' (h(a := 1)) l"
  proof (rule reg_okI)
    show "strong r' b = (h(a := 1)) b + held r' b" for b
      using reg_okD(1) [OF ok, of b] unfolding held by (simp add: r')
    show "0 < strong r' b \<longleftrightarrow> arcs r' b \<noteq> None" for b using reg_okD(2) [OF ok, of b] by (simp add: r')
    show "arcs r' b = None" if "next_arc r' \<le> b" for b using that reg_okD(3) [OF ok, of b] a by (simp add: r')
    show "slot_ok r' name (l name) slot" if "modules r' name = Some slot" for name slot
    proof (rule slot_ok_cong [of r])
      have slot: "modules r name = Some slot" using that by (simp add: r')
      then show "slot_ok r name (l name) slot" by (rule reg_okD(5) [OF ok])
      show "arcs r' b = arcs r b" if "versions slot = Some v" "b = v_current v \<or> v_old v = Some b" for v b
        using held_slot(2) [OF ok slot that] other by blast
    qed
  qed (use ok in \<open>auto simp: r' dest: reg_okD(4)\<close>)
qed

text \<open>Versions taken out of a slot are handles until they are dropped or put into a slot again.\<close>

definition plus_versions :: "ModuleVersions option \<Rightarrow> (nat \<Rightarrow> nat) \<Rightarrow> nat \<Rightarrow> nat" where
  "plus_versions vs h a = h a + holds vs a"

lemma plus_versions_None [simp]: "plus_versions None h = h"
  by (simp add: plus_versions_def holds_def fun_eq_iff)

lemma held_slot_set:
  assumes "arcs r a = Some m"
  shows "held (set_slot name slot r) a = (if m_name m = name then holds (versions slot) a else held r a)"
  using assms by (simp add: held_def set_slot_def versions_of_def)

lemma holds_name:
  assumes "reg_ok r h l" "modules r name = Some slot" "0 < holds (versions slot) a"
  shows "\<exists>m. arcs r a = Some m \<and> m_name m = name"
proof -
  obtain v where v: "versions slot = Some v" "a = v_current v \<or> v_old v = Some a"
    using assms(3) by (auto simp: holds_def split: option.splits if_splits)
  have "versions_ok r name (l name) v" using reg_okD(5) [OF assms(1,2)] v(1) by (simp add: slot_ok_def)
  then show ?thesis using v(2) by (auto simp: versions_ok_def version_ok_def)
qed

lemma reg_ok_take:
  assumes ok: "reg_ok r h l" and slot: "modules r name = Some slot"
  shows "reg_ok (set_slot name (slot\<lparr>versions := None\<rparr>) r) (plus_versions (versions slot) h) l"
proof (rule reg_okI)
  let ?r = "set_slot name (slot\<lparr>versions := None\<rparr>) r"
  have [simp]: "strong ?r = strong r" "arcs ?r = arcs r" "next_arc ?r = next_arc r" by (simp_all add: set_slot_def)
  show "strong ?r a = plus_versions (versions slot) h a + held ?r a" for a
  proof (cases "arcs r a")
    case None
    then have "holds (versions slot) a = 0" "held ?r a = 0" "held r a = 0"
      using holds_name [OF ok slot, of a] by (auto simp: held_def)
    then show ?thesis using reg_okD(1) [OF ok, of a] by (simp add: plus_versions_def)
  next
    case (Some m)
    have "m_name m \<noteq> name \<Longrightarrow> holds (versions slot) a = 0" using holds_name [OF ok slot, of a] Some by auto
    then show ?thesis using reg_okD(1) [OF ok, of a] slot Some
      by (auto simp: held_slot_set [OF Some] plus_versions_def) (simp_all add: held_def versions_of_def holds_def)
  qed
  show "slot_ok ?r n (l n) s" if "modules ?r n = Some s" for n s
  proof (cases "n = name")
    case True
    then show ?thesis using that reg_okD(5) [OF ok slot] by (auto simp: set_slot_def slot_ok_def)
  next
    case False
    then show ?thesis using that reg_okD(5) [OF ok, of n s] by (auto simp: set_slot_def intro: slot_ok_cong)
  qed
qed (use ok slot in \<open>auto simp: set_slot_def dest: reg_okD split: if_splits\<close>)

lemma reg_ok_put:
  assumes ok: "reg_ok r h l" and free: "versions_of name r = None"
    and slot: "slot_ok r name n slot" and have_v: "\<And>a. holds (versions slot) a \<le> h a"
  shows "reg_ok (set_slot name slot r) (\<lambda>a. h a - holds (versions slot) a) (l(name := n))"
proof (rule reg_okI)
  let ?r = "set_slot name slot r"
  have [simp]: "strong ?r = strong r" "arcs ?r = arcs r" "next_arc ?r = next_arc r" by (simp_all add: set_slot_def)
  have holds_named: "\<exists>m. arcs r a = Some m \<and> m_name m = name" if "0 < holds (versions slot) a" for a
    using that slot by (auto simp: slot_ok_def versions_ok_def version_ok_def holds_def split: option.splits if_splits)
  show "strong ?r a = (h a - holds (versions slot) a) + held ?r a" for a
  proof (cases "arcs r a")
    case None
    then have "holds (versions slot) a = 0" "held ?r a = 0" "held r a = 0" using holds_named [of a] by (auto simp: held_def)
    then show ?thesis using reg_okD(1) [OF ok, of a] by simp
  next
    case (Some m)
    have "m_name m = name \<Longrightarrow> held r a = 0" using Some free by (simp add: held_def holds_def)
    moreover have "m_name m \<noteq> name \<Longrightarrow> holds (versions slot) a = 0" using holds_named [of a] Some by auto
    ultimately show ?thesis using reg_okD(1) [OF ok, of a] have_v [of a] by (auto simp: held_slot_set [OF Some])
  qed
  show "slot_ok ?r k ((l(name := n)) k) s" if "modules ?r k = Some s" for k s
    using that slot reg_okD(5) [OF ok, of k s] by (auto simp: set_slot_def intro: slot_ok_cong split: if_splits)
qed (use ok in \<open>auto simp: set_slot_def dest: reg_okD split: if_splits\<close>)

lemma reg_ok_drop_versions:
  assumes "reg_ok r (plus_versions vs h) l" "\<And>v. vs = Some v \<Longrightarrow> v_old v \<noteq> Some (v_current v)"
  shows "reg_ok (drop_versions vs r) h l"
proof (cases vs)
  case None
  then show ?thesis using assms(1) by (simp add: drop_versions_def)
next
  case (Some v)
  let ?c = "v_current v"
  have c: "reg_ok (arc_drop ?c r) (loses ?c (plus_versions vs h)) l"
    using assms(1) by (rule reg_ok_drop) (simp add: Some plus_versions_def holds_def)
  show ?thesis
  proof (cases "v_old v")
    case None
    have "loses ?c (plus_versions vs h) = h" using None by (auto simp: Some loses_def plus_versions_def holds_def)
    then show ?thesis using c None Some by (simp add: drop_versions_def)
  next
    case old: (Some b)
    have "b \<noteq> ?c" using assms(2) Some old by auto
    then have "loses b (loses ?c (plus_versions vs h)) = h" "0 < loses ?c (plus_versions vs h) b"
      using old by (auto simp: Some loses_def plus_versions_def holds_def)
    then show ?thesis using reg_ok_drop [OF c, of b] old Some by (simp add: drop_versions_def)
  qed
qed

text \<open>Slots and reference counts are separate fields.\<close>

lemma set_slot_simps [simp]:
  "arc_clone a (set_slot name s r) = set_slot name s (arc_clone a r)"
  "arc_drop a (set_slot name s r) = set_slot name s (arc_drop a r)"
  "drop_versions vs (set_slot name s r) = set_slot name s (drop_versions vs r)"
  "set_slot name s (set_slot name s' r) = set_slot name s r"
  "versions_of name (set_slot name s r) = versions s"
  "arcs (set_slot name s r) = arcs r" "strong (set_slot name s r) = strong r"
  by (simp_all add: arc_clone_def arc_drop_def drop_versions_def set_slot_def versions_of_def split: option.split)

lemma arc_new_set_slot: "arc_new m (set_slot name s r) = map_prod id (set_slot name s) (arc_new m r)"
  by (simp add: arc_new_def set_slot_def)

lemma arcs_drop_versions: "arcs (drop_versions vs r) a \<noteq> None \<Longrightarrow> arcs (drop_versions vs r) a = arcs r a"
  by (auto simp: drop_versions_def arc_drop_def split: option.splits if_splits)

lemma versions_distinct:
  assumes "reg_ok r h l" "modules r name = Some slot" "versions slot = Some v"
  shows "v_old v \<noteq> Some (v_current v)"
  using reg_okD(5) [OF assms(1,2)] assms(3) by (auto simp: slot_ok_def versions_ok_def)

lemma next_generation_ok:
  assumes "unat g = min n (2 ^ 64 - 1)"
  shows "unat (saturating_add_u64 g 1) = min (n + 1) (2 ^ 64 - 1)"
  using assms by (simp add: unat_saturating_add_u64)

text \<open>The new version of a name that has none in its slot, and the version before it.\<close>

lemma insert_put:
  assumes ok: "reg_ok r h l" and free: "versions_of name r = None"
    and a: "arcs r a = Some m" "m_name m = name" "unat (m_generation m) = min (n + 1) (2 ^ 64 - 1)" "h a = 2"
    and old: "\<And>c. old = Some c \<Longrightarrow> c \<noteq> a \<and> 0 < h c \<and> 0 < n \<and> version_ok r name n c"
    and h': "\<And>b. h' b = h b - (if b = a then 1 else 0) - (if old = Some b then 1 else 0)"
  shows "reg_ok (set_slot name \<lparr>versions = Some \<lparr>v_current = a, v_old = old\<rparr>,
            next_generation = saturating_add_u64 (m_generation m) 1\<rparr> r) h' (l(name := n + 1))"
proof -
  let ?slot = "\<lparr>versions = Some \<lparr>v_current = a, v_old = old\<rparr>, next_generation = saturating_add_u64 (m_generation m) 1\<rparr>"
  have "slot_ok r name (n + 1) ?slot"
    using a(1-3) old next_generation_ok [OF a(3)] by (auto simp: slot_ok_def versions_ok_def version_ok_def)
  moreover have "holds (versions ?slot) b \<le> h b" for b using a(4) old [of b] by (auto simp: holds_def)
  ultimately have "reg_ok (set_slot name ?slot r) (\<lambda>b. h b - holds (versions ?slot) b) (l(name := n + 1))"
    by (rule reg_ok_put [OF ok free])
  moreover have "(\<lambda>b. h b - holds (versions ?slot) b) = h'" by (auto simp: h' holds_def fun_eq_iff)
  ultimately show ?thesis by simp
qed

lemma arcs_arc_clone [simp]: "arcs (arc_clone a r) = arcs r" "modules (arc_clone a r) = modules r"
  by (simp_all add: arc_clone_def)

lemma modules_arc_new: "arc_new m r = (a, r') \<Longrightarrow> modules r' = modules r"
  by (auto simp: arc_new_def)

lemma versions_of_arc_clone [simp]: "versions_of name (arc_clone a r) = versions_of name r"
  by (simp add: versions_of_def)

lemma insert_vacant:
  assumes ok: "reg_ok r h l" and vacant: "modules r (m_name m) = None" and ins: "insert_version m r = (a, r')"
  shows "reg_ok r' (gains a h) (l(m_name m := l (m_name m) + 1))" "arcs r' a = Some (m\<lparr>m_generation := 1\<rparr>)" "l (m_name m) = 0"
proof -
  obtain r1 where new: "arc_new (m\<lparr>m_generation := 1\<rparr>) r = (a, r1)"
    and r': "r' = set_slot (m_name m) \<lparr>versions = Some \<lparr>v_current = a, v_old = None\<rparr>, next_generation = 2\<rparr> (arc_clone a r1)"
    using ins vacant by (auto simp: insert_version_def split: prod.splits)
  note n = reg_ok_new [OF ok new]
  have "reg_ok (arc_clone a r1) (gains a (h(a := 1))) l" using reg_okD(2) [OF n(1), of a] n(2) by (intro reg_ok_clone n(1)) simp
  from insert_put [OF this, of "m_name m" a "m\<lparr>m_generation := 1\<rparr>" 0 None "gains a h"] vacant n(2,3)
  have "reg_ok r' (gains a h) (l(m_name m := 1))"
    unfolding r' by (simp add: versions_of_def modules_arc_new [OF new] gains_def saturating_add_u64_def)
  moreover show l: "l (m_name m) = 0" by (rule reg_okD(4) [OF ok vacant])
  ultimately show "reg_ok r' (gains a h) (l(m_name m := l (m_name m) + 1))" by simp
  show "arcs r' a = Some (m\<lparr>m_generation := 1\<rparr>)" using n(2) by (simp add: r')
qed

lemma insert_deleted:
  assumes ok: "reg_ok r h l" and slot: "modules r (m_name m) = Some slot" "versions slot = None" and ins: "insert_version m r = (a, r')"
  shows "reg_ok r' (gains a h) (l(m_name m := l (m_name m) + 1))"
    "\<exists>g. arcs r' a = Some (m\<lparr>m_generation := g\<rparr>) \<and> unat g = min (l (m_name m) + 1) (2 ^ 64 - 1)"
proof -
  let ?g = "next_generation slot"
  have g: "unat ?g = min (l (m_name m) + 1) (2 ^ 64 - 1)" using reg_okD(5) [OF ok slot(1)] by (simp add: slot_ok_def)
  then have "unat (1 :: u64) \<le> unat ?g" by simp
  then have "max ?g 1 = ?g" by (simp only: word_le_nat_alt [symmetric] max_absorb1)
  then obtain r1 where new: "arc_new (m\<lparr>m_generation := ?g\<rparr>) r = (a, r1)"
    and r': "r' = set_slot (m_name m) \<lparr>versions = Some \<lparr>v_current = a, v_old = None\<rparr>,
       next_generation = saturating_add_u64 ?g 1\<rparr> (arc_clone a r1)"
    using ins slot by (auto simp: insert_version_def drop_versions_def split: prod.splits)
  note n = reg_ok_new [OF ok new]
  have "reg_ok (arc_clone a r1) (gains a (h(a := 1))) l" using reg_okD(2) [OF n(1), of a] n(2) by (intro reg_ok_clone n(1)) simp
  from insert_put [OF this, of "m_name m" a "m\<lparr>m_generation := ?g\<rparr>" "l (m_name m)" None "gains a h"] slot n(2,3) g
  show "reg_ok r' (gains a h) (l(m_name m := l (m_name m) + 1))"
    unfolding r' by (simp add: versions_of_def modules_arc_new [OF new] gains_def)
  show "\<exists>g. arcs r' a = Some (m\<lparr>m_generation := g\<rparr>) \<and> unat g = min (l (m_name m) + 1) (2 ^ 64 - 1)"
    by (intro exI [of _ ?g]) (simp add: r' n(2) g)
qed

lemma insert_replaces:
  assumes ok: "reg_ok r h l" and slot: "modules r (m_name m) = Some slot" "versions slot = Some v" and ins: "insert_version m r = (a, r')"
  shows "reg_ok r' (gains a h) (l(m_name m := l (m_name m) + 1))"
    "\<exists>g. arcs r' a = Some (m\<lparr>m_generation := g\<rparr>) \<and> unat g = min (l (m_name m) + 1) (2 ^ 64 - 1)"
proof -
  let ?name = "m_name m" and ?c = "v_current v"
  have v: "versions_ok r ?name (l ?name) v" "0 < l ?name" using reg_okD(5) [OF ok slot(1)] slot(2) by (auto simp: slot_ok_def)
  obtain mc where mc: "arcs r ?c = Some mc" "m_name mc = ?name" "unat (m_generation mc) = min (l ?name) (2 ^ 64 - 1)"
    using v(1) by (auto simp: versions_ok_def version_ok_def)
  let ?g = "saturating_add_u64 (m_generation mc) 1" and ?r0 = "set_slot ?name (slot\<lparr>versions := None\<rparr>) r"
  have g: "unat ?g = min (l ?name + 1) (2 ^ 64 - 1)" by (rule next_generation_ok [OF mc(3)])
  obtain r2 where new: "arc_new (m\<lparr>m_generation := ?g\<rparr>) (arc_clone ?c r) = (a, r2)"
    and r': "r' = set_slot ?name \<lparr>versions = Some \<lparr>v_current = a, v_old = Some ?c\<rparr>, next_generation = saturating_add_u64 ?g 1\<rparr>
       (drop_versions (Some v) (arc_clone a r2))"
    using ins slot mc(1) by (auto simp: insert_version_def split: prod.splits)
  let ?r2 = "set_slot ?name (slot\<lparr>versions := None\<rparr>) r2" and ?h0 = "plus_versions (Some v) h"
  have "reg_ok ?r0 ?h0 l" using reg_ok_take [OF ok slot(1)] slot(2) by simp
  moreover have "0 < strong ?r0 ?c" using reg_okD(2) [OF ok, of ?c] mc(1) by simp
  ultimately have r1: "reg_ok (arc_clone ?c ?r0) (gains ?c ?h0) l" by (rule reg_ok_clone)
  have new': "arc_new (m\<lparr>m_generation := ?g\<rparr>) (arc_clone ?c ?r0) = (a, ?r2)" using new by (simp add: arc_new_set_slot)
  note n = reg_ok_new [OF r1 new']
  have ac: "a \<noteq> ?c" and arcs2: "arcs r2 ?c = Some mc" using n(4) [of ?c] mc(1) by auto
  have ha: "h a = 0" "holds (Some v) a = 0" using n(3) ac by (auto simp: gains_def plus_versions_def)
  have "reg_ok (arc_clone a ?r2) (gains a ((gains ?c ?h0)(a := 1))) l"
    using reg_okD(2) [OF n(1), of a] n(2) by (intro reg_ok_clone n(1)) simp
  moreover have "gains a ((gains ?c ?h0)(a := 1)) = plus_versions (Some v) ((gains ?c h)(a := 2))"
    using ha ac by (auto simp: gains_def plus_versions_def fun_eq_iff)
  ultimately have "reg_ok (arc_clone a ?r2) (plus_versions (Some v) ((gains ?c h)(a := 2))) l" by (simp only:)
  then have dropped: "reg_ok (drop_versions (Some v) (arc_clone a ?r2)) ((gains ?c h)(a := 2)) l"
    by (rule reg_ok_drop_versions) (use versions_distinct [OF ok slot] in simp)
  let ?r3 = "drop_versions (Some v) (arc_clone a ?r2)"
  have alive: "arcs ?r3 b \<noteq> None" if "0 < ((gains ?c h)(a := 2)) b" for b
    using reg_okD(1,2) [OF dropped, of b] that by simp
  have "arcs ?r3 a = Some (m\<lparr>m_generation := ?g\<rparr>)" "arcs ?r3 ?c = Some mc"
    using alive [of a] alive [of ?c] arcs_drop_versions [of "Some v" "arc_clone a r2"] n(2) arcs2 by (auto simp: gains_def)
  moreover from this have "version_ok ?r3 ?name (l ?name) ?c" using mc by (simp add: version_ok_def)
  moreover have "gains a h b = ((gains ?c h)(a := 2)) b - (if b = a then 1 else 0) - (if Some ?c = Some b then 1 else 0)" for b
    using ha ac by (auto simp: gains_def)
  ultimately have "reg_ok (set_slot ?name \<lparr>versions = Some \<lparr>v_current = a, v_old = Some ?c\<rparr>, next_generation = saturating_add_u64 ?g 1\<rparr> ?r3)
      (gains a h) (l(?name := l ?name + 1))"
    using insert_put [OF dropped, of ?name a "m\<lparr>m_generation := ?g\<rparr>" "l ?name" "Some ?c" "gains a h"] g v(2) ac by (simp add: gains_def)
  then show "reg_ok r' (gains a h) (l(?name := l ?name + 1))" by (simp add: r')
  show "\<exists>g. arcs r' a = Some (m\<lparr>m_generation := g\<rparr>) \<and> unat g = min (l ?name + 1) (2 ^ 64 - 1)"
    using \<open>arcs ?r3 a = Some (m\<lparr>m_generation := ?g\<rparr>)\<close> g by (auto simp: r')
qed

lemma insert_version_ok:
  assumes ok: "reg_ok r h l" and ins: "insert_version m r = (a, r')"
  shows "reg_ok r' (gains a h) (l(m_name m := l (m_name m) + 1))"
    "\<exists>g. arcs r' a = Some (m\<lparr>m_generation := g\<rparr>) \<and> unat g = min (l (m_name m) + 1) (2 ^ 64 - 1)"
proof -
  consider (vacant) "modules r (m_name m) = None" | (deleted) slot where "modules r (m_name m) = Some slot" "versions slot = None"
    | (loaded) slot v where "modules r (m_name m) = Some slot" "versions slot = Some v" by fastforce
  note cases = this
  show "reg_ok r' (gains a h) (l(m_name m := l (m_name m) + 1))"
    by (cases rule: cases) (fact insert_vacant(1) [OF ok _ ins], fact insert_deleted(1) [OF ok _ _ ins], fact insert_replaces(1) [OF ok _ _ ins])
  show "\<exists>g. arcs r' a = Some (m\<lparr>m_generation := g\<rparr>) \<and> unat g = min (l (m_name m) + 1) (2 ^ 64 - 1)"
  proof (cases rule: cases)
    case vacant
    from insert_vacant(2,3) [OF ok vacant ins] show ?thesis by (intro exI [of _ 1]) simp
  qed (fact insert_deleted(2) [OF ok _ _ ins], fact insert_replaces(2) [OF ok _ _ ins])
qed

lemma versions_of_Some: "versions_of name r = Some v \<longleftrightarrow> (\<exists>slot. modules r name = Some slot \<and> versions slot = Some v)"
  by (simp add: versions_of_def bind_eq_Some_conv)

lemma shared_ok:
  assumes ok: "reg_ok r h l" and s: "shared b r = (Some a, r')" and v: "\<And>a. b = Some a \<Longrightarrow> \<exists>name v. versions_of name r = Some v \<and> (a = v_current v \<or> v_old v = Some a)"
  shows "reg_ok r' (gains a h) l" "arcs r' = arcs r"
proof -
  have b: "b = Some a" and r': "r' = arc_clone a r" using s by (auto simp: shared_def split: option.splits)
  have "arcs r a \<noteq> None" using v [OF b] held_slot(2) [OF ok] unfolding versions_of_Some by blast
  then show "reg_ok r' (gains a h) l" unfolding r' using reg_okD(2) [OF ok, of a] by (intro reg_ok_clone [OF ok]) simp
  show "arcs r' = arcs r" by (simp add: r')
qed

lemma lookup_ok: "reg_ok r h l \<Longrightarrow> registry_lookup name r = (Some a, r') \<Longrightarrow> reg_ok r' (gains a h) l"
  unfolding registry_lookup_def by (rule shared_ok(1)) auto

lemma lookup_old_ok:
  assumes "reg_ok r h l" "lookup_old name r = (Some a, r')"
  shows "reg_ok r' (gains a h) l"
proof -
  have "\<exists>name v. versions_of name r = Some v \<and> (b = v_current v \<or> v_old v = Some b)"
    if "Option.bind (versions_of name r) v_old = Some b" for b
    using that unfolding bind_eq_Some_conv by blast
  then show ?thesis by (rule shared_ok(1) [OF assms(1) assms(2) [unfolded lookup_old_def]])
qed

lemma lookup_mfa_ok:
  assumes ok: "reg_ok r h l"
  shows "lookup_mfa name f n r = (Inr cp, r') \<Longrightarrow> reg_ok r' (gains (cp_module cp) h) l"
    "lookup_mfa name f n r = (Inl e, r') \<Longrightarrow> reg_ok r' h l"
proof -
  show "reg_ok r' (gains (cp_module cp) h) l" if "lookup_mfa name f n r = (Inr cp, r')"
    using that lookup_ok [OF ok] by (auto simp: lookup_mfa_def Let_def split: prod.splits option.splits)
  show "reg_ok r' h l" if hit: "lookup_mfa name f n r = (Inl e, r')"
  proof (cases "registry_lookup name r")
    case (Pair b r1)
    show ?thesis
    proof (cases b)
      case None
      then show ?thesis using hit ok Pair by (auto simp: lookup_mfa_def registry_lookup_def shared_def split: option.splits)
    next
      case (Some a)
      have r1: "reg_ok r1 (gains a h) l" using lookup_ok [OF ok] Pair Some by blast
      have "r' = arc_drop a r1" using hit Pair Some by (auto simp: lookup_mfa_def Let_def split: option.splits)
      moreover have "loses a (gains a h) = h" by (auto simp: loses_def gains_def)
      ultimately show ?thesis using reg_ok_drop [OF r1, of a] by (simp add: gains_def)
    qed
  qed
qed

text \<open>Dropping the old version: the rest of the slot goes back.\<close>

lemma remove_old_ok:
  assumes ok: "reg_ok r h l" and slot: "modules r name = Some slot" "versions slot = Some v" "v_old v = Some old"
  shows "reg_ok (set_slot name (slot\<lparr>versions := Some (v\<lparr>v_old := None\<rparr>)\<rparr>) (arc_drop old r)) h l"
proof -
  let ?c = "v_current v" and ?r0 = "set_slot name (slot\<lparr>versions := None\<rparr>) r" and ?h0 = "plus_versions (Some v) h"
  let ?r1 = "set_slot name (slot\<lparr>versions := None\<rparr>) (arc_drop old r)" and ?h1 = "gains ?c h"
  have s: "slot_ok r name (l name) slot" by (rule reg_okD(5) [OF ok slot(1)])
  have neq: "old \<noteq> ?c" using versions_distinct [OF ok slot(1,2)] slot(3) by auto
  have "reg_ok ?r0 ?h0 l" using reg_ok_take [OF ok slot(1)] slot(2) by simp
  then have "reg_ok (arc_drop old ?r0) (loses old ?h0) l" by (rule reg_ok_drop) (simp add: plus_versions_def holds_def slot(3))
  moreover have "loses old ?h0 = ?h1" using neq slot(3) by (auto simp: loses_def gains_def plus_versions_def holds_def)
  ultimately have r1: "reg_ok ?r1 ?h1 l" by simp
  have "arcs (arc_drop old r) ?c = arcs r ?c" using neq by (simp add: arc_drop_def)
  then have "slot_ok ?r1 name (l name) (slot\<lparr>versions := Some (v\<lparr>v_old := None\<rparr>)\<rparr>)"
    using s slot(2) by (auto simp: slot_ok_def versions_ok_def version_ok_def)
  then have "reg_ok (set_slot name (slot\<lparr>versions := Some (v\<lparr>v_old := None\<rparr>)\<rparr>) ?r1)
      (\<lambda>a. ?h1 a - holds (versions (slot\<lparr>versions := Some (v\<lparr>v_old := None\<rparr>)\<rparr>)) a) (l(name := l name))"
    by (intro reg_ok_put [OF r1]) (auto simp: holds_def gains_def)
  moreover have "(\<lambda>a. ?h1 a - holds (versions (slot\<lparr>versions := Some (v\<lparr>v_old := None\<rparr>)\<rparr>)) a) = h"
    by (auto simp: holds_def gains_def fun_eq_iff)
  ultimately show ?thesis by simp
qed

lemma purge_ok: "reg_ok r h l \<Longrightarrow> purge_old name r = (res, r') \<Longrightarrow> reg_ok r' h l"
  by (auto simp: purge_old_def remove_old_ok split: option.splits if_splits)

lemma force_ok: "reg_ok r h l \<Longrightarrow> force_remove_old name r = (res, r') \<Longrightarrow> reg_ok r' h l"
  by (auto simp: force_remove_old_def remove_old_ok split: option.splits)

lemma delete_ok:
  assumes ok: "reg_ok r h l" and del: "delete_module name r = (res, r')"
  shows "reg_ok r' h l"
proof (cases "modules r name")
  case (Some slot)
  have "r' = drop_versions (versions slot) (set_slot name (slot\<lparr>versions := None\<rparr>) r)" using del Some by (simp add: delete_module_def)
  moreover have "reg_ok (drop_versions (versions slot) (set_slot name (slot\<lparr>versions := None\<rparr>) r)) h l"
    by (rule reg_ok_drop_versions [OF reg_ok_take [OF ok Some]]) (rule versions_distinct [OF ok Some])
  ultimately show ?thesis by simp
qed (use ok del in \<open>simp add: delete_module_def\<close>)

lemma step_ok:
  assumes "reg_step w w'" "reg_ok (reg w) (handles w) (loads w)"
  shows "reg_ok (reg w') (handles w') (loads w')"
  using assms
proof cases
  case (step_clone a)
  have "0 < strong (reg w) a" using reg_okD(1) [OF assms(2), of a] step_clone by simp
  then show ?thesis using step_clone reg_ok_clone [OF assms(2)] by simp
qed (use assms(2) in \<open>auto simp del: One_nat_def simp: insert_version_ok(1) intro: lookup_ok lookup_old_ok lookup_mfa_ok reg_ok_drop purge_ok delete_ok force_ok\<close>)

definition reg_reachable :: "'p RegistryWorld \<Rightarrow> bool" where
  "reg_reachable w \<longleftrightarrow> reg_step\<^sup>*\<^sup>* world_init w"

lemma reachable_reg_ok: "reg_reachable w \<Longrightarrow> reg_ok (reg w) (handles w) (loads w)"
  unfolding reg_reachable_def
proof (induction rule: rtranclp_induct)
  case base
  show ?case by (auto simp: world_init_def registry_new_def held_def intro!: reg_okI)
qed (rule step_ok)

text \<open>Every module alive is numbered within the loads of its name.\<close>

lemma arcs_arc_drop: "arcs (arc_drop a r) b = Some m \<Longrightarrow> arcs r b = Some m"
  by (auto simp: arc_drop_def split: if_splits)

lemma arcs_drop_versions_Some: "arcs (drop_versions vs r) b = Some m \<Longrightarrow> arcs r b = Some m"
  using arcs_drop_versions [of vs r b] by simp

lemma arcs_insert_version:
  assumes "insert_version m r = (a, r')" "arcs r' b = Some mb"
  shows "b = a \<or> arcs r b = Some mb"
  using assms
  by (auto simp: insert_version_def arc_new_def Let_def split: option.splits if_splits prod.splits dest!: arcs_drop_versions_Some)

lemma arcs_shared [simp]: "arcs (snd (shared b r)) = arcs r"
  by (simp add: shared_def split: option.split)

lemma arcs_lookups:
  "registry_lookup name r = (b, r') \<Longrightarrow> arcs r' = arcs r" "lookup_old name r = (b, r') \<Longrightarrow> arcs r' = arcs r"
  unfolding registry_lookup_def lookup_old_def by (metis arcs_shared snd_conv)+

lemma arcs_lookup_mfa: "lookup_mfa name f n r = (res, r') \<Longrightarrow> arcs r' b = Some m \<Longrightarrow> arcs r b = Some m"
  by (auto simp: lookup_mfa_def Let_def dest!: arcs_arc_drop split: prod.splits option.splits) (auto dest: arcs_lookups(1))

lemma arcs_removals:
  "purge_old name r = (res, r') \<Longrightarrow> arcs r' b = Some m \<Longrightarrow> arcs r b = Some m"
  "delete_module name r = (res', r') \<Longrightarrow> arcs r' b = Some m \<Longrightarrow> arcs r b = Some m"
  "force_remove_old name r = (res, r') \<Longrightarrow> arcs r' b = Some m \<Longrightarrow> arcs r b = Some m"
  by (auto simp: purge_old_def delete_module_def force_remove_old_def split: option.splits if_splits
      dest: arcs_arc_drop arcs_drop_versions_Some)

definition numbered :: "'p RegistryWorld \<Rightarrow> bool" where
  "numbered w \<longleftrightarrow> (\<forall>b m. arcs (reg w) b = Some m \<longrightarrow> unat (m_generation m) \<le> loads w (m_name m))"

lemma step_numbered:
  assumes step: "reg_step w w'" and ok: "reg_ok (reg w) (handles w) (loads w)" and num: "numbered w"
  shows "numbered w'"
  using step
proof cases
  case (step_insert m a r)
  obtain g where g: "arcs r a = Some (m\<lparr>m_generation := g\<rparr>)" "unat g = min (loads w (m_name m) + 1) (2 ^ 64 - 1)"
    using insert_version_ok(2) [OF ok step_insert(2)] by blast
  show ?thesis
    unfolding numbered_def
  proof (intro allI impI)
    fix b mb
    assume mb: "arcs (reg w') b = Some mb"
    show "unat (m_generation mb) \<le> loads w' (m_name mb)"
    proof (cases "b = a")
      case True
      then show ?thesis using mb g step_insert(1) by auto
    next
      case False
      then have "arcs (reg w) b = Some mb" using arcs_insert_version [OF step_insert(2), of b mb] mb step_insert(1) by simp
      then have "unat (m_generation mb) \<le> loads w (m_name mb)" using num by (simp add: numbered_def)
      then show ?thesis by (auto simp: step_insert(1))
    qed
  qed
qed (use num in \<open>auto simp: numbered_def dest: arcs_lookups arcs_lookup_mfa arcs_removals arcs_arc_drop\<close>)

lemma reachable_numbered: "reg_reachable w \<Longrightarrow> numbered w"
  unfolding reg_reachable_def
proof (induction rule: rtranclp_induct)
  case base
  show ?case by (simp add: numbered_def world_init_def registry_new_def)
next
  case (step w w')
  have "reg_ok (reg w) (handles w) (loads w)" using reachable_reg_ok step(1) by (simp add: reg_reachable_def)
  then show ?case using step_numbered step by blast
qed

text \<open>
  C7. The registry never frees a module that is in use: in every state that insertion, lookups,
  cloning and dropping of handles, purges and deletions can reach, every handle refers to a live
  module, and a purge removes and frees the old version exactly when no handle to it is left;
  otherwise it changes nothing and reports the number of references.
\<close>

theorem purge_only_unreferenced:
  assumes "reg_reachable w"
  shows "(0 < handles w a \<longrightarrow> arcs (reg w) a \<noteq> None) \<and>
    (case Option.bind (versions_of name (reg w)) v_old of
       None \<Rightarrow> purge_old name (reg w) = (Inl (NoOldVersion name), reg w)
     | Some old \<Rightarrow>
         if handles w old = 0 then
           \<exists>r. purge_old name (reg w) = (Inr (), r) \<and> arcs r old = None \<and>
             versions_of name r = map_option (\<lambda>v. v\<lparr>v_old := None\<rparr>) (versions_of name (reg w))
         else purge_old name (reg w) = (Inl (StillReferenced name (handles w old + 1)), reg w))"
proof -
  note ok = reachable_reg_ok [OF assms]
  have "0 < handles w a \<longrightarrow> arcs (reg w) a \<noteq> None" using reg_okD(1,2) [OF ok, of a] by auto
  moreover have "strong (reg w) old = handles w old + 1"
    if "modules (reg w) name = Some slot" "versions slot = Some v" "v_old v = Some old" for slot v old
  proof -
    note slot = that
    obtain m where "arcs (reg w) old = Some m" "m_name m = name"
      using holds_name [OF ok slot(1), of old] slot by (auto simp: holds_def)
    then have "held (reg w) old = 1"
      using slot versions_distinct [OF ok slot(1,2)] by (auto simp: held_def versions_of_def holds_def)
    then show ?thesis using reg_okD(1) [OF ok, of old] by simp
  qed
  ultimately show ?thesis
    by (auto simp: purge_old_def versions_of_def arc_drop_def set_slot_def split: option.split bind_split)
qed

text \<open>Two loads of a module named 5: the first version is old and its loader still holds it.\<close>

definition sample_version :: "unit Module" where
  "sample_version = \<lparr>m_name = 5, m_generation = 0, m_origin = Preloaded, m_exports = Map.empty, m_label_index = Map.empty,
     m_code = [], m_function_table = [], m_line_table = [], m_literals = [], m_constant_pool = (), m_resolved_imports = [],
     m_lambdas = [], m_string_table = [], m_line_info = []\<rparr>"

fun sample_loads :: "nat \<Rightarrow> unit RegistryWorld" where
  "sample_loads 0 = world_init"
| "sample_loads (Suc n) = (let w = sample_loads n in case insert_version sample_version (reg w) of
     (a, r) \<Rightarrow> w\<lparr>reg := r, handles := gains a (handles w), loads := (loads w)(5 := loads w 5 + 1)\<rparr>)"

lemma sample_loads_reachable: "reg_reachable (sample_loads n)"
proof (induction n)
  case (Suc n)
  have name: "m_name sample_version = 5" by (simp add: sample_version_def)
  obtain a r where ins: "insert_version sample_version (reg (sample_loads n)) = (a, r)" by force
  have "reg_step (sample_loads n) (sample_loads (Suc n))"
    using reg_step.step_insert [OF ins] by (simp add: Let_def ins name)
  then show ?case using Suc unfolding reg_reachable_def by (rule rtranclp.rtrancl_into_rtrancl [rotated])
qed (simp add: reg_reachable_def)

lemmas sample_eval = numeral_2_eq_2 insert_version_def world_init_def registry_new_def sample_version_def
  arc_new_def arc_clone_def arc_drop_def set_slot_def drop_versions_def versions_of_def gains_def Let_def

theorem purge_only_unreferenced_witness:
  "purge_old 5 (reg (sample_loads 2)) = (Inl (StillReferenced 5 2), reg (sample_loads 2))"
proof -
  let ?w = "sample_loads 2"
  have "Option.bind (versions_of 5 (reg ?w)) v_old = Some 0" "handles ?w 0 = 1"
    by (simp_all add: sample_eval)
  with purge_only_unreferenced [OF sample_loads_reachable [of 2], of 0 5] show ?thesis by simp
qed

text \<open>
  C18. Versions of a name are numbered without repetition, deletions included: in every reachable
  state, after \<open>n\<close> loads of a name, a further load gets generation \<open>n + 1\<close> (saturating at the
  greatest 64-bit integer) and becomes the current version, with the version it replaces retained
  as the old one; below saturation its generation is greater than that of every version of the
  name still alive.
\<close>

theorem generations_monotonic:
  assumes "reg_reachable w" "insert_version m (reg w) = (a, r)"
  shows "\<exists>g. arcs r a = Some (m\<lparr>m_generation := g\<rparr>) \<and> unat g = min (loads w (m_name m) + 1) (2 ^ 64 - 1) \<and>
    versions_of (m_name m) r = Some \<lparr>v_current = a, v_old = map_option v_current (versions_of (m_name m) (reg w))\<rparr> \<and>
    (loads w (m_name m) < 2 ^ 64 - 1 \<longrightarrow>
       (\<forall>b mb. arcs (reg w) b = Some mb \<longrightarrow> m_name mb = m_name m \<longrightarrow> m_generation mb < g))"
proof -
  obtain g where g: "arcs r a = Some (m\<lparr>m_generation := g\<rparr>)" "unat g = min (loads w (m_name m) + 1) (2 ^ 64 - 1)"
    using insert_version_ok(2) [OF reachable_reg_ok [OF assms(1)] assms(2)] by blast
  moreover have "versions_of (m_name m) r = Some \<lparr>v_current = a, v_old = map_option v_current (versions_of (m_name m) (reg w))\<rparr>"
    using assms(2) by (auto simp: insert_version_def Let_def versions_of_def set_slot_def split: option.splits prod.splits)
  moreover have "m_generation mb < g"
    if "loads w (m_name m) < 2 ^ 64 - 1" "arcs (reg w) b = Some mb" "m_name mb = m_name m" for b mb
  proof -
    have "unat (m_generation mb) \<le> loads w (m_name m)" using reachable_numbered [OF assms(1)] that(2,3) unfolding numbered_def by metis
    then show ?thesis using g(2) that(1) by (simp add: word_less_nat_alt)
  qed
  ultimately show ?thesis by blast
qed

theorem generations_monotonic_witness:
  "\<exists>a r. insert_version sample_version (reg (sample_loads 2)) = (a, r) \<and>
     unat (m_generation (the (arcs r a))) = 3"
proof -
  obtain a r where ins: "insert_version sample_version (reg (sample_loads 2)) = (a, r)" by force
  have "loads (sample_loads 2) (m_name sample_version) = 2" by (simp add: sample_eval)
  then show ?thesis using generations_monotonic [OF sample_loads_reachable ins] ins by auto
qed

end
