(* ===== verification/Module_Validate.thy ===== *)
theory Module_Validate
  imports Module_Registry
begin

text \<open>
  Validation of a decoded module (\<^verbatim>\<open>crates/beamr/src/loader/validate.rs\<close>): export labels, register
  ranges, branch targets, call arities and the frame size tracked along straight-line code. An
  error carries the index of the instruction and the problem that the message names.
\<close>

section \<open>Operands\<close>

definition operand_to_u64 :: "Operand \<Rightarrow> u64 option" where
  "operand_to_u64 operand = (case operand of
     OpUnsigned v \<Rightarrow> Some v
   | OpInteger v \<Rightarrow> if v \<ge> 0 then Some (word_of_int v) else None
   | _ \<Rightarrow> None)"

definition operand_to_u8 :: "Operand \<Rightarrow> u8 option" where
  "operand_to_u8 operand = Option.bind (operand_to_u64 operand) (\<lambda>v. if unat v < 256 then Some (ucast v) else None)"

definition operand_to_u32 :: "Operand \<Rightarrow> u32 option" where
  "operand_to_u32 operand = Option.bind (operand_to_u64 operand) (\<lambda>v. if unat v < 2 ^ 32 then Some (ucast v) else None)"

definition label_of_operand :: "nat \<Rightarrow> Operand \<Rightarrow> LoadError + u32" where
  "label_of_operand index operand = (case operand of
     OpLabel label \<Rightarrow> Inr label
   | OpUnsigned label \<Rightarrow> if unat label < 2 ^ 32 then Inr (ucast label) else Inl (ValidationError index (LabelOperandRange operand))
   | OpCharacter label \<Rightarrow> if unat label < 2 ^ 32 then Inr (ucast label) else Inl (ValidationError index (LabelOperandRange operand))
   | OpInteger label \<Rightarrow>
       if label \<ge> 0 then
         if label < 2 ^ 32 then Inr (word_of_int label) else Inl (ValidationError index (LabelOperandRange operand))
       else Inl (ValidationError index (LabelOperandKind operand))
   | _ \<Rightarrow> Inl (ValidationError index (LabelOperandKind operand)))"

definition expect_label_operand :: "nat \<Rightarrow> Operand \<Rightarrow> u32 list \<Rightarrow> LoadError + u32" where
  "expect_label_operand index operand labels =
     result_bind (label_of_operand index operand) (\<lambda>label.
       if label = 0 \<or> label \<in> set labels then Inr label else Inl (ValidationError index (LabelMissing label)))"

definition expect_import_index :: "nat \<Rightarrow> Operand \<Rightarrow> LoadError + nat" where
  "expect_import_index index operand =
     (case operand_to_u64 operand of Some v \<Rightarrow> Inr (unat v) | None \<Rightarrow> Inl (ValidationError index (ImportOperand operand)))"

definition expect_arity_operand :: "nat \<Rightarrow> Operand \<Rightarrow> string \<Rightarrow> LoadError + u8" where
  "expect_arity_operand index operand name = ok_or (operand_to_u8 operand) (ValidationError index (ArityOperand name operand))"

primrec instruction_operands :: "Instruction \<Rightarrow> Operand list" where
  "instruction_operands (I_Label x1) = []"
| "instruction_operands (I_FuncInfo x1 x2 x3) = [x1, x2, x3]"
| "instruction_operands (I_Move x1 x2) = [x1, x2]"
| "instruction_operands (I_Call x1 x2) = [x1, x2]"
| "instruction_operands (I_CallOnly x1 x2) = [x1, x2]"
| "instruction_operands (I_CallExt x1 x2) = [x1, x2]"
| "instruction_operands (I_CallExtOnly x1 x2) = [x1, x2]"
| "instruction_operands (I_Fmove x1 x2) = [x1, x2]"
| "instruction_operands (I_Fconv x1 x2) = [x1, x2]"
| "instruction_operands (I_Fadd x1 x2 x3 x4) = [x1, x2, x3, x4]"
| "instruction_operands (I_Fsub x1 x2 x3 x4) = [x1, x2, x3, x4]"
| "instruction_operands (I_Fmul x1 x2 x3 x4) = [x1, x2, x3, x4]"
| "instruction_operands (I_Fdiv x1 x2 x3 x4) = [x1, x2, x3, x4]"
| "instruction_operands (I_Fnegate x1 x2 x3) = [x1, x2, x3]"
| "instruction_operands (I_CallLast x1 x2 x3) = [x1, x2, x3]"
| "instruction_operands (I_CallExtLast x1 x2 x3) = [x1, x2, x3]"
| "instruction_operands I_Return = []"
| "instruction_operands (I_Allocate x1 x2) = [x1, x2]"
| "instruction_operands (I_AllocateHeap x1 x2 x3) = [x1, x2, x3]"
| "instruction_operands (I_AllocateZero x1 x2) = [x1, x2]"
| "instruction_operands (I_Deallocate x1) = [x1]"
| "instruction_operands (I_TestHeap x1 x2) = [x1, x2]"
| "instruction_operands (I_PutList x1 x2 x3) = [x1, x2, x3]"
| "instruction_operands (I_PutTuple2 x1 x2) = [x1, x2]"
| "instruction_operands (I_GetTupleElement x1 x2 x3) = [x1, x2, x3]"
| "instruction_operands (I_GetList x1 x2 x3) = [x1, x2, x3]"
| "instruction_operands (I_GetHd x1 x2) = [x1, x2]"
| "instruction_operands (I_GetTl x1 x2) = [x1, x2]"
| "instruction_operands (I_TypeTest x1 x2 x3) = [x2, x3]"
| "instruction_operands (I_Comparison x1 x2 x3 x4) = [x2, x3, x4]"
| "instruction_operands (I_TestArity x1 x2 x3) = [x1, x2, x3]"
| "instruction_operands (I_IsTaggedTuple x1 x2 x3 x4) = [x1, x2, x3, x4]"
| "instruction_operands (I_SelectVal x1 x2 x3) = [x1, x2, x3]"
| "instruction_operands (I_SelectTupleArity x1 x2 x3) = [x1, x2, x3]"
| "instruction_operands (I_Jump x1) = [x1]"
| "instruction_operands (I_Bif x1 x2) = x2"
| "instruction_operands I_Send = []"
| "instruction_operands I_RemoveMessage = []"
| "instruction_operands I_Timeout = []"
| "instruction_operands (I_LoopRec x1 x2) = [x1, x2]"
| "instruction_operands (I_LoopRecEnd x1) = [x1]"
| "instruction_operands (I_Wait x1) = [x1]"
| "instruction_operands (I_WaitTimeout x1 x2) = [x1, x2]"
| "instruction_operands (I_RecvMarkerReserve x1) = [x1]"
| "instruction_operands (I_RecvMarkerBind x1 x2) = [x1, x2]"
| "instruction_operands (I_RecvMarkerClear x1) = [x1]"
| "instruction_operands (I_RecvMarkerUse x1) = [x1]"
| "instruction_operands (I_Catch x1 x2) = [x1, x2]"
| "instruction_operands (I_CatchEnd x1) = [x1]"
| "instruction_operands (I_Try x1 x2) = [x1, x2]"
| "instruction_operands (I_TryEnd x1) = [x1]"
| "instruction_operands (I_TryCase x1) = [x1]"
| "instruction_operands (I_TryCaseEnd x1) = [x1]"
| "instruction_operands (I_BinaryOp x1 x2) = x2"
| "instruction_operands (I_MapOp x1 x2) = x2"
| "instruction_operands (I_MakeFun x1) = x1"
| "instruction_operands (I_CallFun x1) = [x1]"
| "instruction_operands (I_CallFun2 x1 x2 x3) = [x1, x2, x3]"
| "instruction_operands (I_Apply x1) = [x1]"
| "instruction_operands (I_ApplyLast x1 x2) = [x1, x2]"
| "instruction_operands (I_Badmatch x1) = [x1]"
| "instruction_operands (I_Badrecord x1) = [x1]"
| "instruction_operands (I_CaseEnd x1) = [x1]"
| "instruction_operands I_IfEnd = []"
| "instruction_operands (I_Raise x1 x2) = [x1, x2]"
| "instruction_operands I_RawRaise = []"
| "instruction_operands (I_Line x1) = [x1]"
| "instruction_operands (I_Trim x1 x2) = [x1, x2]"
| "instruction_operands I_OnLoad = []"
| "instruction_operands I_BuildStacktrace = []"
| "instruction_operands (I_Swap x1 x2) = [x1, x2]"
| "instruction_operands (I_InitYregs x1) = [x1]"
| "instruction_operands I_NifStart = []"
| "instruction_operands (I_UpdateRecord x1) = x1"
| "instruction_operands (I_Generic x1 x2 x3) = x3"

fun validate_operand :: "nat \<Rightarrow> u32 option \<Rightarrow> Operand \<Rightarrow> LoadError + unit"
and validate_nested :: "nat \<Rightarrow> u32 option \<Rightarrow> Operand list \<Rightarrow> LoadError + unit"
where
  "validate_operand index frame (OpX i) = (if unat i \<ge> 256 then Inl (ValidationError index (XRegisterRange i)) else Inr ())"
| "validate_operand index frame (OpY i) =
     (if unat i \<ge> 256 then Inl (ValidationError index (YRegisterRange i))
      else case frame of
          Some frame_size \<Rightarrow> if i < frame_size then Inr () else Inl (ValidationError index (YOutsideFrame i frame_size))
        | None \<Rightarrow> Inr ())"
| "validate_operand index frame (OpFloatRegister i) =
     (if unat i \<ge> 16 then Inl (ValidationError index (FloatRegisterRange i)) else Inr ())"
| "validate_operand index frame (OpList operands) = validate_nested index frame operands"
| "validate_operand index frame (OpTypedRegister register _) = validate_operand index frame register"
| "validate_operand index frame _ = Inr ()"
| "validate_nested index frame [] = Inr ()"
| "validate_nested index frame (operand # operands) =
     result_bind (validate_operand index frame operand) (\<lambda>_. validate_nested index frame operands)"

definition validate_instruction_operands :: "nat \<Rightarrow> Instruction \<Rightarrow> u32 option \<Rightarrow> LoadError + unit" where
  "validate_instruction_operands index i frame = validate_nested index frame (instruction_operands i)"

section \<open>Control flow\<close>

text \<open>The three groups of instructions the control-flow check tells apart.\<close>

definition local_call :: "Instruction \<Rightarrow> (Operand \<times> Operand) option" where
  "local_call i = (case i of
     I_Call arity label \<Rightarrow> Some (arity, label)
   | I_CallOnly arity label \<Rightarrow> Some (arity, label)
   | I_CallLast arity label _ \<Rightarrow> Some (arity, label)
   | _ \<Rightarrow> None)"

definition external_call :: "Instruction \<Rightarrow> (Operand \<times> Operand) option" where
  "external_call i = (case i of
     I_CallExt arity import \<Rightarrow> Some (arity, import)
   | I_CallExtOnly arity import \<Rightarrow> Some (arity, import)
   | I_CallExtLast arity import _ \<Rightarrow> Some (arity, import)
   | _ \<Rightarrow> None)"

definition branch_target :: "Instruction \<Rightarrow> Operand option" where
  "branch_target i = (case i of
     I_TypeTest _ fail _ \<Rightarrow> Some fail
   | I_Comparison _ fail _ _ \<Rightarrow> Some fail
   | I_Fadd fail _ _ _ \<Rightarrow> Some fail
   | I_Fsub fail _ _ _ \<Rightarrow> Some fail
   | I_Fmul fail _ _ _ \<Rightarrow> Some fail
   | I_Fdiv fail _ _ _ \<Rightarrow> Some fail
   | I_Fnegate fail _ _ \<Rightarrow> Some fail
   | I_TestArity fail _ _ \<Rightarrow> Some fail
   | I_IsTaggedTuple fail _ _ _ \<Rightarrow> Some fail
   | I_SelectVal _ fail _ \<Rightarrow> Some fail
   | I_SelectTupleArity _ fail _ \<Rightarrow> Some fail
   | I_LoopRec fail _ \<Rightarrow> Some fail
   | I_LoopRecEnd fail \<Rightarrow> Some fail
   | I_Wait fail \<Rightarrow> Some fail
   | I_WaitTimeout fail _ \<Rightarrow> Some fail
   | I_Jump target \<Rightarrow> Some target
   | I_Catch _ label \<Rightarrow> Some label
   | I_Try _ label \<Rightarrow> Some label
   | _ \<Rightarrow> None)"

definition collect_labels :: "Instruction list \<Rightarrow> u32 list" where
  "collect_labels instructions =
     List.map_filter (\<lambda>i. case i of I_Label label \<Rightarrow> Some label | _ \<Rightarrow> None) instructions"

definition collect_arity :: "Instruction \<Rightarrow> u32 option \<times> (u32 \<rightharpoonup> u8) \<Rightarrow> u32 option \<times> (u32 \<rightharpoonup> u8)" where
  "collect_arity i st = (case i of
     I_Label label \<Rightarrow> (Some label, snd st)
   | I_FuncInfo _ _ arity \<Rightarrow>
       (case (fst st, operand_to_u8 arity) of
          (Some label, Some a) \<Rightarrow> (fst st, (snd st)(label \<mapsto> a))
        | _ \<Rightarrow> st)
   | _ \<Rightarrow> st)"

definition collect_function_arities :: "Instruction list \<Rightarrow> u32 \<rightharpoonup> u8" where
  "collect_function_arities instructions = snd (fold collect_arity instructions (None, Map.empty))"

definition validate_control_flow ::
  "nat \<Rightarrow> Instruction \<Rightarrow> ParsedModule \<Rightarrow> ResolvedImport list \<Rightarrow> u32 list \<Rightarrow> (u32 \<rightharpoonup> u8) \<Rightarrow> LoadError + unit" where
  "validate_control_flow index i parsed resolved_imports labels functions =
     (case local_call i of
        Some (arity, label) \<Rightarrow>
          result_bind (expect_label_operand index label labels) (\<lambda>label.
            case functions label of
              None \<Rightarrow> Inr ()
            | Some expected \<Rightarrow>
                result_bind (expect_arity_operand index arity ''call arity'') (\<lambda>actual.
                  if actual \<noteq> expected then Inl (ValidationError index (CallArityMismatch actual label expected)) else Inr ()))
      | None \<Rightarrow>
     (case external_call i of
        Some (arity, import) \<Rightarrow>
          result_bind (expect_import_index index import) (\<lambda>import_index.
          result_bind (ok_or (vec_get (pm_imports parsed) import_index) (ValidationError index (ImportIndexRange import_index))) (\<lambda>entry.
            if import_index \<ge> length resolved_imports then Inl (ValidationError index (ResolvedImportRange import_index))
            else
              result_bind (expect_arity_operand index arity ''external call arity'') (\<lambda>actual.
                if actual \<noteq> imp_arity entry
                then Inl (ValidationError index (ExternalArityMismatch actual import_index (imp_arity entry))) else Inr ())))
      | None \<Rightarrow>
     (case branch_target i of
        Some target \<Rightarrow> result_bind (expect_label_operand index target labels) (\<lambda>_. Inr ())
      | None \<Rightarrow> Inr ())))"

definition update_frame_size :: "nat \<Rightarrow> Instruction \<Rightarrow> u32 option \<Rightarrow> LoadError + u32 option" where
  "update_frame_size index i frame =
     (let allocate = (\<lambda>stack_need. case operand_to_u32 stack_need of
            None \<Rightarrow> Inl (ValidationError index (AllocateOperand stack_need))
          | Some n \<Rightarrow> Inr (Some n))
      in case i of
        I_Allocate stack_need _ \<Rightarrow> allocate stack_need
      | I_AllocateHeap stack_need _ _ \<Rightarrow> allocate stack_need
      | I_AllocateZero stack_need _ \<Rightarrow> allocate stack_need
      | I_Deallocate _ \<Rightarrow> Inr None
      | I_Trim _ survivors \<Rightarrow> Inr (if frame \<noteq> None then operand_to_u32 survivors else frame)
      | I_Return \<Rightarrow> Inr None
      | I_CallLast _ _ _ \<Rightarrow> Inr None
      | I_CallExtLast _ _ _ \<Rightarrow> Inr None
      | I_ApplyLast _ _ \<Rightarrow> Inr None
      | I_Jump _ \<Rightarrow> Inr None
      | I_RawRaise \<Rightarrow> Inr None
      | I_Raise _ _ \<Rightarrow> Inr None
      | I_Badmatch _ \<Rightarrow> Inr None
      | I_Badrecord _ \<Rightarrow> Inr None
      | I_CaseEnd _ \<Rightarrow> Inr None
      | I_IfEnd \<Rightarrow> Inr None
      | I_TryCaseEnd _ \<Rightarrow> Inr None
      | I_LoopRecEnd _ \<Rightarrow> Inr None
      | I_Wait _ \<Rightarrow> Inr None
      | I_FuncInfo _ _ _ \<Rightarrow> Inr None
      | _ \<Rightarrow> Inr frame)"

fun validate_exports :: "ExportEntry list \<Rightarrow> u32 list \<Rightarrow> LoadError + unit" where
  "validate_exports [] labels = Inr ()"
| "validate_exports (e # es) labels =
     (if exp_label e \<notin> set labels then Inl (ValidationError 0 (ExportLabelMissing (exp_label e))) else validate_exports es labels)"

fun validate_code ::
  "nat \<Rightarrow> u32 option \<Rightarrow> Instruction list \<Rightarrow> ParsedModule \<Rightarrow> ResolvedImport list \<Rightarrow> u32 list \<Rightarrow> (u32 \<rightharpoonup> u8) \<Rightarrow> LoadError + unit" where
  "validate_code index frame [] parsed resolved labels functions = Inr ()"
| "validate_code index frame (i # is) parsed resolved labels functions =
     result_bind (validate_instruction_operands index i frame) (\<lambda>_.
     result_bind (validate_control_flow index i parsed resolved labels functions) (\<lambda>_.
     result_bind (update_frame_size index i frame) (\<lambda>frame.
       validate_code (index + 1) frame is parsed resolved labels functions)))"

definition validate_module :: "ParsedModule \<Rightarrow> ResolvedImport list \<Rightarrow> LoadError + unit" where
  "validate_module parsed resolved_imports =
     (let labels = collect_labels (pm_instructions parsed);
          functions = collect_function_arities (pm_instructions parsed)
      in result_bind (validate_exports (pm_exports parsed) labels) (\<lambda>_.
           validate_code 0 None (pm_instructions parsed) parsed resolved_imports labels functions))"

section \<open>What a validated module satisfies\<close>

text \<open>Registers in range, and frame slots within the frame where it is known.\<close>

fun registers_ok :: "u32 option \<Rightarrow> Operand \<Rightarrow> bool" where
  "registers_ok frame (OpX i) \<longleftrightarrow> unat i < 256"
| "registers_ok frame (OpY i) \<longleftrightarrow> unat i < 256 \<and> (\<forall>n. frame = Some n \<longrightarrow> i < n)"
| "registers_ok frame (OpFloatRegister i) \<longleftrightarrow> unat i < 16"
| "registers_ok frame (OpList operands) \<longleftrightarrow> (\<forall>op\<in>set operands. registers_ok frame op)"
| "registers_ok frame (OpTypedRegister register _) \<longleftrightarrow> registers_ok frame register"
| "registers_ok frame _ \<longleftrightarrow> True"

lemma validate_operand_iff:
  "validate_operand index frame op = Inr () \<longleftrightarrow> registers_ok frame op"
  "validate_nested index frame ops = Inr () \<longleftrightarrow> (\<forall>op\<in>set ops. registers_ok frame op)"
  by (induction index frame op and index frame ops rule: validate_operand_validate_nested.induct)
    (auto simp: result_bind_eq_Inr_conv split: option.splits)

lemma validate_exports_iff: "validate_exports es labels = Inr () \<longleftrightarrow> (\<forall>e\<in>set es. exp_label e \<in> set labels)"
  by (induction es labels rule: validate_exports.induct) auto

definition names_label :: "Operand \<Rightarrow> u32 \<Rightarrow> bool" where
  "names_label op label \<longleftrightarrow> op = OpLabel label \<or> op = OpUnsigned (ucast label) \<or> op = OpCharacter (ucast label) \<or> op = OpInteger (uint label)"

lemma u64_label: "unat v < 2 ^ 32 \<and> ucast v = label \<longleftrightarrow> v = ucast label" for v :: u64 and label :: u32
proof
  assume v: "unat v < 2 ^ 32 \<and> ucast v = label"
  then have "unat label = unat v" by (auto simp: unsigned_ucast_eq unsigned_take_bit_eq take_bit_nat_eq_self)
  then show "v = ucast label" using v by (simp add: word_unat_eq_iff unsigned_ucast_eq unsigned_take_bit_eq take_bit_nat_eq_self)
next
  assume v: "v = ucast label"
  have "unat label < 2 ^ 64" using unsigned_less [of label, where ?'a = nat] by simp
  then have "unat v = unat label" unfolding v by (simp add: unsigned_ucast_eq take_bit_nat_eq_self)
  then show "unat v < 2 ^ 32 \<and> ucast v = label" using unsigned_less [of label, where ?'a = nat] by (simp add: word_unat_eq_iff unsigned_ucast_eq unsigned_take_bit_eq take_bit_nat_eq_self)
qed

lemma int_label: "0 \<le> v \<and> v < 2 ^ 32 \<and> word_of_int v = label \<longleftrightarrow> v = uint label" for label :: u32
  using unsigned_less [of label] unsigned_greater_eq [of label] by (auto simp: unsigned_of_int take_bit_int_eq_self)

lemma label_of_operand_iff: "label_of_operand index op = Inr label \<longleftrightarrow> names_label op label"
  using u64_label [of _ label] int_label [of _ label] by (cases op) (auto simp: label_of_operand_def names_label_def)

lemma expect_label_iff:
  "expect_label_operand index op labels = Inr label \<longleftrightarrow> names_label op label \<and> (label = 0 \<or> label \<in> set labels)"
  unfolding expect_label_operand_def result_bind_eq_Inr_conv label_of_operand_iff by (metis Inr_inject Inl_Inr_False)

text \<open>The operand a frame allocation takes its size from.\<close>

definition frame_need :: "Instruction \<Rightarrow> Operand option" where
  "frame_need i = (case i of
     I_Allocate stack_need _ \<Rightarrow> Some stack_need
   | I_AllocateHeap stack_need _ _ \<Rightarrow> Some stack_need
   | I_AllocateZero stack_need _ \<Rightarrow> Some stack_need
   | _ \<Rightarrow> None)"

definition instr_ok :: "ParsedModule \<Rightarrow> ResolvedImport list \<Rightarrow> u32 option \<Rightarrow> Instruction \<Rightarrow> bool" where
  "instr_ok p resolved frame i \<longleftrightarrow>
     (\<forall>op\<in>set (instruction_operands i). registers_ok frame op) \<and>
     (\<forall>arity target. local_call i = Some (arity, target) \<longrightarrow>
        (\<exists>l. names_label target l \<and> (l = 0 \<or> l \<in> set (collect_labels (pm_instructions p))) \<and>
           (\<forall>n. collect_function_arities (pm_instructions p) l = Some n \<longrightarrow> operand_to_u8 arity = Some n))) \<and>
     (\<forall>arity import. external_call i = Some (arity, import) \<longrightarrow>
        (\<exists>v. operand_to_u64 import = Some v \<and> unat v < length (pm_imports p) \<and> unat v < length resolved \<and>
           operand_to_u8 arity = Some (imp_arity (pm_imports p ! unat v)))) \<and>
     (\<forall>target. branch_target i = Some target \<longrightarrow>
        (\<exists>l. names_label target l \<and> (l = 0 \<or> l \<in> set (collect_labels (pm_instructions p))))) \<and>
     (\<forall>need. frame_need i = Some need \<longrightarrow> operand_to_u32 need \<noteq> None)"

text \<open>The frame size known after an instruction, and before each instruction of the code.\<close>

definition frame_after :: "Instruction \<Rightarrow> u32 option \<Rightarrow> u32 option" where
  "frame_after i frame = (case update_frame_size 0 i frame of Inl _ \<Rightarrow> None | Inr f \<Rightarrow> f)"

definition frame_before :: "Instruction list \<Rightarrow> nat \<Rightarrow> u32 option" where
  "frame_before is k = fold frame_after (take k is) None"

lemma groups_disjoint:
  "local_call i = Some lc \<Longrightarrow> external_call i = None \<and> branch_target i = None"
  "external_call i = Some ec \<Longrightarrow> branch_target i = None"
  by (cases i; simp add: local_call_def external_call_def branch_target_def)+

lemma control_flow_iff:
  "validate_control_flow index i p resolved (collect_labels (pm_instructions p)) (collect_function_arities (pm_instructions p)) = Inr () \<longleftrightarrow>
     (\<forall>arity target. local_call i = Some (arity, target) \<longrightarrow>
        (\<exists>l. names_label target l \<and> (l = 0 \<or> l \<in> set (collect_labels (pm_instructions p))) \<and>
           (\<forall>n. collect_function_arities (pm_instructions p) l = Some n \<longrightarrow> operand_to_u8 arity = Some n))) \<and>
     (\<forall>arity import. external_call i = Some (arity, import) \<longrightarrow>
        (\<exists>v. operand_to_u64 import = Some v \<and> unat v < length (pm_imports p) \<and> unat v < length resolved \<and>
           operand_to_u8 arity = Some (imp_arity (pm_imports p ! unat v)))) \<and>
     (\<forall>target. branch_target i = Some target \<longrightarrow>
        (\<exists>l. names_label target l \<and> (l = 0 \<or> l \<in> set (collect_labels (pm_instructions p)))))"
  (is "?v = Inr () \<longleftrightarrow> ?spec")
proof -
  consider (call) arity target where "local_call i = Some (arity, target)"
    | (ext) arity import where "local_call i = None" "external_call i = Some (arity, import)"
    | (branch) target where "local_call i = None" "external_call i = None" "branch_target i = Some target"
    | (other) "local_call i = None" "external_call i = None" "branch_target i = None"
    by (metis option.exhaust surj_pair)
  then show ?thesis
  proof cases
    case call
    let ?fns = "collect_function_arities (pm_instructions p)"
    have "?v = Inr () \<longleftrightarrow> (\<exists>l. names_label target l \<and> (l = 0 \<or> l \<in> set (collect_labels (pm_instructions p))) \<and>
        (\<forall>n. ?fns l = Some n \<longrightarrow> operand_to_u8 arity = Some n))"
      by (auto simp: validate_control_flow_def call result_bind_eq_Inr_conv expect_label_iff expect_arity_operand_def
          split: option.splits if_splits)
    then show ?thesis using call groups_disjoint(1) [OF call] by simp
  next
    case ext
    have "?v = Inr () \<longleftrightarrow> (\<exists>v. operand_to_u64 import = Some v \<and> unat v < length (pm_imports p) \<and> unat v < length resolved \<and>
        operand_to_u8 arity = Some (imp_arity (pm_imports p ! unat v)))"
      by (cases "operand_to_u64 import"; cases "operand_to_u8 arity")
        (auto simp: validate_control_flow_def ext expect_import_index_def expect_arity_operand_def vec_get_def)
    then show ?thesis using ext groups_disjoint(2) [OF ext(2)] by simp
  next
    case branch
    then show ?thesis by (auto simp: validate_control_flow_def result_bind_eq_Inr_conv expect_label_iff)
  qed (simp add: validate_control_flow_def)
qed

lemma update_frame_iff:
  "(\<exists>f. update_frame_size index i frame = Inr f) \<longleftrightarrow> (\<forall>need. frame_need i = Some need \<longrightarrow> operand_to_u32 need \<noteq> None)"
  by (cases i) (auto simp: update_frame_size_def frame_need_def Let_def split: option.splits)

lemma update_frame_Inr: "update_frame_size index i frame = Inr f \<Longrightarrow> frame_after i frame = f"
  by (cases i) (auto simp: update_frame_size_def frame_after_def Let_def split: option.splits)

lemma validate_code_iff:
  "validate_code index frame is p resolved (collect_labels (pm_instructions p)) (collect_function_arities (pm_instructions p)) = Inr () \<longleftrightarrow>
     (\<forall>k<length is. instr_ok p resolved (fold frame_after (take k is) frame) (is ! k))"
proof (induction "is" arbitrary: index frame)
  case (Cons i "is")
  let ?labels = "collect_labels (pm_instructions p)" and ?fns = "collect_function_arities (pm_instructions p)"
  have "validate_code index frame (i # is) p resolved ?labels ?fns = Inr () \<longleftrightarrow>
      validate_instruction_operands index i frame = Inr () \<and> validate_control_flow index i p resolved ?labels ?fns = Inr () \<and>
      (\<exists>f. update_frame_size index i frame = Inr f \<and> validate_code (index + 1) f is p resolved ?labels ?fns = Inr ())"
    by (auto simp: result_bind_eq_Inr_conv)
  also have "\<dots> \<longleftrightarrow> instr_ok p resolved frame i \<and> validate_code (index + 1) (frame_after i frame) is p resolved ?labels ?fns = Inr ()"
    using update_frame_iff [of index i frame] update_frame_Inr [of index i frame]
    unfolding validate_instruction_operands_def validate_operand_iff control_flow_iff instr_ok_def by blast
  also have "\<dots> \<longleftrightarrow> (\<forall>k<length (i # is). instr_ok p resolved (fold frame_after (take k (i # is)) frame) ((i # is) ! k))"
    by (simp add: Cons.IH All_less_Suc2)
  finally show ?case .
qed simp

lemma validate_module_iff:
  "validate_module p resolved = Inr () \<longleftrightarrow>
     (\<forall>e\<in>set (pm_exports p). exp_label e \<in> set (collect_labels (pm_instructions p))) \<and>
     (\<forall>k<length (pm_instructions p). instr_ok p resolved (frame_before (pm_instructions p) k) (pm_instructions p ! k))"
  by (auto simp: validate_module_def Let_def result_bind_eq_Inr_conv validate_exports_iff validate_code_iff frame_before_def)

end
