(* ===== verification/Module_Load.thy ===== *)
theory Module_Load
  imports Module_Validate "HOL-Library.AList"
begin

text \<open>
  From a file to a registered module (\<^verbatim>\<open>crates/beamr/src/loader/load.rs\<close>): the registry of native
  functions and the capability policies (\<^verbatim>\<open>native/mod.rs\<close>, \<^verbatim>\<open>native/capability.rs\<close>), import
  resolution with its report, and \<open>load_module\<close>. Materialising the literals is a parameter.
\<close>

section \<open>Native functions\<close>

type_synonym mfa = "u32 \<times> u32 \<times> u8"

datatype NativeRegistrationError = DuplicateMfa mfa

datatype NativeReplacementError = MissingMfa mfa

type_synonym NativeRegistry = "mfa \<rightharpoonup> NativeEntry"

definition register_entry :: "mfa \<Rightarrow> NativeEntry \<Rightarrow> NativeRegistry \<Rightarrow> (NativeRegistrationError + unit) \<times> NativeRegistry" where
  "register_entry key entry r = (case r key of None \<Rightarrow> (Inr (), r(key \<mapsto> entry)) | Some _ \<Rightarrow> (Inl (DuplicateMfa key), r))"

definition register_native ::
  "mfa \<Rightarrow> nat \<Rightarrow> DirtySchedulerKind option \<Rightarrow> Capability \<Rightarrow> NativeRegistry \<Rightarrow> (NativeRegistrationError + unit) \<times> NativeRegistry" where
  "register_native key function kind cap r =
     register_entry key \<lparr>native_function = function, dirty_kind = kind, capability = cap\<rparr> r"

definition replace_existing :: "mfa \<Rightarrow> NativeEntry \<Rightarrow> NativeRegistry \<Rightarrow> (NativeReplacementError + NativeEntry) \<times> NativeRegistry" where
  "replace_existing key entry r = (case r key of Some old \<Rightarrow> (Inr old, r(key \<mapsto> entry)) | None \<Rightarrow> (Inl (MissingMfa key), r))"

definition native_lookup :: "mfa \<Rightarrow> NativeRegistry \<Rightarrow> NativeEntry option" where
  "native_lookup key r = r key"

definition lookup_native :: "NativeRegistry \<Rightarrow> NativeRegistry \<Rightarrow> mfa \<Rightarrow> NativeEntry option" where
  "lookup_native bifs nifs key = (case native_lookup key bifs of Some e \<Rightarrow> Some e | None \<Rightarrow> native_lookup key nifs)"

text \<open>What import resolution relies on: a registered function stays bound to its first registration.\<close>

locale native_functions =
  fixes register :: "'k \<Rightarrow> 'e \<Rightarrow> 'r \<Rightarrow> ('x + unit) \<times> 'r"
    and get :: "'k \<Rightarrow> 'r \<Rightarrow> 'e option"
  assumes register_free: "get key r = None \<Longrightarrow> \<exists>r'. register key e r = (Inr (), r') \<and> (\<forall>k. get k r' = (if k = key then Some e else get k r))"
    and register_taken: "get key r = Some old \<Longrightarrow> \<exists>x. register key e r = (Inl x, r)"
begin

lemma registered_stays:
  assumes "get k r = Some e"
  shows "get k (snd (register key e' r)) = Some e"
  using assms register_free [of key r e'] register_taken [of key r _ e'] by (cases "get key r") force+

lemma registrations_stay: "get k r = Some e \<Longrightarrow> get k (fold (\<lambda>(key, e') r. snd (register key e' r)) regs r) = Some e"
  by (induction regs arbitrary: r) (auto simp: registered_stays split: prod.splits)

lemma first_registration_wins:
  assumes "get k r = None"
  shows "get k (fold (\<lambda>(key, e') r. snd (register key e' r)) ((k, e) # regs) r) = Some e"
proof -
  have "get k (snd (register k e r)) = Some e" using register_free [OF assms, of e] by auto
  then show ?thesis using registrations_stay by simp
qed

end

interpretation natives: native_functions register_entry native_lookup
  by unfold_locales (auto simp: register_entry_def native_lookup_def)

section \<open>Capability policies\<close>

definition least_authority :: "Capability \<Rightarrow> bool" where
  "least_authority cap \<longleftrightarrow> cap = Pure \<or> cap = ProcessLocal"

definition all_capabilities :: "Capability \<Rightarrow> bool" where
  "all_capabilities cap \<longleftrightarrow> True"

definition capability_from_slice :: "Capability list \<Rightarrow> Capability list" where
  "capability_from_slice caps = fold (\<lambda>c grants. if c \<in> set grants then grants else grants @ [c]) caps []"

definition capability_set_grants :: "Capability list \<Rightarrow> Capability \<Rightarrow> bool" where
  "capability_set_grants grants cap \<longleftrightarrow> cap \<in> set grants"

definition capability_subset :: "Capability list \<Rightarrow> Capability list \<Rightarrow> bool" where
  "capability_subset xs ys \<longleftrightarrow> list_all (capability_set_grants ys) xs"

lemma capability_from_slice_ok: "set (capability_from_slice caps) = set caps \<and> distinct (capability_from_slice caps)"
proof -
  have "set (fold (\<lambda>c grants. if c \<in> set grants then grants else grants @ [c]) caps acc) = set acc \<union> set caps \<and>
      distinct (fold (\<lambda>c grants. if c \<in> set grants then grants else grants @ [c]) caps acc)" if "distinct acc" for acc
    using that by (induction caps arbitrary: acc) auto
  from this [of "[]"] show ?thesis by (simp add: capability_from_slice_def)
qed

section \<open>The report of import resolution\<close>

record UnresolvedImportEntry =
  un_module :: u32
  un_function :: u32
  un_arity :: u8

record DeniedImportEntry =
  de_module :: u32
  de_function :: u32
  de_arity :: u8
  de_capability :: Capability

record UnresolvedImportReport =
  entries_by_module :: "(u32 \<times> UnresolvedImportEntry list) list"
  deferred_by_module :: "(u32 \<times> UnresolvedImportEntry list) list"
  denied_by_module :: "(u32 \<times> DeniedImportEntry list) list"

text \<open>\<open>map.entry(key).or_default().push(entry)\<close>\<close>

definition push_entry :: "u32 \<Rightarrow> 'a \<Rightarrow> (u32 \<times> 'a list) list \<Rightarrow> (u32 \<times> 'a list) list" where
  "push_entry key entry al = AList.map_default key [entry] (\<lambda>xs. xs @ [entry]) al"

definition report_push :: "UnresolvedImportEntry \<Rightarrow> UnresolvedImportReport \<Rightarrow> UnresolvedImportReport" where
  "report_push e r = r\<lparr>entries_by_module := push_entry (un_module e) e (entries_by_module r)\<rparr>"

definition push_deferred :: "UnresolvedImportEntry \<Rightarrow> UnresolvedImportReport \<Rightarrow> UnresolvedImportReport" where
  "push_deferred e r = r\<lparr>deferred_by_module := push_entry (un_module e) e (deferred_by_module r)\<rparr>"

definition push_denied :: "DeniedImportEntry \<Rightarrow> UnresolvedImportReport \<Rightarrow> UnresolvedImportReport" where
  "push_denied e r = r\<lparr>denied_by_module := push_entry (de_module e) e (denied_by_module r)\<rparr>"

definition with_deferred :: "UnresolvedImportEntry list \<Rightarrow> UnresolvedImportEntry list \<Rightarrow> UnresolvedImportReport" where
  "with_deferred entries deferred = fold push_deferred deferred
     (fold report_push entries \<lparr>entries_by_module = [], deferred_by_module = [], denied_by_module = []\<rparr>)"

definition report_is_empty :: "UnresolvedImportReport \<Rightarrow> bool" where
  "report_is_empty r \<longleftrightarrow> list_all (\<lambda>(_, xs). xs = []) (entries_by_module r) \<and> list_all (\<lambda>(_, xs). xs = []) (denied_by_module r)"

definition has_deferred :: "UnresolvedImportReport \<Rightarrow> bool" where
  "has_deferred r \<longleftrightarrow> list_ex (\<lambda>(_, xs). xs \<noteq> []) (deferred_by_module r)"

definition has_denied :: "UnresolvedImportReport \<Rightarrow> bool" where
  "has_denied r \<longleftrightarrow> list_ex (\<lambda>(_, xs). xs \<noteq> []) (denied_by_module r)"

definition entries_for :: "(u32 \<times> 'a list) list \<Rightarrow> u32 \<Rightarrow> 'a list" where
  "entries_for al m = (case map_of al m of None \<Rightarrow> [] | Some xs \<Rightarrow> xs)"

text \<open>All entries of a table, by increasing module index.\<close>

definition flatten_entries :: "(u32 \<times> 'a list) list \<Rightarrow> 'a list" where
  "flatten_entries al = concat (map (entries_for al) (sort_key unat (map fst al)))"

section \<open>Import resolution\<close>

definition current_module :: "'p ModuleRegistry \<Rightarrow> u32 \<Rightarrow> 'p Module option" where
  "current_module r name = map_option (\<lambda>v. the (arcs r (v_current v))) (versions_of name r)"

record Resolution =
  res_resolved :: "ResolvedImport list"
  res_unresolved :: "UnresolvedImportEntry list"
  res_deferred :: "UnresolvedImportEntry list"
  res_denied :: "DeniedImportEntry list"

definition resolve_import ::
  "'p ModuleRegistry \<Rightarrow> (mfa \<Rightarrow> NativeEntry option) \<Rightarrow> (Capability \<Rightarrow> bool) \<Rightarrow> ImportEntry \<Rightarrow> Resolution \<Rightarrow> Resolution" where
  "resolve_import mods bif is_granted i acc =
     (let m = imp_module i; f = imp_function i; n = imp_arity i;
          entry = \<lparr>un_module = m, un_function = f, un_arity = n\<rparr>;
          resolve = (\<lambda>target acc. acc\<lparr>res_resolved := res_resolved acc @
             [\<lparr>ri_module = m, ri_function = f, ri_arity = n, ri_target = target\<rparr>]\<rparr>)
      in case bif (m, f, n) of
           Some e \<Rightarrow>
             if is_granted (capability e) then resolve (TargetNative e) acc
             else resolve (TargetDenied (capability e)) (acc\<lparr>res_denied := res_denied acc @
                    [\<lparr>de_module = m, de_function = f, de_arity = n, de_capability = capability e\<rparr>]\<rparr>)
         | None \<Rightarrow>
             (case current_module mods m of
                None \<Rightarrow> resolve (TargetDeferred m f n) (acc\<lparr>res_deferred := res_deferred acc @ [entry]\<rparr>)
              | Some module \<Rightarrow>
                  (case m_exports module (f, n) of
                     Some label \<Rightarrow> resolve (TargetCode m label) acc
                   | None \<Rightarrow> resolve (TargetUnresolved m f n) (acc\<lparr>res_unresolved := res_unresolved acc @ [entry]\<rparr>))))"

definition resolve_imports ::
  "ParsedModule \<Rightarrow> 'p ModuleRegistry \<Rightarrow> (mfa \<Rightarrow> NativeEntry option) \<Rightarrow> (Capability \<Rightarrow> bool) \<Rightarrow> ResolvedImport list \<times> UnresolvedImportReport" where
  "resolve_imports parsed mods bif is_granted =
     (let acc = fold (resolve_import mods bif is_granted) (pm_imports parsed)
            \<lparr>res_resolved = [], res_unresolved = [], res_deferred = [], res_denied = []\<rparr>
      in (res_resolved acc, fold push_denied (res_denied acc) (with_deferred (res_unresolved acc) (res_deferred acc))))"

section \<open>Building and loading a module\<close>

definition operand_atom :: "Operand \<Rightarrow> u32 option" where
  "operand_atom op = (case op of OpAtom (Some a) \<Rightarrow> Some a | _ \<Rightarrow> None)"

definition operand_usize :: "Operand \<Rightarrow> nat option" where
  "operand_usize op = (case op of
     OpUnsigned v \<Rightarrow> Some (unat v)
   | OpInteger v \<Rightarrow> if 0 \<le> v \<and> v < 2 ^ 64 then Some (nat v) else None
   | _ \<Rightarrow> None)"

definition operand_u8 :: "Operand \<Rightarrow> u8 option" where
  "operand_u8 op = Option.bind (operand_usize op) (\<lambda>v. if v < 256 then Some (of_nat v) else None)"

definition label_row :: "nat \<times> Instruction \<Rightarrow> (u32 \<times> nat) option" where
  "label_row e = (case e of (ip, I_Label label) \<Rightarrow> Some (label, ip) | _ \<Rightarrow> None)"

definition function_row :: "nat \<times> Instruction \<Rightarrow> (nat \<times> u32 \<times> u8) option" where
  "function_row e = (case e of
     (ip, I_FuncInfo _ function arity) \<Rightarrow>
       Option.bind (operand_atom function) (\<lambda>f. map_option (\<lambda>a. (ip, f, a)) (operand_u8 arity))
   | _ \<Rightarrow> None)"

definition line_row :: "nat \<times> Instruction \<Rightarrow> (nat \<times> nat) option" where
  "line_row e = (case e of (ip, I_Line index) \<Rightarrow> map_option (Pair ip) (operand_usize index) | _ \<Rightarrow> None)"

definition enumerated :: "'a list \<Rightarrow> (nat \<times> 'a) list" where
  "enumerated xs = zip [0..<length xs] xs"

text \<open>Collecting into a map keeps the last entry of a key.\<close>

definition module_from_parsed ::
  "(Literal list \<Rightarrow> AtomTable \<Rightarrow> LoadError + 'p) \<Rightarrow> ParsedModule \<Rightarrow> ResolvedImport list \<Rightarrow> AtomTable \<Rightarrow> ModuleOrigin \<Rightarrow> LoadError + 'p Module" where
  "module_from_parsed materialise parsed resolved t origin =
     (let code = enumerated (pm_instructions parsed)
      in result_bind (materialise (pm_literals parsed) t) (\<lambda>pool.
           Inr \<lparr>m_name = pm_name parsed, m_generation = 0, m_origin = origin,
             m_exports = map_of (rev (map (\<lambda>e. ((exp_function e, exp_arity e), exp_label e)) (pm_exports parsed))),
             m_label_index = map_of (rev (List.map_filter label_row code)), m_code = pm_instructions parsed,
             m_function_table = List.map_filter function_row code, m_line_table = List.map_filter line_row code,
             m_literals = pm_literals parsed, m_constant_pool = pool, m_resolved_imports = resolved,
             m_lambdas = pm_lambdas parsed, m_string_table = pm_string_table parsed, m_line_info = pm_line_info parsed\<rparr>))"

definition prepare_module_with_origin_and_policy ::
  "Layout \<Rightarrow> (u8 list \<Rightarrow> nat \<Rightarrow> u8 list option) \<Rightarrow> (Literal list \<Rightarrow> AtomTable \<Rightarrow> LoadError + 'p) \<Rightarrow> u8 list \<Rightarrow> AtomTable \<Rightarrow>
   'p ModuleRegistry \<Rightarrow> (mfa \<Rightarrow> NativeEntry option) \<Rightarrow> (Capability \<Rightarrow> bool) \<Rightarrow> ModuleOrigin \<Rightarrow>
   (LoadError option + 'p Module \<times> UnresolvedImportReport) \<times> AtomTable" where
  "prepare_module_with_origin_and_policy lay inflate materialise bytes t mods bif is_granted origin =
     (case load_beam_chunks lay inflate bytes t of
        (Inl e, t) \<Rightarrow> (Inl e, t)
      | (Inr parsed, t) \<Rightarrow>
          let (resolved, report) = resolve_imports parsed mods bif is_granted
          in (case result_bind (validate_module parsed resolved) (\<lambda>_. module_from_parsed materialise parsed resolved t origin) of
                Inl e \<Rightarrow> (Inl (Some e), t)
              | Inr m \<Rightarrow> (Inr (m, report), t)))"

definition load_module_with_origin_and_policy ::
  "Layout \<Rightarrow> (u8 list \<Rightarrow> nat \<Rightarrow> u8 list option) \<Rightarrow> (Literal list \<Rightarrow> AtomTable \<Rightarrow> LoadError + 'p) \<Rightarrow> u8 list \<Rightarrow> AtomTable \<Rightarrow>
   'p ModuleRegistry \<Rightarrow> (mfa \<Rightarrow> NativeEntry option) \<Rightarrow> (Capability \<Rightarrow> bool) \<Rightarrow> ModuleOrigin \<Rightarrow>
   (LoadError option + nat \<times> UnresolvedImportReport) \<times> AtomTable \<times> 'p ModuleRegistry" where
  "load_module_with_origin_and_policy lay inflate materialise bytes t mods bif is_granted origin =
     (case prepare_module_with_origin_and_policy lay inflate materialise bytes t mods bif is_granted origin of
        (Inl e, t) \<Rightarrow> (Inl e, t, mods)
      | (Inr (m, report), t) \<Rightarrow> (case insert_version m mods of (a, mods) \<Rightarrow> (Inr (a, report), t, mods)))"

definition load_module ::
  "Layout \<Rightarrow> (u8 list \<Rightarrow> nat \<Rightarrow> u8 list option) \<Rightarrow> (Literal list \<Rightarrow> AtomTable \<Rightarrow> LoadError + 'p) \<Rightarrow> u8 list \<Rightarrow> AtomTable \<Rightarrow>
   'p ModuleRegistry \<Rightarrow> (mfa \<Rightarrow> NativeEntry option) \<Rightarrow> (LoadError option + nat \<times> UnresolvedImportReport) \<times> AtomTable \<times> 'p ModuleRegistry" where
  "load_module lay inflate materialise bytes t mods bif =
     load_module_with_origin_and_policy lay inflate materialise bytes t mods bif all_capabilities Preloaded"

section \<open>Resolution is positional and complete\<close>

definition import_target ::
  "'p ModuleRegistry \<Rightarrow> (mfa \<Rightarrow> NativeEntry option) \<Rightarrow> (Capability \<Rightarrow> bool) \<Rightarrow> ImportEntry \<Rightarrow> ResolvedImportTarget" where
  "import_target mods bif is_granted i =
     (case bif (imp_module i, imp_function i, imp_arity i) of
        Some e \<Rightarrow> if is_granted (capability e) then TargetNative e else TargetDenied (capability e)
      | None \<Rightarrow>
          (case current_module mods (imp_module i) of
             None \<Rightarrow> TargetDeferred (imp_module i) (imp_function i) (imp_arity i)
           | Some m \<Rightarrow>
               (case m_exports m (imp_function i, imp_arity i) of
                  Some label \<Rightarrow> TargetCode (imp_module i) label
                | None \<Rightarrow> TargetUnresolved (imp_module i) (imp_function i) (imp_arity i))))"

definition import_entry :: "ImportEntry \<Rightarrow> UnresolvedImportEntry" where
  "import_entry i = \<lparr>un_module = imp_module i, un_function = imp_function i, un_arity = imp_arity i\<rparr>"

definition denied_entry :: "ImportEntry \<Rightarrow> Capability \<Rightarrow> DeniedImportEntry" where
  "denied_entry i c = \<lparr>de_module = imp_module i, de_function = imp_function i, de_arity = imp_arity i, de_capability = c\<rparr>"

fun unresolved_of :: "ImportEntry \<Rightarrow> ResolvedImportTarget \<Rightarrow> UnresolvedImportEntry option" where
  "unresolved_of i (TargetUnresolved _ _ _) = Some (import_entry i)"
| "unresolved_of i _ = None"

fun deferred_of :: "ImportEntry \<Rightarrow> ResolvedImportTarget \<Rightarrow> UnresolvedImportEntry option" where
  "deferred_of i (TargetDeferred _ _ _) = Some (import_entry i)"
| "deferred_of i _ = None"

fun denied_of :: "ImportEntry \<Rightarrow> ResolvedImportTarget \<Rightarrow> DeniedImportEntry option" where
  "denied_of i (TargetDenied c) = Some (denied_entry i c)"
| "denied_of i _ = None"

definition resolved_import :: "ImportEntry \<Rightarrow> ResolvedImportTarget \<Rightarrow> ResolvedImport" where
  "resolved_import i target = \<lparr>ri_module = imp_module i, ri_function = imp_function i, ri_arity = imp_arity i, ri_target = target\<rparr>"

lemma map_filter_append: "List.map_filter f (xs @ ys) = List.map_filter f xs @ List.map_filter f ys"
  by (simp add: List.map_filter_def)

lemma resolve_import_step:
  "resolve_import mods bif is_granted i acc = (let t = import_target mods bif is_granted i in
     \<lparr>res_resolved = res_resolved acc @ [resolved_import i t],
      res_unresolved = res_unresolved acc @ (case unresolved_of i t of None \<Rightarrow> [] | Some e \<Rightarrow> [e]),
      res_deferred = res_deferred acc @ (case deferred_of i t of None \<Rightarrow> [] | Some e \<Rightarrow> [e]),
      res_denied = res_denied acc @ (case denied_of i t of None \<Rightarrow> [] | Some e \<Rightarrow> [e])\<rparr>)"
  by (cases acc) (auto simp: resolve_import_def import_target_def resolved_import_def import_entry_def denied_entry_def Let_def
      split: option.splits)

lemma resolve_fold:
  "fold (resolve_import mods bif is_granted) ims acc =
     (let t = import_target mods bif is_granted in
     \<lparr>res_resolved = res_resolved acc @ map (\<lambda>i. resolved_import i (t i)) ims,
      res_unresolved = res_unresolved acc @ List.map_filter (\<lambda>i. unresolved_of i (t i)) ims,
      res_deferred = res_deferred acc @ List.map_filter (\<lambda>i. deferred_of i (t i)) ims,
      res_denied = res_denied acc @ List.map_filter (\<lambda>i. denied_of i (t i)) ims\<rparr>)"
  by (induction ims arbitrary: acc)
    (simp_all add: resolve_import_step Let_def List.map_filter_def split: option.split)

text \<open>A table holds the pushed entries, each under its module, in order.\<close>

lemma entries_for_push: "entries_for (push_entry key e al) m = entries_for al m @ (if m = key then [e] else [])"
  by (induction al) (auto simp: push_entry_def entries_for_def split: if_splits)

lemma report_pushes:
  "entries_by_module (fold report_push es r) = fold (\<lambda>e. push_entry (un_module e) e) es (entries_by_module r)"
  "deferred_by_module (fold report_push es r) = deferred_by_module r" "denied_by_module (fold report_push es r) = denied_by_module r"
  "deferred_by_module (fold push_deferred es r) = fold (\<lambda>e. push_entry (un_module e) e) es (deferred_by_module r)"
  "entries_by_module (fold push_deferred es r) = entries_by_module r" "denied_by_module (fold push_deferred es r) = denied_by_module r"
  "denied_by_module (fold push_denied ds r) = fold (\<lambda>e. push_entry (de_module e) e) ds (denied_by_module r)"
  "entries_by_module (fold push_denied ds r) = entries_by_module r" "deferred_by_module (fold push_denied ds r) = deferred_by_module r"
  by (induction es arbitrary: r; simp add: report_push_def push_deferred_def; fail)+
    (induction ds arbitrary: r; simp add: push_denied_def; fail)+

lemma entries_for_fold:
  "entries_for (fold (\<lambda>e. push_entry (key e) e) es al) m = entries_for al m @ filter (\<lambda>e. key e = m) es"
  by (induction es arbitrary: al) (auto simp: entries_for_push)

lemma push_fold_nonempty:
  "list_all (\<lambda>(_, xs). xs = []) (fold (\<lambda>e. push_entry (key e) e) es al) \<longleftrightarrow> list_all (\<lambda>(_, xs). xs = []) al \<and> es = []"
proof (induction es arbitrary: al)
  case (Cons e es)
  have "\<not> list_all (\<lambda>(_, xs). xs = []) (push_entry (key e) e al)" by (induction al) (auto simp: push_entry_def)
  then show ?case by (simp add: Cons.IH)
qed simp

text \<open>
  C19. Import resolution is positional, complete and never exceeds the policy: entry \<open>k\<close> of the
  result is import \<open>k\<close> with its target; a native function is bound only when it is registered for
  the import and the policy grants its capability; the report lists, per module and in order,
  exactly the unresolved, the deferred and the denied imports, and is empty exactly when no
  import is unresolved or denied.
\<close>

theorem imports_resolved_exactly:
  assumes "resolve_imports p mods bif is_granted = (resolved, report)"
  defines "target \<equiv> import_target mods bif is_granted"
  shows "resolved = map (\<lambda>i. resolved_import i (target i)) (pm_imports p) \<and>
    (\<forall>i\<in>set resolved. \<forall>e. ri_target i = TargetNative e \<longrightarrow>
       is_granted (capability e) \<and> bif (ri_module i, ri_function i, ri_arity i) = Some e) \<and>
    entries_for (entries_by_module report) m =
      filter (\<lambda>e. un_module e = m) (List.map_filter (\<lambda>i. unresolved_of i (target i)) (pm_imports p)) \<and>
    entries_for (deferred_by_module report) m =
      filter (\<lambda>e. un_module e = m) (List.map_filter (\<lambda>i. deferred_of i (target i)) (pm_imports p)) \<and>
    entries_for (denied_by_module report) m =
      filter (\<lambda>e. de_module e = m) (List.map_filter (\<lambda>i. denied_of i (target i)) (pm_imports p)) \<and>
    (report_is_empty report \<longleftrightarrow>
       (\<forall>i\<in>set (pm_imports p). unresolved_of i (target i) = None \<and> denied_of i (target i) = None))"
proof -
  have eqs: "resolved = map (\<lambda>i. resolved_import i (target i)) (pm_imports p)"
    "entries_by_module report = fold (\<lambda>e. push_entry (un_module e) e) (List.map_filter (\<lambda>i. unresolved_of i (target i)) (pm_imports p)) []"
    "deferred_by_module report = fold (\<lambda>e. push_entry (un_module e) e) (List.map_filter (\<lambda>i. deferred_of i (target i)) (pm_imports p)) []"
    "denied_by_module report = fold (\<lambda>e. push_entry (de_module e) e) (List.map_filter (\<lambda>i. denied_of i (target i)) (pm_imports p)) []"
    using assms(1) by (auto simp: resolve_imports_def resolve_fold Let_def with_deferred_def report_pushes target_def)
  have "\<forall>i\<in>set resolved. \<forall>e. ri_target i = TargetNative e \<longrightarrow> is_granted (capability e) \<and> bif (ri_module i, ri_function i, ri_arity i) = Some e"
    by (auto simp: eqs(1) resolved_import_def target_def import_target_def split: option.splits if_splits)
  moreover have "report_is_empty report \<longleftrightarrow>
       (\<forall>i\<in>set (pm_imports p). unresolved_of i (target i) = None \<and> denied_of i (target i) = None)"
    unfolding report_is_empty_def eqs push_fold_nonempty by (auto simp: List.map_filter_def filter_empty_conv)
  ultimately show ?thesis unfolding eqs(2-4) entries_for_fold using eqs(1) by (simp add: entries_for_def)
qed

text \<open>One native function that needs the clock, loaded under the least authority.\<close>

definition sample_import :: ImportEntry where
  "sample_import = \<lparr>imp_module = 1, imp_function = 2, imp_arity = 0\<rparr>"

definition sample_native :: NativeEntry where
  "sample_native = \<lparr>native_function = 0, dirty_kind = None, capability = Clock\<rparr>"

definition sample_bifs :: NativeRegistry where
  "sample_bifs = snd (register_entry (1, 2, 0) sample_native Map.empty)"

theorem imports_resolved_exactly_witness:
  "\<not> report_is_empty (snd (resolve_imports (sample_module\<lparr>pm_imports := [sample_import]\<rparr>) (registry_new :: unit ModuleRegistry) sample_bifs least_authority))"
proof -
  let ?p = "sample_module\<lparr>pm_imports := [sample_import]\<rparr>"
  obtain resolved report where r: "resolve_imports ?p (registry_new :: unit ModuleRegistry) sample_bifs least_authority = (resolved, report)"
    by force
  have "denied_of sample_import (import_target (registry_new :: unit ModuleRegistry) sample_bifs least_authority sample_import) \<noteq> None"
    by (simp add: import_target_def sample_import_def sample_bifs_def register_entry_def sample_native_def least_authority_def)
  then show ?thesis using imports_resolved_exactly [OF r] r by simp
qed

section \<open>The tables of a module\<close>

lemma enumerated_nth: "e \<in> set (enumerated xs) \<longleftrightarrow> fst e < length xs \<and> snd e = xs ! fst e"
  by (cases e) (auto simp: enumerated_def set_zip intro!: exI)

text \<open>The last entry at or before a key, in a table sorted by strictly increasing keys.\<close>

lemma at_or_before_search:
  assumes "sorted_wrt (\<lambda>x y. f x < f y) xs"
  shows "Option.bind (at_or_before (binary_search_by_key f k xs)) (vec_get xs) =
    (if filter (\<lambda>x. f x \<le> k) xs = [] then None else Some (last (filter (\<lambda>x. f x \<le> k) xs)))"
  using assms
proof (induction xs rule: rev_induct)
  case Nil
  show ?case by (simp add: binary_search_by_key_def at_or_before_def)
next
  case (snoc x xs)
  have s: "sorted_wrt (\<lambda>x y. f x < f y) xs" and below: "\<And>y. y \<in> set xs \<Longrightarrow> f y < f x"
    using snoc.prems by (auto simp: sorted_wrt_append)
  show ?case
  proof (cases "f x \<le> k")
    case True
    then have "takeWhile (\<lambda>y. f y < k) (xs @ [x]) = xs @ (if f x < k then [x] else [])"
      using below by (subst takeWhile_append2) (auto intro: less_le_trans)
    then show ?thesis using True
      by (auto simp: binary_search_by_key_def at_or_before_def Let_def vec_get_def nth_append)
  next
    case False
    then have "\<not> f x < k" by simp
    then have "takeWhile (\<lambda>y. f y < k) (xs @ [x]) = takeWhile (\<lambda>y. f y < k) xs"
      by (induction xs) auto
    then have "binary_search_by_key f k (xs @ [x]) = binary_search_by_key f k xs"
      using False length_takeWhile_le [of "\<lambda>y. f y < k" xs]
      by (auto simp: binary_search_by_key_def Let_def nth_append)
    moreover have "vec_get (xs @ [x]) i = vec_get xs i" if "at_or_before (binary_search_by_key f k xs) = Some i" for i
      using that length_takeWhile_le [of "\<lambda>y. f y < k" xs]
      by (auto simp: binary_search_by_key_def at_or_before_def Let_def vec_get_def nth_append split: if_splits nat.splits)
    ultimately show ?thesis using snoc.IH [OF s] False
      by (cases "at_or_before (binary_search_by_key f k xs)") (simp_all split: if_splits)
  qed
qed

lemma upt_enumerate: "[a..<a + length (x # xs)] = a # [Suc a..<Suc a + length xs]"
  by (subst upt_conv_Cons) simp_all

lemma filter_enumerated:
  "filter (\<lambda>e. fst e \<le> ip) (zip [a..<a + length xs] xs) = take (Suc ip - a) (zip [a..<a + length xs] xs)"
proof (induction xs arbitrary: a)
  case (Cons x xs)
  show ?case unfolding upt_enumerate using Cons.IH [of "Suc a"] by (cases "a \<le> ip") (simp_all add: Suc_diff_le)
qed simp

lemma rows_sorted:
  assumes "\<And>ip i r. g (ip, i) = Some r \<Longrightarrow> fst r = ip"
  shows "sorted_wrt (\<lambda>x y. fst x < fst y) (List.map_filter g (enumerated xs))"
proof -
  have keys: "r \<in> set (List.map_filter g (zip [a..<b] ys)) \<Longrightarrow> a \<le> fst r" for a b ys r
    using assms by (fastforce simp: List.map_filter_def dest: set_zip_leftD)
  have "sorted_wrt (\<lambda>x y. fst x < fst y) (List.map_filter g (zip [a..<a + length xs] xs))" for a
  proof (induction xs arbitrary: a)
    case (Cons x xs)
    have "fst r' = a \<Longrightarrow> r \<in> set (List.map_filter g (zip [Suc a..<Suc a + length xs] xs)) \<Longrightarrow> fst r' < fst r" for r r'
      using keys [of r "Suc a" "Suc a + length xs" xs] by (simp only: Suc_le_eq)
    then show ?case unfolding upt_enumerate using Cons.IH [of "Suc a"] assms
      by (cases "g (a, x)") (auto simp: List.map_filter_simps)
  qed (simp add: List.map_filter_def)
  from this [of 0] show ?thesis by (simp add: enumerated_def)
qed

lemma rows_at_or_before:
  assumes "\<And>ip i r. g (ip, i) = Some r \<Longrightarrow> fst r = ip"
  shows "filter (\<lambda>r. fst r \<le> ip) (List.map_filter g (enumerated xs)) = List.map_filter g (take (Suc ip) (enumerated xs))"
proof -
  have "filter (\<lambda>r. fst r \<le> ip) (List.map_filter g es) = List.map_filter g (filter (\<lambda>e. fst e \<le> ip) es)" for es
  proof (induction es)
    case (Cons e es)
    then show ?case using assms [of "fst e" "snd e"] by (cases "g e") (simp_all add: List.map_filter_simps)
  qed (simp add: List.map_filter_def)
  then show ?thesis using filter_enumerated [of ip 0 xs] by (simp add: enumerated_def)
qed

text \<open>Scanning the code up to a position for the last row of a table.\<close>

definition last_row :: "(nat \<times> Instruction \<Rightarrow> 'a option) \<Rightarrow> Instruction list \<Rightarrow> nat \<Rightarrow> 'a option" where
  "last_row g code ip =
     (let rows = List.map_filter g (take (Suc ip) (enumerated code)) in if rows = [] then None else Some (last rows))"

lemma search_last_row:
  assumes "\<And>ip i r. g (ip, i) = Some r \<Longrightarrow> fst r = ip"
  shows "Option.bind (at_or_before (binary_search_by_key fst ip (List.map_filter g (enumerated code))))
    (vec_get (List.map_filter g (enumerated code))) = last_row g code ip"
proof -
  have "sorted_wrt (\<lambda>x y. fst x < fst y) (List.map_filter g (enumerated code))" by (rule rows_sorted) (rule assms)
  moreover have "filter (\<lambda>r. fst r \<le> ip) (List.map_filter g (enumerated code)) = List.map_filter g (take (Suc ip) (enumerated code))"
    by (rule rows_at_or_before) (rule assms)
  ultimately show ?thesis using at_or_before_search [of fst "List.map_filter g (enumerated code)" ip] by (simp add: last_row_def Let_def)
qed

lemma row_keys: "function_row (ip, i) = Some fr \<Longrightarrow> fst fr = ip" "line_row (ip, i) = Some lr \<Longrightarrow> fst lr = ip"
  by (cases i; auto simp: function_row_def line_row_def bind_eq_Some_conv)+

text \<open>
  C22. The position tables of a loaded module agree with a scan of its code: the function
  containing a position is that of the last \<open>func_info\<close> at or before it, and its source line is that
  of the last \<open>line\<close> instruction at or before it, although both are found by binary search.
\<close>

theorem position_tables_exact:
  assumes "module_from_parsed materialise p resolved t origin = Inr m"
  shows "function_at_ip m ip = map_option snd (last_row function_row (m_code m) ip) \<and>
    line_at_ip m ip = Option.bind (last_row line_row (m_code m) ip) (\<lambda>r. map_option li_line (vec_get (m_line_info m) (snd r)))"
proof -
  have tables: "m_function_table m = List.map_filter function_row (enumerated (m_code m))"
    "m_line_table m = List.map_filter line_row (enumerated (m_code m))"
    using assms by (auto simp: module_from_parsed_def Let_def result_bind_eq_Inr_conv)
  have "function_at_ip m ip = map_option snd (Option.bind (at_or_before (binary_search_by_key fst ip (m_function_table m)))
      (vec_get (m_function_table m)))"
    by (simp add: function_at_ip_def map_option_bind comp_def)
  moreover have "line_at_ip m ip = Option.bind (Option.bind (at_or_before (binary_search_by_key fst ip (m_line_table m)))
      (vec_get (m_line_table m))) (\<lambda>r. map_option li_line (vec_get (m_line_info m) (snd r)))"
    by (simp add: line_at_ip_def bind_assoc case_prod_unfold)
  ultimately show ?thesis
    using search_last_row [of function_row, OF row_keys(1)] search_last_row [of line_row, OF row_keys(2)] unfolding tables by simp
qed

text \<open>A tiny module, parsed: two functions, the second with a source line.\<close>

definition sample_code :: "Instruction list" where
  "sample_code = [I_Label 1, I_FuncInfo (OpAtom (Some 0)) (OpAtom (Some 0)) (OpUnsigned 0), I_Label 2, I_Return,
     I_Label 3, I_Line (OpUnsigned 0), I_FuncInfo (OpAtom (Some 0)) (OpAtom (Some 1)) (OpUnsigned 2), I_Label 4, I_Jump (OpLabel 2)]"

definition sample_parsed :: ParsedModule where
  "sample_parsed = \<lparr>pm_name = 0, pm_atoms = [0, 1], pm_instructions = sample_code, pm_imports = [],
     pm_exports = [\<lparr>exp_function = 1, exp_arity = 2, exp_label = 4\<rparr>], pm_lambdas = [], pm_literals = [], pm_string_table = [],
     pm_line_info = [\<lparr>li_file = 0, li_line = 7\<rparr>], pm_type_chunk = None\<rparr>"

theorem position_tables_exact_witness:
  "\<exists>m. module_from_parsed (\<lambda>_ _. Inr ()) sample_parsed [] atom_table_new Preloaded = Inr m \<and>
     function_at_ip m 7 = Some (1, 2) \<and> line_at_ip m 8 = Some 7"
proof -
  obtain m where m: "module_from_parsed (\<lambda>_ _. Inr ()) sample_parsed [] atom_table_new Preloaded = Inr m"
    by (simp add: module_from_parsed_def Let_def)
  then have "m_code m = sample_code" "m_line_info m = [\<lparr>li_file = 0, li_line = 7\<rparr>]"
    by (auto simp: module_from_parsed_def Let_def sample_parsed_def)
  moreover have "last_row function_row sample_code 7 = Some (6, 1, 2)" "last_row line_row sample_code 8 = Some (5, 0)"
    by (simp_all add: last_row_def Let_def enumerated_def sample_code_def List.map_filter_simps upt_rec function_row_def line_row_def
        operand_atom_def operand_u8_def operand_usize_def)
  ultimately show ?thesis using m position_tables_exact [OF m] by (auto simp: vec_get_def)
qed

section \<open>The slice of the ahead-of-time compiler\<close>





section \<open>The slice of a function\<close>










section \<open>A loaded module\<close>

lemma map_of_rev_Some: "x \<in> set xs \<Longrightarrow> \<exists>v. map_of (rev xs) (fst x) = Some v"
  by (metis map_of_eq_None_iff not_None_eq imageI set_map set_rev)

lemma set_map_filter: "y \<in> set (List.map_filter f xs) \<longleftrightarrow> (\<exists>x\<in>set xs. f x = Some y)"
  by (force simp: List.map_filter_def)

lemma label_row_Some: "label_row (ip, i) = Some r \<longleftrightarrow> (\<exists>l. i = I_Label l \<and> r = (l, ip))"
  by (cases i) (auto simp: label_row_def)

lemma label_of_Some: "(case i of I_Label label \<Rightarrow> Some label | _ \<Rightarrow> None) = Some l \<longleftrightarrow> i = I_Label l"
  by (cases i) auto

lemma label_rows:
  "l \<in> set (collect_labels code) \<longleftrightarrow> (\<exists>ip<length code. code ! ip = I_Label l)"
  "(l, ip) \<in> set (List.map_filter label_row (enumerated code)) \<longleftrightarrow> ip < length code \<and> code ! ip = I_Label l"
proof -
  show "l \<in> set (collect_labels code) \<longleftrightarrow> (\<exists>ip<length code. code ! ip = I_Label l)"
  proof -
    have "l \<in> set (collect_labels code) \<longleftrightarrow> I_Label l \<in> set code" unfolding collect_labels_def set_map_filter label_of_Some by blast
    then show ?thesis unfolding in_set_conv_nth [of "I_Label l"] by blast
  qed
  show "(l, ip) \<in> set (List.map_filter label_row (enumerated code)) \<longleftrightarrow> ip < length code \<and> code ! ip = I_Label l"
    unfolding set_map_filter using label_row_Some enumerated_nth [of _ code] by (force simp: label_row_Some)
qed

lemma label_resolves:
  assumes m: "module_from_parsed materialise p resolved t origin = Inr m" and l: "l \<in> set (collect_labels (pm_instructions p))"
  shows "\<exists>ip<length (m_code m). label_ip m l = Inr ip \<and> m_code m ! ip = I_Label l"
proof -
  have eqs: "m_label_index m = map_of (rev (List.map_filter label_row (enumerated (m_code m))))" "m_code m = pm_instructions p"
    using m by (auto simp: module_from_parsed_def Let_def result_bind_eq_Inr_conv)
  obtain ip where "(l, ip) \<in> set (List.map_filter label_row (enumerated (m_code m)))"
    using l label_rows [of l] unfolding eqs(2) by blast
  then obtain ip' where ip': "m_label_index m l = Some ip'" unfolding eqs(1) using map_of_rev_Some by fastforce
  then have "(l, ip') \<in> set (List.map_filter label_row (enumerated (m_code m)))" unfolding eqs(1) by (auto dest: map_of_SomeD)
  then show ?thesis using ip' unfolding label_rows(2) by (auto simp: label_ip_def)
qed

text \<open>A position in the code that a label operand names, or the label 0 that stands for none.\<close>

definition resolves :: "'p Module \<Rightarrow> Operand \<Rightarrow> bool" where
  "resolves m target \<longleftrightarrow> (\<exists>l. names_label target l \<and>
     (l = 0 \<or> (\<exists>ip<length (m_code m). label_ip m l = Inr ip \<and> m_code m ! ip = I_Label l)))"

text \<open>Instructions whose registers, targets and imports are in bounds for a module.\<close>

definition instruction_safe :: "'p Module \<Rightarrow> u32 option \<Rightarrow> Instruction \<Rightarrow> bool" where
  "instruction_safe m frame i \<longleftrightarrow>
     (\<forall>op\<in>set (instruction_operands i). registers_ok frame op) \<and>
     (\<forall>arity target. local_call i = Some (arity, target) \<longrightarrow> resolves m target) \<and>
     (\<forall>target. branch_target i = Some target \<longrightarrow> resolves m target) \<and>
     (\<forall>arity import. external_call i = Some (arity, import) \<longrightarrow>
        (\<exists>v. operand_to_u64 import = Some v \<and> unat v < length (m_resolved_imports m) \<and>
           operand_to_u8 arity = Some (ri_arity (m_resolved_imports m ! unat v))))"

definition module_safe :: "'p Module \<Rightarrow> bool" where
  "module_safe m \<longleftrightarrow>
     (\<forall>function arity label. m_exports m (function, arity) = Some label \<longrightarrow>
        (\<exists>ip<length (m_code m). export_ip m function arity = Inr ip \<and> m_code m ! ip = I_Label label)) \<and>
     (\<forall>k<length (m_code m). instruction_safe m (frame_before (m_code m) k) (m_code m ! k))"

lemma instr_ok_safe:
  assumes m: "module_from_parsed materialise p resolved t origin = Inr m"
    and resolved: "resolved = map (\<lambda>i. resolved_import i (target i)) (pm_imports p)" and ok: "instr_ok p resolved frame i"
  shows "instruction_safe m frame i"
proof -
  have imps: "m_resolved_imports m = resolved" using m by (auto simp: module_from_parsed_def Let_def result_bind_eq_Inr_conv)
  have targets: "resolves m t" if "names_label t l" "l = 0 \<or> l \<in> set (collect_labels (pm_instructions p))" for t l
    using that label_resolves [OF m, of l] unfolding resolves_def by blast
  have "ri_arity (resolved ! k) = imp_arity (pm_imports p ! k)" if "k < length (pm_imports p)" for k
    using that by (simp add: resolved resolved_import_def)
  then show ?thesis using ok targets unfolding instruction_safe_def instr_ok_def imps by metis
qed

lemma validated_safe:
  assumes m: "module_from_parsed materialise p resolved t origin = Inr m"
    and resolved: "resolved = map (\<lambda>i. resolved_import i (target i)) (pm_imports p)" and ok: "validate_module p resolved = Inr ()"
  shows "module_safe m"
proof -
  have code: "m_code m = pm_instructions p" and name: "m_name m = pm_name p"
    and exports: "m_exports m = map_of (rev (map (\<lambda>e. ((exp_function e, exp_arity e), exp_label e)) (pm_exports p)))"
    using m by (auto simp: module_from_parsed_def Let_def result_bind_eq_Inr_conv)
  note spec = ok [unfolded validate_module_iff]
  have "\<exists>ip<length (m_code m). export_ip m f a = Inr ip \<and> m_code m ! ip = I_Label l" if l: "m_exports m (f, a) = Some l" for f a l
  proof -
    have "l \<in> set (collect_labels (pm_instructions p))" using l spec unfolding exports by (auto dest!: map_of_SomeD)
    from label_resolves [OF m this] show ?thesis using l by (auto simp: export_ip_def)
  qed
  moreover have "instruction_safe m (frame_before (m_code m) k) (m_code m ! k)" if "k < length (m_code m)" for k
    using that spec instr_ok_safe [OF m resolved] unfolding code by blast
  ultimately show ?thesis unfolding module_safe_def by blast
qed

lemma module_safe_generation [simp]: "module_safe (m\<lparr>m_generation := g\<rparr>) \<longleftrightarrow> module_safe m"
  by (simp add: module_safe_def instruction_safe_def resolves_def export_ip_def label_ip_def)

text \<open>
  C5. A module that loads satisfies what validation checks, in the tables the interpreter uses. Every
  export resolves to a label instruction of its code. The label of every local call, and the target of
  every jump, catch, try, receive instruction, type test, comparison, arity or tag test, float operation
  and the fail label of a select, is label 0 or resolves to a label instruction. Every external call names
  an import of the table with the arity it calls. X and Y registers are below 256 and float registers
  below 16, and at a position where the linear scan of validation knows the frame, Y registers are below
  its size. No native function beyond the granted capabilities is bound. The module becomes the current
  version of its name. A load that fails leaves the registry alone. The labels in select lists and the fail
  labels of bif, map and binary instructions are not among the checked targets.
\<close>

theorem loaded_module_safe:
  assumes "reg_reachable w"
  shows "case load_module_with_origin_and_policy lay inflate materialise bytes t (reg w) bif is_granted origin of
      (Inl e, t', r) \<Rightarrow> r = reg w
    | (Inr (a, report), t', r) \<Rightarrow>
        (\<exists>m. arcs r a = Some m \<and> module_safe m \<and> map_option v_current (versions_of (m_name m) r) = Some a \<and>
           (\<forall>i\<in>set (m_resolved_imports m). \<forall>e. ri_target i = TargetNative e \<longrightarrow> is_granted (capability e)))"
proof (cases "prepare_module_with_origin_and_policy lay inflate materialise bytes t (reg w) bif is_granted origin")
  case (Pair res t')
  show ?thesis
  proof (cases res)
    case (Inl e)
    then show ?thesis using Pair by (simp add: load_module_with_origin_and_policy_def)
  next
    case (Inr mr)
    obtain m report where mr: "mr = (m, report)" by force
    obtain a r where ins: "insert_version m (reg w) = (a, r)" by force
    obtain parsed resolved where p: "resolve_imports parsed (reg w) bif is_granted = (resolved, report)"
      "validate_module parsed resolved = Inr ()" "module_from_parsed materialise parsed resolved t' origin = Inr m"
      using Pair Inr mr
      by (auto simp: prepare_module_with_origin_and_policy_def Let_def result_bind_eq_Inr_conv split: prod.splits sum.splits)
    have resolved: "resolved = map (\<lambda>i. resolved_import i (import_target (reg w) bif is_granted i)) (pm_imports parsed)"
      using p(1) by (auto simp: resolve_imports_def resolve_fold Let_def)
    have "m_resolved_imports m = resolved" using p(3) by (auto simp: module_from_parsed_def Let_def result_bind_eq_Inr_conv)
    then have "\<forall>i\<in>set (m_resolved_imports m). \<forall>e. ri_target i = TargetNative e \<longrightarrow> is_granted (capability e)"
      by (auto simp: resolved resolved_import_def import_target_def split: option.splits if_splits)
    moreover have "module_safe m" by (rule validated_safe [OF p(3) resolved p(2)])
    moreover obtain g where "arcs r a = Some (m\<lparr>m_generation := g\<rparr>)"
      using insert_version_ok(2) [OF reachable_reg_ok [OF assms] ins] by blast
    moreover have "map_option v_current (versions_of (m_name m) r) = Some a"
      using ins by (auto simp: insert_version_def Let_def split: option.splits prod.splits)
    ultimately show ?thesis using Pair Inr mr ins by (simp add: load_module_with_origin_and_policy_def)
  qed
qed

theorem loaded_module_safe_witness:
  "\<exists>bytes a report t' r m. encode_module atom_table_new sample_module = Inr bytes \<and>
     load_module_with_origin_and_policy sample_layout (\<lambda>_ _. None) (\<lambda>_ _. Inr ()) bytes atom_table_new registry_new Map.empty
       least_authority Preloaded = (Inr (a, report), t', r) \<and> arcs r a = Some m \<and> module_safe m"
proof -
  have init: "reg_reachable (world_init :: unit RegistryWorld)" by (simp add: reg_reachable_def)
  obtain bytes where bytes: "encode_module atom_table_new sample_module = Inr bytes" "length bytes < 2 ^ 32"
    using sample_module_bytes by blast
  then have load: "load_beam_chunks sample_layout (\<lambda>_ _. None) bytes atom_table_new = (Inr sample_module, atom_table_new)"
    using beam_file_loads [OF sample_module_ok, of "\<lambda>_ _. None"] by simp
  let ?load = "load_module_with_origin_and_policy sample_layout (\<lambda>_ _. None) (\<lambda>_ _. Inr ()) bytes atom_table_new
    (reg (world_init :: unit RegistryWorld)) Map.empty least_authority Preloaded"
  have valid: "validate_module sample_module [] = Inr ()"
    by (simp add: validate_module_def sample_module_def Let_def collect_labels_def List.map_filter_simps validate_instruction_operands_def
        validate_control_flow_def local_call_def external_call_def branch_target_def update_frame_size_def)
  obtain report where res: "resolve_imports sample_module (reg (world_init :: unit RegistryWorld)) Map.empty least_authority = ([], report)"
    by (simp add: resolve_imports_def Let_def) (simp add: sample_module_def)
  obtain m :: "unit Module" where m: "module_from_parsed (\<lambda>_ _. Inr ()) sample_module [] atom_table_new Preloaded = Inr m"
    by (simp add: module_from_parsed_def Let_def)
  obtain a r where "insert_version m (reg world_init) = (a, r)" by force
  then have r: "?load = (Inr (a, report), atom_table_new, r)"
    by (simp add: load_module_with_origin_and_policy_def prepare_module_with_origin_and_policy_def load res valid m)
  then have "\<exists>m. arcs r a = Some m \<and> module_safe m"
    using loaded_module_safe [OF init, where lay = sample_layout and inflate = "\<lambda>_ _. None" and materialise = "\<lambda>_ _. Inr ()" and bytes = bytes and
      t = atom_table_new and bif = Map.empty and is_granted = least_authority and origin = Preloaded]
    by auto
  then show ?thesis using bytes(1) r by (auto simp: world_init_def)
qed

section \<open>What validation does not check\<close>

text \<open>Replacing an instruction by one with the same labels and frame effect that passes the same checks.\<close>

lemma collect_labels_append: "collect_labels (xs @ ys) = collect_labels xs @ collect_labels ys"
  by (simp add: collect_labels_def List.map_filter_def)

lemma validate_replace:
  assumes ok: "validate_module p resolved = Inr ()" and code: "pm_instructions p = before @ i # after"
    and same: "collect_labels [i'] = collect_labels [i]" "collect_arity i' = collect_arity i" "frame_after i' = frame_after i"
    and checks: "\<And>frame. instr_ok p resolved frame i \<Longrightarrow> instr_ok p resolved frame i'"
  shows "validate_module (p\<lparr>pm_instructions := before @ i' # after\<rparr>) resolved = Inr ()"
proof -
  let ?old = "before @ i # after" and ?new = "before @ i' # after"
  have labels: "collect_labels ?new = collect_labels ?old"
    using same(1) by (metis append_Cons append_Nil collect_labels_append)
  have arities: "collect_function_arities ?new = collect_function_arities ?old"
    by (simp add: collect_function_arities_def same(2))
  have frames: "frame_before ?new k = frame_before ?old k" for k
    by (simp add: frame_before_def take_append take_Cons' same(3))
  have transfer: "instr_ok (p\<lparr>pm_instructions := ?new\<rparr>) resolved frame j \<longleftrightarrow> instr_ok p resolved frame j" for frame j
    by (simp add: instr_ok_def labels arities code)
  have "instr_ok p resolved (frame_before ?old k) (?new ! k)" if "k < length ?new" for k
    using ok that checks unfolding validate_module_iff code by (auto simp: nth_append nth_Cons split: nat.splits)
  then show ?thesis using ok unfolding validate_module_iff by (simp add: transfer frames labels code)
qed

text \<open>The recorded arities are those under the last label before a \<open>func_info\<close>.\<close>

lemma collect_arity_cases:
  "fst (collect_arity i st) = (case collect_labels [i] of [] \<Rightarrow> fst st | l # _ \<Rightarrow> Some l)"
  "snd (collect_arity i st) l = Some n \<Longrightarrow> snd st l = Some n \<or> is_func_info i \<and> fst st = Some l"
  by (cases i; auto simp: collect_arity_def collect_labels_def List.map_filter_simps split: option.splits if_splits; fail)+

lemma collect_labels_single: "length (collect_labels [i]) \<le> 1"
  by (simp add: collect_labels_def List.map_filter_simps split: option.split)

lemma collect_arity_fold:
  "fst (fold collect_arity is (None, Map.empty)) = (if collect_labels is = [] then None else Some (last (collect_labels is)))"
proof (induction "is" rule: rev_induct)
  case (snoc i "is")
  show ?case
  proof (cases "collect_labels [i]")
    case (Cons l ls)
    then have "collect_labels [i] = [l]" using collect_labels_single [of i] by simp
    then show ?thesis by (simp add: collect_labels_append collect_arity_cases(1))
  qed (simp add: snoc.IH collect_labels_append collect_arity_cases(1))
qed (simp add: collect_labels_def List.map_filter_simps)

text \<open>A label that is the last one before some \<open>func_info\<close>; the labels after it are entry labels.\<close>

definition heads_function :: "Instruction list \<Rightarrow> u32 \<Rightarrow> bool" where
  "heads_function code l \<longleftrightarrow> (\<exists>k<length code. is_func_info (code ! k) \<and> collect_labels (take k code) \<noteq> [] \<and>
     last (collect_labels (take k code)) = l)"

lemma arity_of_head: "collect_function_arities code l = Some n \<Longrightarrow> heads_function code l"
proof (induction code rule: rev_induct)
  case (snoc i code)
  show ?case
  proof (cases "collect_function_arities code l = Some n")
    case True
    then obtain k where "k < length code" "is_func_info (code ! k)" "collect_labels (take k code) \<noteq> []" "last (collect_labels (take k code)) = l"
      using snoc.IH unfolding heads_function_def by blast
    then show ?thesis unfolding heads_function_def by (intro exI [of _ k]) (simp add: nth_append)
  next
    case False
    then have "is_func_info i \<and> fst (fold collect_arity code (None, Map.empty)) = Some l"
      using snoc.prems collect_arity_cases(2) [of i "fold collect_arity code (None, Map.empty)" l n]
      by (simp add: collect_function_arities_def)
    then have "is_func_info i \<and> collect_labels code \<noteq> [] \<and> last (collect_labels code) = l"
      using collect_arity_fold [of code] by (simp split: if_splits)
    then show ?thesis unfolding heads_function_def by (intro exI [of _ "length code"]) simp
  qed
qed (simp add: collect_function_arities_def)

text \<open>A local call with another arity.\<close>

fun with_arity :: "Operand \<Rightarrow> Instruction \<Rightarrow> Instruction" where
  "with_arity a (I_Call _ l) = I_Call a l"
| "with_arity a (I_CallOnly _ l) = I_CallOnly a l"
| "with_arity a (I_CallLast _ l d) = I_CallLast a l d"
| "with_arity a i = i"

lemma with_arity_call:
  assumes "local_call i = Some (arity, l)"
  shows "local_call (with_arity a i) = Some (a, l)" "external_call (with_arity a i) = None" "branch_target (with_arity a i) = None"
    "frame_need (with_arity a i) = None" "collect_labels [with_arity a i] = collect_labels [i]"
    "collect_arity (with_arity a i) = collect_arity i" "frame_after (with_arity a i) = frame_after i"
    "set (instruction_operands (with_arity a i)) \<subseteq> insert a (set (instruction_operands i))"
  using assms
  by (cases i; auto simp: local_call_def external_call_def branch_target_def frame_need_def collect_labels_def List.map_filter_simps
      collect_arity_def fun_eq_iff frame_after_def update_frame_size_def; fail)+

definition checked_code :: "Instruction list" where
  "checked_code = [I_Label 1, I_FuncInfo (OpAtom (Some 0)) (OpAtom (Some 1)) (OpUnsigned 2), I_Label 4,
       I_SelectVal (OpX 0) (OpLabel 1) (OpList [OpInteger 1, OpLabel 4]), I_CallOnly (OpUnsigned 2) (OpLabel 4)]"

text \<open>
  C39. The arity check of local calls looks at the label before a \<open>func_info\<close>, not at the entry
  label after it that calls name, and the labels in the list of a \<open>select_val\<close> are not checked: in
  any module that passes validation, the arity of a local call to a label that is not the last one
  before a \<open>func_info\<close> can be changed to any number, and the list of a \<open>select_val\<close> to any values
  and labels, whether they exist or not, and the module still passes.
\<close>

theorem validation_misses_entry_arity:
  assumes "validate_module p resolved = Inr ()" "pm_instructions p = before @ i # after"
  shows "(\<forall>arity entry n. local_call i = Some (arity, OpLabel entry) \<longrightarrow> \<not> heads_function (pm_instructions p) entry \<longrightarrow>
       validate_module (p\<lparr>pm_instructions := before @ with_arity (OpUnsigned n) i # after\<rparr>) resolved = Inr ()) \<and>
    (\<forall>v fail rows rows'. i = I_SelectVal v fail (OpList rows) \<longrightarrow> (\<forall>r\<in>set rows'. \<exists>k l. r = OpInteger k \<or> r = OpLabel l) \<longrightarrow>
       validate_module (p\<lparr>pm_instructions := before @ I_SelectVal v fail (OpList rows') # after\<rparr>) resolved = Inr ())"
proof (intro conjI allI impI)
  fix arity entry n
  assume i: "local_call i = Some (arity, OpLabel entry)" and entry: "\<not> heads_function (pm_instructions p) entry"
  have none: "collect_function_arities (pm_instructions p) entry = None"
    using arity_of_head [of "pm_instructions p" entry] entry by (cases "collect_function_arities (pm_instructions p) entry") auto
  have "instr_ok p resolved frame (with_arity (OpUnsigned n) i)" if ok: "instr_ok p resolved frame i" for frame
  proof -
    have "registers_ok frame op" if "op \<in> set (instruction_operands (with_arity (OpUnsigned n) i))" for op
      using that with_arity_call(8) [OF i, of "OpUnsigned n"] ok unfolding instr_ok_def by auto
    then show ?thesis using ok none i unfolding instr_ok_def with_arity_call [OF i] by (simp add: names_label_def)
  qed
  then show "validate_module (p\<lparr>pm_instructions := before @ with_arity (OpUnsigned n) i # after\<rparr>) resolved = Inr ()"
    by (intro validate_replace [OF assms]) (simp_all add: with_arity_call [OF i])
next
  fix v fail rows rows'
  assume i: "i = I_SelectVal v fail (OpList rows)" and rows: "\<forall>r\<in>set rows'. \<exists>k l. r = OpInteger k \<or> r = OpLabel l"
  then have "registers_ok frame r" if "r \<in> set rows'" for frame r using that by auto
  then show "validate_module (p\<lparr>pm_instructions := before @ I_SelectVal v fail (OpList rows') # after\<rparr>) resolved = Inr ()"
    by (intro validate_replace [OF assms])
      (simp_all add: i collect_labels_def List.map_filter_simps collect_arity_def fun_eq_iff frame_after_def update_frame_size_def
        instr_ok_def local_call_def external_call_def branch_target_def frame_need_def)
qed

theorem validation_misses_entry_arity_witness:
  "validate_module (sample_parsed\<lparr>pm_instructions :=
      [I_Label 1, I_FuncInfo (OpAtom (Some 0)) (OpAtom (Some 1)) (OpUnsigned 2), I_Label 4,
       I_SelectVal (OpX 0) (OpLabel 1) (OpList [OpInteger 1, OpLabel 999]), I_CallOnly (OpUnsigned 0) (OpLabel 4)]\<rparr>) [] = Inr ()"
proof -
  let ?p = "\<lambda>code. sample_parsed\<lparr>pm_instructions := code\<rparr>"
  have ok: "validate_module (?p checked_code) [] = Inr ()"
    by (simp add: validate_module_def sample_parsed_def checked_code_def Let_def collect_labels_def List.map_filter_simps validate_instruction_operands_def
        validate_control_flow_def local_call_def external_call_def branch_target_def update_frame_size_def expect_label_operand_def
        label_of_operand_def collect_function_arities_def collect_arity_def operand_to_u8_def operand_to_u64_def)
  let ?select = "I_SelectVal (OpX 0) (OpLabel 1) (OpList [OpInteger 1, OpLabel 999])"
  let ?code = "take 3 checked_code @ [?select] @ drop 4 checked_code"
  have selected: "validate_module (?p ?code) [] = Inr ()"
    using validation_misses_entry_arity [OF ok, of "take 3 checked_code" "checked_code ! 3" "drop 4 checked_code"]
    by (simp add: checked_code_def)
  have "\<not> heads_function ?code 4"
    by (simp add: heads_function_def checked_code_def Ex_less_Suc collect_labels_def List.map_filter_simps)
  then show ?thesis using validation_misses_entry_arity [OF selected, of "take 4 ?code" "?code ! 4" "[]"]
    by (simp add: checked_code_def local_call_def)
qed

end
