(* ===== verification/Call_Stack.thy ===== *)
theory Call_Stack
  imports Term_Word
begin

text \<open>
  The call stack of a process (\<^verbatim>\<open>crates/beamr/src/process/stack.rs\<close>): frames with a return point, the
  pinned module version and the Y registers, bounded by a frame limit. The last element of the list
  is the current frame, as in the vector. Pinned modules are values of a type parameter.
\<close>

section \<open>Frames\<close>

definition DEFAULT_STACK_FRAME_LIMIT :: nat where "DEFAULT_STACK_FRAME_LIMIT = 10000"

record 'm ReturnPoint =
  rp_module :: u32
  rp_ip :: nat
  rp_version :: 'm

record 'm StackFrame =
  return_module :: u32
  return_ip :: nat
  pinned_module :: 'm
  y_slots :: u16
  y_regs :: "u64 list"

datatype StackError = StackOverflow nat | StackUnderflow | YRegisterOutOfBounds u16 u16

record 'm Stack =
  frames :: "'m StackFrame list"
  frame_limit :: nat

definition frame_new :: "u32 \<Rightarrow> nat \<Rightarrow> 'm \<Rightarrow> u16 \<Rightarrow> 'm StackFrame" where
  "frame_new md ip pin slots =
     \<lparr>return_module = md, return_ip = ip, pinned_module = pin, y_slots = slots, y_regs = replicate (unat slots) NIL\<rparr>"

definition frame_y_reg :: "'m StackFrame \<Rightarrow> u16 \<Rightarrow> StackError + u64" where
  "frame_y_reg f n = ok_or (vec_get (y_regs f) (unat n)) (YRegisterOutOfBounds n (y_slots f))"

definition frame_set_y_reg :: "'m StackFrame \<Rightarrow> u16 \<Rightarrow> u64 \<Rightarrow> StackError + 'm StackFrame" where
  "frame_set_y_reg f n v =
     (if unat n < length (y_regs f) then Inr (f\<lparr>y_regs := (y_regs f)[unat n := v]\<rparr>)
      else Inl (YRegisterOutOfBounds n (y_slots f)))"

definition frame_trim_y_regs :: "'m StackFrame \<Rightarrow> u16 \<Rightarrow> StackError + 'm StackFrame" where
  "frame_trim_y_regs f remain =
     (if remain > y_slots f then Inl (YRegisterOutOfBounds remain (y_slots f))
      else Inr (f\<lparr>y_regs := drop (unat (y_slots f - remain)) (y_regs f), y_slots := remain\<rparr>))"

section \<open>The stack\<close>

definition with_frame_limit :: "nat \<Rightarrow> 'm Stack" where
  "with_frame_limit limit = \<lparr>frames = [], frame_limit = limit\<rparr>"

definition stack_new :: "'m Stack" where
  "stack_new = with_frame_limit DEFAULT_STACK_FRAME_LIMIT"

definition push_frame :: "u32 \<Rightarrow> nat \<Rightarrow> 'm \<Rightarrow> u16 \<Rightarrow> 'm Stack \<Rightarrow> StackError + 'm Stack" where
  "push_frame md ip pin slots s =
     (if length (frames s) \<ge> frame_limit s then Inl (StackOverflow (frame_limit s))
      else Inr (s\<lparr>frames := frames s @ [frame_new md ip pin slots]\<rparr>))"

definition pop_frame :: "'m Stack \<Rightarrow> StackError + 'm ReturnPoint \<times> 'm Stack" where
  "pop_frame s =
     (if frames s = [] then Inl StackUnderflow
      else let f = last (frames s)
           in Inr (\<lparr>rp_module = return_module f, rp_ip = return_ip f, rp_version = pinned_module f\<rparr>,
                   s\<lparr>frames := butlast (frames s)\<rparr>))"

definition current_frame :: "'m Stack \<Rightarrow> StackError + 'm StackFrame" where
  "current_frame s = (if frames s = [] then Inl StackUnderflow else Inr (last (frames s)))"

text \<open>\<open>current_frame_mut\<close> followed by an operation that may fail.\<close>

definition update_current :: "('m StackFrame \<Rightarrow> StackError + 'm StackFrame) \<Rightarrow> 'm Stack \<Rightarrow> StackError + 'm Stack" where
  "update_current change s =
     result_bind (current_frame s) (\<lambda>f. result_bind (change f) (\<lambda>f. Inr (s\<lparr>frames := butlast (frames s) @ [f]\<rparr>)))"

definition y_reg :: "'m Stack \<Rightarrow> u16 \<Rightarrow> StackError + u64" where
  "y_reg s n = result_bind (current_frame s) (\<lambda>f. frame_y_reg f n)"

definition set_y_reg :: "u16 \<Rightarrow> u64 \<Rightarrow> 'm Stack \<Rightarrow> StackError + 'm Stack" where
  "set_y_reg n v = update_current (\<lambda>f. frame_set_y_reg f n v)"

definition trim_y_regs :: "u16 \<Rightarrow> 'm Stack \<Rightarrow> StackError + 'm Stack" where
  "trim_y_regs remain = update_current (\<lambda>f. frame_trim_y_regs f remain)"

definition stack_len :: "'m Stack \<Rightarrow> nat" where "stack_len s = length (frames s)"
definition stack_is_empty :: "'m Stack \<Rightarrow> bool" where "stack_is_empty s \<longleftrightarrow> frames s = []"

definition stack_truncate :: "nat \<Rightarrow> 'm Stack \<Rightarrow> 'm Stack" where
  "stack_truncate n s = s\<lparr>frames := take n (frames s)\<rparr>"

definition pinned_modules :: "'m Stack \<Rightarrow> 'm list" where
  "pinned_modules s = map pinned_module (frames s)"

definition frames_from_top :: "'m Stack \<Rightarrow> 'm StackFrame list" where
  "frames_from_top s = rev (frames s)"

section \<open>Invariant and laws\<close>

definition frame_ok :: "'m StackFrame \<Rightarrow> bool" where
  "frame_ok f \<longleftrightarrow> length (y_regs f) = unat (y_slots f)"

definition stack_ok :: "'m Stack \<Rightarrow> bool" where
  "stack_ok s \<longleftrightarrow> length (frames s) \<le> frame_limit s \<and> (\<forall>f\<in>set (frames s). frame_ok f)"

lemma stack_new_ok: "stack_ok (with_frame_limit n)"
  by (simp add: stack_ok_def with_frame_limit_def)

lemma frame_set_ok: "frame_ok f \<Longrightarrow> frame_set_y_reg f n v = Inr f' \<Longrightarrow> frame_ok f'"
  by (auto simp: frame_ok_def frame_set_y_reg_def split: if_splits)

lemma frame_trim_ok: "frame_ok f \<Longrightarrow> frame_trim_y_regs f n = Inr f' \<Longrightarrow> frame_ok f'"
  by (auto simp: frame_ok_def frame_trim_y_regs_def unat_sub word_le_nat_alt not_less split: if_splits)

lemma push_frame_ok: "stack_ok s \<Longrightarrow> push_frame md ip pin slots s = Inr s' \<Longrightarrow> stack_ok s'"
  by (auto simp: stack_ok_def push_frame_def frame_ok_def frame_new_def split: if_splits)

lemma pop_frame_ok: "stack_ok s \<Longrightarrow> pop_frame s = Inr (r, s') \<Longrightarrow> stack_ok s'"
  by (auto simp: stack_ok_def pop_frame_def Let_def split: if_splits dest!: in_set_butlastD)

lemma update_current_ok:
  assumes "stack_ok s" "update_current change s = Inr s'" "\<And>f f'. frame_ok f \<Longrightarrow> change f = Inr f' \<Longrightarrow> frame_ok f'"
  shows "stack_ok s' \<and> length (frames s') = length (frames s) \<and> butlast (frames s') = butlast (frames s) \<and> frame_limit s' = frame_limit s"
proof -
  obtain f f' where f: "frames s \<noteq> []" "f = last (frames s)" "change f = Inr f'" "s' = s\<lparr>frames := butlast (frames s) @ [f']\<rparr>"
    using assms(2) by (auto simp: update_current_def current_frame_def result_bind_eq_Inr_conv split: if_splits)
  have "frame_ok f" using assms(1) f(1,2) by (simp add: stack_ok_def)
  then have "frame_ok f'" by (rule assms(3) [OF _ f(3)])
  then show ?thesis using assms(1) f by (auto simp: stack_ok_def dest!: in_set_butlastD)
qed

lemmas set_y_reg_ok = update_current_ok [of _ "\<lambda>f. frame_set_y_reg f n v" for n v, folded set_y_reg_def, OF _ _ frame_set_ok]
lemmas trim_y_regs_ok = update_current_ok [of _ "\<lambda>f. frame_trim_y_regs f n" for n, folded trim_y_regs_def, OF _ _ frame_trim_ok]

lemma stack_truncate_ok: "stack_ok s \<Longrightarrow> stack_ok (stack_truncate n s)"
  by (auto simp: stack_ok_def stack_truncate_def dest: in_set_takeD)

text \<open>A frame popped after it was pushed gives the saved return point and the stack as it was.\<close>

lemma pop_push:
  assumes "push_frame md ip pin slots s = Inr s1" "frames s2 = butlast (frames s1) @ [f]" "frame_limit s2 = frame_limit s1"
    "return_module f = md" "return_ip f = ip" "pinned_module f = pin"
  shows "pop_frame s2 = Inr (\<lparr>rp_module = md, rp_ip = ip, rp_version = pin\<rparr>, s)"
  using assms by (auto simp: push_frame_def pop_frame_def Let_def split: if_splits)

lemma trim_renumbers:
  assumes "stack_ok s" "trim_y_regs remain s = Inr s'" "k < remain" "current_frame s = Inr f"
  shows "y_reg s' k = y_reg s (y_slots f - remain + k)"
proof -
  have f: "frame_ok f" and s: "frames s \<noteq> []" "f = last (frames s)"
    using assms(1,4) by (auto simp: stack_ok_def current_frame_def split: if_splits)
  have le: "remain \<le> y_slots f" using assms(2,4) by (auto simp: trim_y_regs_def update_current_def frame_trim_y_regs_def split: if_splits)
  have k: "unat k < unat remain" using assms(3) by (simp add: word_less_nat_alt)
  have sub: "unat (y_slots f - remain) = unat (y_slots f) - unat remain" using le by (simp add: unat_sub word_le_nat_alt)
  have "unat (y_slots f - remain) + unat k < 2 ^ 16"
    using sub k le unsigned_less [of "y_slots f", where ?'a = nat] by (simp add: word_le_nat_alt)
  then have add: "unat (y_slots f - remain + k) = unat (y_slots f) - unat remain + unat k"
    using sub by (simp add: unat_word_ariths)
  have "s' = s\<lparr>frames := butlast (frames s) @ [f\<lparr>y_regs := drop (unat (y_slots f - remain)) (y_regs f), y_slots := remain\<rparr>]\<rparr>"
    using assms(2,4) leD [OF le] by (simp add: trim_y_regs_def update_current_def frame_trim_y_regs_def)
  then show ?thesis
    using f k le s add sub by (auto simp: y_reg_def current_frame_def frame_y_reg_def frame_ok_def vec_get_def word_le_nat_alt)
qed

end
