(* ===== verification/Interpreter.thy ===== *)
theory Interpreter
  imports Module_Load Call_Stack Process_State
begin

text \<open>
  The interpreter loop (\<^verbatim>\<open>crates/beamr/src/interpreter/mod.rs\<close>) and the instructions that move
  terms between registers, transfer control and handle exceptions
  (\<^verbatim>\<open>interpreter/opcodes/core.rs\<close>, \<^verbatim>\<open>opcodes/exceptions.rs\<close>, \<open>jump\<close> of \<^verbatim>\<open>opcodes/guards.rs\<close>), in the
  build without the compiler. Instructions that build or inspect heap terms, call native functions
  or use the mailbox are outside the model: dispatching one gives \<open>None\<close>.

  An error ends the run, so a failing instruction returns only the error; \<open>Panicked\<close> is an
  out-of-range access to the array of X registers. The heap is a type parameter with the one
  allocation these instructions make, and the constant pool is one with its lookup; both come in
  \<open>Env\<close>. A shared module is its value.
\<close>

section \<open>State\<close>

record CodePosition =
  pos_module :: u32
  pos_ip :: nat

datatype Register = RegX u16 | RegY u16

datatype HandlerKind = TryHandler | CatchHandler

record ExceptionHandler =
  h_kind :: HandlerKind
  stack_depth :: nat
  catch_position :: CodePosition
  h_destination :: Register

record Exception =
  exc_class :: u64
  exc_reason :: u64
  exc_stacktrace :: u64

record 'p RawStackEntry =
  raw_module :: "'p Module"
  raw_ip :: nat
  raw_mfa :: "(u32 \<times> u32 \<times> u8) option"

datatype RunError =
    ResolveFailed ExecError
  | Badarg
  | InvalidOperand string
  | UnknownOpcode u8
  | StackFailed StackError
  | HeapFull nat nat
  | Panicked

datatype InstructionOutcome = Continue | Jump CodePosition | Yield | Exit ExitReason | OnLoadComplete

datatype ExecutionResult = RunYielded | RunExited ExitReason

definition X_REG_COUNT :: nat where "X_REG_COUNT = 1024"

record ('p, 'h) Proc =
  x_regs :: "u64 list"
  stack :: "'p Module Stack"
  handlers :: "ExceptionHandler list"
  nested_handler_floor :: nat
  current_exception :: "Exception option"
  raw_stacktrace :: "'p RawStackEntry list"
  code_position :: "CodePosition option"
  current_module :: "'p Module option"
  reduction_counter :: u32
  native_continuations :: "(nat \<times> CodePosition option) list"
  heap :: 'h

record ('p, 'h) Env =
  pool_get :: "'p \<Rightarrow> nat \<Rightarrow> u64 option"
  two_tuple :: "u64 \<Rightarrow> u64 \<Rightarrow> 'h \<Rightarrow> RunError + u64 \<times> 'h"

type_synonym ('p, 'h) step_result = "RunError + InstructionOutcome \<times> ('p, 'h) Proc"

definition map_error :: "('e \<Rightarrow> 'f) \<Rightarrow> 'e + 'a \<Rightarrow> 'f + 'a" where
  "map_error f r = (case r of Inl e \<Rightarrow> Inl (f e) | Inr a \<Rightarrow> Inr a)"

definition x_reg :: "u16 \<Rightarrow> ('p, 'h) Proc \<Rightarrow> RunError + u64" where
  "x_reg n p = (if unat n < length (x_regs p) then Inr (x_regs p ! unat n) else Inl Panicked)"

definition set_x_reg :: "u16 \<Rightarrow> u64 \<Rightarrow> ('p, 'h) Proc \<Rightarrow> RunError + ('p, 'h) Proc" where
  "set_x_reg n v p = (if unat n < length (x_regs p) then Inr (p\<lparr>x_regs := (x_regs p)[unat n := v]\<rparr>) else Inl Panicked)"

text \<open>An operation on the stack of the process.\<close>

definition on_stack :: "('p Module Stack \<Rightarrow> StackError + 'p Module Stack) \<Rightarrow> ('p, 'h) Proc \<Rightarrow> RunError + ('p, 'h) Proc" where
  "on_stack f p = map_error StackFailed (result_bind (f (stack p)) (\<lambda>s. Inr (p\<lparr>stack := s\<rparr>)))"

definition push_exception_handler :: "ExceptionHandler \<Rightarrow> ('p, 'h) Proc \<Rightarrow> ('p, 'h) Proc" where
  "push_exception_handler h p = p\<lparr>handlers := handlers p @ [h]\<rparr>"

definition pop_exception_handler :: "('p, 'h) Proc \<Rightarrow> ('p, 'h) Proc" where
  "pop_exception_handler p = p\<lparr>handlers := butlast (handlers p)\<rparr>"

definition pop_exception_handler_in_nest :: "('p, 'h) Proc \<Rightarrow> (ExceptionHandler \<times> ('p, 'h) Proc) option" where
  "pop_exception_handler_in_nest p =
     (if length (handlers p) \<le> nested_handler_floor p then None
      else Some (last (handlers p), p\<lparr>handlers := butlast (handlers p)\<rparr>))"

definition native_continuation_ready :: "('p, 'h) Proc \<Rightarrow> bool" where
  "native_continuation_ready p \<longleftrightarrow> native_continuations p \<noteq> [] \<and>
     (case last (native_continuations p) of (resume_depth, resume_position) \<Rightarrow>
        stack_len (stack p) \<le> resume_depth \<and> resume_position = code_position p)"

definition prune_native_continuations :: "nat \<Rightarrow> ('p, 'h) Proc \<Rightarrow> ('p, 'h) Proc" where
  "prune_native_continuations depth p = p\<lparr>native_continuations := filter (\<lambda>c. fst c < depth) (native_continuations p)\<rparr>"

definition decrement_reductions :: "('p, 'h) Proc \<Rightarrow> ('p, 'h) Proc" where
  "decrement_reductions p = p\<lparr>reduction_counter := (if reduction_counter p = 0 then 0 else reduction_counter p - 1)\<rparr>"

definition current_mfa :: "('p, 'h) Proc \<Rightarrow> (u32 \<times> u32 \<times> u8) option" where
  "current_mfa p = (case (current_module p, code_position p) of
     (Some m, Some pos) \<Rightarrow> mfa_at_ip m (pos_ip pos) | _ \<Rightarrow> None)"

section \<open>Operands\<close>

definition CLOSURE_BASE_WORDS :: u64 where "CLOSURE_BASE_WORDS = 7"

definition allocation_words :: "Allocation \<Rightarrow> u64" where
  "allocation_words a = (case a of AllocWords n \<Rightarrow> n | AllocFloats n \<Rightarrow> n * 2 | AllocFuns n \<Rightarrow> n * CLOSURE_BASE_WORDS | AllocUnknown _ _ \<Rightarrow> 0)"

definition op_usize :: "Operand \<Rightarrow> string \<Rightarrow> RunError + nat" where
  "op_usize op ctx = (case op of
     OpUnsigned v \<Rightarrow> Inr (unat v)
   | OpInteger v \<Rightarrow> if 0 \<le> v \<and> v < 2 ^ 64 then Inr (nat v) else Inl (InvalidOperand ctx)
   | OpAllocation entries \<Rightarrow> Inr (unat (fold (\<lambda>a total. saturating_add_u64 total (allocation_words a)) entries 0))
   | _ \<Rightarrow> Inl (InvalidOperand ctx))"

definition op_u8 :: "Operand \<Rightarrow> string \<Rightarrow> RunError + u8" where
  "op_u8 op ctx = result_bind (op_usize op ctx) (\<lambda>v. if v < 2 ^ 8 then Inr (of_nat v) else Inl (InvalidOperand ctx))"

definition op_u16 :: "Operand \<Rightarrow> string \<Rightarrow> RunError + u16" where
  "op_u16 op ctx = result_bind (op_usize op ctx) (\<lambda>v. if v < 2 ^ 16 then Inr (of_nat v) else Inl (InvalidOperand ctx))"

definition u16_from_u32 :: "u32 \<Rightarrow> string \<Rightarrow> RunError + u16" where
  "u16_from_u32 v ctx = (if unat v < 2 ^ 16 then Inr (ucast v) else Inl (InvalidOperand ctx))"

definition op_label :: "Operand \<Rightarrow> RunError + u32" where
  "op_label op = (case op of
     OpLabel l \<Rightarrow> Inr l
   | OpUnsigned v \<Rightarrow> if unat v < 2 ^ 32 then Inr (ucast v) else Inl (InvalidOperand ''label'')
   | OpInteger v \<Rightarrow> if 0 \<le> v \<and> v < 2 ^ 32 then Inr (word_of_int v) else Inl (InvalidOperand ''label'')
   | _ \<Rightarrow> Inl (InvalidOperand ''label''))"

definition literal_term :: "('p, 'h) Env \<Rightarrow> 'p Module \<Rightarrow> nat \<Rightarrow> RunError + u64" where
  "literal_term env m i = ok_or (pool_get env (m_constant_pool m) i) (InvalidOperand ''literal index'')"

fun read_term :: "('p, 'h) Env \<Rightarrow> 'p Module \<Rightarrow> Operand \<Rightarrow> ('p, 'h) Proc \<Rightarrow> RunError + u64" where
  "read_term env m (OpInteger v) p = ok_or (try_small_int (word_of_int v)) Badarg"
| "read_term env m (OpUnsigned v) p = (if unat v < 2 ^ 63 then ok_or (try_small_int v) Badarg else Inl Badarg)"
| "read_term env m (OpAtom (Some a)) p = Inr (atom_term a)"
| "read_term env m (OpAtom None) p = Inr NIL"
| "read_term env m (OpX i) p = result_bind (u16_from_u32 i ''X register'') (\<lambda>n. x_reg n p)"
| "read_term env m (OpY i) p = result_bind (u16_from_u32 i ''Y register'') (\<lambda>n. map_error StackFailed (y_reg (stack p) n))"
| "read_term env m (OpLiteral i) p = literal_term env m i"
| "read_term env m (OpTypedRegister register _) p = read_term env m register p"
| "read_term env m _ p = Inl (InvalidOperand ''term source'')"

fun write_term :: "Operand \<Rightarrow> u64 \<Rightarrow> ('p, 'h) Proc \<Rightarrow> RunError + ('p, 'h) Proc" where
  "write_term (OpX i) v p = result_bind (u16_from_u32 i ''X register'') (\<lambda>n. set_x_reg n v p)"
| "write_term (OpY i) v p = result_bind (u16_from_u32 i ''Y register'') (\<lambda>n. on_stack (set_y_reg n v) p)"
| "write_term (OpTypedRegister register _) v p = write_term register v p"
| "write_term _ v p = Inl (InvalidOperand ''term destination'')"

section \<open>Calls and frames\<close>

definition current_module_pin :: "('p, 'h) Proc \<Rightarrow> 'p Module \<Rightarrow> 'p Module" where
  "current_module_pin p m = (case current_module p of
     Some current \<Rightarrow> if m_name current = m_name m then current else m | None \<Rightarrow> m)"

definition jump_position_with_reduction :: "CodePosition \<Rightarrow> ('p, 'h) Proc \<Rightarrow> ('p, 'h) step_result" where
  "jump_position_with_reduction target p =
     (let p = decrement_reductions p
      in if reduction_counter p = 0 then Inr (Yield, p\<lparr>code_position := Some target\<rparr>) else Inr (Jump target, p))"

definition jump_with_reduction :: "u32 \<Rightarrow> nat \<Rightarrow> ('p, 'h) Proc \<Rightarrow> ('p, 'h) step_result" where
  "jump_with_reduction md ip = jump_position_with_reduction \<lparr>pos_module = md, pos_ip = ip\<rparr>"

definition run_label_ip :: "'p Module \<Rightarrow> Operand \<Rightarrow> RunError + nat" where
  "run_label_ip m l = result_bind (op_label l) (\<lambda>l. map_error ResolveFailed (label_ip m l))"

definition move_op where
  "move_op env m source destination p =
     result_bind (read_term env m source p) (\<lambda>v. result_bind (write_term destination v p) (\<lambda>p. Inr (Continue, p)))"

definition swap_op where
  "swap_op env m left right p =
     result_bind (read_term env m left p) (\<lambda>lv. result_bind (read_term env m right p) (\<lambda>rv.
       result_bind (write_term left rv p) (\<lambda>p. result_bind (write_term right lv p) (\<lambda>p. Inr (Continue, p)))))"

definition call :: "'p Module \<Rightarrow> Operand \<Rightarrow> Operand \<Rightarrow> nat \<Rightarrow> bool \<Rightarrow> ('p, 'h) Proc \<Rightarrow> ('p, 'h) step_result" where
  "call m arity label ret_ip save_return p =
     result_bind (op_u8 arity ''call arity'') (\<lambda>_. result_bind (run_label_ip m label) (\<lambda>target.
       result_bind (if save_return then on_stack (push_frame (m_name m) ret_ip (current_module_pin p m) 0) p else Inr p)
         (jump_with_reduction (m_name m) target)))"

definition deallocate_frame :: "Operand \<Rightarrow> ('p, 'h) Proc \<Rightarrow> RunError + ('p, 'h) Proc" where
  "deallocate_frame ws p = result_bind (op_u16 ws ''deallocate words'') (\<lambda>_.
     on_stack (\<lambda>s. result_bind (pop_frame s) (\<lambda>(_, s). Inr s)) p)"

definition call_last :: "'p Module \<Rightarrow> Operand \<Rightarrow> Operand \<Rightarrow> Operand \<Rightarrow> ('p, 'h) Proc \<Rightarrow> ('p, 'h) step_result" where
  "call_last m arity label dealloc p =
     result_bind (op_u8 arity ''call_last arity'') (\<lambda>_. result_bind (deallocate_frame dealloc p) (\<lambda>p.
       result_bind (run_label_ip m label) (\<lambda>target. jump_with_reduction (m_name m) target p)))"

definition return_op :: "('p, 'h) Proc \<Rightarrow> ('p, 'h) step_result" where
  "return_op p =
     (if stack_is_empty (stack p) then Inr (Exit Normal, p)
      else result_bind (map_error StackFailed (pop_frame (stack p))) (\<lambda>(point, s).
        Inr (Jump \<lparr>pos_module = rp_module point, pos_ip = rp_ip point\<rparr>,
             p\<lparr>stack := s, current_module := Some (rp_version point)\<rparr>)))"

definition push_y_frame :: "'p Module \<Rightarrow> Operand \<Rightarrow> ('p, 'h) Proc \<Rightarrow> ('p, 'h) step_result" where
  "push_y_frame m need p = result_bind (op_u16 need ''stack slots'') (\<lambda>slots.
     let ret_ip = (case code_position p of None \<Rightarrow> 0 | Some pos \<Rightarrow> pos_ip pos)
     in result_bind (on_stack (push_frame (m_name m) ret_ip (current_module_pin p m) slots) p) (\<lambda>p. Inr (Continue, p)))"

definition deallocate :: "Operand \<Rightarrow> ('p, 'h) Proc \<Rightarrow> ('p, 'h) step_result" where
  "deallocate ws p = result_bind (deallocate_frame ws p) (\<lambda>p. Inr (Continue, p))"

definition trim_op :: "Operand \<Rightarrow> Operand \<Rightarrow> ('p, 'h) Proc \<Rightarrow> ('p, 'h) step_result" where
  "trim_op ws remain p =
     result_bind (op_u16 ws ''trim words'') (\<lambda>ws. result_bind (op_u16 remain ''trim remaining'') (\<lambda>remain.
       if unat ws + unat remain \<ge> 2 ^ 16 then Inl Badarg
       else result_bind (map_error StackFailed (current_frame (stack p))) (\<lambda>f.
         if y_slots f \<noteq> ws + remain then Inl Badarg
         else result_bind (on_stack (trim_y_regs remain) p) (\<lambda>p. Inr (Continue, p)))))"

definition jump_label :: "'p Module \<Rightarrow> Operand \<Rightarrow> ('p, 'h) Proc \<Rightarrow> ('p, 'h) step_result" where
  "jump_label m label p = result_bind (run_label_ip m label) (\<lambda>ip. Inr (Jump \<lparr>pos_module = m_name m, pos_ip = ip\<rparr>, p))"

fun init_yregs :: "Operand list \<Rightarrow> ('p, 'h) Proc \<Rightarrow> ('p, 'h) step_result" where
  "init_yregs [] p = Inr (Continue, p)"
| "init_yregs (op # ops) p = result_bind (write_term op NIL p) (init_yregs ops)"

section \<open>Exceptions\<close>

definition ERROR_ATOM :: u64 where "ERROR_ATOM = atom_term 1"
definition THROW_ATOM :: u64 where "THROW_ATOM = atom_term 30"
definition EXIT_CLASS_ATOM :: u64 where "EXIT_CLASS_ATOM = atom_term 31"
definition EXIT_ATOM :: u64 where "EXIT_ATOM = atom_term 8"

definition error_exception :: "u64 \<Rightarrow> Exception" where
  "error_exception reason = \<lparr>exc_class = ERROR_ATOM, exc_reason = reason, exc_stacktrace = NIL\<rparr>"

fun register_of :: "Operand \<Rightarrow> RunError + Register" where
  "register_of (OpX i) = result_bind (u16_from_u32 i ''X register'') (\<lambda>n. Inr (RegX n))"
| "register_of (OpY i) = result_bind (u16_from_u32 i ''Y register'') (\<lambda>n. Inr (RegY n))"
| "register_of (OpTypedRegister register _) = register_of register"
| "register_of _ = Inl (InvalidOperand ''register'')"

fun y_register :: "Operand \<Rightarrow> RunError + u16" where
  "y_register (OpY i) = u16_from_u32 i ''Y register''"
| "y_register (OpTypedRegister register _) = y_register register"
| "y_register _ = Inl (InvalidOperand ''Y register'')"

definition write_register :: "Register \<Rightarrow> u64 \<Rightarrow> ('p, 'h) Proc \<Rightarrow> RunError + ('p, 'h) Proc" where
  "write_register r v p = (case r of RegX n \<Rightarrow> set_x_reg n v p | RegY n \<Rightarrow> on_stack (set_y_reg n v) p)"

definition make_pair :: "('p, 'h) Env \<Rightarrow> u64 \<Rightarrow> u64 \<Rightarrow> ('p, 'h) Proc \<Rightarrow> RunError + u64 \<times> ('p, 'h) Proc" where
  "make_pair env a b p = result_bind (two_tuple env a b (heap p)) (\<lambda>(v, h). Inr (v, p\<lparr>heap := h\<rparr>))"

definition catch_value :: "('p, 'h) Env \<Rightarrow> Exception \<Rightarrow> ('p, 'h) Proc \<Rightarrow> RunError + u64 \<times> ('p, 'h) Proc" where
  "catch_value env e p =
     (if exc_class e = THROW_ATOM then Inr (exc_reason e, p)
      else if exc_class e = EXIT_CLASS_ATOM then make_pair env EXIT_ATOM (exc_reason e) p
      else result_bind (make_pair env (exc_reason e) (exc_stacktrace e) p) (\<lambda>(payload, p). make_pair env EXIT_ATOM payload p))"

definition capture_raw_stacktrace :: "('p, 'h) Proc \<Rightarrow> ('p, 'h) Proc" where
  "capture_raw_stacktrace p = p\<lparr>raw_stacktrace :=
     (case (current_module p, code_position p) of
        (Some m, Some pos) \<Rightarrow> [\<lparr>raw_module = m, raw_ip = pos_ip pos, raw_mfa = current_mfa p\<rparr>]
      | _ \<Rightarrow> []) @
     map (\<lambda>f. \<lparr>raw_module = pinned_module f, raw_ip = return_ip f, raw_mfa = None\<rparr>) (frames_from_top (stack p))\<rparr>"

definition dispatch_captured_exception :: "('p, 'h) Env \<Rightarrow> Exception \<Rightarrow> ('p, 'h) Proc \<Rightarrow> ('p, 'h) step_result" where
  "dispatch_captured_exception env e p =
     (case pop_exception_handler_in_nest p of
        None \<Rightarrow> Inr (Exit Error, p\<lparr>current_exception := Some e\<rparr>)
      | Some (handler, p) \<Rightarrow>
          (let p = p\<lparr>stack := stack_truncate (stack_depth handler) (stack p)\<rparr>;
               p = prune_native_continuations (stack_depth handler) p;
               p = p\<lparr>current_exception := Some e\<rparr>
           in result_bind
                (case h_kind handler of
                   TryHandler \<Rightarrow> write_register (h_destination handler) (exc_reason e) p
                 | CatchHandler \<Rightarrow> result_bind (catch_value env e p) (\<lambda>(caught, p). set_x_reg 0 caught p))
                (\<lambda>p. Inr (Jump (catch_position handler), p))))"

definition raise_exception :: "('p, 'h) Env \<Rightarrow> Exception \<Rightarrow> ('p, 'h) Proc \<Rightarrow> ('p, 'h) step_result" where
  "raise_exception env e p = dispatch_captured_exception env e (capture_raw_stacktrace p)"

definition push_handler :: "HandlerKind \<Rightarrow> 'p Module \<Rightarrow> Operand \<Rightarrow> Operand \<Rightarrow> ('p, 'h) Proc \<Rightarrow> ('p, 'h) step_result" where
  "push_handler kind m destination label p =
     result_bind (register_of destination) (\<lambda>r. result_bind (run_label_ip m label) (\<lambda>ip.
       Inr (Continue, push_exception_handler
         \<lparr>h_kind = kind, stack_depth = stack_len (stack p), catch_position = \<lparr>pos_module = m_name m, pos_ip = ip\<rparr>, h_destination = r\<rparr> p)))"

definition try_end :: "Operand \<Rightarrow> ('p, 'h) Proc \<Rightarrow> ('p, 'h) step_result" where
  "try_end source p = result_bind (register_of source) (\<lambda>_.
     Inr (Continue, (pop_exception_handler p)\<lparr>current_exception := None, raw_stacktrace := []\<rparr>))"

definition catch_end :: "Operand \<Rightarrow> ('p, 'h) Proc \<Rightarrow> ('p, 'h) step_result" where
  "catch_end source p = result_bind (y_register source) (\<lambda>destination.
     let p = (if current_exception p = None then pop_exception_handler p else p)
     in result_bind (on_stack (set_y_reg destination NIL) (p\<lparr>current_exception := None, raw_stacktrace := []\<rparr>)) (\<lambda>p. Inr (Continue, p)))"

definition try_case :: "Operand \<Rightarrow> ('p, 'h) Proc \<Rightarrow> ('p, 'h) step_result" where
  "try_case source p = result_bind (write_term source NIL p) (\<lambda>p.
     case current_exception p of
       None \<Rightarrow> Inr (Continue, p)
     | Some e \<Rightarrow>
         result_bind (set_x_reg 0 (exc_class e) p) (\<lambda>p. result_bind (set_x_reg 1 (exc_reason e) p) (\<lambda>p.
           result_bind (set_x_reg 2 (exc_stacktrace e) p) (\<lambda>p. Inr (Continue, p\<lparr>current_exception := None\<rparr>)))))"

text \<open>\<open>badmatch\<close>, \<open>case_end\<close> and \<open>try_case_end\<close> raise \<open>{Reason, Value}\<close>.\<close>

definition raise_with_value :: "('p, 'h) Env \<Rightarrow> 'p Module \<Rightarrow> u32 \<Rightarrow> Operand \<Rightarrow> ('p, 'h) Proc \<Rightarrow> ('p, 'h) step_result" where
  "raise_with_value env m reason v p = result_bind (read_term env m v p) (\<lambda>v.
     result_bind (make_pair env (atom_term reason) v p) (\<lambda>(r, p). raise_exception env (error_exception r) p))"

definition try_case_end where "try_case_end env m v = raise_with_value env m 11 v"
definition badmatch where "badmatch env m v = raise_with_value env m 11 v"
definition case_end where "case_end env m v = raise_with_value env m 13 v"

definition if_end :: "('p, 'h) Env \<Rightarrow> ('p, 'h) Proc \<Rightarrow> ('p, 'h) step_result" where
  "if_end env = raise_exception env (error_exception (atom_term 14))"

definition func_info :: "('p, 'h) Env \<Rightarrow> ('p, 'h) Proc \<Rightarrow> ('p, 'h) step_result" where
  "func_info env = raise_exception env (error_exception (atom_term 12))"

definition exception_class :: "u64 \<Rightarrow> bool" where
  "exception_class c \<longleftrightarrow> c = ERROR_ATOM \<or> c = THROW_ATOM \<or> c = EXIT_CLASS_ATOM"

definition raw_raise :: "('p, 'h) Env \<Rightarrow> ('p, 'h) Proc \<Rightarrow> ('p, 'h) step_result" where
  "raw_raise env p =
     result_bind (x_reg 0 p) (\<lambda>c. result_bind (x_reg 1 p) (\<lambda>r. result_bind (x_reg 2 p) (\<lambda>st.
       if \<not> exception_class c then Inl Badarg
       else raise_exception env \<lparr>exc_class = c, exc_reason = r, exc_stacktrace = st\<rparr> p)))"

definition raise_op :: "('p, 'h) Env \<Rightarrow> 'p Module \<Rightarrow> Operand \<Rightarrow> Operand \<Rightarrow> ('p, 'h) Proc \<Rightarrow> ('p, 'h) step_result" where
  "raise_op env m stacktrace reason p =
     result_bind (read_term env m stacktrace p) (\<lambda>st. result_bind (read_term env m reason p) (\<lambda>r.
       result_bind (x_reg 0 p) (\<lambda>x0.
         raise_exception env \<lparr>exc_class = if exception_class x0 then x0 else ERROR_ATOM, exc_reason = r, exc_stacktrace = st\<rparr> p)))"

section \<open>Dispatch and the loop\<close>

definition dispatch_common ::
  "('p, 'h) Env \<Rightarrow> 'p Module \<Rightarrow> Instruction \<Rightarrow> nat \<Rightarrow> ('p, 'h) Proc \<Rightarrow> ('p, 'h) step_result option" where
  "dispatch_common env m i next_ip p =
     (if native_continuation_ready p then None
      else case i of
        I_Label _ \<Rightarrow> Some (Inr (Continue, p))
      | I_FuncInfo _ _ _ \<Rightarrow> Some (func_info env p)
      | I_Move source destination \<Rightarrow> Some (move_op env m source destination p)
      | I_Swap left right \<Rightarrow> Some (swap_op env m left right p)
      | I_Call arity label \<Rightarrow> Some (call m arity label next_ip True p)
      | I_CallOnly arity label \<Rightarrow> Some (call m arity label next_ip False p)
      | I_CallLast arity label dealloc \<Rightarrow> Some (call_last m arity label dealloc p)
      | I_Return \<Rightarrow> Some (return_op p)
      | I_Allocate need _ \<Rightarrow> Some (push_y_frame m need p)
      | I_AllocateZero need _ \<Rightarrow> Some (push_y_frame m need p)
      | I_Deallocate ws \<Rightarrow> Some (deallocate ws p)
      | I_Trim ws remain \<Rightarrow> Some (trim_op ws remain p)
      | I_Jump target \<Rightarrow> Some (jump_label m target p)
      | I_Try destination label \<Rightarrow> Some (push_handler TryHandler m destination label p)
      | I_TryEnd source \<Rightarrow> Some (try_end source p)
      | I_TryCase source \<Rightarrow> Some (try_case source p)
      | I_TryCaseEnd source \<Rightarrow> Some (try_case_end env m source p)
      | I_Catch destination label \<Rightarrow> Some (push_handler CatchHandler m destination label p)
      | I_CatchEnd source \<Rightarrow> Some (catch_end source p)
      | I_Raise stacktrace reason \<Rightarrow> Some (raise_op env m stacktrace reason p)
      | I_RawRaise \<Rightarrow> Some (raw_raise env p)
      | I_Badmatch v \<Rightarrow> Some (badmatch env m v p)
      | I_CaseEnd v \<Rightarrow> Some (case_end env m v p)
      | I_IfEnd \<Rightarrow> Some (if_end env p)
      | I_Line _ \<Rightarrow> Some (Inr (Continue, p))
      | I_OnLoad \<Rightarrow> Some (Inr (OnLoadComplete, p))
      | I_InitYregs registers \<Rightarrow>
          Some (case registers of OpList ops \<Rightarrow> init_yregs ops p | _ \<Rightarrow> Inl (InvalidOperand ''init_yregs: expected register list''))
      | I_Generic opcode name _ \<Rightarrow> Some (if name = ''executable_line'' then Inr (Continue, p) else Inl (UnknownOpcode opcode))
      | _ \<Rightarrow> None)"

definition current_module_for_position ::
  "('p, 'h) Proc \<Rightarrow> CodePosition \<Rightarrow> 'p Module \<Rightarrow> (u32 \<Rightarrow> 'p Module option) \<Rightarrow> RunError + 'p Module \<times> ('p, 'h) Proc" where
  "current_module_for_position p pos initial lookup =
     (let reload = (case lookup (pos_module pos) of
            Some m \<Rightarrow> Inr (m, p\<lparr>current_module := Some m\<rparr>)
          | None \<Rightarrow>
              if m_name initial = pos_module pos then Inr (initial, p\<lparr>current_module := Some initial\<rparr>)
              else Inl (InvalidOperand ''code position module''))
      in case current_module p of
           Some current \<Rightarrow> if m_name current = pos_module pos then Inr (current, p) else reload
         | None \<Rightarrow> reload)"

text \<open>One round of the loop: \<open>Inr (None, p)\<close> goes round again.\<close>

definition run_step ::
  "('p, 'h) Env \<Rightarrow> 'p Module \<Rightarrow> (u32 \<Rightarrow> 'p Module option) \<Rightarrow> ('p, 'h) Proc \<Rightarrow>
   (RunError + ExecutionResult option \<times> ('p, 'h) Proc) option" where
  "run_step env initial lookup p =
     (case code_position p of
        None \<Rightarrow> Some (Inl (InvalidOperand ''code position''))
      | Some pos \<Rightarrow>
          (case current_module_for_position p pos initial lookup of
             Inl e \<Rightarrow> Some (Inl e)
           | Inr (m, p) \<Rightarrow>
               (case vec_get (m_code m) (pos_ip pos) of
                  None \<Rightarrow> Some (Inl (InvalidOperand ''instruction pointer''))
                | Some i \<Rightarrow>
                    if pos_ip pos + 1 \<ge> 2 ^ 64 then Some (Inl (InvalidOperand ''instruction pointer''))
                    else (case dispatch_common env m i (pos_ip pos + 1) p of
                        None \<Rightarrow> None
                      | Some (Inl e) \<Rightarrow> Some (Inl e)
                      | Some (Inr (outcome, p)) \<Rightarrow>
                          Some (Inr (case outcome of
                              Continue \<Rightarrow> (None, p\<lparr>code_position := Some \<lparr>pos_module = m_name m, pos_ip = pos_ip pos + 1\<rparr>\<rparr>)
                            | Jump target \<Rightarrow> (None, p\<lparr>code_position := Some target\<rparr>)
                            | Yield \<Rightarrow> (Some RunYielded, p)
                            | Exit reason \<Rightarrow> (Some (RunExited reason), p\<lparr>code_position := None, current_module := None\<rparr>)
                            | OnLoadComplete \<Rightarrow> (Some (RunExited Normal), p\<lparr>code_position := None, current_module := None\<rparr>)))))))"

definition run_start :: "'p Module \<Rightarrow> ('p, 'h) Proc \<Rightarrow> ('p, 'h) Proc" where
  "run_start initial p = (if code_position p = None then p\<lparr>code_position := Some \<lparr>pos_module = m_name initial, pos_ip = 0\<rparr>\<rparr> else p)"

section \<open>Safety of one instruction\<close>

text \<open>\<open>safe r P\<close>: the result is not a panic, and when it is a value the value satisfies \<open>P\<close>.\<close>

definition safe :: "RunError + 'a \<Rightarrow> ('a \<Rightarrow> bool) \<Rightarrow> bool" where
  "safe r P = (case r of Inl e \<Rightarrow> e \<noteq> Panicked | Inr a \<Rightarrow> P a)"

lemma safe_simps [simp]:
  "safe (Inl e) P \<longleftrightarrow> e \<noteq> Panicked" "safe (Inr a) P \<longleftrightarrow> P a"
  "safe (result_bind r k) P \<longleftrightarrow> safe r (\<lambda>a. safe (k a) P)"
  by (simp_all add: safe_def result_bind_def split: sum.splits)

lemma safe_mono: "safe r P \<Longrightarrow> (\<And>a. P a \<Longrightarrow> Q a) \<Longrightarrow> safe r Q"
  by (auto simp: safe_def split: sum.splits)

lemma safe_map_error [simp]: "(\<And>e. f e \<noteq> Panicked) \<Longrightarrow> safe (map_error f r) P \<longleftrightarrow> (\<forall>a. r = Inr a \<longrightarrow> P a)"
  by (auto simp: safe_def map_error_def split: sum.splits)

definition handler_ok :: "ExceptionHandler \<Rightarrow> bool" where
  "handler_ok h = (case h_destination h of RegX n \<Rightarrow> unat n < X_REG_COUNT | RegY _ \<Rightarrow> True)"

definition frames_safe :: "'p Module Stack \<Rightarrow> bool" where
  "frames_safe s \<longleftrightarrow> (\<forall>f\<in>set (frames s). module_safe (pinned_module f))"

definition run_ok :: "('p, 'h) Proc \<Rightarrow> bool" where
  "run_ok p \<longleftrightarrow> length (x_regs p) = X_REG_COUNT \<and> stack_ok (stack p) \<and> frames_safe (stack p) \<and>
     (\<forall>h\<in>set (handlers p). handler_ok h) \<and> (\<forall>m. current_module p = Some m \<longrightarrow> module_safe m)"

lemma run_ok_other [simp]:
  "run_ok (p\<lparr>current_exception := e\<rparr>) = run_ok p" "run_ok (p\<lparr>raw_stacktrace := st\<rparr>) = run_ok p"
  "run_ok (p\<lparr>code_position := pos\<rparr>) = run_ok p" "run_ok (p\<lparr>reduction_counter := n\<rparr>) = run_ok p"
  "run_ok (p\<lparr>native_continuations := cs\<rparr>) = run_ok p" "run_ok (p\<lparr>heap := h\<rparr>) = run_ok p"
  by (simp_all add: run_ok_def)

lemma safe_op_usize [simp]: "(\<And>a. P a) \<Longrightarrow> safe (op_usize op ctx) P"
  by (simp add: op_usize_def split: Operand.splits)

lemma safe_op_small [simp]: "(\<And>a. Q a) \<Longrightarrow> safe (op_u8 op ctx) Q" "(\<And>a. R a) \<Longrightarrow> safe (op_u16 op ctx) R"
  by (simp_all add: op_u8_def op_u16_def)

lemma safe_op_label [simp]: "(\<And>a. P a) \<Longrightarrow> safe (op_label op) P"
  by (simp add: op_label_def split: Operand.splits)

lemma safe_run_label_ip [simp]: "(\<And>a. P a) \<Longrightarrow> safe (run_label_ip m l) P"
  by (simp add: run_label_ip_def)

lemma safe_literal_term [simp]: "(\<And>a. P a) \<Longrightarrow> safe (literal_term env m i) P"
  by (simp add: literal_term_def ok_or_def split: option.splits)

lemma safe_u16 [simp]: "(\<And>a. unat v < 2 ^ 16 \<Longrightarrow> unat a = unat v \<Longrightarrow> P a) \<Longrightarrow> safe (u16_from_u32 v ctx) P"
  by (auto simp: u16_from_u32_def unsigned_ucast_eq take_bit_nat_eq_self)

lemma safe_y_register [simp]: "(\<And>a. P a) \<Longrightarrow> safe (y_register op) P"
  by (induction op rule: y_register.induct) simp_all

lemma safe_register_of:
  "registers_ok frame op \<Longrightarrow> safe (register_of op) (\<lambda>r. case r of RegX n \<Rightarrow> unat n < X_REG_COUNT | RegY _ \<Rightarrow> True)"
  by (induction op rule: register_of.induct) (auto simp: X_REG_COUNT_def)

lemma safe_x_reg [simp]: "run_ok p \<Longrightarrow> unat n < X_REG_COUNT \<Longrightarrow> (\<And>a. P a) \<Longrightarrow> safe (x_reg n p) P"
  by (simp add: x_reg_def run_ok_def)

lemma safe_set_x_reg: "run_ok p \<Longrightarrow> unat n < X_REG_COUNT \<Longrightarrow> safe (set_x_reg n v p) run_ok"
  by (simp add: set_x_reg_def run_ok_def)

lemma safe_read_term [simp]:
  "run_ok p \<Longrightarrow> registers_ok frame op \<Longrightarrow> (\<And>a. P a) \<Longrightarrow> safe (read_term env m op p) P"
  by (induction env m op p rule: read_term.induct) (auto simp: ok_or_def X_REG_COUNT_def split: option.splits)

lemmas safe_intros = safe_op_usize safe_op_small safe_op_label safe_run_label_ip safe_literal_term safe_u16 safe_y_register safe_x_reg
  safe_read_term

lemma frames_safe_butlast: "frames_safe s \<Longrightarrow> frames_safe (s\<lparr>frames := butlast (frames s)\<rparr>)"
  by (auto simp: frames_safe_def dest!: in_set_butlastD)

lemma frames_safe_update:
  assumes "frames_safe s" "update_current change s = Inr s'" "\<And>f f'. change f = Inr f' \<Longrightarrow> pinned_module f' = pinned_module f"
  shows "frames_safe s'"
proof -
  obtain f f' where f: "frames s \<noteq> []" "f = last (frames s)" "change f = Inr f'" "s' = s\<lparr>frames := butlast (frames s) @ [f']\<rparr>"
    using assms(2) by (auto simp: update_current_def current_frame_def result_bind_eq_Inr_conv split: if_splits)
  then have "module_safe (pinned_module f')" using assms(1) assms(3) [OF f(3)] by (simp add: frames_safe_def)
  then show ?thesis using assms(1) f(4) by (auto simp: frames_safe_def dest!: in_set_butlastD)
qed

lemma frames_safe_y:
  "frames_safe s \<Longrightarrow> set_y_reg n v s = Inr s' \<Longrightarrow> frames_safe s'" "frames_safe s \<Longrightarrow> trim_y_regs m s = Inr s' \<Longrightarrow> frames_safe s'"
  by (auto simp: set_y_reg_def trim_y_regs_def frame_set_y_reg_def frame_trim_y_regs_def split: if_splits elim!: frames_safe_update)

lemma safe_set_y: "run_ok p \<Longrightarrow> safe (on_stack (set_y_reg n v) p) run_ok"
  using set_y_reg_ok [of "stack p" n v] frames_safe_y(1) [of "stack p" n v]
  by (auto simp: on_stack_def run_ok_def result_bind_eq_Inr_conv)

lemma safe_write_term: "run_ok p \<Longrightarrow> registers_ok frame op \<Longrightarrow> safe (write_term op v p) run_ok"
proof (induction op v p rule: write_term.induct)
  case (1 i v p)
  then show ?case by (auto simp: X_REG_COUNT_def intro!: safe_u16 safe_set_x_reg)
qed (auto intro!: safe_u16 safe_set_y)

lemma safe_push_frame:
  assumes "run_ok p" "module_safe pin"
  shows "safe (on_stack (push_frame md ip pin slots) p) run_ok"
  using assms push_frame_ok [of "stack p"]
  by (auto simp: on_stack_def run_ok_def result_bind_eq_Inr_conv frames_safe_def push_frame_def frame_new_def split: if_splits)

definition env_ok :: "('p, 'h) Env \<Rightarrow> bool" where
  "env_ok env \<longleftrightarrow> (\<forall>a b h. two_tuple env a b h \<noteq> Inl Panicked)"

definition outcome_ok :: "InstructionOutcome \<times> ('p, 'h) Proc \<Rightarrow> bool" where
  "outcome_ok r \<longleftrightarrow> run_ok (snd r)"

lemma outcome_ok_pair [simp]: "outcome_ok (outcome, p) \<longleftrightarrow> run_ok p"
  by (simp add: outcome_ok_def)

lemma safe_jump [simp]: "run_ok p \<Longrightarrow> safe (jump_with_reduction md ip p) outcome_ok"
  by (simp add: jump_with_reduction_def jump_position_with_reduction_def Let_def decrement_reductions_def)

lemma pin_safe: "run_ok p \<Longrightarrow> module_safe m \<Longrightarrow> module_safe (current_module_pin p m)"
  by (auto simp: current_module_pin_def run_ok_def split: option.splits)

lemma safe_deallocate_frame: "run_ok p \<Longrightarrow> safe (deallocate_frame ws p) run_ok"
  using pop_frame_ok [of "stack p"] frames_safe_butlast [of "stack p"]
  by (auto simp: deallocate_frame_def on_stack_def run_ok_def result_bind_eq_Inr_conv pop_frame_def Let_def split: if_splits)

lemma safe_call: "run_ok p \<Longrightarrow> module_safe m \<Longrightarrow> safe (call m arity label ip save p) outcome_ok"
  by (auto simp: call_def intro!: safe_intros safe_mono [OF safe_push_frame] pin_safe)

lemma safe_call_last: "run_ok p \<Longrightarrow> safe (call_last m arity label ws p) outcome_ok"
  by (auto simp: call_last_def intro!: safe_intros safe_mono [OF safe_deallocate_frame])

lemma safe_return: "run_ok p \<Longrightarrow> safe (return_op p) outcome_ok"
  using pop_frame_ok [of "stack p"] frames_safe_butlast [of "stack p"]
  by (auto simp: return_op_def run_ok_def pop_frame_def Let_def frames_safe_def split: if_splits)

lemma safe_push_y_frame: "run_ok p \<Longrightarrow> module_safe m \<Longrightarrow> safe (push_y_frame m need p) outcome_ok"
  by (auto simp: push_y_frame_def Let_def intro!: safe_intros safe_mono [OF safe_push_frame] pin_safe)

lemma safe_trim_frame: "run_ok p \<Longrightarrow> safe (on_stack (trim_y_regs n) p) run_ok"
  using trim_y_regs_ok [of "stack p" n] frames_safe_y(2) [of "stack p" n]
  by (auto simp: on_stack_def run_ok_def result_bind_eq_Inr_conv)

lemma safe_trim: "run_ok p \<Longrightarrow> safe (trim_op ws remain p) outcome_ok"
  by (auto simp: trim_op_def intro!: safe_intros safe_mono [OF safe_trim_frame])

lemma safe_move: "run_ok p \<Longrightarrow> registers_ok frame s \<Longrightarrow> registers_ok frame d \<Longrightarrow> safe (move_op env m s d p) outcome_ok"
  by (auto simp: move_op_def intro!: safe_read_term safe_mono [OF safe_write_term])

lemma safe_swap: "run_ok p \<Longrightarrow> registers_ok frame l \<Longrightarrow> registers_ok frame r \<Longrightarrow> safe (swap_op env m l r p) outcome_ok"
  unfolding swap_op_def by (auto intro!: safe_read_term) (intro safe_mono [OF safe_write_term]; simp add: safe_mono [OF safe_write_term])

lemma safe_init_yregs: "run_ok p \<Longrightarrow> \<forall>op\<in>set ops. registers_ok frame op \<Longrightarrow> safe (init_yregs ops p) outcome_ok"
  by (induction ops p rule: init_yregs.induct) (auto intro!: safe_mono [OF safe_write_term])

lemma safe_write_register: "run_ok p \<Longrightarrow> handler_ok h \<Longrightarrow> safe (write_register (h_destination h) v p) run_ok"
  by (auto simp: write_register_def handler_ok_def safe_set_x_reg safe_set_y split: Register.splits)

lemma safe_make_pair: "env_ok env \<Longrightarrow> run_ok p \<Longrightarrow> safe (make_pair env a b p) (\<lambda>(v, p). run_ok p)"
  unfolding make_pair_def env_ok_def by (cases "two_tuple env a b (heap p)") (auto simp: result_bind_def)

lemma safe_catch_value: "env_ok env \<Longrightarrow> run_ok p \<Longrightarrow> safe (catch_value env e p) (\<lambda>(v, p). run_ok p)"
  by (auto simp: catch_value_def safe_make_pair intro!: safe_mono [OF safe_make_pair])

lemma run_ok_truncate: "run_ok p \<Longrightarrow> run_ok (p\<lparr>stack := stack_truncate n (stack p)\<rparr>)"
  using stack_truncate_ok [of "stack p" n] by (auto simp: run_ok_def frames_safe_def stack_truncate_def dest: in_set_takeD)

lemma run_ok_pop_handler: "run_ok p \<Longrightarrow> run_ok (p\<lparr>handlers := butlast (handlers p)\<rparr>)"
  by (auto simp: run_ok_def dest!: in_set_butlastD)

lemma safe_raise:
  assumes "env_ok env" "run_ok p"
  shows "safe (raise_exception env e p) outcome_ok"
proof (cases "pop_exception_handler_in_nest (capture_raw_stacktrace p)")
  case None
  then show ?thesis using assms(2) by (simp add: raise_exception_def dispatch_captured_exception_def capture_raw_stacktrace_def)
next
  case (Some hp)
  let ?c = "capture_raw_stacktrace p"
  have c: "run_ok ?c" using assms(2) by (simp add: capture_raw_stacktrace_def)
  obtain h where hp: "hp = (h, ?c\<lparr>handlers := butlast (handlers ?c)\<rparr>)" "h = last (handlers ?c)" "handlers ?c \<noteq> []"
    using Some by (cases "handlers ?c = []") (auto simp: pop_exception_handler_in_nest_def split: if_splits)
  have h: "handler_ok h" using c hp(2,3) by (simp add: run_ok_def)
  define q where "q = (prune_native_continuations (stack_depth h)
    (?c\<lparr>handlers := butlast (handlers ?c), stack := stack_truncate (stack_depth h) (stack ?c)\<rparr>))\<lparr>current_exception := Some e\<rparr>"
  have q: "run_ok q" using run_ok_truncate [OF run_ok_pop_handler [OF c], of "stack_depth h"]
    by (simp add: q_def prune_native_continuations_def)
  have "safe (case h_kind h of TryHandler \<Rightarrow> write_register (h_destination h) (exc_reason e) q
      | CatchHandler \<Rightarrow> result_bind (catch_value env e q) (\<lambda>(caught, p). set_x_reg 0 caught p)) run_ok"
    by (cases "h_kind h")
      (auto simp: safe_write_register [OF q h] X_REG_COUNT_def intro!: safe_set_x_reg safe_mono [OF safe_catch_value [OF assms(1) q]])
  then show ?thesis
    by (cases "h_kind h") (simp_all add: raise_exception_def dispatch_captured_exception_def Some hp(1) Let_def q_def)
qed

lemma safe_raise_with_value:
  "env_ok env \<Longrightarrow> run_ok p \<Longrightarrow> registers_ok frame v \<Longrightarrow> safe (raise_with_value env m r v p) outcome_ok"
  by (auto simp: raise_with_value_def intro!: safe_intros safe_raise safe_mono [OF safe_make_pair])

lemma safe_raw_raise: "env_ok env \<Longrightarrow> run_ok p \<Longrightarrow> safe (raw_raise env p) outcome_ok"
  by (auto simp: raw_raise_def X_REG_COUNT_def intro!: safe_intros safe_raise)

lemma safe_raise_op:
  "env_ok env \<Longrightarrow> run_ok p \<Longrightarrow> registers_ok frame st \<Longrightarrow> registers_ok frame r \<Longrightarrow> safe (raise_op env m st r p) outcome_ok"
  by (auto simp: raise_op_def X_REG_COUNT_def intro!: safe_intros safe_raise)

lemma safe_push_handler: "run_ok p \<Longrightarrow> registers_ok frame d \<Longrightarrow> safe (push_handler kind m d l p) outcome_ok"
  by (auto simp: push_handler_def push_exception_handler_def run_ok_def handler_ok_def intro!: safe_mono [OF safe_register_of])

lemma safe_try_end: "run_ok p \<Longrightarrow> registers_ok frame s \<Longrightarrow> safe (try_end s p) outcome_ok"
  using run_ok_pop_handler [of p]
  by (auto simp: try_end_def pop_exception_handler_def intro!: safe_mono [OF safe_register_of])

lemma safe_catch_end: "run_ok p \<Longrightarrow> safe (catch_end s p) outcome_ok"
  using run_ok_pop_handler [of p]
  by (auto simp: catch_end_def Let_def pop_exception_handler_def intro!: safe_intros safe_mono [OF safe_set_y])

lemma safe_set_x3:
  "run_ok p \<Longrightarrow> safe (result_bind (set_x_reg 0 a p) (\<lambda>p. result_bind (set_x_reg 1 b p) (\<lambda>p. set_x_reg 2 c p))) run_ok"
  by (auto simp: X_REG_COUNT_def intro!: safe_mono [OF safe_set_x_reg] safe_set_x_reg)

lemma safe_try_case: "run_ok p \<Longrightarrow> registers_ok frame s \<Longrightarrow> safe (try_case s p) outcome_ok"
proof -
  assume "run_ok p" "registers_ok frame s"
  then have w: "safe (write_term s NIL p) run_ok" by (rule safe_write_term)
  have "safe (set_x_reg 0 a q) (\<lambda>q. safe (set_x_reg 1 b q) (\<lambda>q. safe (set_x_reg 2 c q) (\<lambda>q. run_ok (q\<lparr>current_exception := None\<rparr>))))"
    if "run_ok q" for a b c and q :: "('a, 'b) Proc"
    using safe_set_x3 [OF that, of a b c] by simp
  then show ?thesis using w by (auto simp: try_case_def split: option.splits intro!: safe_mono [OF w])
qed

lemmas safe_instructions = safe_move safe_swap safe_call safe_call_last safe_return safe_push_y_frame safe_trim safe_raise
  safe_raise_with_value safe_raw_raise safe_raise_op safe_push_handler safe_try_end safe_catch_end safe_try_case

lemma safe_dispatch:
  assumes "env_ok env" "run_ok p" "module_safe m" "\<forall>op\<in>set (instruction_operands i). registers_ok frame op"
    and d: "dispatch_common env m i ip p = Some r"
  shows "safe r outcome_ok"
proof (cases "native_continuation_ready p")
  case True
  then show ?thesis using d by (simp add: dispatch_common_def)
next
  case False
  have init: "safe (case registers of OpList ops \<Rightarrow> init_yregs ops p | _ \<Rightarrow> Inl (InvalidOperand x)) outcome_ok"
    if "registers_ok frame registers" for registers x
    using that safe_init_yregs [OF assms(2), of _ frame] by (cases registers) auto
  show ?thesis using d False assms(1-4)
    by (cases i) (auto simp: dispatch_common_def func_info_def if_end_def try_case_end_def badmatch_def case_end_def deallocate_def jump_label_def init
        intro: safe_instructions safe_intros intro!: safe_mono [OF safe_deallocate_frame])
qed

section \<open>Safety of a run\<close>

text \<open>
  The loop goes round, or yields and is entered again later with a new budget, as the scheduler does.
\<close>

inductive run_next :: "('p, 'h) Env \<Rightarrow> 'p Module \<Rightarrow> (u32 \<Rightarrow> 'p Module option) \<Rightarrow> ('p, 'h) Proc \<Rightarrow> ('p, 'h) Proc \<Rightarrow> bool"
  for env initial lookup where
  go_round: "run_step env initial lookup p = Some (Inr (None, q)) \<Longrightarrow> run_next env initial lookup p q"
| next_slice: "run_step env initial lookup p = Some (Inr (Some RunYielded, q)) \<Longrightarrow>
     run_next env initial lookup p (q\<lparr>reduction_counter := allowance\<rparr>)"

lemma module_for_position_ok:
  assumes "run_ok p" "module_safe initial" "\<forall>n m. lookup n = Some m \<longrightarrow> module_safe m"
    and "current_module_for_position p pos initial lookup = Inr (m, q)"
  shows "run_ok q \<and> module_safe m"
  using assms by (auto simp: current_module_for_position_def Let_def run_ok_def split: option.splits if_splits)

lemma module_for_position_error:
  "current_module_for_position p pos initial lookup = Inl e \<Longrightarrow> e \<noteq> Panicked"
  by (auto simp: current_module_for_position_def Let_def split: option.splits if_splits)

lemma safe_run_step:
  assumes "env_ok env" "run_ok p" "module_safe initial" "\<forall>n m. lookup n = Some m \<longrightarrow> module_safe m"
    and r: "run_step env initial lookup p = Some r"
  shows "safe r (\<lambda>(result, q). run_ok q)"
proof (cases "code_position p")
  case None
  then show ?thesis using r by (auto simp: run_step_def)
next
  case (Some pos)
  show ?thesis
  proof (cases "current_module_for_position p pos initial lookup")
    case (Inl e)
    then show ?thesis using r Some module_for_position_error [OF Inl] by (auto simp: run_step_def)
  next
    case (Inr mq)
    obtain m q where mq: "mq = (m, q)" by force
    have ok: "run_ok q" "module_safe m" using module_for_position_ok [OF assms(2-4) Inr [unfolded mq]] by blast+
    note here = r Some Inr mq
    show ?thesis
    proof (cases "vec_get (m_code m) (pos_ip pos)")
      case None
      then show ?thesis using here by (auto simp: run_step_def simp del: vec_get_None_iff)
    next
      case (Some i)
      then have "instruction_safe m (frame_before (m_code m) (pos_ip pos)) i"
        using ok(2) by (auto simp: vec_get_Some_iff module_safe_def)
      then have ops: "\<forall>op\<in>set (instruction_operands i). registers_ok (frame_before (m_code m) (pos_ip pos)) op"
        by (simp add: instruction_safe_def)
      show ?thesis
      proof (cases "2 ^ 64 \<le> pos_ip pos + 1")
        case True
        then show ?thesis using here Some by (auto simp: run_step_def)
      next
        case False
        then obtain d where d: "dispatch_common env m i (pos_ip pos + 1) q = Some d"
          using here Some by (auto simp: run_step_def split: option.splits)
        have "safe d outcome_ok" by (rule safe_dispatch [OF assms(1) ok ops d])
        then show ?thesis using here Some d False
          by (auto simp: run_step_def run_ok_def split: sum.splits prod.splits InstructionOutcome.splits)
      qed
    qed
  qed
qed

section \<open>Frames and handlers below the current ones\<close>

text \<open>
  What one instruction keeps: the frames under the current one entirely, and the return point of
  every frame that is still there; and the handlers that are still there.
\<close>

definition same_point :: "'m StackFrame \<Rightarrow> 'm StackFrame \<Rightarrow> bool" where
  "same_point f g \<longleftrightarrow> return_module f = return_module g \<and> return_ip f = return_ip g \<and> pinned_module f = pinned_module g"

definition keeps_frames :: "'m Stack \<Rightarrow> 'm Stack \<Rightarrow> bool" where
  "keeps_frames s t \<longleftrightarrow> frame_limit t = frame_limit s \<and>
     (\<forall>j < min (length (frames s)) (length (frames t)). same_point (frames s ! j) (frames t ! j)) \<and>
     (\<forall>j. Suc j < min (length (frames s)) (length (frames t)) \<longrightarrow> frames t ! j = frames s ! j)"

definition keeps_handlers :: "ExceptionHandler list \<Rightarrow> ExceptionHandler list \<Rightarrow> bool" where
  "keeps_handlers hs ks \<longleftrightarrow> (\<forall>j < min (length hs) (length ks). ks ! j = hs ! j)"

definition keeps :: "('p, 'h) Proc \<Rightarrow> ('p, 'h) Proc \<Rightarrow> bool" where
  "keeps p q \<longleftrightarrow> keeps_frames (stack p) (stack q) \<and> keeps_handlers (handlers p) (handlers q) \<and>
     nested_handler_floor q = nested_handler_floor p"

lemma keeps_frames_refl [simp]: "keeps_frames s s"
  by (simp add: keeps_frames_def same_point_def)

lemma keeps_handlers_refl [simp]: "keeps_handlers hs hs" "keeps_handlers hs (hs @ ks)" "keeps_handlers hs (butlast hs)"
  by (auto simp: keeps_handlers_def nth_append nth_butlast)

lemma keeps_frames_truncate: "keeps_frames s (s\<lparr>frames := take n (frames s)\<rparr>)"
  by (auto simp: keeps_frames_def same_point_def)

lemma keeps_frames_push: "push_frame md ip pin slots s = Inr t \<Longrightarrow> keeps_frames s t"
  by (auto simp: keeps_frames_def push_frame_def same_point_def nth_append split: if_splits)

lemma keeps_frames_pop: "pop_frame s = Inr (r, t) \<Longrightarrow> keeps_frames s t"
  using keeps_frames_truncate [of s "length (frames s) - 1"] by (auto simp: pop_frame_def Let_def butlast_conv_take split: if_splits)

lemma keeps_frames_update:
  assumes "update_current change s = Inr t" "\<And>f g. change f = Inr g \<Longrightarrow> same_point f g"
  shows "keeps_frames s t \<and> length (frames t) = length (frames s)"
proof -
  obtain f g where f: "frames s \<noteq> []" "f = last (frames s)" "change f = Inr g" "t = s\<lparr>frames := butlast (frames s) @ [g]\<rparr>"
    using assms(1) by (auto simp: update_current_def current_frame_def result_bind_eq_Inr_conv split: if_splits)
  have "same_point (last (frames s)) g" using assms(2) f by simp
  then show ?thesis using f(1) unfolding f(4) keeps_frames_def
    by (auto simp: nth_append nth_butlast same_point_def last_conv_nth less_Suc_eq) (metis diff_Suc_1 less_antisym length_greater_0_conv Suc_pred)+
qed

lemma keeps_frames_y:
  "set_y_reg n v s = Inr t \<Longrightarrow> keeps_frames s t \<and> length (frames t) = length (frames s)"
  "trim_y_regs m s = Inr t \<Longrightarrow> keeps_frames s t \<and> length (frames t) = length (frames s)"
  unfolding set_y_reg_def trim_y_regs_def
  by (auto intro!: keeps_frames_update simp: frame_set_y_reg_def frame_trim_y_regs_def same_point_def split: if_splits)

lemma keeps_frames_trans:
  assumes "keeps_frames s t" "keeps_frames t u" "min (length (frames s)) (length (frames u)) \<le> length (frames t)"
  shows "keeps_frames s u"
  using assms unfolding keeps_frames_def same_point_def by auto

text \<open>\<open>gives r P\<close>: a value, if any, satisfies \<open>P\<close>.\<close>

definition gives :: "'e + 'a \<Rightarrow> ('a \<Rightarrow> bool) \<Rightarrow> bool" where
  "gives r P \<longleftrightarrow> (\<forall>a. r = Inr a \<longrightarrow> P a)"

lemma gives_simps [simp]:
  "gives (Inl e) P" "gives (Inr a) P \<longleftrightarrow> P a" "gives (result_bind r k) P \<longleftrightarrow> gives r (\<lambda>a. gives (k a) P)"
  "gives (map_error f r') P \<longleftrightarrow> gives r' P" "gives (ok_or v e) P \<longleftrightarrow> (\<forall>a. v = Some a \<longrightarrow> P a)"
  by (auto simp: gives_def result_bind_eq_Inr_conv map_error_def split: sum.splits)

lemma gives_all: "(\<And>a. P a) \<Longrightarrow> gives r P"
  by (simp add: gives_def)

lemma gives_mono: "gives r P \<Longrightarrow> (\<And>a. P a \<Longrightarrow> Q a) \<Longrightarrow> gives r Q"
  by (simp add: gives_def)

lemmas gives_reads = gives_all [where r = "read_term env m op p" for env m op p] gives_all [where r = "op_u8 op ctx" for op ctx]
  gives_all [where r = "op_u16 op ctx" for op ctx] gives_all [where r = "run_label_ip m l" for m l] gives_all [where r = "register_of op" for op]
  gives_all [where r = "y_register op" for op] gives_all [where r = "x_reg n p" for n p] gives_all [where r = "current_frame s" for s]

text \<open>Writing a register changes nothing else.\<close>

definition regs_only :: "('p, 'h) Proc \<Rightarrow> ('p, 'h) Proc \<Rightarrow> bool" where
  "regs_only p q \<longleftrightarrow> handlers q = handlers p \<and> nested_handler_floor q = nested_handler_floor p \<and>
     current_exception q = current_exception p \<and> code_position q = code_position p \<and> current_module q = current_module p \<and>
     reduction_counter q = reduction_counter p \<and> keeps_frames (stack p) (stack q) \<and>
     length (frames (stack q)) = length (frames (stack p))"

lemma regs_only_trans: "regs_only p q \<Longrightarrow> regs_only q r \<Longrightarrow> regs_only p r"
  using keeps_frames_trans [of "stack p" "stack q" "stack r"] by (simp add: regs_only_def)

lemma gives_set_x: "gives (set_x_reg n v p) (\<lambda>q. regs_only p q \<and> stack q = stack p)"
  by (simp add: set_x_reg_def regs_only_def)

lemma gives_set_y: "gives (on_stack (set_y_reg n v) p) (regs_only p)"
  using keeps_frames_y(1) [of n v "stack p"] by (auto simp: on_stack_def gives_def result_bind_eq_Inr_conv regs_only_def map_error_def split: sum.splits)

lemma gives_write_term: "gives (write_term op v p) (regs_only p)"
  by (induction op v p rule: write_term.induct)
    (auto simp: u16_from_u32_def gives_set_y intro: gives_mono [OF gives_set_x])

lemma gives_write_register: "gives (write_register r v p) (regs_only p)"
  by (auto simp: write_register_def gives_set_y intro: gives_mono [OF gives_set_x] split: Register.splits)

text \<open>An instruction that is not a call: the reductions are untouched, and it does not yield.\<close>

definition plain :: "('p, 'h) Proc \<Rightarrow> InstructionOutcome \<times> ('p, 'h) Proc \<Rightarrow> bool" where
  "plain p r \<longleftrightarrow> (case r of (outcome, q) \<Rightarrow> keeps p q \<and> reduction_counter q = reduction_counter p \<and> outcome \<noteq> Yield)"

lemma plain_regs: "regs_only p q \<Longrightarrow> outcome \<noteq> Yield \<Longrightarrow> plain p (outcome, q)"
  by (simp add: plain_def keeps_def regs_only_def)

lemma plain_move: "gives (move_op env m s d p) (plain p)"
  by (auto simp: move_op_def intro!: gives_reads gives_mono [OF gives_write_term] plain_regs)

lemma plain_swap: "gives (swap_op env m l r p) (plain p)"
proof -
  have "gives (write_term l v p) (\<lambda>q. gives (write_term r w q) (\<lambda>q. plain p (Continue, q)))" for v w
  proof (rule gives_mono [OF gives_write_term])
    fix q assume "regs_only p q"
    then show "gives (write_term r w q) (\<lambda>q. plain p (Continue, q))"
      by (intro gives_mono [OF gives_write_term] plain_regs) (auto intro: regs_only_trans)
  qed
  then show ?thesis by (auto simp: swap_op_def intro!: gives_reads)
qed

lemma plain_init_yregs: "regs_only p0 p \<Longrightarrow> gives (init_yregs ops p) (plain p0)"
proof (induction ops p rule: init_yregs.induct)
  case (2 op ops p)
  have "gives (init_yregs ops q) (plain p0)" if "regs_only p q" for q
    using 2 regs_only_trans [OF 2(2) that] by blast
  then have "gives (write_term op NIL p) (\<lambda>q. gives (init_yregs ops q) (plain p0))" by (rule gives_mono [OF gives_write_term])
  then show ?case by simp
qed (simp add: plain_regs)

lemma plain_return: "gives (return_op p) (plain p)"
proof -
  have "gives (pop_frame (stack p)) (\<lambda>(r, t). keeps_frames (stack p) t)" by (auto simp: gives_def keeps_frames_pop)
  then show ?thesis by (auto simp: return_op_def plain_def keeps_def elim!: gives_mono)
qed

lemma plain_push_y_frame: "gives (push_y_frame m need p) (plain p)"
proof -
  have "gives (on_stack (push_frame md ip pin slots) p) (\<lambda>q. plain p (Continue, q))" for md ip pin slots
    using keeps_frames_push [of md ip pin slots "stack p"] by (auto simp: on_stack_def gives_def plain_def keeps_def result_bind_eq_Inr_conv map_error_def split: sum.splits)
  then show ?thesis by (auto simp: push_y_frame_def Let_def intro!: gives_reads)
qed

lemma gives_deallocate: "gives (deallocate_frame ws p) (\<lambda>q. keeps p q \<and> reduction_counter q = reduction_counter p)"
  using keeps_frames_pop [of "stack p"]
  by (auto simp: deallocate_frame_def on_stack_def keeps_def gives_def result_bind_eq_Inr_conv map_error_def split: sum.splits)

lemma plain_trim: "gives (trim_op ws remain p) (plain p)"
proof -
  have "gives (on_stack (trim_y_regs n) p) (\<lambda>q. plain p (Continue, q))" for n
    using keeps_frames_y(2) [of n "stack p"] by (auto simp: on_stack_def gives_def plain_def keeps_def result_bind_eq_Inr_conv map_error_def split: sum.splits)
  then show ?thesis by (auto simp: trim_op_def intro!: gives_reads)
qed

lemma gives_make_pair: "gives (make_pair env a b p) (\<lambda>(v, q). \<exists>h. q = p\<lparr>heap := h\<rparr>)"
  by (cases "two_tuple env a b (heap p)") (auto simp: make_pair_def)

lemma gives_catch_value: "gives (catch_value env e p) (\<lambda>(v, q). \<exists>h. q = p\<lparr>heap := h\<rparr>)"
proof -
  have "gives (make_pair env c v q) (\<lambda>(v, q). \<exists>h. q = p\<lparr>heap := h\<rparr>)" if "\<exists>h. q = p\<lparr>heap := h\<rparr>" for c v q
    using that by (auto intro!: gives_mono [OF gives_make_pair])
  then have two: "gives (make_pair env a b p) (\<lambda>(v, q). gives (make_pair env c v q) (\<lambda>(v, q). \<exists>h. q = p\<lparr>heap := h\<rparr>))" for a b c
    by (intro gives_mono [OF gives_make_pair]) auto
  have "\<exists>h. p = p\<lparr>heap := h\<rparr>" by (rule exI [of _ "heap p"]) simp
  then show ?thesis using gives_make_pair [of env EXIT_ATOM "exc_reason e" p] two by (simp add: catch_value_def split_def)
qed

text \<open>Raising: the innermost handler is taken, and the stack is cut to the depth it was installed at.\<close>

definition raised :: "('p, 'h) Proc \<Rightarrow> Exception \<Rightarrow> InstructionOutcome \<times> ('p, 'h) Proc \<Rightarrow> bool" where
  "raised p e r \<longleftrightarrow> (case r of (outcome, q) \<Rightarrow>
     keeps p q \<and> reduction_counter q = reduction_counter p \<and> current_exception q = Some e \<and>
     (if length (handlers p) \<le> nested_handler_floor p
      then outcome = Exit Error \<and> handlers q = handlers p \<and> stack q = stack p
      else outcome = Jump (catch_position (last (handlers p))) \<and> handlers q = butlast (handlers p) \<and>
        length (frames (stack q)) = min (length (frames (stack p))) (stack_depth (last (handlers p)))))"

lemma gives_raise: "gives (raise_exception env e p) (raised p e)"
proof (cases "length (handlers p) \<le> nested_handler_floor p")
  case True
  then show ?thesis
    by (simp add: raise_exception_def dispatch_captured_exception_def pop_exception_handler_in_nest_def capture_raw_stacktrace_def
        raised_def keeps_def)
next
  case False
  let ?h = "last (handlers p)" and ?c = "capture_raw_stacktrace p"
  let ?s = "stack_truncate (stack_depth ?h) (stack p)"
  define q where "q = (prune_native_continuations (stack_depth ?h)
    (?c\<lparr>handlers := butlast (handlers p), stack := ?s\<rparr>))\<lparr>current_exception := Some e\<rparr>"
  have q: "stack q = ?s" "handlers q = butlast (handlers p)" "nested_handler_floor q = nested_handler_floor p"
    "reduction_counter q = reduction_counter p" "current_exception q = Some e"
    by (simp_all add: q_def prune_native_continuations_def capture_raw_stacktrace_def)
  have s: "keeps_frames (stack p) ?s" "length (frames ?s) = min (length (frames (stack p))) (stack_depth ?h)"
    using keeps_frames_truncate by (simp_all add: stack_truncate_def)
  have after: "raised p e (Jump (catch_position ?h), r)" if r: "regs_only (q\<lparr>heap := h\<rparr>) r" for r h
  proof -
    have "keeps_frames (stack p) (stack r)"
      by (rule keeps_frames_trans [OF s(1)]) (use r in \<open>simp_all add: regs_only_def q s\<close>)
    then show ?thesis using r False by (simp add: raised_def keeps_def regs_only_def q s)
  qed
  have "gives (case h_kind ?h of TryHandler \<Rightarrow> write_register (h_destination ?h) (exc_reason e) q
      | CatchHandler \<Rightarrow> result_bind (catch_value env e q) (\<lambda>(caught, p). set_x_reg 0 caught p))
      (\<lambda>r. raised p e (Jump (catch_position ?h), r))"
  proof (cases "h_kind ?h")
    case TryHandler
    have "raised p e (Jump (catch_position ?h), r)" if "regs_only q r" for r
      using after [where h = "heap q" and r = r] that by simp
    then show ?thesis using TryHandler by (auto intro: gives_mono [OF gives_write_register])
  next
    case CatchHandler
    have "gives (set_x_reg 0 v r) (\<lambda>r. raised p e (Jump (catch_position ?h), r))" if "\<exists>h. r = q\<lparr>heap := h\<rparr>" for v r
      using that after by (auto intro: gives_mono [OF gives_set_x])
    then have "gives (catch_value env e q) (\<lambda>(v, r). gives (set_x_reg 0 v r) (\<lambda>r. raised p e (Jump (catch_position ?h), r)))"
      by (intro gives_mono [OF gives_catch_value]) auto
    then show ?thesis using CatchHandler by (simp add: split_def)
  qed
  moreover have "pop_exception_handler_in_nest ?c = Some (?h, ?c\<lparr>handlers := butlast (handlers p)\<rparr>)"
    using False by (simp add: pop_exception_handler_in_nest_def capture_raw_stacktrace_def)
  ultimately show ?thesis
    by (cases "h_kind ?h") (simp_all add: raise_exception_def dispatch_captured_exception_def Let_def q_def capture_raw_stacktrace_def)
qed

lemma plain_raised: "raised p e r \<Longrightarrow> plain p r"
  by (auto simp: raised_def plain_def split: if_splits)

lemma plain_raise: "gives (raise_exception env e p) (plain p)"
  by (rule gives_mono [OF gives_raise plain_raised])

lemma plain_heap [simp]: "plain (p\<lparr>heap := h\<rparr>) = plain p"
  by (simp add: plain_def keeps_def fun_eq_iff)

lemma plain_raise_with_value: "gives (raise_with_value env m r v p) (plain p)"
proof -
  have "gives (raise_exception env e q) (plain p)" if "\<exists>h. q = p\<lparr>heap := h\<rparr>" for q e
    using that plain_raise plain_heap by metis
  then have "gives (make_pair env a b p) (\<lambda>(r, q). gives (raise_exception env (error_exception r) q) (plain p))" for a b
    by (intro gives_mono [OF gives_make_pair]) auto
  then show ?thesis by (auto simp: raise_with_value_def split_def intro!: gives_reads)
qed

lemma plain_raise_ops: "gives (raw_raise env p) (plain p)" "gives (raise_op env m st r p) (plain p)"
  by (auto simp: raw_raise_def raise_op_def intro!: gives_reads plain_raise)

lemma plain_push_handler: "gives (push_handler kind m d l p) (plain p)"
  by (auto simp: push_handler_def push_exception_handler_def plain_def keeps_def intro!: gives_reads)

lemma plain_try_end: "gives (try_end s p) (plain p)"
  by (auto simp: try_end_def pop_exception_handler_def plain_def keeps_def intro!: gives_reads)

lemma plain_catch_end: "gives (catch_end s p) (plain p)"
proof -
  have "gives (on_stack (set_y_reg n v) q) (\<lambda>q. plain p (Continue, q))"
    if "stack q = stack p" "handlers q = handlers p \<or> handlers q = butlast (handlers p)" "nested_handler_floor q = nested_handler_floor p"
      "reduction_counter q = reduction_counter p" for n v q
    by (rule gives_mono [OF gives_set_y]) (use that in \<open>auto simp: regs_only_def plain_def keeps_def\<close>)
  then show ?thesis by (auto simp: catch_end_def Let_def pop_exception_handler_def intro!: gives_reads)
qed

lemma plain_try_case: "gives (try_case s p) (plain p)"
proof -
  have x: "gives (set_x_reg n v q) (regs_only p)" if "regs_only p q" for n v q
    by (rule gives_mono [OF gives_set_x]) (use that regs_only_trans in blast)
  have "plain p (Continue, q\<lparr>current_exception := None\<rparr>)" if "regs_only p q" for q
    using that by (simp add: plain_def keeps_def regs_only_def)
  then have "gives (set_x_reg n a q) (\<lambda>q. gives (set_x_reg k b q) (\<lambda>q. gives (set_x_reg l c q)
      (\<lambda>q. plain p (Continue, q\<lparr>current_exception := None\<rparr>))))" if "regs_only p q" for n a k b l c q
    using that by (intro gives_mono [OF x]) auto
  then show ?thesis
    by (auto simp: try_case_def plain_regs split: option.splits intro!: gives_mono [OF gives_write_term])
qed

lemma keeps_pushed:
  assumes "on_stack (push_frame md ip pin slots) p = Inr q"
  shows "keeps p q \<and> reduction_counter q = reduction_counter p"
  using assms keeps_frames_push [of md ip pin slots "stack p"]
  by (auto simp: on_stack_def keeps_def map_error_def result_bind_eq_Inr_conv split: sum.splits)

text \<open>A call charges one reduction, and yields when none is left.\<close>

definition charged :: "('p, 'h) Proc \<Rightarrow> InstructionOutcome \<times> ('p, 'h) Proc \<Rightarrow> bool" where
  "charged p r \<longleftrightarrow> (case r of (outcome, q) \<Rightarrow> keeps p q \<and> (outcome = Yield \<longleftrightarrow> reduction_counter q = 0) \<and>
     reduction_counter q = (if reduction_counter p = 0 then 0 else reduction_counter p - 1))"

lemma charged_jump: "keeps p q \<Longrightarrow> reduction_counter q = reduction_counter p \<Longrightarrow> gives (jump_with_reduction md ip q) (charged p)"
  by (auto simp: jump_with_reduction_def jump_position_with_reduction_def decrement_reductions_def Let_def charged_def keeps_def)

lemma charged_call: "gives (call m arity label ip save p) (charged p)"
proof -
  have "gives (on_stack (push_frame md ip pin slots) p) (\<lambda>q. gives (jump_with_reduction n t q) (charged p))" for md ip pin slots n t
  proof (rule gives_mono)
    show "gives (on_stack (push_frame md ip pin slots) p) (\<lambda>q. keeps p q \<and> reduction_counter q = reduction_counter p)"
      by (auto simp: gives_def dest: keeps_pushed)
  qed (auto intro: charged_jump)
  moreover have "gives (jump_with_reduction n t p) (charged p)" for n t by (rule charged_jump) (simp_all add: keeps_def)
  ultimately show ?thesis by (auto simp: call_def intro!: gives_reads)
qed

lemma charged_call_last: "gives (call_last m arity label ws p) (charged p)"
proof -
  have "gives (deallocate_frame ws p) (\<lambda>q. \<forall>n t. gives (jump_with_reduction n t q) (charged p))"
    by (rule gives_mono [OF gives_deallocate]) (auto intro: charged_jump)
  then have "gives (deallocate_frame ws p) (\<lambda>q. gives (run_label_ip m label) (\<lambda>t. gives (jump_with_reduction n t q) (charged p)))" for n
    by (rule gives_mono) (auto intro: gives_reads)
  then show ?thesis by (auto simp: call_last_def intro!: gives_reads)
qed

lemmas plain_instructions = plain_move plain_swap plain_init_yregs plain_return plain_push_y_frame plain_trim plain_raise
  plain_raise_with_value plain_raise_ops plain_push_handler plain_try_end plain_catch_end plain_try_case

lemma dispatch_effect:
  assumes d: "dispatch_common env m i ip p = Some r"
  shows "gives r (if local_call i = None then plain p else charged p)"
proof -
  have self: "plain p (Continue, p)" "plain p (OnLoadComplete, p)" "regs_only p p" by (simp_all add: plain_def keeps_def regs_only_def)
  have dealloc: "gives (deallocate ws p) (plain p)" for ws
    by (auto simp: deallocate_def plain_def intro: gives_mono [OF gives_deallocate])
  have jump: "gives (jump_label m l p) (plain p)" for l by (auto simp: jump_label_def plain_def keeps_def intro!: gives_reads)
  have init: "gives (case registers of OpList ops \<Rightarrow> init_yregs ops p | _ \<Rightarrow> Inl x) (plain p)" for registers x
    using plain_init_yregs [OF self(3)] by (cases registers) auto
  have "\<not> native_continuation_ready p" using d by (auto simp: dispatch_common_def)
  then show ?thesis using d
    by (cases i) (auto simp: dispatch_common_def local_call_def func_info_def if_end_def try_case_end_def badmatch_def case_end_def
        self dealloc jump init charged_call charged_call_last plain_instructions)
qed

definition at_call :: "'p Module \<Rightarrow> (u32 \<Rightarrow> 'p Module option) \<Rightarrow> ('p, 'h) Proc \<Rightarrow> bool" where
  "at_call initial lookup p = (case code_position p of None \<Rightarrow> False | Some pos \<Rightarrow>
     (case current_module_for_position p pos initial lookup of
        Inl _ \<Rightarrow> False
      | Inr (m, _) \<Rightarrow> (case vec_get (m_code m) (pos_ip pos) of None \<Rightarrow> False | Some i \<Rightarrow> local_call i \<noteq> None)))"

lemma run_step_effect:
  assumes step: "run_step env initial lookup p = Some (Inr (result, q))"
  shows "keeps p q" "\<not> at_call initial lookup p \<Longrightarrow> result \<noteq> Some RunYielded \<and> reduction_counter q = reduction_counter p"
    "at_call initial lookup p \<Longrightarrow> reduction_counter q = (if reduction_counter p = 0 then 0 else reduction_counter p - 1) \<and>
       (result = Some RunYielded \<longleftrightarrow> reduction_counter q = 0)"
proof -
  obtain pos m p1 i where here: "code_position p = Some pos" "current_module_for_position p pos initial lookup = Inr (m, p1)"
    "vec_get (m_code m) (pos_ip pos) = Some i" "\<not> 2 ^ 64 \<le> pos_ip pos + 1"
    using step by (auto simp: run_step_def simp del: vec_get_None_iff split: option.splits sum.splits if_splits)
  have p1: "stack p1 = stack p" "handlers p1 = handlers p" "nested_handler_floor p1 = nested_handler_floor p" "reduction_counter p1 = reduction_counter p"
    using here(2) by (auto simp: current_module_for_position_def Let_def split: option.splits if_splits)
  obtain outcome q1 where d: "dispatch_common env m i (pos_ip pos + 1) p1 = Some (Inr (outcome, q1))"
    using step here by (auto simp: run_step_def split: option.splits sum.splits)
  have q: "stack q = stack q1" "handlers q = handlers q1" "nested_handler_floor q = nested_handler_floor q1"
    "reduction_counter q = reduction_counter q1" "result = Some RunYielded \<longleftrightarrow> outcome = Yield"
    using step here d by (auto simp: run_step_def split: InstructionOutcome.splits)
  have e: "(if local_call i = None then plain p1 else charged p1) (outcome, q1)" using dispatch_effect [OF d] by simp
  have call: "at_call initial lookup p \<longleftrightarrow> local_call i \<noteq> None" using here by (simp add: at_call_def)
  show "keeps p q" using e p1 q by (auto simp: plain_def charged_def keeps_def split: if_splits)
  show "result \<noteq> Some RunYielded \<and> reduction_counter q = reduction_counter p" if "\<not> at_call initial lookup p"
  proof -
    have "local_call i = None" using that call by blast
    then show ?thesis using e p1 q by (simp add: plain_def)
  qed
  show "reduction_counter q = (if reduction_counter p = 0 then 0 else reduction_counter p - 1) \<and>
       (result = Some RunYielded \<longleftrightarrow> reduction_counter q = 0)" if "at_call initial lookup p"
  proof -
    have "local_call i \<noteq> None" using that call by blast
    then have "charged p1 (outcome, q1)" using e by (cases "local_call i") auto
    then show ?thesis using p1 q by (simp add: charged_def)
  qed
qed

section \<open>Loaded code does not panic\<close>

definition proc_new :: "'h \<Rightarrow> u32 \<Rightarrow> ('p, 'h) Proc" where
  "proc_new h reductions = \<lparr>x_regs = replicate X_REG_COUNT NIL, stack = stack_new, handlers = [], nested_handler_floor = 0,
     current_exception = None, raw_stacktrace = [], code_position = None, current_module = None, reduction_counter = reductions,
     native_continuations = [], heap = h\<rparr>"

lemma proc_new_ok: "run_ok (proc_new h n)"
  using stack_new_ok by (simp add: proc_new_def run_ok_def stack_new_def frames_safe_def with_frame_limit_def)

lemma run_next_ok:
  assumes "run_next env initial lookup p q" "env_ok env" "run_ok p" "module_safe initial" "\<forall>n m. lookup n = Some m \<longrightarrow> module_safe m"
  shows "run_ok q"
proof -
  note safe = safe_run_step [OF assms(2-5)]
  from assms(1) show ?thesis
  proof cases
    case go_round
    then show ?thesis using safe [OF go_round] by simp
  next
    case (next_slice r allowance)
    then show ?thesis using safe [OF next_slice(2)] by simp
  qed
qed

text \<open>
  C1. When the initial module and every module of the registry are safe, as loading makes them,
  then however long the process runs, yielding and calling across modules, no instruction of the
  model indexes the X registers out of range; and the stack stays within its limit with every
  frame as large as it says.
\<close>

theorem loaded_code_never_panics:
  assumes "env_ok env" "module_safe initial" "\<forall>n m. lookup n = Some m \<longrightarrow> module_safe m"
    and "(run_next env initial lookup)\<^sup>*\<^sup>* (run_start initial (proc_new h reductions)) p"
  shows "run_step env initial lookup p \<noteq> Some (Inl Panicked) \<and> stack_ok (stack p) \<and> length (x_regs p) = X_REG_COUNT"
proof -
  have "run_ok p" using assms(4)
  proof (induction rule: rtranclp_induct)
    case base
    show ?case by (simp add: run_start_def proc_new_ok)
  next
    case (step q r)
    then show ?case using run_next_ok [OF _ assms(1) _ assms(2,3)] by blast
  qed
  moreover have "safe r (\<lambda>(result, q). run_ok q)" if "run_step env initial lookup p = Some r" for r
    by (rule safe_run_step [OF assms(1) calculation assms(2,3) that])
  ultimately show ?thesis by (auto simp: run_ok_def)
qed

section \<open>Calls return to their caller\<close>

text \<open>A run in which the stack keeps at least \<open>d\<close> frames and there stay more than \<open>k\<close> handlers.\<close>

definition run_above where
  "run_above env initial lookup d k p q \<longleftrightarrow> run_next env initial lookup p q \<and> d \<le> length (frames (stack q)) \<and> k \<le> length (handlers q)"

lemma run_next_keeps: "run_next env initial lookup p q \<Longrightarrow> keeps p q"
  by (cases rule: run_next.cases) (auto dest: run_step_effect(1) simp: keeps_def)

lemma keeps_frames_at:
  assumes "keeps_frames s t" "j < length (frames s)" "j < length (frames t)"
  shows "same_point (frames s ! j) (frames t ! j)"
  using assms by (simp add: keeps_frames_def)

lemma run_above_keeps:
  assumes "(run_above env initial lookup d k)\<^sup>*\<^sup>* p q" "d \<le> length (frames (stack p))" "k \<le> length (handlers p)"
  shows "d \<le> length (frames (stack q)) \<and> k \<le> length (handlers q) \<and> nested_handler_floor q = nested_handler_floor p \<and>
    frame_limit (stack q) = frame_limit (stack p) \<and>
    (\<forall>j. Suc j < d \<longrightarrow> frames (stack q) ! j = frames (stack p) ! j) \<and>
    (\<forall>j < d. same_point (frames (stack p) ! j) (frames (stack q) ! j)) \<and> (\<forall>j < k. handlers q ! j = handlers p ! j)"
  using assms(1)
proof (induction rule: rtranclp_induct)
  case base
  then show ?case using assms(2,3) by (simp add: same_point_def)
next
  case (step q r)
  have "keeps q r" "d \<le> length (frames (stack r))" "k \<le> length (handlers r)"
    using step.hyps(2) run_next_keeps by (auto simp: run_above_def)
  then show ?case using step.IH by (auto simp: keeps_def keeps_frames_def keeps_handlers_def same_point_def)
qed

text \<open>
  C6. After a call, whatever the callee does as long as it does not pop the frame of the call,
  a return made when that frame is the current one again resumes the caller right after the call,
  in the module version the caller ran, with the caller's frames exactly as they were.
\<close>

theorem call_returns_to_caller:
  assumes call: "call m arity label ip True p = Inr (outcome, p1)"
    and run: "(run_above env initial lookup (Suc (length (frames (stack p)))) 0)\<^sup>*\<^sup>* p1 q"
    and back_at: "length (frames (stack q)) = Suc (length (frames (stack p)))"
  shows "\<exists>q'. return_op q = Inr (Jump \<lparr>pos_module = m_name m, pos_ip = ip\<rparr>, q') \<and>
    frames (stack q') = frames (stack p) \<and> current_module q' = Some (current_module_pin p m)"
proof -
  let ?n = "length (frames (stack p))"
  let ?f = "frame_new (m_name m) ip (current_module_pin p m) 0"
  have p1: "frames (stack p1) = frames (stack p) @ [?f]"
    using call by (auto simp: call_def result_bind_eq_Inr_conv on_stack_def map_error_def push_frame_def jump_with_reduction_def
        jump_position_with_reduction_def decrement_reductions_def Let_def split: sum.splits if_splits)
  have q: "\<forall>j. Suc j < Suc ?n \<longrightarrow> frames (stack q) ! j = frames (stack p1) ! j"
    "\<forall>j < Suc ?n. same_point (frames (stack p1) ! j) (frames (stack q) ! j)"
    using run_above_keeps [OF run] p1 by simp_all
  have ne: "frames (stack q) \<noteq> []" using back_at by auto
  have top: "same_point ?f (last (frames (stack q)))" using q(2) p1 back_at ne by (force simp: last_conv_nth)
  have "butlast (frames (stack q)) = frames (stack p)"
    using q(1) p1 back_at by (auto simp: list_eq_iff_nth_eq nth_butlast nth_append)
  then show ?thesis using ne top
    by (auto simp: return_op_def stack_is_empty_def pop_frame_def Let_def map_error_def same_point_def frame_new_def)
qed

section \<open>Exceptions unwind to the innermost handler\<close>

text \<open>
  C4. After a \<open>try\<close> or \<open>catch\<close>, whatever runs while its frames stay and its handler is in place,
  however deep the calls and however many exceptions are handled further in: when an exception is
  raised and no inner handler is left, control goes to the label of the \<open>try\<close>, the handlers are
  those from before it, the stack has as many frames as then, each with the return point it had,
  and the frames under the current one are unchanged.
\<close>

theorem exception_restores_stack:
  assumes tr: "push_handler kind m destination label p = Inr (outcome, p1)" and fl: "nested_handler_floor p \<le> length (handlers p)"
    and run: "(run_above env initial lookup (length (frames (stack p))) (Suc (length (handlers p))))\<^sup>*\<^sup>* p1 q"
    and inner: "length (handlers q) = Suc (length (handlers p))" and raise: "raise_exception env e q = Inr (outcome', q')"
  shows "(\<exists>ip. run_label_ip m label = Inr ip \<and> outcome' = Jump \<lparr>pos_module = m_name m, pos_ip = ip\<rparr>) \<and>
    handlers q' = handlers p \<and> current_exception q' = Some e \<and> length (frames (stack q')) = length (frames (stack p)) \<and>
    (\<forall>j < length (frames (stack p)). same_point (frames (stack p) ! j) (frames (stack q') ! j)) \<and>
    (\<forall>j. Suc j < length (frames (stack p)) \<longrightarrow> frames (stack q') ! j = frames (stack p) ! j)"
proof -
  let ?n = "length (frames (stack p))"
  obtain h ip where h: "handlers p1 = handlers p @ [h]" "stack_depth h = ?n" "catch_position h = \<lparr>pos_module = m_name m, pos_ip = ip\<rparr>"
    "run_label_ip m label = Inr ip" "stack p1 = stack p" "nested_handler_floor p1 = nested_handler_floor p"
    using tr by (auto simp: push_handler_def push_exception_handler_def result_bind_eq_Inr_conv stack_len_def)
  have k: "?n \<le> length (frames (stack q))" "nested_handler_floor q = nested_handler_floor p"
    "\<And>j. Suc j < ?n \<Longrightarrow> frames (stack q) ! j = frames (stack p) ! j"
    "\<And>j. j < ?n \<Longrightarrow> same_point (frames (stack p) ! j) (frames (stack q) ! j)"
    "\<And>j. j < Suc (length (handlers p)) \<Longrightarrow> handlers q ! j = handlers p1 ! j"
    using run_above_keeps [OF run] h by simp_all
  have hq: "handlers q = handlers p @ [h]" using k(5) inner h(1) by (simp add: list_eq_iff_nth_eq)
  have r: "raised q e (outcome', q')" using gives_raise [of env e q] raise by (simp add: gives_def)
  have kq: "keeps_frames (stack q) (stack q')" using r by (simp add: raised_def keeps_def)
  have out: "outcome' = Jump (catch_position h)" "handlers q' = handlers p" "current_exception q' = Some e" "length (frames (stack q')) = ?n"
    using r k(1,2) fl h(2) by (simp_all add: raised_def hq)
  have "same_point (frames (stack p) ! j) (frames (stack q') ! j)" if "j < ?n" for j
    using k(4) [OF that] kq k(1) out(4) that unfolding keeps_frames_def same_point_def by auto
  moreover have "frames (stack q') ! j = frames (stack p) ! j" if "Suc j < ?n" for j
    using k(3) [OF that] kq k(1) out(4) that unfolding keeps_frames_def by auto
  ultimately show ?thesis using out h(3,4) by auto
qed

section \<open>A slice makes a bounded number of calls\<close>

inductive slice :: "('p, 'h) Env \<Rightarrow> 'p Module \<Rightarrow> (u32 \<Rightarrow> 'p Module option) \<Rightarrow> nat \<Rightarrow> ('p, 'h) Proc \<Rightarrow> ('p, 'h) Proc \<Rightarrow> bool"
  for env initial lookup where
  slice_start: "slice env initial lookup 0 p p"
| slice_round: "slice env initial lookup n p q \<Longrightarrow> run_step env initial lookup q = Some (Inr (None, r)) \<Longrightarrow>
     slice env initial lookup (if at_call initial lookup q then Suc n else n) p r"

text \<open>
  C20. A process that starts a slice with a positive number of reductions makes fewer local calls
  than that before it yields, each charged one reduction, and the call made with the last
  reduction yields.
\<close>

theorem calls_per_slice_bounded:
  assumes "slice env initial lookup n p q" "0 < reduction_counter p"
  shows "unat (reduction_counter q) + n = unat (reduction_counter p) \<and> 0 < reduction_counter q \<and>
    (at_call initial lookup q \<longrightarrow> reduction_counter q = 1 \<longrightarrow> run_step env initial lookup q = Some (Inr (result, r)) \<longrightarrow> result = Some RunYielded)"
proof -
  have "unat (reduction_counter q) + n = unat (reduction_counter p) \<and> 0 < reduction_counter q" using assms
  proof (induction rule: slice.induct)
    case (slice_round n p q r)
    note eff = run_step_effect [OF slice_round(2)]
    have ih: "unat (reduction_counter q) + n = unat (reduction_counter p)" "reduction_counter q \<noteq> 0" using slice_round by auto
    show ?case
    proof (cases "at_call initial lookup q")
      case True
      have r1: "reduction_counter r = reduction_counter q - 1" "reduction_counter r \<noteq> 0" using eff(3) [OF True] ih(2) by auto
      have "unat (reduction_counter r) = unat (reduction_counter q) - 1" "0 < unat (reduction_counter q)"
        using ih(2) by (simp_all add: r1(1) unat_minus_one unat_gt_0)
      moreover have "0 < reduction_counter r" using r1(2) by (simp only: word_neq_0_conv)
      ultimately show ?thesis using True ih(1) by simp
    next
      case False
      then show ?thesis using eff(2) ih by (simp add: word_neq_0_conv)
    qed
  qed simp
  moreover have "result = Some RunYielded" if "at_call initial lookup q" "reduction_counter q = 1" "run_step env initial lookup q = Some (Inr (result, r))"
    using run_step_effect(3) [OF that(3,1)] that(2) by simp
  ultimately show ?thesis by blast
qed

section \<open>The theorems applied\<close>

text \<open>A module with a function that calls another one, and that one, which returns.\<close>

definition demo_module :: "unit Module" where
  "demo_module = \<lparr>m_name = 1, m_generation = 0, m_origin = Preloaded, m_exports = Map.empty, m_label_index = [1 \<mapsto> 0, 2 \<mapsto> 3],
     m_code = [I_Label 1, I_Call (OpUnsigned 0) (OpLabel 2), I_Return, I_Label 2, I_Return], m_function_table = [], m_line_table = [],
     m_literals = [], m_constant_pool = (), m_resolved_imports = [], m_lambdas = [], m_string_table = [], m_line_info = []\<rparr>"

definition demo_env :: "(unit, unit) Env" where
  "demo_env = \<lparr>pool_get = \<lambda>_ _. None, two_tuple = \<lambda>a b h. Inr (NIL, h)\<rparr>"

lemma demo_env_ok: "env_ok demo_env"
  by (simp add: env_ok_def demo_env_def)

lemma demo_module_safe: "module_safe demo_module"
proof -
  have "resolves demo_module (OpLabel 2)" "resolves demo_module (OpLabel 1)"
    by (auto simp: resolves_def names_label_def demo_module_def label_ip_def intro: exI [of _ 3] exI [of _ 0])
  then have "instruction_safe demo_module frame i" if "i \<in> set (m_code demo_module)" for frame i
    using that by (auto simp: demo_module_def instruction_safe_def local_call_def external_call_def branch_target_def)
  then show ?thesis by (simp add: module_safe_def) (simp add: demo_module_def)
qed

abbreviation demo_process :: "(unit, unit) Proc" where
  "demo_process \<equiv> run_start demo_module (proc_new () 10)"

lemmas demo_defs = run_start_def proc_new_def demo_module_def stack_new_def with_frame_limit_def DEFAULT_STACK_FRAME_LIMIT_def

lemma demo_first_round:
  "run_step demo_env demo_module Map.empty demo_process = Some (Inr (None, demo_process
     \<lparr>code_position := Some \<lparr>pos_module = 1, pos_ip = 1\<rparr>, current_module := Some demo_module\<rparr>))"
  by (simp add: run_step_def current_module_for_position_def dispatch_common_def native_continuation_ready_def vec_get_def demo_defs)

theorem loaded_code_never_panics_witness:
  "\<exists>p. (run_next demo_env demo_module Map.empty)\<^sup>*\<^sup>* demo_process p \<and> code_position p = Some \<lparr>pos_module = 1, pos_ip = 1\<rparr> \<and>
     run_step demo_env demo_module Map.empty p \<noteq> Some (Inl Panicked) \<and> stack_ok (stack p)"
proof -
  let ?p = "demo_process\<lparr>code_position := Some \<lparr>pos_module = 1, pos_ip = 1\<rparr>, current_module := Some demo_module\<rparr>"
  have run: "(run_next demo_env demo_module Map.empty)\<^sup>*\<^sup>* demo_process ?p"
    by (rule r_into_rtranclp, rule go_round, rule demo_first_round)
  show ?thesis
    using run loaded_code_never_panics [OF demo_env_ok demo_module_safe, of Map.empty "()" 10 ?p] by (intro exI [of _ ?p]) simp
qed

lemma demo_call:
  obtains p1 where "call demo_module (OpUnsigned 0) (OpLabel 2) 2 True demo_process = Inr (Jump \<lparr>pos_module = 1, pos_ip = 3\<rparr>, p1)"
    "length (frames (stack p1)) = 1"
  by (simp add: call_def op_u8_def op_usize_def run_label_ip_def op_label_def label_ip_def map_error_def on_stack_def push_frame_def
      jump_with_reduction_def jump_position_with_reduction_def decrement_reductions_def Let_def demo_defs)

theorem call_returns_to_caller_witness:
  "\<exists>p1 q'. call demo_module (OpUnsigned 0) (OpLabel 2) 2 True demo_process = Inr (Jump \<lparr>pos_module = 1, pos_ip = 3\<rparr>, p1) \<and>
     return_op p1 = Inr (Jump \<lparr>pos_module = 1, pos_ip = 2\<rparr>, q') \<and> frames (stack q') = []"
proof -
  obtain p1 where c: "call demo_module (OpUnsigned 0) (OpLabel 2) 2 True demo_process = Inr (Jump \<lparr>pos_module = 1, pos_ip = 3\<rparr>, p1)"
    "length (frames (stack p1)) = 1" by (rule demo_call)
  have "frames (stack demo_process) = []" "m_name demo_module = 1" by (simp_all add: demo_defs)
  then show ?thesis
    using c call_returns_to_caller [OF c(1), of demo_env demo_module Map.empty p1] by auto
qed

lemma demo_try:
  obtains p1 where "push_handler TryHandler demo_module (OpX 0) (OpLabel 2) demo_process = Inr (Continue, p1)" "length (handlers p1) = 1"
    "stack p1 = stack demo_process" "x_regs p1 = replicate 1024 NIL" "nested_handler_floor p1 = 0"
    "handlers p1 = [\<lparr>h_kind = TryHandler, stack_depth = 0, catch_position = \<lparr>pos_module = 1, pos_ip = 3\<rparr>, h_destination = RegX 0\<rparr>]"
  by (simp add: push_handler_def u16_from_u32_def run_label_ip_def op_label_def label_ip_def map_error_def push_exception_handler_def
      stack_len_def X_REG_COUNT_def demo_defs)

theorem exception_restores_stack_witness:
  "\<exists>p1 q'. push_handler TryHandler demo_module (OpX 0) (OpLabel 2) demo_process = Inr (Continue, p1) \<and>
     if_end demo_env p1 = Inr (Jump \<lparr>pos_module = 1, pos_ip = 3\<rparr>, q') \<and> handlers q' = [] \<and>
     current_exception q' = Some (error_exception (atom_term 14))"
proof -
  obtain p1 where t: "push_handler TryHandler demo_module (OpX 0) (OpLabel 2) demo_process = Inr (Continue, p1)" "length (handlers p1) = 1"
    "stack p1 = stack demo_process" "x_regs p1 = replicate 1024 NIL" "nested_handler_floor p1 = 0"
    "handlers p1 = [\<lparr>h_kind = TryHandler, stack_depth = 0, catch_position = \<lparr>pos_module = 1, pos_ip = 3\<rparr>, h_destination = RegX 0\<rparr>]"
    by (rule demo_try)
  have none: "handlers demo_process = []" "nested_handler_floor demo_process = 0" by (simp_all add: demo_defs)
  obtain outcome q' where r: "raise_exception demo_env (error_exception (atom_term 14)) p1 = Inr (outcome, q')"
    using t by (auto simp: raise_exception_def dispatch_captured_exception_def pop_exception_handler_in_nest_def capture_raw_stacktrace_def
        prune_native_continuations_def write_register_def set_x_reg_def Let_def)
  have "run_label_ip demo_module (OpLabel 2) = Inr 3" "m_name demo_module = 1"
    by (simp_all add: run_label_ip_def op_label_def label_ip_def map_error_def demo_module_def)
  then show ?thesis
    using t(1,2) none r exception_restores_stack [OF t(1), of demo_env demo_module Map.empty p1, OF _ _ _ r] by (auto simp: if_end_def)
qed

theorem calls_per_slice_bounded_witness:
  "slice demo_env demo_module Map.empty 0 demo_process demo_process \<and> reduction_counter demo_process = 10 \<and>
   unat (reduction_counter demo_process) + 0 = 10 \<and>
   (\<exists>q. slice demo_env demo_module Map.empty 0 demo_process q \<and> at_call demo_module Map.empty q \<and> 0 < reduction_counter q)"
proof -
  let ?q = "demo_process\<lparr>code_position := Some \<lparr>pos_module = 1, pos_ip = 1\<rparr>, current_module := Some demo_module\<rparr>"
  have no: "\<not> at_call demo_module Map.empty demo_process"
    by (simp add: at_call_def current_module_for_position_def vec_get_def local_call_def demo_defs)
  have s: "slice demo_env demo_module Map.empty 0 demo_process ?q"
    using slice_round [OF slice_start demo_first_round] no by simp
  have red: "reduction_counter demo_process = 10" by (simp add: demo_defs)
  have "at_call demo_module Map.empty ?q"
    by (simp add: at_call_def current_module_for_position_def vec_get_def local_call_def demo_defs)
  moreover have "0 < reduction_counter ?q"
    using calls_per_slice_bounded [OF s, of None ?q] red by (simp add: word_gt_0)
  ultimately show ?thesis using slice_start s red by auto
qed

end
