(* ===== verification/Atom_Cache.thy ===== *)
theory Atom_Cache
  imports Chunk_Cursor
begin

text \<open>
  The per-connection atom cache of distribution messages
  (\<^verbatim>\<open>crates/beamr/src/distribution/atom_cache.rs\<close>): 256 slots with the reverse map and the recency
  queue, the references of a payload, and the header that announces new entries. The sender and the
  receiver have a cache and an atom table each; the theorems relate the two sides slot by slot.

  A decoding error leaves the cache and the table as they were when it was raised. A cache index is
  a byte and the slots are an array of 256, so every slot access is in range.
\<close>

section \<open>The cache\<close>

definition ATOM_CACHE_SIZE :: nat where "ATOM_CACHE_SIZE = 256"
definition ATOM_CACHE_REF :: u8 where "ATOM_CACHE_REF = 0x52"
definition NEW_ATOM_CACHE_REF :: u8 where "NEW_ATOM_CACHE_REF = 0x4e"

record AtomCache =
  slots :: "u32 option list"
  by_atom :: "u32 \<rightharpoonup> u8"
  lru :: "u8 list"

definition cache_new :: AtomCache where
  "cache_new = \<lparr>slots = replicate ATOM_CACHE_SIZE None, by_atom = Map.empty, lru = []\<rparr>"

definition remove_from_lru :: "u8 \<Rightarrow> AtomCache \<Rightarrow> AtomCache" where
  "remove_from_lru index c = c\<lparr>lru := filter (\<lambda>candidate. candidate \<noteq> index) (lru c)\<rparr>"

definition touch :: "u8 \<Rightarrow> AtomCache \<Rightarrow> AtomCache" where
  "touch index c = (let c = remove_from_lru index c in c\<lparr>lru := lru c @ [index]\<rparr>)"

definition clear_slot :: "u8 \<Rightarrow> AtomCache \<Rightarrow> AtomCache" where
  "clear_slot index c =
     remove_from_lru index
       (case slots c ! unat index of
          None \<Rightarrow> c
        | Some old_atom \<Rightarrow> c\<lparr>slots := (slots c)[unat index := None], by_atom := (by_atom c)(old_atom := None)\<rparr>)"

definition replace_slot :: "u8 \<Rightarrow> u32 \<Rightarrow> AtomCache \<Rightarrow> AtomCache" where
  "replace_slot index atom c =
     (let c = clear_slot index c
      in touch index (c\<lparr>slots := (slots c)[unat index := Some atom], by_atom := (by_atom c)(atom \<mapsto> index)\<rparr>))"

definition free_index :: "AtomCache \<Rightarrow> u8 option" where
  "free_index c = (case position (\<lambda>slot. slot = None) (slots c) of
     None \<Rightarrow> None
   | Some index \<Rightarrow> if index < 256 then Some (of_nat index) else None)"

text \<open>The loop pops the queue; the queue it leaves is the one \<open>clear_slot\<close> then works on.\<close>

fun evict_lru_loop :: "u8 list \<Rightarrow> AtomCache \<Rightarrow> u8 \<times> AtomCache" where
  "evict_lru_loop [] c = (0, clear_slot 0 (c\<lparr>lru := []\<rparr>))"
| "evict_lru_loop (index # queue) c =
     (if slots c ! unat index \<noteq> None then (index, clear_slot index (c\<lparr>lru := queue\<rparr>))
      else evict_lru_loop queue c)"

definition evict_lru :: "AtomCache \<Rightarrow> u8 \<times> AtomCache" where
  "evict_lru c = evict_lru_loop (lru c) c"

definition cache_insert :: "u32 \<Rightarrow> AtomCache \<Rightarrow> u8 \<times> AtomCache" where
  "cache_insert atom c =
     (case by_atom c atom of
        Some index \<Rightarrow> (index, touch index c)
      | None \<Rightarrow>
          (case (case free_index c of Some index \<Rightarrow> (index, c) | None \<Rightarrow> evict_lru c) of
             (index, c) \<Rightarrow> (index, replace_slot index atom c)))"

definition insert_at :: "u8 \<Rightarrow> u32 \<Rightarrow> AtomCache \<Rightarrow> AtomCache" where
  "insert_at index atom c =
     replace_slot index atom (case by_atom c atom of Some existing_index \<Rightarrow> clear_slot existing_index c | None \<Rightarrow> c)"

definition lookup_by_index :: "u8 \<Rightarrow> AtomCache \<Rightarrow> u32 option \<times> AtomCache" where
  "lookup_by_index index c =
     (case slots c ! unat index of None \<Rightarrow> (None, c) | Some atom \<Rightarrow> (Some atom, touch index c))"

definition lookup_by_atom :: "u32 \<Rightarrow> AtomCache \<Rightarrow> u8 option \<times> AtomCache" where
  "lookup_by_atom atom c = (case by_atom c atom of None \<Rightarrow> (None, c) | Some index \<Rightarrow> (Some index, touch index c))"

section \<open>Headers and references\<close>

record AtomCacheHeaderEntry =
  entry_index :: u8
  entry_name :: "u8 list"

type_synonym AtomCacheHeader = "AtomCacheHeaderEntry list"

datatype AtomCacheEncodeError = AtomResolveFailed | TooManyHeaderEntries | AtomNameTooLong

datatype AtomCacheDecodeError =
    CacheTruncated
  | UnsupportedHeaderTag u8
  | MissingCacheIndex u8
  | CacheInvalidUtf8
  | CacheTrailingBytes
  | UnsupportedPayloadTag u8

definition can_encode_another_entry :: "AtomCacheHeader \<Rightarrow> bool" where
  "can_encode_another_entry header \<longleftrightarrow> length header < 255"

definition encode_atom_reference ::
  "u32 \<Rightarrow> AtomTable \<Rightarrow> AtomCache \<times> AtomCacheHeader \<times> u8 list \<Rightarrow>
   (AtomCacheEncodeError + u8) \<times> AtomCache \<times> AtomCacheHeader \<times> u8 list" where
  "encode_atom_reference atom t s = (case s of (c, header, out) \<Rightarrow>
     (case lookup_by_atom atom c of
        (Some index, c) \<Rightarrow> (Inr index, c, header, out @ [ATOM_CACHE_REF, index])
      | (None, c) \<Rightarrow>
          if \<not> can_encode_another_entry header then (Inl TooManyHeaderEntries, c, header, out)
          else (case atom_resolve atom t of
              None \<Rightarrow> (Inl AtomResolveFailed, c, header, out)
            | Some name \<Rightarrow>
                if length name > 65535 then (Inl AtomNameTooLong, c, header, out)
                else (case cache_insert atom c of (index, c) \<Rightarrow>
                    (Inr index, c, header @ [\<lparr>entry_index = index, entry_name = name\<rparr>], out @ [ATOM_CACHE_REF, index])))))"

definition name_len_to_be :: "nat \<Rightarrow> u8 list" where
  "name_len_to_be n = [of_nat (n div 256), of_nat (n mod 256)]"

fun encode_entries :: "AtomCacheHeader \<Rightarrow> AtomCacheEncodeError + u8 list" where
  "encode_entries [] = Inr []"
| "encode_entries (entry # entries) =
     (if length (entry_name entry) > 65535 then Inl AtomNameTooLong
      else result_bind (encode_entries entries) (\<lambda>later.
        Inr (NEW_ATOM_CACHE_REF # entry_index entry # name_len_to_be (length (entry_name entry)) @ entry_name entry @ later)))"

definition encode_header :: "AtomCacheHeader \<Rightarrow> AtomCacheEncodeError + u8 list" where
  "encode_header header =
     (if length header > 255 then Inl TooManyHeaderEntries
      else result_bind (encode_entries header) (\<lambda>body. Inr (of_nat (length header) # body)))"

record CacheCursor =
  cc_bytes :: "u8 list"
  cc_offset :: nat

definition cc_read_u8 :: "CacheCursor \<Rightarrow> AtomCacheDecodeError + u8 \<times> CacheCursor" where
  "cc_read_u8 k = (case vec_get (cc_bytes k) (cc_offset k) of
     None \<Rightarrow> Inl CacheTruncated
   | Some byte \<Rightarrow> Inr (byte, k\<lparr>cc_offset := cc_offset k + 1\<rparr>))"

definition cc_read_u16 :: "CacheCursor \<Rightarrow> AtomCacheDecodeError + nat \<times> CacheCursor" where
  "cc_read_u16 k = result_bind (cc_read_u8 k) (\<lambda>(high, k).
     result_bind (cc_read_u8 k) (\<lambda>(low, k). Inr (unat high * 256 + unat low, k)))"

definition cc_read_bytes :: "nat \<Rightarrow> CacheCursor \<Rightarrow> AtomCacheDecodeError + u8 list \<times> CacheCursor" where
  "cc_read_bytes len k =
     (let finish = cc_offset k + len
      in if 2 ^ 64 \<le> finish \<or> length (cc_bytes k) < finish then Inl CacheTruncated
         else Inr (take len (drop (cc_offset k) (cc_bytes k)), k\<lparr>cc_offset := finish\<rparr>))"

definition cc_has_remaining :: "CacheCursor \<Rightarrow> bool" where
  "cc_has_remaining k \<longleftrightarrow> cc_offset k < length (cc_bytes k)"

text \<open>The record of one entry up to its name, before the cache is touched.\<close>

definition read_entry :: "CacheCursor \<Rightarrow> AtomCacheDecodeError + AtomCacheHeaderEntry \<times> CacheCursor" where
  "read_entry k = result_bind (cc_read_u8 k) (\<lambda>(tg, k).
     if tg \<noteq> NEW_ATOM_CACHE_REF then Inl (UnsupportedHeaderTag tg)
     else result_bind (cc_read_u8 k) (\<lambda>(index, k).
       result_bind (cc_read_u16 k) (\<lambda>(name_len, k).
         result_bind (cc_read_bytes name_len k) (\<lambda>(name_bytes, k).
           if \<not> utf8_valid name_bytes then Inl CacheInvalidUtf8
           else Inr (\<lparr>entry_index = index, entry_name = name_bytes\<rparr>, k)))))"

definition install_entry :: "AtomCacheHeaderEntry \<Rightarrow> AtomCache \<times> AtomTable \<Rightarrow> AtomCache \<times> AtomTable" where
  "install_entry entry s = (case s of (c, t) \<Rightarrow>
     (case intern (entry_name entry) t of (atom, t) \<Rightarrow> (insert_at (entry_index entry) atom c, t)))"

fun decode_entries ::
  "nat \<Rightarrow> CacheCursor \<Rightarrow> AtomCacheHeader \<Rightarrow> AtomCache \<times> AtomTable \<Rightarrow>
   (AtomCacheDecodeError + AtomCacheHeader \<times> CacheCursor) \<times> AtomCache \<times> AtomTable" where
  "decode_entries 0 k header s = (Inr (header, k), s)"
| "decode_entries (Suc n) k header s =
     (case read_entry k of
        Inl e \<Rightarrow> (Inl e, s)
      | Inr (entry, k) \<Rightarrow> decode_entries n k (header @ [entry]) (install_entry entry s))"

definition decode_header ::
  "u8 list \<Rightarrow> AtomCache \<times> AtomTable \<Rightarrow> (AtomCacheDecodeError + AtomCacheHeader) \<times> AtomCache \<times> AtomTable" where
  "decode_header bytes s =
     (case cc_read_u8 \<lparr>cc_bytes = bytes, cc_offset = 0\<rparr> of
        Inl e \<Rightarrow> (Inl e, s)
      | Inr (entry_count, k) \<Rightarrow>
          (case decode_entries (unat entry_count) k [] s of
             (Inl e, s) \<Rightarrow> (Inl e, s)
           | (Inr (header, k), s) \<Rightarrow> (if cc_has_remaining k then Inl CacheTrailingBytes else Inr header, s)))"

definition decode_atom_reference :: "u8 list \<Rightarrow> AtomCache \<Rightarrow> (AtomCacheDecodeError + u64) \<times> AtomCache" where
  "decode_atom_reference bytes c =
     (case result_bind (cc_read_u8 \<lparr>cc_bytes = bytes, cc_offset = 0\<rparr>) (\<lambda>(tg, k).
        if tg \<noteq> ATOM_CACHE_REF then Inl (UnsupportedPayloadTag tg)
        else result_bind (cc_read_u8 k) (\<lambda>(index, k).
          if cc_has_remaining k then Inl CacheTrailingBytes else Inr index)) of
        Inl e \<Rightarrow> (Inl e, c)
      | Inr index \<Rightarrow>
          (case lookup_by_index index c of
             (None, c) \<Rightarrow> (Inl (MissingCacheIndex index), c)
           | (Some atom, c) \<Rightarrow> (Inr (atom_term atom), c)))"

text \<open>The references of one message: each atom in turn, and the payload read two bytes at a time.\<close>

fun encode_atoms ::
  "u32 list \<Rightarrow> AtomTable \<Rightarrow> AtomCache \<times> AtomCacheHeader \<times> u8 list \<Rightarrow>
   (AtomCacheEncodeError + unit) \<times> AtomCache \<times> AtomCacheHeader \<times> u8 list" where
  "encode_atoms [] t s = (Inr (), s)"
| "encode_atoms (atom # atoms) t s =
     (case encode_atom_reference atom t s of
        (Inl e, s) \<Rightarrow> (Inl e, s)
      | (Inr _, s) \<Rightarrow> encode_atoms atoms t s)"

function decode_atoms :: "u8 list \<Rightarrow> AtomCache \<Rightarrow> (AtomCacheDecodeError + u64 list) \<times> AtomCache" where
  "decode_atoms bytes c =
     (if bytes = [] then (Inr [], c)
      else case decode_atom_reference (take 2 bytes) c of
        (Inl e, c) \<Rightarrow> (Inl e, c)
      | (Inr tm, c) \<Rightarrow>
          (case decode_atoms (drop 2 bytes) c of (r, c) \<Rightarrow> (result_bind r (\<lambda>tms. Inr (tm # tms)), c)))"
  by auto
termination by (relation "measure (length \<circ> fst)") auto

declare decode_atoms.simps [simp del]

section \<open>The cache invariant\<close>

text \<open>The two directions agree, and the queue holds each occupied slot once.\<close>

definition cache_ok :: "AtomCache \<Rightarrow> bool" where
  "cache_ok c \<longleftrightarrow> length (slots c) = ATOM_CACHE_SIZE \<and>
     (\<forall>atom index. by_atom c atom = Some index \<longleftrightarrow> slots c ! unat index = Some atom) \<and>
     distinct (lru c) \<and> (\<forall>index. index \<in> set (lru c) \<longleftrightarrow> slots c ! unat index \<noteq> None)"

lemma u8_lt: "unat (i :: u8) < 256"
  using unsigned_less [where ?'a = nat, of i] by simp

lemma slot_update:
  assumes "length xs = 256"
  shows "xs[unat (i :: u8) := v] ! unat (j :: u8) = (if i = j then v else xs ! unat j)"
  using assms u8_lt [of i] u8_lt [of j] by (auto simp: nth_list_update dest: unsigned_word_eqI)

lemma cache_okD:
  assumes "cache_ok c"
  shows "length (slots c) = 256" "by_atom c atom = Some index \<longleftrightarrow> slots c ! unat index = Some atom"
    "distinct (lru c)" "index \<in> set (lru c) \<longleftrightarrow> slots c ! unat index \<noteq> None"
  using assms unfolding cache_ok_def ATOM_CACHE_SIZE_def by blast+

lemma cache_inj: "cache_ok c \<Longrightarrow> slots c ! unat (i :: u8) = Some a \<Longrightarrow> slots c ! unat (j :: u8) = Some a \<Longrightarrow> i = j"
  by (metis cache_okD(2) option.inject)

lemma cache_new_ok: "cache_ok cache_new"
  by (simp add: cache_ok_def cache_new_def ATOM_CACHE_SIZE_def u8_lt)

lemma touch_simps [simp]:
  "slots (touch i c) = slots c" "by_atom (touch i c) = by_atom c" "lru (touch i c) = filter (\<lambda>j. j \<noteq> i) (lru c) @ [i]"
  by (simp_all add: touch_def remove_from_lru_def Let_def)

lemma touch_ok: "cache_ok c \<Longrightarrow> slots c ! unat i \<noteq> None \<Longrightarrow> cache_ok (touch i c)"
  unfolding cache_ok_def by auto

text \<open>What an operation does is given by the slots and the queue it leaves.\<close>

lemma clear_slot_ok:
  assumes "cache_ok c"
  shows "cache_ok (clear_slot i c)"
    "slots (clear_slot i c) ! unat j = (if i = j then None else slots c ! unat j)"
    "lru (clear_slot i c) = filter (\<lambda>j. j \<noteq> i) (lru c)"
    "by_atom (clear_slot i c) a = (if by_atom c a = Some i then None else by_atom c a)"
proof -
  note ok = cache_okD [OF assms]
  show sl: "slots (clear_slot i c) ! unat j = (if i = j then None else slots c ! unat j)" for j
    by (auto simp: clear_slot_def remove_from_lru_def slot_update ok split: option.splits)
  show lr: "lru (clear_slot i c) = filter (\<lambda>j. j \<noteq> i) (lru c)"
    by (auto simp: clear_slot_def remove_from_lru_def split: option.splits)
  show ba: "by_atom (clear_slot i c) a = (if by_atom c a = Some i then None else by_atom c a)" for a
    using ok(2) [of a i] by (auto simp: clear_slot_def remove_from_lru_def split: option.splits)
  have len: "length (slots (clear_slot i c)) = 256"
    by (auto simp: clear_slot_def remove_from_lru_def ok split: option.splits)
  show "cache_ok (clear_slot i c)"
    unfolding cache_ok_def ATOM_CACHE_SIZE_def
    by (auto simp: sl lr ba len ok dest: cache_inj [OF assms])
qed

lemma replace_slot_ok:
  assumes "cache_ok c" "by_atom c a = None"
  shows "cache_ok (replace_slot i a c)"
    "slots (replace_slot i a c) ! unat (j :: u8) = (if i = j then Some a else slots c ! unat j)"
    "lru (replace_slot i a c) = filter (\<lambda>j. j \<noteq> i) (lru c) @ [i]"
proof -
  note cl = clear_slot_ok [OF assms(1), of i]
  note ok = cache_okD [OF cl(1)] cache_okD [OF assms(1)]
  show sl: "slots (replace_slot i a c) ! unat j = (if i = j then Some a else slots c ! unat j)" for j :: u8
    by (simp add: replace_slot_def Let_def slot_update ok(1) cl)
  show lr: "lru (replace_slot i a c) = filter (\<lambda>j. j \<noteq> i) (lru c) @ [i]"
    by (simp add: replace_slot_def Let_def cl)
  have ba: "by_atom (replace_slot i a c) b = (if b = a then Some i else if by_atom c b = Some i then None else by_atom c b)" for b
    by (simp add: replace_slot_def Let_def cl)
  have len: "length (slots (replace_slot i a c)) = 256" by (simp add: replace_slot_def Let_def ok(1))
  have absent: "slots c ! unat j \<noteq> Some a" for j :: u8 using ok(6) [of a j] assms(2) by simp
  show "cache_ok (replace_slot i a c)"
    unfolding cache_ok_def ATOM_CACHE_SIZE_def using absent
    by (auto simp: sl lr ba len ok dest: cache_inj [OF assms(1)])
qed

text \<open>A new atom goes to a free slot, or to the least recently used one when there is none.\<close>

lemma cache_insert_fresh:
  assumes ok: "cache_ok c" and fresh: "by_atom c a = None"
  obtains i c' where "cache_insert a c = (i, c')" "cache_ok c'"
    "\<And>j :: u8. slots c' ! unat j = (if i = j then Some a else slots c ! unat j)"
    "lru c' = filter (\<lambda>j. j \<noteq> i) (lru c) @ [i]"
    "slots c ! unat i = None \<or> (\<exists>q. lru c = i # q) \<and> (\<forall>j :: u8. slots c ! unat j \<noteq> None)"
proof (cases "free_index c")
  case (Some i)
  then obtain n where n: "position (\<lambda>slot. slot = None) (slots c) = Some n" "i = of_nat n"
    by (auto simp: free_index_def split: option.splits if_splits)
  then have "n < 256" "slots c ! n = None" using cache_okD(1) [OF ok] by (auto simp: position_Some_iff)
  then have free: "slots c ! unat i = None" using n(2) by (simp add: unsigned_of_nat take_bit_nat_eq_self)
  show ?thesis
    by (rule that [of i "replace_slot i a c"]) (use Some fresh free replace_slot_ok [OF ok fresh] in \<open>simp_all add: cache_insert_def\<close>)
next
  case None
  have full: "slots c ! unat j \<noteq> None" for j :: u8
  proof (cases "position (\<lambda>slot. slot = None) (slots c)")
    case (Some n)
    then have "n < 256" using cache_okD(1) [OF ok] by (simp add: position_Some_iff)
    then show ?thesis using None Some by (simp add: free_index_def)
  next
    assume *: "position (\<lambda>slot. slot = None) (slots c) = None"
    have "slots c ! unat j \<in> set (slots c)" using cache_okD(1) [OF ok] u8_lt [of j] by simp
    then show ?thesis using * by auto
  qed
  then have "0 \<in> set (lru c)" using cache_okD(4) [OF ok] by blast
  then obtain i q where q: "lru c = i # q" by (cases "lru c") auto
  have evict: "evict_lru c = (i, clear_slot i c)"
    using full [of i] by (auto simp: evict_lru_def q clear_slot_def remove_from_lru_def split: option.splits)
  note cl = clear_slot_ok [OF ok, of i]
  have "by_atom (clear_slot i c) a = None" using fresh by (simp add: cl)
  note re = replace_slot_ok [OF cl(1) this, of i]
  show ?thesis
    by (rule that [of i "replace_slot i a (clear_slot i c)"])
      (use None fresh evict re full q in \<open>simp_all add: cache_insert_def cl\<close>)
qed

text \<open>
  The slots of the atoms a message has referenced so far are the end of the queue, so they are
  evicted last.
\<close>

definition recent :: "AtomCache \<Rightarrow> u32 set \<Rightarrow> bool" where
  "recent c M \<longleftrightarrow> (\<exists>old new. lru c = old @ new \<and> set new = {i. \<exists>a\<in>M. by_atom c a = Some i}) \<and> (\<forall>a\<in>M. by_atom c a \<noteq> None)"

lemma recentI:
  "lru c = old @ new \<Longrightarrow> set new = {i. \<exists>a\<in>M. by_atom c a = Some i} \<Longrightarrow> (\<And>a. a \<in> M \<Longrightarrow> by_atom c a \<noteq> None) \<Longrightarrow> recent c M"
  unfolding recent_def by blast

lemma recent_empty: "recent c {}"
  by (simp add: recent_def)

lemma recent_card:
  assumes "cache_ok c" "set new = {i. \<exists>a\<in>M. by_atom c a = Some i}" "distinct new" "\<forall>a\<in>M. by_atom c a \<noteq> None"
  shows "length new = card M"
proof -
  have "inj_on (\<lambda>a. the (by_atom c a)) M"
  proof (rule inj_onI)
    fix a b assume *: "a \<in> M" "b \<in> M" "the (by_atom c a) = the (by_atom c b)"
    then obtain i where "by_atom c a = Some i" "by_atom c b = Some i" using assms(4) by force
    then show "a = b" using cache_okD(2) [OF assms(1)] by (metis option.inject)
  qed
  moreover have "set new = (\<lambda>a. the (by_atom c a)) ` M" using assms(2,4) by force
  ultimately show ?thesis using assms(3) by (metis card_image distinct_card)
qed

lemma recent_touch:
  assumes "recent c M" "by_atom c a = Some i"
  shows "recent (touch i c) (insert a M)"
proof -
  obtain old new where "lru c = old @ new" "set new = {i. \<exists>a\<in>M. by_atom c a = Some i}"
    using assms(1) by (auto simp: recent_def)
  then have "lru (touch i c) = filter (\<lambda>j. j \<noteq> i) old @ filter (\<lambda>j. j \<noteq> i) new @ [i]"
    "set (filter (\<lambda>j. j \<noteq> i) new @ [i]) = {j. \<exists>b\<in>insert a M. by_atom (touch i c) b = Some j}"
    using assms(2) by auto
  then show ?thesis by (rule recentI) (use assms in \<open>auto simp: recent_def\<close>)
qed

lemma recent_insert:
  assumes ok: "cache_ok c" and fresh: "by_atom c a = None" and rec: "recent c M"
    and fin: "finite M" and small: "card (insert a M) \<le> 256" and ins: "cache_insert a c = (i, c')"
  shows "cache_ok c'" "recent c' (insert a M)" "by_atom c' a = Some i" "b \<in> M \<Longrightarrow> by_atom c' b = by_atom c b"
proof -
  have ins': "cache_ok c'" "\<And>j :: u8. slots c' ! unat j = (if i = j then Some a else slots c ! unat j)"
    "lru c' = filter (\<lambda>j. j \<noteq> i) (lru c) @ [i]"
    "slots c ! unat i = None \<or> (\<exists>q. lru c = i # q) \<and> (\<forall>j :: u8. slots c ! unat j \<noteq> None)"
    using cache_insert_fresh [OF ok fresh] ins by (metis Pair_inject)+
  obtain old new where q: "lru c = old @ new" "set new = {i. \<exists>a\<in>M. by_atom c a = Some i}"
    and all: "\<forall>a\<in>M. by_atom c a \<noteq> None" using rec by (auto simp: recent_def)
  have notin: "i \<notin> set new"
  proof
    assume mem: "i \<in> set new"
    then have "i \<in> set (lru c)" by (simp add: q)
    then obtain q' where q': "lru c = i # q'" "\<forall>j :: u8. slots c ! unat j \<noteq> None"
      using ins'(4) cache_okD(4) [OF ok] by blast
    then have "old = []" using mem cache_okD(3) [OF ok] q(1) by (cases old) auto
    then have "length new = card (UNIV :: u8 set)"
      using q'(2) cache_okD(3,4) [OF ok] q(1) by (metis UNIV_eq_I distinct_card append_Nil)
    then have "card M = 256" using recent_card [OF ok q(2) _ all] cache_okD(3) [OF ok] q(1)
      by (simp add: card_word)
    moreover have "a \<notin> M" using all fresh by auto
    ultimately show False using small fin by simp
  qed
  have keep: "by_atom c' b = by_atom c b" if b: "b \<in> M" for b
  proof -
    obtain j where j: "by_atom c b = Some j" using all b by auto
    then have "j \<noteq> i" using notin q(2) b by auto
    then have "by_atom c' b = Some j" using j ins'(2) cache_okD(2) [OF ok] cache_okD(2) [OF ins'(1)] by auto
    then show ?thesis using j by simp
  qed
  have here: "by_atom c' a = Some i" using cache_okD(2) [OF ins'(1)] ins'(2) by simp
  have "lru c' = filter (\<lambda>j. j \<noteq> i) old @ filter (\<lambda>j. j \<noteq> i) new @ [i]" by (simp add: ins'(3) q(1))
  moreover have "set (filter (\<lambda>j. j \<noteq> i) new @ [i]) = {j. \<exists>b\<in>insert a M. by_atom c' b = Some j}"
    using q(2) notin keep here by auto
  ultimately show "recent c' (insert a M)" by (rule recentI) (use all keep here in auto)
  show "cache_ok c'" "by_atom c' a = Some i" "b \<in> M \<Longrightarrow> by_atom c' b = by_atom c b"
    using ins'(1) here keep by auto
qed

section \<open>The sender\<close>

text \<open>
  One reference: the header grows only for an atom that is not cached, and the atoms referenced
  before in the message keep their slots.
\<close>

lemma encode_atom_reference_total:
  assumes ok: "cache_ok c" and rec: "recent c M" and M: "finite M" "card (insert a M) \<le> 255" "length h \<le> card M"
    and name: "atom_resolve a t = Some n" "length n \<le> 65535"
  obtains i c' h' where "encode_atom_reference a t (c, h, out) = (Inr i, c', h', out @ [ATOM_CACHE_REF, i])"
    "cache_ok c'" "recent c' (insert a M)" "by_atom c' a = Some i" "\<And>b. b \<in> M \<Longrightarrow> by_atom c' b = by_atom c b"
    "length h' \<le> card (insert a M)"
proof (cases "by_atom c a")
  case (Some i)
  have "slots c ! unat i \<noteq> None" using Some cache_okD(2) [OF ok] by simp
  moreover have "card M \<le> card (insert a M)" by (simp add: M(1) card_insert_le)
  ultimately show ?thesis
    by (intro that [of i "touch i c" h]) (use Some touch_ok [OF ok] recent_touch [OF rec Some] M in
      \<open>simp_all add: encode_atom_reference_def lookup_by_atom_def\<close>)
next
  case None
  obtain i c' where ins: "cache_insert a c = (i, c')" by fastforce
  have "a \<notin> M" using rec None by (auto simp: recent_def)
  then have "card (insert a M) = Suc (card M)" by (simp add: M(1))
  moreover have "card (insert a M) \<le> 256" using M(2) by simp
  ultimately show ?thesis
    using recent_insert [OF ok None rec M(1) _ ins] M(2,3) name None ins
    by (intro that [of i c' "h @ [\<lparr>entry_index = i, entry_name = n\<rparr>]"])
      (auto simp: encode_atom_reference_def lookup_by_atom_def can_encode_another_entry_def)
qed

definition references :: "AtomCache \<Rightarrow> u32 list \<Rightarrow> u8 list" where
  "references c atoms = concat (map (\<lambda>a. [ATOM_CACHE_REF, the (by_atom c a)]) atoms)"

definition sendable :: "AtomTable \<Rightarrow> u32 \<Rightarrow> bool" where
  "sendable t a \<longleftrightarrow> (\<exists>n. atom_resolve a t = Some n \<and> length n \<le> 65535 \<and> utf8_valid n)"

lemma encode_atoms_total:
  assumes "cache_ok c" "recent c M" "finite M" "card (M \<union> set atoms) \<le> 255" "length h \<le> card M"
    "\<forall>a\<in>set atoms. sendable t a"
  shows "\<exists>c' h'. encode_atoms atoms t (c, h, out) = (Inr (), c', h', out @ references c' atoms) \<and> cache_ok c' \<and>
    (\<forall>b\<in>M \<union> set atoms. by_atom c' b \<noteq> None) \<and> (\<forall>b\<in>M. by_atom c' b = by_atom c b)"
  using assms
proof (induction atoms arbitrary: c M h out)
  case Nil
  then show ?case by (auto simp: references_def recent_def)
next
  case (Cons a atoms)
  obtain n where n: "atom_resolve a t = Some n" "length n \<le> 65535" using Cons.prems by (auto simp: sendable_def)
  have "card (insert a M) \<le> card (M \<union> set (a # atoms))" using Cons.prems(3) by (intro card_mono) auto
  then have small: "card (insert a M) \<le> 255" using Cons.prems(4) by simp
  obtain i c1 h1 where e: "encode_atom_reference a t (c, h, out) = (Inr i, c1, h1, out @ [ATOM_CACHE_REF, i])"
    and c1: "cache_ok c1" "recent c1 (insert a M)" "by_atom c1 a = Some i" "\<And>b. b \<in> M \<Longrightarrow> by_atom c1 b = by_atom c b"
      "length h1 \<le> card (insert a M)"
    by (rule encode_atom_reference_total [OF Cons.prems(1,2,3) small Cons.prems(5) n, of out]) (rule that; assumption)
  have "finite (insert a M)" "card (insert a M \<union> set atoms) \<le> 255" "\<forall>a\<in>set atoms. sendable t a"
    using Cons.prems(3,4,6) by auto
  note hyps = this(1,2) c1(5) this(3)
  obtain c' h' where "encode_atoms atoms t (c1, h1, out @ [ATOM_CACHE_REF, i]) =
      (Inr (), c', h', (out @ [ATOM_CACHE_REF, i]) @ references c' atoms)" "cache_ok c'"
    "\<forall>b\<in>insert a M \<union> set atoms. by_atom c' b \<noteq> None" "\<forall>b\<in>insert a M. by_atom c' b = by_atom c1 b"
    using Cons.IH [OF c1(1,2) hyps, of "out @ [ATOM_CACHE_REF, i]"] by blast
  then show ?case using e c1(3,4) by (simp add: references_def)
qed

section \<open>Both sides\<close>

text \<open>
  A table whose two directions agree and that has indices left for \<open>k\<close> more names, which is what
  concurrent interning keeps (\<open>table_ok\<close>) while no name is in flight.
\<close>

definition table_room :: "AtomTable \<Rightarrow> nat \<Rightarrow> bool" where
  "table_room t k \<longleftrightarrow> (\<forall>n a. atom_lookup n t = Some a \<longleftrightarrow> atom_resolve a t = Some n) \<and>
     unat (next_index t) + k < 2 ^ 32 \<and> (\<forall>a. atom_resolve a t \<noteq> None \<longrightarrow> unat a < unat (next_index t))"

lemma table_room_of_ok:
  "table_ok x \<Longrightarrow> interning x = [] \<Longrightarrow> taken x + k < 2 ^ 32 \<Longrightarrow> table_room (table x) k"
proof -
  assume ok: "table_ok x" and quiet: "interning x = []" and k: "taken x + k < 2 ^ 32"
  have "unat (next_index (table x)) = taken x"
    using table_okD(1) [OF ok] k by (simp add: unsigned_of_nat take_bit_nat_eq_self)
  moreover have "by_name (table x) n = Some a \<longleftrightarrow> by_index (table x) a = Some n" for n a
    using table_okD(7) [OF ok, of n a] table_okD(9) [OF ok, of a n] quiet by auto
  moreover have "unat a < taken x" if "by_index (table x) a \<noteq> None" for a
    using that table_okD(8) [OF ok, of a] by blast
  ultimately show ?thesis
    using k by (simp add: table_room_def atom_lookup_def atom_resolve_def)
qed

lemma table_room_mono: "table_room t k \<Longrightarrow> j \<le> k \<Longrightarrow> table_room t j"
  by (auto simp: table_room_def)

lemma intern_room:
  assumes room: "table_room t (Suc k)" and int: "intern n t = (a, t')"
  shows "table_room t' k" "atom_resolve a t' = Some n" "atom_resolve b t = Some m \<Longrightarrow> atom_resolve b t' = Some m"
proof -
  let ?i = "next_index t"
  have free: "atom_resolve ?i t = None" using room unfolding table_room_def by blast
  have i: "unat (?i + 1) = unat ?i + 1" using room by (simp add: table_room_def unat_word_ariths)
  have old: "by_name t m = Some x \<longleftrightarrow> by_index t x = Some m" for m x
    using room by (simp add: table_room_def atom_lookup_def atom_resolve_def)
  have below: "unat x < unat ?i" if "by_index t x = Some m" for x m
    using room that by (auto simp: table_room_def atom_resolve_def)
  have fresh: "by_index t ?i = None" using free by (simp add: atom_resolve_def)
  have "table_room t' k \<and> atom_resolve a t' = Some n \<and> (atom_resolve b t = Some m \<longrightarrow> atom_resolve b t' = Some m)"
  proof (cases "by_name t n")
    case (Some x)
    then have "t' = t" "a = x" using int by (simp_all add: intern_def)
    moreover have "by_index t x = Some n" using Some old by blast
    ultimately show ?thesis using table_room_mono [OF room, of k] by (simp add: atom_resolve_def)
  next
    case None
    then have t': "t' = t\<lparr>next_index := ?i + 1, by_index := (by_index t)(?i \<mapsto> n), by_name := (by_name t)(n \<mapsto> ?i)\<rparr>" "a = ?i"
      using int by (auto simp: intern_def Let_def)
    have "table_room t' k" unfolding table_room_def t'(1)
      using room None old [of n] old fresh below by (auto simp: atom_lookup_def atom_resolve_def i table_room_def less_Suc_eq)
    then show ?thesis using fresh by (auto simp: t' atom_resolve_def)
  qed
  then show "table_room t' k" "atom_resolve a t' = Some n" "atom_resolve b t = Some m \<Longrightarrow> atom_resolve b t' = Some m"
    by blast+
qed

text \<open>
  What the cache relies on in the atom table, and the two facts its proofs use: an atom that
  interning returns and that had a name had that name, and a name has one atom.
\<close>

locale atom_interner =
  fixes room :: "'t \<Rightarrow> nat \<Rightarrow> bool"
    and intern_name :: "'n \<Rightarrow> 't \<Rightarrow> 'a \<times> 't"
    and name_of :: "'a \<Rightarrow> 't \<Rightarrow> 'n option"
    and atom_of :: "'n \<Rightarrow> 't \<Rightarrow> 'a option"
  assumes room_left: "room t (Suc k) \<Longrightarrow> intern_name n t = (a, t') \<Longrightarrow> room t' k"
    and named: "room t (Suc k) \<Longrightarrow> intern_name n t = (a, t') \<Longrightarrow> name_of a t' = Some n"
    and kept: "room t (Suc k) \<Longrightarrow> intern_name n t = (a, t') \<Longrightarrow> name_of b t = Some m \<Longrightarrow> name_of b t' = Some m"
    and inverse: "room t k \<Longrightarrow> atom_of n t = Some a \<longleftrightarrow> name_of a t = Some n"
begin

lemma hit: "room t (Suc k) \<Longrightarrow> intern_name n t = (a, t') \<Longrightarrow> name_of a t = Some m \<Longrightarrow> m = n"
  using named kept by fastforce

lemma unique: "room t k \<Longrightarrow> name_of a t = Some n \<Longrightarrow> name_of b t = Some n \<Longrightarrow> a = b"
  using inverse by (metis option.inject)

end

interpretation names: atom_interner table_room intern atom_resolve atom_lookup
  by unfold_locales (auto simp: intern_room, auto simp: table_room_def)

text \<open>
  The receiver has, slot by slot, an atom of the sender's name. \<open>linked\<close> is what a connection keeps
  from one message to the next; \<open>k\<close> is the number of names the receiver can still intern.
\<close>

definition synced :: "AtomCache \<Rightarrow> AtomTable \<Rightarrow> AtomCache \<Rightarrow> AtomTable \<Rightarrow> bool" where
  "synced c t r tr \<longleftrightarrow> (\<forall>i :: u8. rel_option (\<lambda>a b. \<exists>n. atom_resolve a t = Some n \<and> atom_resolve b tr = Some n)
     (slots c ! unat i) (slots r ! unat i))"

definition linked :: "AtomCache \<Rightarrow> AtomTable \<Rightarrow> AtomCache \<Rightarrow> AtomTable \<Rightarrow> nat \<Rightarrow> bool" where
  "linked c t r tr k \<longleftrightarrow> cache_ok c \<and> cache_ok r \<and> table_room t 0 \<and> table_room tr k \<and> synced c t r tr"

lemma linked_new: "table_room t 0 \<Longrightarrow> table_room tr k \<Longrightarrow> linked cache_new t cache_new tr k"
  using cache_new_ok by (simp add: linked_def synced_def cache_new_def ATOM_CACHE_SIZE_def u8_lt)

lemma install_linked:
  assumes l: "linked c t r tr (Suc k)" and fresh: "by_atom c a = None" and n: "atom_resolve a t = Some n"
    and ins: "cache_insert a c = (i, c')" and r': "install_entry \<lparr>entry_index = i, entry_name = n\<rparr> (r, tr) = (r', tr')"
  shows "linked c' t r' tr' k"
proof -
  have ok: "cache_ok c" "cache_ok r" and rooms: "table_room t 0" "table_room tr (Suc k)" and sy: "synced c t r tr"
    using l by (simp_all add: linked_def)
  have c': "cache_ok c'" "\<And>j :: u8. slots c' ! unat j = (if i = j then Some a else slots c ! unat j)"
    using cache_insert_fresh [OF ok(1) fresh] ins by (metis Pair_inject)+
  obtain b where int: "intern n tr = (b, tr')" using r' by (auto simp: install_entry_def split: prod.splits)
  note tr' = names.room_left [OF rooms(2) int] names.named [OF rooms(2) int] names.kept [OF rooms(2) int]
  have absent: "by_atom r b = None"
  proof (rule ccontr)
    assume "by_atom r b \<noteq> None"
    then obtain j where "by_atom r b = Some j" by auto
    then have j: "slots r ! unat j = Some b" using cache_okD(2) [OF ok(2)] by simp
    then obtain a' m where a': "slots c ! unat j = Some a'" "atom_resolve a' t = Some m" "atom_resolve b tr = Some m"
      using sy [unfolded synced_def, rule_format, of j] by (auto simp: option_rel_Some2)
    have "m = n" by (rule names.hit [OF rooms(2) int a'(3)])
    then have "a' = a" using names.unique [OF rooms(1) a'(2)] n by simp
    then have "by_atom c a = Some j" using a'(1) cache_okD(2) [OF ok(1)] by simp
    then show False using fresh by simp
  qed
  then have "r' = replace_slot i b r" using r' int by (simp add: install_entry_def insert_at_def)
  note re = replace_slot_ok [OF ok(2) absent, of i, folded this]
  have "synced c' t r' tr'" unfolding synced_def
  proof
    fix j :: u8
    have "rel_option (\<lambda>a b. \<exists>n. atom_resolve a t = Some n \<and> atom_resolve b tr = Some n) (slots c ! unat j) (slots r ! unat j)"
      using sy by (simp add: synced_def)
    then have "rel_option (\<lambda>a b. \<exists>n. atom_resolve a t = Some n \<and> atom_resolve b tr' = Some n) (slots c ! unat j) (slots r ! unat j)"
      by (rule option.rel_mono_strong) (use tr'(3) in blast)
    then show "rel_option (\<lambda>a b. \<exists>n. atom_resolve a t = Some n \<and> atom_resolve b tr' = Some n) (slots c' ! unat j) (slots r' ! unat j)"
      using n tr'(2) by (simp add: c'(2) re(2))
  qed
  then show ?thesis using c'(1) re(1) rooms(1) tr'(1) by (simp add: linked_def)
qed

lemma linked_touch:
  assumes "linked c t r tr k"
  shows "slots c ! unat i \<noteq> None \<Longrightarrow> linked (touch i c) t r tr k" "slots r ! unat i \<noteq> None \<Longrightarrow> linked c t (touch i r) tr k"
  using assms touch_ok by (auto simp: linked_def synced_def)

text \<open>However many atoms a message has, its header brings the receiver level with the sender.\<close>

definition announced :: "AtomCacheHeaderEntry \<Rightarrow> bool" where
  "announced e \<longleftrightarrow> length (entry_name e) \<le> 65535 \<and> utf8_valid (entry_name e)"

lemma encode_atom_reference_linked:
  assumes e: "encode_atom_reference a t (c, h, out) = (Inr i, c', h', out')" and h: "length h \<le> 255"
    and l: "linked c t r tr (k + (255 - length h))" and a: "sendable t a"
  obtains es r' tr' where "h' = h @ es" "length h' \<le> 255" "\<forall>e\<in>set es. announced e"
    "fold install_entry es (r, tr) = (r', tr')" "linked c' t r' tr' (k + (255 - length h'))"
proof (cases "by_atom c a")
  case (Some j)
  then have "slots c ! unat j \<noteq> None" using l cache_okD(2) by (auto simp: linked_def)
  then show ?thesis
    using that [of "[]" r tr] e h Some linked_touch(1) [OF l] by (auto simp: encode_atom_reference_def lookup_by_atom_def)
next
  case None
  then obtain n where n: "atom_resolve a t = Some n" "length n \<le> 65535" "length h < 255"
    and ins: "cache_insert a c = (i, c')" and h': "h' = h @ [\<lparr>entry_index = i, entry_name = n\<rparr>]"
    using e by (auto simp: encode_atom_reference_def lookup_by_atom_def can_encode_another_entry_def split: if_splits option.splits prod.splits)
  obtain r' tr' where r': "install_entry \<lparr>entry_index = i, entry_name = n\<rparr> (r, tr) = (r', tr')" by fastforce
  have room: "k + (255 - length h) = Suc (k + (255 - length h'))" using n(3) h' by simp
  show ?thesis
    by (rule that [of "[\<lparr>entry_index = i, entry_name = n\<rparr>]" r' tr'])
      (use h' n r' a install_linked [OF l [unfolded room] None n(1) ins r'] in \<open>auto simp: announced_def sendable_def\<close>)
qed

lemma encode_atoms_linked:
  assumes "encode_atoms atoms t (c, h, out) = (Inr (), c', h', out')" "length h \<le> 255" "linked c t r tr (k + (255 - length h))"
    "\<forall>a\<in>set atoms. sendable t a"
  shows "\<exists>es r' tr'. h' = h @ es \<and> length h' \<le> 255 \<and> (\<forall>e\<in>set es. announced e) \<and>
    fold install_entry es (r, tr) = (r', tr') \<and> linked c' t r' tr' (k + (255 - length h'))"
  using assms
proof (induction atoms arbitrary: c h out r tr)
  case Nil
  then show ?case by (auto intro!: exI [of _ "[]"])
next
  case (Cons a atoms)
  obtain i c1 h1 out1 where e: "encode_atom_reference a t (c, h, out) = (Inr i, c1, h1, out1)"
    and later: "encode_atoms atoms t (c1, h1, out1) = (Inr (), c', h', out')"
    using Cons.prems(1) by (auto split: sum.splits prod.splits)
  obtain es r1 tr1 where es: "h1 = h @ es" "length h1 \<le> 255" "\<forall>e\<in>set es. announced e"
    "fold install_entry es (r, tr) = (r1, tr1)" "linked c1 t r1 tr1 (k + (255 - length h1))"
    by (rule encode_atom_reference_linked [OF e Cons.prems(2,3)]) (use Cons.prems(4) in auto)
  obtain fs r' tr' where "h' = h1 @ fs" "length h' \<le> 255" "\<forall>e\<in>set fs. announced e"
    "fold install_entry fs (r1, tr1) = (r', tr')" "linked c' t r' tr' (k + (255 - length h'))"
    using Cons.IH [OF later es(2,5)] Cons.prems(4) by auto
  then show ?case using es by (intro exI [of _ "es @ fs"] exI [of _ r'] exI [of _ tr']) auto
qed

section \<open>The wire\<close>

definition unread :: "CacheCursor \<Rightarrow> u8 list" where
  "unread k = drop (cc_offset k) (cc_bytes k)"

definition cc_advance :: "nat \<Rightarrow> CacheCursor \<Rightarrow> CacheCursor" where
  "cc_advance n k = k\<lparr>cc_offset := cc_offset k + n\<rparr>"

lemma cc_advance_simps [simp]:
  "cc_bytes (cc_advance n k) = cc_bytes k" "unread (cc_advance n k) = drop n (unread k)" "cc_advance n (cc_advance m k) = cc_advance (m + n) k"
  by (simp_all add: cc_advance_def unread_def add.commute add.assoc)

lemma cc_read_u8_at: "unread k = b # bs \<Longrightarrow> cc_read_u8 k = Inr (b, cc_advance 1 k)"
proof -
  assume *: "unread k = b # bs"
  then have "cc_offset k < length (cc_bytes k)" by (metis drop_all list.distinct(1) not_less unread_def)
  then show ?thesis using * by (simp add: cc_read_u8_def vec_get_def unread_def cc_advance_def Cons_nth_drop_Suc [symmetric])
qed

lemma cc_read_u16_at:
  assumes "unread k = name_len_to_be n @ bs" "n \<le> 65535"
  shows "cc_read_u16 k = Inr (n, cc_advance 2 k)"
proof -
  have "n div 256 < 256" using assms(2) by (simp add: less_mult_imp_div_less)
  then have "unat (of_nat (n div 256) :: u8) = n div 256" "unat (of_nat (n mod 256) :: u8) = n mod 256"
    by (simp_all add: unsigned_of_nat take_bit_nat_eq_self)
  then show ?thesis
    using assms(1) cc_read_u8_at [of k] cc_read_u8_at [of "cc_advance 1 k"] by (simp add: cc_read_u16_def name_len_to_be_def numeral_2_eq_2)
qed

lemma cc_read_bytes_at:
  assumes "unread k = xs @ bs" "length (cc_bytes k) < 2 ^ 64" "cc_offset k \<le> length (cc_bytes k)"
  shows "cc_read_bytes (length xs) k = Inr (xs, cc_advance (length xs) k)"
proof -
  have "length xs \<le> length (cc_bytes k) - cc_offset k" using assms(1) by (metis le_add1 length_append length_drop unread_def)
  then show ?thesis using assms by (auto simp: cc_read_bytes_def Let_def cc_advance_def unread_def)
qed

definition entry_bytes :: "AtomCacheHeaderEntry \<Rightarrow> u8 list" where
  "entry_bytes e = NEW_ATOM_CACHE_REF # entry_index e # name_len_to_be (length (entry_name e)) @ entry_name e"

lemma length_entry_bytes: "length (entry_bytes e) = 4 + length (entry_name e)"
  by (simp add: entry_bytes_def name_len_to_be_def)

lemma encode_entries_eq: "\<forall>e\<in>set es. announced e \<Longrightarrow> encode_entries es = Inr (concat (map entry_bytes es))"
  by (induction es) (auto simp: announced_def entry_bytes_def)

lemma length_entries: "\<forall>e\<in>set es. announced e \<Longrightarrow> length (concat (map entry_bytes es)) \<le> 65539 * length es"
  by (induction es) (auto simp: announced_def length_entry_bytes)

lemma read_entry_at:
  assumes "unread k = entry_bytes e @ bs" "announced e" "length (cc_bytes k) < 2 ^ 64"
  shows "read_entry k = Inr (e, cc_advance (length (entry_bytes e)) k)"
proof -
  let ?n = "length (entry_name e)"
  have k: "unread k = NEW_ATOM_CACHE_REF # entry_index e # name_len_to_be ?n @ entry_name e @ bs"
    using assms(1) by (simp add: entry_bytes_def)
  have "length (unread k) = 4 + (?n + length bs)" using k by (simp add: name_len_to_be_def)
  then have "cc_offset (cc_advance 4 k) \<le> length (cc_bytes (cc_advance 4 k))" by (simp add: unread_def cc_advance_def)
  moreover have "unread (cc_advance 4 k) = entry_name e @ bs" using k by (simp add: name_len_to_be_def)
  ultimately have "cc_read_bytes ?n (cc_advance 4 k) = Inr (entry_name e, cc_advance (4 + ?n) k)"
    using cc_read_bytes_at [of "cc_advance 4 k"] assms(3) by simp
  moreover have "cc_read_u16 (cc_advance 2 k) = Inr (?n, cc_advance 4 k)"
    using cc_read_u16_at [of "cc_advance 2 k" ?n "entry_name e @ bs"] k assms(2) by (simp add: announced_def)
  ultimately show ?thesis
    using k cc_read_u8_at [of k] cc_read_u8_at [of "cc_advance 1 k"] assms(2)
    by (simp add: read_entry_def announced_def length_entry_bytes numeral_2_eq_2 [symmetric])
qed

lemma decode_entries_at:
  assumes "unread k = concat (map entry_bytes es)" "\<forall>e\<in>set es. announced e" "length (cc_bytes k) < 2 ^ 64"
  shows "\<exists>k'. decode_entries (length es) k h s = (Inr (h @ es, k'), fold install_entry es s) \<and> unread k' = []"
  using assms
proof (induction es arbitrary: k h s)
  case (Cons e es)
  have "read_entry k = Inr (e, cc_advance (length (entry_bytes e)) k)" using Cons.prems read_entry_at by simp
  then show ?case
    using Cons.IH [of "cc_advance (length (entry_bytes e)) k" "h @ [e]" "install_entry e s"] Cons.prems by simp
qed simp

lemma header_round_trip:
  assumes "\<forall>e\<in>set es. announced e" "length es \<le> 255"
  obtains bytes where "encode_header es = Inr bytes" "decode_header bytes s = (Inr es, fold install_entry es s)"
proof -
  let ?body = "concat (map entry_bytes es)"
  let ?k = "\<lparr>cc_bytes = of_nat (length es) # ?body, cc_offset = 0\<rparr>"
  have n: "unat (of_nat (length es) :: u8) = length es" using assms(2) by (simp add: unsigned_of_nat take_bit_nat_eq_self)
  have u: "unread ?k = of_nat (length es) # ?body" by (simp add: unread_def)
  have "length ?body \<le> 65539 * 255" using length_entries [OF assms(1)] assms(2) by linarith
  then have "Suc (length ?body) < 2 ^ 64" by simp
  then obtain k' where k': "decode_entries (length es) (cc_advance 1 ?k) [] s = (Inr (es, k'), fold install_entry es s)" "unread k' = []"
    using decode_entries_at [of "cc_advance 1 ?k" es "[]" s] u assms(1) by auto
  then have "\<not> cc_has_remaining k'" by (simp add: cc_has_remaining_def unread_def)
  then have "decode_header (of_nat (length es) # ?body) s = (Inr es, fold install_entry es s)"
    using k' cc_read_u8_at [OF u] n by (simp add: decode_header_def)
  moreover have "encode_header es = Inr (of_nat (length es) # ?body)"
    using assms by (simp add: encode_header_def encode_entries_eq)
  ultimately show thesis using that by blast
qed

lemma decode_reference:
  assumes "slots r ! unat i = Some b"
  shows "decode_atom_reference [ATOM_CACHE_REF, i] r = (Inr (atom_term b), touch i r)"
  using assms by (simp add: decode_atom_reference_def cc_read_u8_def vec_get_def cc_has_remaining_def lookup_by_index_def)

lemma decode_references:
  assumes "linked c t r tr k" "\<forall>a\<in>set atoms. by_atom c a \<noteq> None"
  shows "\<exists>bs r'. decode_atoms (references c atoms) r = (Inr (map atom_term bs), r') \<and> linked c t r' tr k \<and>
    list_all2 (\<lambda>a b. atom_resolve a t \<noteq> None \<and> atom_resolve b tr = atom_resolve a t) atoms bs"
  using assms
proof (induction atoms arbitrary: r)
  case Nil
  then show ?case by (auto simp: references_def decode_atoms.simps intro: exI [of _ "[]"])
next
  case (Cons a atoms)
  obtain i where i: "by_atom c a = Some i" using Cons.prems(2) by auto
  then have "slots c ! unat i = Some a" using Cons.prems(1) cache_okD(2) by (auto simp: linked_def)
  moreover have "rel_option (\<lambda>a b. \<exists>n. atom_resolve a t = Some n \<and> atom_resolve b tr = Some n) (slots c ! unat i) (slots r ! unat i)"
    using Cons.prems(1) by (simp add: linked_def synced_def)
  ultimately obtain b n where b: "slots r ! unat i = Some b" "atom_resolve a t = Some n" "atom_resolve b tr = Some n"
    by (auto simp: option_rel_Some1)
  then have l: "linked c t (touch i r) tr k" using linked_touch(2) [OF Cons.prems(1)] by simp
  obtain bs r' where "decode_atoms (references c atoms) (touch i r) = (Inr (map atom_term bs), r')" "linked c t r' tr k"
    "list_all2 (\<lambda>a b. atom_resolve a t \<noteq> None \<and> atom_resolve b tr = atom_resolve a t) atoms bs"
    using Cons.IH [OF l] Cons.prems(2) by auto
  then show ?case using i b decode_reference [OF b(1)]
    by (intro exI [of _ "b # bs"] exI [of _ r']) (simp add: references_def decode_atoms.simps [of "ATOM_CACHE_REF # _"])
qed

section \<open>A message arrives as it was sent\<close>

text \<open>
  C12. Between a sender and a receiver whose caches agree slot by slot, as they do when the
  connection starts, any message that refers to at most 255 different atoms can be encoded. The
  header and the payload decode: the receiver obtains for each reference, in order, its own atom
  of the same name, whatever either side has cached, evicted or interned before; and afterwards the
  caches agree again, so the next message can follow.
\<close>

theorem atom_cache_round_trip:
  assumes l: "linked c t r tr (k + 255)" and names: "\<forall>a\<in>set atoms. sendable t a" and few: "card (set atoms) \<le> 255"
  shows "\<exists>c' header payload bytes r1 tr' bs r'.
    encode_atoms atoms t (c, [], []) = (Inr (), c', header, payload) \<and> encode_header header = Inr bytes \<and>
    decode_header bytes (r, tr) = (Inr header, r1, tr') \<and> decode_atoms payload r1 = (Inr (map atom_term bs), r') \<and>
    map (\<lambda>b. atom_resolve b tr') bs = map (\<lambda>a. atom_resolve a t) atoms \<and> linked c' t r' tr' k"
proof -
  have ok: "cache_ok c" using l by (simp add: linked_def)
  obtain c' h where enc: "encode_atoms atoms t (c, [], []) = (Inr (), c', h, references c' atoms)"
    and all: "\<forall>b\<in>set atoms. by_atom c' b \<noteq> None"
    using encode_atoms_total [OF ok recent_empty, of atoms "[]" t "[]"] few names by auto
  obtain r1 tr' where h: "length h \<le> 255" "\<forall>e\<in>set h. announced e" "fold install_entry h (r, tr) = (r1, tr')"
    "linked c' t r1 tr' (k + (255 - length h))"
    using encode_atoms_linked [OF enc, of r tr k] l names by auto
  obtain bytes where bytes: "encode_header h = Inr bytes" "decode_header bytes (r, tr) = (Inr h, r1, tr')"
    by (rule header_round_trip [OF h(2,1), of "(r, tr)"]) (simp add: h(3))
  obtain bs r' where dec: "decode_atoms (references c' atoms) r1 = (Inr (map atom_term bs), r')"
    "linked c' t r' tr' (k + (255 - length h))"
    "list_all2 (\<lambda>a b. atom_resolve a t \<noteq> None \<and> atom_resolve b tr' = atom_resolve a t) atoms bs"
    using decode_references [OF h(4) all] by blast
  have "map (\<lambda>b. atom_resolve b tr') bs = map (\<lambda>a. atom_resolve a t) atoms"
    using dec(3) by (simp add: list_all2_conv_all_nth list_eq_iff_nth_eq)
  moreover have "linked c' t r' tr' k" using dec(2) table_room_mono by (auto simp: linked_def)
  ultimately show ?thesis using enc bytes dec(1) by blast
qed

lemma atom_table_new_room: "k < 2 ^ 31 \<Longrightarrow> table_room atom_table_new k"
  using table_room_of_ok [OF intern_init_ok, of k] by (simp add: intern_init_def COMMON_ATOMS_def)

lemma common_sendable: "sendable atom_table_new 0" "sendable atom_table_new 9"
proof -
  have "atom_resolve 0 atom_table_new = Some (str_bytes ''ok'')" "atom_resolve 9 atom_table_new = Some (str_bytes ''badarg'')"
    using seat_common_fold [OF common_atoms_distinct, of _ "0 :: u32"] seat_common_fold [OF common_atoms_distinct, of _ "9 :: u32"]
    by (simp_all add: atom_table_new_def atom_resolve_def COMMON_ATOMS_def)
  moreover have "utf8_valid (str_bytes ''ok'')" "utf8_valid (str_bytes ''badarg'')" by code_simp+
  ultimately show "sendable atom_table_new 0" "sendable atom_table_new 9" by (auto simp: sendable_def str_bytes_def)
qed

theorem atom_cache_round_trip_witness:
  "\<exists>c' header payload bytes r1 tr' bs r'.
    encode_atoms [0, 9, 0] atom_table_new (cache_new, [], []) = (Inr (), c', header, payload) \<and> encode_header header = Inr bytes \<and>
    decode_header bytes (cache_new, atom_table_new) = (Inr header, r1, tr') \<and> decode_atoms payload r1 = (Inr (map atom_term bs), r') \<and>
    map (\<lambda>b. atom_resolve b tr') bs = map (\<lambda>a. atom_resolve a atom_table_new) [0, 9, 0] \<and> linked c' atom_table_new r' tr' 1000"
proof (rule atom_cache_round_trip)
  show "linked cache_new atom_table_new cache_new atom_table_new (1000 + 255)"
    by (intro linked_new atom_table_new_room) simp_all
  show "\<forall>a\<in>set [0, 9, 0]. sendable atom_table_new a" by (simp add: common_sendable)
  show "card (set [0, 9, 0 :: u32]) \<le> 255" by (simp add: card_insert_if)
qed

text \<open>
  The bound on the different atoms of a message is needed and not enforced. A full cache of which a
  message refers to two entries, followed by 255 new atoms, overwrites the slot of the first with
  the last: encoding succeeds with one index for two different atoms, and no decoder can tell them
  apart, because the header is applied before the payload is read.
\<close>

lemma full_cache_insert:
  assumes ok: "cache_ok c" and full: "\<forall>j :: u8. slots c ! unat j \<noteq> None" and q: "lru c = i # q"
    and a: "by_atom c a = None" "sendable t a" and h: "length h < 255"
  obtains c' h' where "encode_atom_reference a t (c, h, out) = (Inr i, c', h', out @ [ATOM_CACHE_REF, i])" "cache_ok c'"
    "\<forall>j :: u8. slots c' ! unat j = (if i = j then Some a else slots c ! unat j)" "lru c' = q @ [i]" "length h' = Suc (length h)"
proof -
  obtain n where n: "atom_resolve a t = Some n" "length n \<le> 65535" using a(2) by (auto simp: sendable_def)
  obtain i' c' where ins: "cache_insert a c = (i', c')" "cache_ok c'"
    "\<And>j :: u8. slots c' ! unat j = (if i' = j then Some a else slots c ! unat j)" "lru c' = filter (\<lambda>j. j \<noteq> i') (lru c) @ [i']"
    "slots c ! unat i' = None \<or> (\<exists>q. lru c = i' # q) \<and> (\<forall>j :: u8. slots c ! unat j \<noteq> None)"
    by (rule cache_insert_fresh [OF ok a(1)]) (rule that; assumption)
  have "i' = i" using ins(5) full q by auto
  moreover have "filter (\<lambda>j. j \<noteq> i) q = q" using cache_okD(3) [OF ok] q by (auto intro: filter_True)
  ultimately show thesis using ins a(1) n h q
    by (intro that [of c' "h @ [\<lparr>entry_index = i, entry_name = n\<rparr>]"])
      (auto simp: encode_atom_reference_def lookup_by_atom_def can_encode_another_entry_def)
qed

lemma full_cache_cycles:
  assumes "cache_ok c" "\<forall>j :: u8. slots c ! unat j \<noteq> None" "lru c = q @ p" "length fs = length q" "length h + length q \<le> 255"
    "distinct fs" "\<forall>a\<in>set fs. by_atom c a = None \<and> sendable t a"
  shows "\<exists>c' h'. encode_atoms fs t (c, h, out) = (Inr (), c', h', out @ concat (map (\<lambda>i. [ATOM_CACHE_REF, i]) q))"
  using assms
proof (induction q arbitrary: c p fs h out)
  case (Cons i q)
  then obtain a gs where fs: "fs = a # gs" by (cases fs) auto
  have lq: "lru c = i # (q @ p)" and a: "by_atom c a = None" "sendable t a" and h: "length h < 255"
    using Cons.prems(3,5,7) fs by auto
  obtain c1 h1 where e: "encode_atom_reference a t (c, h, out) = (Inr i, c1, h1, out @ [ATOM_CACHE_REF, i])" "cache_ok c1"
    and sl: "\<forall>j :: u8. slots c1 ! unat j = (if i = j then Some a else slots c ! unat j)"
    and lr: "lru c1 = (q @ p) @ [i]" "length h1 = Suc (length h)"
    by (rule full_cache_insert [OF Cons.prems(1,2) lq a h, of out])
  have "by_atom c1 b = None" if "b \<in> set gs" for b
  proof (cases "by_atom c1 b")
    case (Some j)
    then have "slots c1 ! unat j = Some b" using cache_okD(2) [OF e(2)] by simp
    then have "by_atom c b = Some j" using sl that Cons.prems(6) fs cache_okD(2) [OF Cons.prems(1)] by (auto split: if_splits)
    then show ?thesis using that Cons.prems(7) fs by simp
  qed
  then have "\<exists>c' h'. encode_atoms gs t (c1, h1, out @ [ATOM_CACHE_REF, i]) =
      (Inr (), c', h', (out @ [ATOM_CACHE_REF, i]) @ concat (map (\<lambda>i. [ATOM_CACHE_REF, i]) q))"
    by (intro Cons.IH [of c1 "p @ [i]"]) (use Cons.prems fs e(2) sl lr in \<open>simp_all add: sl\<close>)
  then show ?case using fs e(1) by auto
qed simp

lemma too_many_atoms_share_an_index:
  assumes ok: "cache_ok c" and full: "\<forall>j :: u8. slots c ! unat j \<noteq> None" and ix: "lru c = i1 # i2 # q"
    and x: "by_atom c x1 = Some i1" "by_atom c x2 = Some i2"
    and fs: "length fs = 255" "distinct fs" "\<forall>a\<in>set fs. by_atom c a = None \<and> sendable t a"
  shows "\<exists>c' h mid. encode_atoms (x1 # x2 # fs) t (c, [], []) =
      (Inr (), c', h, [ATOM_CACHE_REF, i1] @ mid @ [ATOM_CACHE_REF, i1]) \<and> x1 \<noteq> last fs"
proof -
  let ?c = "touch i2 (touch i1 c)"
  have d: "distinct (lru c)" "set (lru c) = UNIV" using cache_okD(3,4) [OF ok] full by auto
  have "length (lru c) = card (UNIV :: u8 set)" using d by (metis distinct_card)
  then have len: "length q = 254" using ix by (simp add: card_word)
  have neq: "i1 \<noteq> i2" "i1 \<notin> set q" "i2 \<notin> set q" using d(1) ix by auto
  then have lr: "lru ?c = q @ [i1, i2]" by (auto simp: ix filter_id_conv)
  have okc: "cache_ok ?c" by (intro touch_ok ok) (use full in simp_all)
  have two: "encode_atom_reference x1 t (c, [], []) = (Inr i1, touch i1 c, [], [ATOM_CACHE_REF, i1])"
    "encode_atom_reference x2 t (touch i1 c, [], [ATOM_CACHE_REF, i1]) = (Inr i2, ?c, [], [ATOM_CACHE_REF, i1, ATOM_CACHE_REF, i2])"
    using x by (simp_all add: encode_atom_reference_def lookup_by_atom_def)
  have "\<exists>c' h. encode_atoms fs t (?c, [], [ATOM_CACHE_REF, i1, ATOM_CACHE_REF, i2]) =
      (Inr (), c', h, [ATOM_CACHE_REF, i1, ATOM_CACHE_REF, i2] @ concat (map (\<lambda>i. [ATOM_CACHE_REF, i]) (q @ [i1])))"
    by (rule full_cache_cycles [OF okc, of "q @ [i1]" "[i2]" fs "[]" t]) (use full lr fs len in simp_all)
  then obtain c' h where "encode_atoms (x1 # x2 # fs) t (c, [], []) = (Inr (), c', h,
      [ATOM_CACHE_REF, i1] @ ([ATOM_CACHE_REF, i2] @ concat (map (\<lambda>i. [ATOM_CACHE_REF, i]) q)) @ [ATOM_CACHE_REF, i1])"
    using two by auto
  moreover have "x1 \<noteq> last fs" using fs x(1) by (metis last_in_set list.size(3) option.distinct(1) zero_neq_numeral)
  ultimately show ?thesis by blast
qed

end
