(* ===== verification/Process_Groups.thy ===== *)
theory Process_Groups
  imports Term_Word "HOL-Library.AList" "HOL-Library.Multiset" "HOL-Library.Product_Lexorder"
begin

text \<open>
  Process groups (\<^verbatim>\<open>crates/beamr/src/distribution/pg.rs\<close>) and their propagation to another node
  (\<^verbatim>\<open>scheduler/pg_propagation.rs\<close>, \<open>dispatch_frame\<close> of \<^verbatim>\<open>distribution/control_link.rs\<close>).

  The hash map of groups is an association list in its iteration order, and the world below may
  reorder it at any time. An operation returns the updates it would broadcast; it does so after
  releasing the lock, so in the world updates wait in flight between the two. Atoms stand for their
  names, which is what the wire carries. A member is sent with the sender's node and serial 0.
\<close>

section \<open>Membership\<close>

record RemoteMember =
  node :: u32
  pid_number :: u64
  serial :: u64

datatype PgUpdate = PgJoin u32 u32 u64 | PgLeave u32 u32 u64

record GroupMembers =
  gm_local :: "u64 set"
  gm_remote :: "RemoteMember set"

record PgState =
  scopes :: "u32 set"
  groups :: "((u32 \<times> u32) \<times> GroupMembers) list"

definition members_default :: GroupMembers where
  "members_default = \<lparr>gm_local = {}, gm_remote = {}\<rparr>"

definition pg_new :: "u32 \<Rightarrow> PgState" where
  "pg_new default_scope = \<lparr>scopes = {default_scope}, groups = []\<rparr>"

definition start_scope :: "u32 \<Rightarrow> PgState \<Rightarrow> PgState" where
  "start_scope scope s = s\<lparr>scopes := insert scope (scopes s)\<rparr>"

text \<open>\<open>entry(key).or_default()\<close>, and the members of a key.\<close>

definition members_of :: "u32 \<times> u32 \<Rightarrow> PgState \<Rightarrow> GroupMembers" where
  "members_of key s = (case map_of (groups s) key of Some members \<Rightarrow> members | None \<Rightarrow> members_default)"

definition set_members :: "u32 \<times> u32 \<Rightarrow> GroupMembers \<Rightarrow> PgState \<Rightarrow> PgState" where
  "set_members key members s = s\<lparr>groups := AList.update key members (groups s)\<rparr>"

definition pg_join :: "u32 \<Rightarrow> u32 \<Rightarrow> u64 \<Rightarrow> PgState \<Rightarrow> PgUpdate list \<times> PgState" where
  "pg_join scope grp pid s =
     (let s = start_scope scope s;
          members = members_of (scope, grp) s;
          inserted = (pid \<notin> gm_local members);
          s = set_members (scope, grp) (members\<lparr>gm_local := insert pid (gm_local members)\<rparr>) s
      in (if inserted then [PgJoin scope grp pid] else [], s))"

definition pg_leave :: "u32 \<Rightarrow> u32 \<Rightarrow> u64 \<Rightarrow> PgState \<Rightarrow> PgUpdate list \<times> PgState" where
  "pg_leave scope grp pid s =
     (case map_of (groups s) (scope, grp) of
        None \<Rightarrow> ([], s)
      | Some members \<Rightarrow>
          (if pid \<in> gm_local members then [PgLeave scope grp pid] else [],
           set_members (scope, grp) (members\<lparr>gm_local := gm_local members - {pid}\<rparr>) s))"

definition local_members :: "u32 \<Rightarrow> u32 \<Rightarrow> PgState \<Rightarrow> u64 list" where
  "local_members scope grp s =
     (case map_of (groups s) (scope, grp) of None \<Rightarrow> [] | Some members \<Rightarrow> sorted_list_of_set (gm_local members))"

text \<open>The sort key is the whole identity, so it determines the order.\<close>

definition member_key :: "RemoteMember \<Rightarrow> u32 \<times> u64 \<times> u64" where
  "member_key m = (node m, pid_number m, serial m)"

definition member_of_key :: "u32 \<times> u64 \<times> u64 \<Rightarrow> RemoteMember" where
  "member_of_key k = (case k of (n, p, r) \<Rightarrow> \<lparr>node = n, pid_number = p, serial = r\<rparr>)"

definition remote_members :: "u32 \<Rightarrow> u32 \<Rightarrow> PgState \<Rightarrow> RemoteMember list" where
  "remote_members scope grp s =
     (case map_of (groups s) (scope, grp) of
        None \<Rightarrow> []
      | Some members \<Rightarrow> map member_of_key (sorted_list_of_set (member_key ` gm_remote members)))"

definition apply_remote_join :: "u32 \<Rightarrow> u32 \<Rightarrow> RemoteMember \<Rightarrow> PgState \<Rightarrow> PgState" where
  "apply_remote_join scope grp member s =
     (let s = start_scope scope s; members = members_of (scope, grp) s
      in set_members (scope, grp) (members\<lparr>gm_remote := insert member (gm_remote members)\<rparr>) s)"

definition apply_remote_leave :: "u32 \<Rightarrow> u32 \<Rightarrow> RemoteMember \<Rightarrow> PgState \<Rightarrow> PgState" where
  "apply_remote_leave scope grp member s =
     (case map_of (groups s) (scope, grp) of
        None \<Rightarrow> s
      | Some members \<Rightarrow> set_members (scope, grp) (members\<lparr>gm_remote := gm_remote members - {member}\<rparr>) s)"

text \<open>The scan visits the groups in iteration order.\<close>

definition leave_of :: "u64 \<Rightarrow> (u32 \<times> u32) \<times> GroupMembers \<Rightarrow> PgUpdate list" where
  "leave_of pid entry = (case entry of ((scope, grp), members) \<Rightarrow>
     if pid \<in> gm_local members then [PgLeave scope grp pid] else [])"

definition remove_pid_from_all_scopes_local :: "u64 \<Rightarrow> PgState \<Rightarrow> PgUpdate list \<times> PgState" where
  "remove_pid_from_all_scopes_local pid s =
     (concat (map (leave_of pid) (groups s)),
      s\<lparr>groups := map (\<lambda>(key, members). (key, members\<lparr>gm_local := gm_local members - {pid}\<rparr>)) (groups s)\<rparr>)"

definition purge_remote_node :: "u32 \<Rightarrow> PgState \<Rightarrow> PgState" where
  "purge_remote_node n s =
     s\<lparr>groups := map (\<lambda>(key, members). (key, members\<lparr>gm_remote := {m \<in> gm_remote members. node m \<noteq> n}\<rparr>)) (groups s)\<rparr>"

section \<open>The functions a program calls\<close>

text \<open>
  Arguments are term words. The facility is present or not; with it come its default scope and the
  state. \<open>Inl\<close> is the error term a function returns.
\<close>

definition badarg :: u64 where "badarg = atom_term 9"
definition ok_term :: u64 where "ok_term = atom_term 0"

type_synonym pg_facility = "(u32 \<times> PgState) option"
type_synonym pg_answer = "(u64 + u64) \<times> PgUpdate list \<times> pg_facility"

definition bif_start_link_1 :: "u64 list \<Rightarrow> pg_facility \<Rightarrow> pg_answer" where
  "bif_start_link_1 args f =
     (case args of
        [scope] \<Rightarrow>
          (case as_atom scope of
             None \<Rightarrow> (Inl badarg, [], f)
           | Some scope \<Rightarrow>
               (case f of None \<Rightarrow> (Inl badarg, [], f) | Some (d, s) \<Rightarrow> (Inr ok_term, [], Some (d, start_scope scope s))))
      | _ \<Rightarrow> (Inl badarg, [], f))"

definition bif_change :: "(u32 \<Rightarrow> u32 \<Rightarrow> u64 \<Rightarrow> PgState \<Rightarrow> PgUpdate list \<times> PgState) \<Rightarrow>
    u32 \<Rightarrow> u64 \<Rightarrow> u64 \<Rightarrow> u32 \<times> PgState \<Rightarrow> pg_answer" where
  "bif_change change scope grp pid ds = (case ds of (d, s) \<Rightarrow>
     (case as_atom grp of
        None \<Rightarrow> (Inl badarg, [], Some (d, s))
      | Some grp \<Rightarrow>
          (case as_pid pid of
             None \<Rightarrow> (Inl badarg, [], Some (d, s))
           | Some pid \<Rightarrow> (case change scope grp pid s of (us, s) \<Rightarrow> (Inr ok_term, us, Some (d, s))))))"

definition bif_change_2 where
  "bif_change_2 change args f =
     (case args of
        [grp, pid] \<Rightarrow> (case f of None \<Rightarrow> (Inl badarg, [], f) | Some (d, s) \<Rightarrow> bif_change change d grp pid (d, s))
      | _ \<Rightarrow> (Inl badarg, [], f))"

definition bif_change_3 where
  "bif_change_3 change args f =
     (case args of
        [scope, grp, pid] \<Rightarrow>
          (case as_atom scope of
             None \<Rightarrow> (Inl badarg, [], f)
           | Some scope \<Rightarrow> (case f of None \<Rightarrow> (Inl badarg, [], f) | Some (d, s) \<Rightarrow> bif_change change scope grp pid (d, s)))
      | _ \<Rightarrow> (Inl badarg, [], f))"

definition bif_join_2 :: "u64 list \<Rightarrow> pg_facility \<Rightarrow> pg_answer" where "bif_join_2 = bif_change_2 pg_join"
definition bif_join_3 :: "u64 list \<Rightarrow> pg_facility \<Rightarrow> pg_answer" where "bif_join_3 = bif_change_3 pg_join"
definition bif_leave_2 :: "u64 list \<Rightarrow> pg_facility \<Rightarrow> pg_answer" where "bif_leave_2 = bif_change_2 pg_leave"
definition bif_leave_3 :: "u64 list \<Rightarrow> pg_facility \<Rightarrow> pg_answer" where "bif_leave_3 = bif_change_3 pg_leave"

lemma bif_errors_change_nothing:
  assumes "b \<in> {bif_start_link_1, bif_join_2, bif_join_3, bif_leave_2, bif_leave_3}" "b args f = (Inl e, us, f')"
  shows "e = badarg \<and> us = [] \<and> f' = f"
  using assms by (auto simp: bif_start_link_1_def bif_join_2_def bif_join_3_def bif_leave_2_def bif_leave_3_def bif_change_2_def
      bif_change_3_def bif_change_def split: list.splits option.splits prod.splits)

section \<open>Two nodes\<close>

text \<open>
  Node \<open>a\<close> and one peer it is connected to. \<open>in_flight\<close> holds, for each operation that has
  released the lock, the updates it has yet to broadcast; \<open>lane\<close> is the queue of frames to the
  peer, written in order. The peer's own members and those of other nodes change independently.
\<close>

record PgWorld =
  own :: PgState
  in_flight :: "PgUpdate list list"
  lane :: "PgUpdate list"
  peer :: PgState

definition deliver_update :: "u32 \<Rightarrow> PgUpdate \<Rightarrow> PgState \<Rightarrow> PgState" where
  "deliver_update a u s = (case u of
     PgJoin scope grp pid \<Rightarrow> apply_remote_join scope grp \<lparr>node = a, pid_number = pid, serial = 0\<rparr> s
   | PgLeave scope grp pid \<Rightarrow> apply_remote_leave scope grp \<lparr>node = a, pid_number = pid, serial = 0\<rparr> s)"

text \<open>
  Broadcasting puts the frame of an update on the queue to the peer; the sender drops it when the
  queue has no room.
\<close>

definition send_frame :: "bool \<Rightarrow> PgUpdate \<Rightarrow> PgUpdate list \<Rightarrow> PgUpdate list" where
  "send_frame room u queue = (if room then queue @ [u] else queue)"

lemma send_frame_simps [simp]: "send_frame True u queue = queue @ [u]" "send_frame False u queue = queue"
  by (simp_all add: send_frame_def)

inductive pg_op :: "PgUpdate list \<Rightarrow> PgState \<Rightarrow> PgState \<Rightarrow> bool" where
  op_start: "pg_op [] s (start_scope scope s)"
| op_join: "pg_join scope grp pid s = (us, s') \<Longrightarrow> pg_op us s s'"
| op_leave: "pg_leave scope grp pid s = (us, s') \<Longrightarrow> pg_op us s s'"
| op_exit: "remove_pid_from_all_scopes_local pid s = (us, s') \<Longrightarrow> pg_op us s s'"
| op_rehash: "mset gs = mset (groups s) \<Longrightarrow> pg_op [] s (s\<lparr>groups := gs\<rparr>)"

inductive pg_remote :: "u32 set \<Rightarrow> PgState \<Rightarrow> PgState \<Rightarrow> bool" for A where
  remote_join: "node m \<in> A \<Longrightarrow> pg_remote A s (apply_remote_join scope grp m s)"
| remote_leave: "node m \<in> A \<Longrightarrow> pg_remote A s (apply_remote_leave scope grp m s)"
| remote_purge: "n \<in> A \<Longrightarrow> pg_remote A s (purge_remote_node n s)"

inductive pg_step :: "u32 \<Rightarrow> PgWorld \<Rightarrow> PgWorld \<Rightarrow> bool" for a where
  own_op: "pg_op us (own x) s \<Longrightarrow> pg_step a x (x\<lparr>own := s, in_flight := in_flight x @ [us]\<rparr>)"
| own_remote: "pg_remote UNIV (own x) s \<Longrightarrow> pg_step a x (x\<lparr>own := s\<rparr>)"
| broadcast: "in_flight x = before @ (u # us) # after \<Longrightarrow>
     pg_step a x (x\<lparr>in_flight := before @ us # after, lane := send_frame True u (lane x)\<rparr>)"
| receive: "lane x = u # us \<Longrightarrow> pg_step a x (x\<lparr>lane := us, peer := deliver_update a u (peer x)\<rparr>)"
| peer_op: "pg_op us (peer x) s \<Longrightarrow> pg_step a x (x\<lparr>peer := s\<rparr>)"
| peer_remote: "pg_remote (- {a}) (peer x) s \<Longrightarrow> pg_step a x (x\<lparr>peer := s\<rparr>)"

definition pg_world :: "u32 \<Rightarrow> PgWorld" where
  "pg_world d = \<lparr>own = pg_new d, in_flight = [], lane = [], peer = pg_new d\<rparr>"

text \<open>In \<open>pg_step\<close> the sender always has room. Here it may also lack it.\<close>

inductive pg_lossy_step :: "u32 \<Rightarrow> PgWorld \<Rightarrow> PgWorld \<Rightarrow> bool" for a where
  kept: "pg_step a x y \<Longrightarrow> pg_lossy_step a x y"
| refused: "in_flight x = before @ (u # us) # after \<Longrightarrow> 
     pg_lossy_step a x (x\<lparr>in_flight := before @ us # after, lane := send_frame False u (lane x)\<rparr>)"

section \<open>What each operation changes\<close>

definition pg_ok :: "PgState \<Rightarrow> bool" where
  "pg_ok s \<longleftrightarrow> distinct (map fst (groups s)) \<and> (\<forall>m\<in>snd ` set (groups s). finite (gm_local m) \<and> finite (gm_remote m))"

definition local_in :: "u32 \<times> u32 \<times> u64 \<Rightarrow> PgState \<Rightarrow> bool" where
  "local_in k s = (case k of (scope, grp, pid) \<Rightarrow> pid \<in> gm_local (members_of (scope, grp) s))"

definition remote_in :: "u32 \<Rightarrow> u32 \<Rightarrow> RemoteMember \<Rightarrow> PgState \<Rightarrow> bool" where
  "remote_in scope grp m s \<longleftrightarrow> m \<in> gm_remote (members_of (scope, grp) s)"

lemma members_of_set [simp]: "members_of k (set_members k' m s) = (if k = k' then m else members_of k s)"
  by (simp add: members_of_def set_members_def update_conv')

lemma members_of_start [simp]: "members_of k (start_scope scope s) = members_of k s"
  by (simp add: members_of_def start_scope_def)

lemma members_of_map:
  assumes "\<And>m. gm_local m = {} \<Longrightarrow> gm_remote m = {} \<Longrightarrow> f m = m"
  shows "members_of k (s\<lparr>groups := map (\<lambda>(key, m). (key, f m)) (groups s)\<rparr>) = f (members_of k s)"
proof -
  have "map_of (map (\<lambda>(key, m). (key, f m)) (groups s)) k = map_option f (map_of (groups s) k)" by (simp add: map_of_map)
  moreover have "f members_default = members_default" by (rule assms) (simp_all add: members_default_def)
  ultimately show ?thesis by (simp add: members_of_def split: option.splits)
qed

lemma members_of_Some: "map_of (groups s) k = Some m \<Longrightarrow> members_of k s = m"
  by (simp add: members_of_def)

lemma set_update_subset: "set (AList.update k v xs) \<subseteq> insert (k, v) (set xs)"
  by (induction xs) auto

lemma pg_ok_set_members:
  assumes "pg_ok s" "finite (gm_local m)" "finite (gm_remote m)"
  shows "pg_ok (set_members k m s)"
  using assms distinct_update [of "groups s" k m] set_update_subset [of k m "groups s"]
  unfolding pg_ok_def set_members_def by fastforce

lemma pg_ok_start [simp]: "pg_ok (start_scope scope s) = pg_ok s"
  by (simp add: pg_ok_def start_scope_def)

lemma pg_ok_finite: "pg_ok s \<Longrightarrow> finite (gm_local (members_of k s)) \<and> finite (gm_remote (members_of k s))"
  by (auto simp: pg_ok_def members_of_def members_default_def split: option.splits dest!: map_of_SomeD)

text \<open>The membership a sequence of updates leaves, for one process in one group.\<close>

fun upd_key :: "PgUpdate \<Rightarrow> u32 \<times> u32 \<times> u64" where
  "upd_key (PgJoin scope grp pid) = (scope, grp, pid)"
| "upd_key (PgLeave scope grp pid) = (scope, grp, pid)"

fun is_join :: "PgUpdate \<Rightarrow> bool" where
  "is_join (PgJoin _ _ _) = True"
| "is_join (PgLeave _ _ _) = False"

definition replay :: "u32 \<times> u32 \<times> u64 \<Rightarrow> PgUpdate list \<Rightarrow> bool \<Rightarrow> bool" where
  "replay k us b = fold (\<lambda>u b. if upd_key u = k then is_join u else b) us b"

lemma replay_simps [simp]:
  "replay k [] b = b" "replay k (u # us) b = replay k us (if upd_key u = k then is_join u else b)"
  "replay k (us @ vs) b = replay k vs (replay k us b)"
  by (simp_all add: replay_def)

lemma replay_other: "k \<notin> upd_key ` set us \<Longrightarrow> replay k us b = b"
  by (induction us) auto

definition same_remote :: "PgState \<Rightarrow> PgState \<Rightarrow> bool" where
  "same_remote s s' \<longleftrightarrow> (\<forall>k. gm_remote (members_of k s') = gm_remote (members_of k s))"

definition same_local :: "PgState \<Rightarrow> PgState \<Rightarrow> bool" where
  "same_local s s' \<longleftrightarrow> (\<forall>k. gm_local (members_of k s') = gm_local (members_of k s))"

lemma pg_join_effect:
  assumes "pg_ok s" "pg_join scope grp pid s = (us, s')"
  shows "pg_ok s' \<and> same_remote s s' \<and> (\<forall>k. local_in k s' = replay k us (local_in k s)) \<and>
    us = (if local_in (scope, grp, pid) s then [] else [PgJoin scope grp pid])"
proof -
  let ?m = "members_of (scope, grp) s"
  have s': "s' = set_members (scope, grp) (?m\<lparr>gm_local := insert pid (gm_local ?m)\<rparr>) (start_scope scope s)"
    and us: "us = (if pid \<in> gm_local ?m then [] else [PgJoin scope grp pid])"
    using assms(2) by (auto simp: pg_join_def Let_def)
  have "pg_ok s'" unfolding s' by (rule pg_ok_set_members) (use assms(1) pg_ok_finite [OF assms(1)] in simp_all)
  then show ?thesis by (auto simp: s' us same_remote_def local_in_def)
qed

lemma pg_leave_effect:
  assumes "pg_ok s" "pg_leave scope grp pid s = (us, s')"
  shows "pg_ok s' \<and> same_remote s s' \<and> (\<forall>k. local_in k s' = replay k us (local_in k s)) \<and>
    us = (if local_in (scope, grp, pid) s then [PgLeave scope grp pid] else [])"
proof (cases "map_of (groups s) (scope, grp)")
  case None
  then show ?thesis using assms by (auto simp: pg_leave_def same_remote_def local_in_def members_of_def members_default_def)
next
  case (Some m)
  then have s': "s' = set_members (scope, grp) (m\<lparr>gm_local := gm_local m - {pid}\<rparr>) s"
    and us: "us = (if pid \<in> gm_local m then [PgLeave scope grp pid] else [])"
    using assms(2) by (auto simp: pg_leave_def)
  note m = members_of_Some [OF Some]
  have "pg_ok s'" unfolding s' by (rule pg_ok_set_members) (use assms(1) pg_ok_finite [OF assms(1), of "(scope, grp)"] m in simp_all)
  then show ?thesis by (auto simp: s' us same_remote_def local_in_def m)
qed

lemma distinct_leaves: "distinct (map fst gs) \<Longrightarrow> distinct (map upd_key (concat (map (leave_of pid) gs)))"
proof (induction gs)
  case (Cons e gs)
  have "upd_key ` set (leave_of pid e) \<inter> upd_key ` set (concat (map (leave_of pid) gs)) = {}"
    using Cons.prems by (auto simp: leave_of_def split: prod.splits if_splits) (metis fst_conv image_eqI)
  moreover have "distinct (map upd_key (leave_of pid e))" by (auto simp: leave_of_def split: prod.splits)
  ultimately show ?case using Cons by (simp add: image_Un)
qed simp

lemma replay_leaves:
  assumes "distinct (map fst gs)"
  shows "replay (scope, grp, p) (concat (map (leave_of pid) gs)) b =
    (if p = pid \<and> (\<exists>m. map_of gs (scope, grp) = Some m \<and> pid \<in> gm_local m) then False else b)"
  using assms
proof (induction gs arbitrary: b)
  case (Cons e gs)
  obtain s' g' m where e: "e = ((s', g'), m)" by (metis surj_pair)
  have "map_of gs (s', g') = None" using Cons.prems e by (simp add: map_of_eq_None_iff)
  then show ?case using Cons by (auto simp: e leave_of_def)
qed simp

lemma local_in_iff: "local_in (scope, grp, p) s \<longleftrightarrow> (\<exists>m. map_of (groups s) (scope, grp) = Some m \<and> p \<in> gm_local m)"
  by (auto simp: local_in_def members_of_def members_default_def split: option.splits)

lemma pg_exit_effect:
  assumes "pg_ok s" "remove_pid_from_all_scopes_local pid s = (us, s')"
  shows "pg_ok s' \<and> same_remote s s' \<and> (\<forall>k. local_in k s' = replay k us (local_in k s)) \<and> distinct (map upd_key us) \<and>
    (\<forall>scope grp p. local_in (scope, grp, p) s' \<longleftrightarrow> p \<noteq> pid \<and> local_in (scope, grp, p) s) \<and>
    set us = {PgLeave scope grp pid |scope grp. local_in (scope, grp, pid) s}"
proof -
  let ?f = "\<lambda>m. m\<lparr>gm_local := gm_local m - {pid}\<rparr>"
  have us: "us = concat (map (leave_of pid) (groups s))"
    and s': "s' = s\<lparr>groups := map (\<lambda>(key, m). (key, ?f m)) (groups s)\<rparr>"
    using assms(2) by (simp_all add: remove_pid_from_all_scopes_local_def)
  have mem: "members_of k s' = ?f (members_of k s)" for k unfolding s' by (rule members_of_map) simp
  have d: "distinct (map fst (groups s))" using assms(1) by (simp add: pg_ok_def)
  have "map fst (groups s') = map fst (groups s)" by (simp add: s' split_def)
  moreover have "\<forall>m\<in>snd ` set (groups s'). finite (gm_local m) \<and> finite (gm_remote m)"
    using assms(1) by (auto simp: pg_ok_def s')
  ultimately have ok: "pg_ok s'" using d unfolding pg_ok_def by metis
  have loc: "local_in (scope, grp, p) s' \<longleftrightarrow> p \<noteq> pid \<and> local_in (scope, grp, p) s" for scope grp p
    by (auto simp: local_in_def mem)
  have rep: "local_in (scope, grp, p) s' = replay (scope, grp, p) us (local_in (scope, grp, p) s)" for scope grp p
    by (auto simp: us loc replay_leaves [OF d] simp flip: local_in_iff)
  have leaves: "PgLeave scope grp pid \<in> set us \<longleftrightarrow> local_in (scope, grp, pid) s" for scope grp
  proof -
    have "PgLeave scope grp pid \<in> set us \<longleftrightarrow> (\<exists>m. ((scope, grp), m) \<in> set (groups s) \<and> pid \<in> gm_local m)"
      by (force simp: us leave_of_def split: if_splits prod.splits)
    then show ?thesis using map_of_eq_Some_iff [OF d] by (simp add: local_in_iff)
  qed
  have only: "\<exists>scope grp. u = PgLeave scope grp pid" if "u \<in> set us" for u
    using that by (auto simp: us leave_of_def split: prod.splits if_splits)
  have "set us = {PgLeave scope grp pid |scope grp. local_in (scope, grp, pid) s}"
  proof (rule set_eqI)
    fix u
    show "u \<in> set us \<longleftrightarrow> u \<in> {PgLeave scope grp pid |scope grp. local_in (scope, grp, pid) s}"
    proof (cases "\<exists>scope grp. u = PgLeave scope grp pid")
      case True
      then obtain scope grp where "u = PgLeave scope grp pid" by blast
      then show ?thesis using leaves [of scope grp] by simp
    qed (use only [of u] in blast)
  qed
  then show ?thesis using ok loc rep distinct_leaves [OF d] mem by (simp add: us same_remote_def)
qed

lemma pg_rehash_effect:
  assumes "pg_ok s" "mset gs = mset (groups s)"
  shows "pg_ok (s\<lparr>groups := gs\<rparr>) \<and> members_of k (s\<lparr>groups := gs\<rparr>) = members_of k s"
proof -
  have "mset (map fst gs) = mset (map fst (groups s))" using assms(2) by simp
  then have "distinct (map fst gs)" using assms(1) mset_eq_imp_distinct_iff unfolding pg_ok_def by blast
  moreover have "set gs = set (groups s)" using assms(2) by (rule mset_eq_setD)
  ultimately show ?thesis
    using assms(1) map_of_inject_set [of gs "groups s"] by (simp add: pg_ok_def members_of_def)
qed

lemma pg_op_effect:
  assumes "pg_op us s s'" "pg_ok s"
  shows "pg_ok s' \<and> same_remote s s' \<and> (\<forall>k. local_in k s' = replay k us (local_in k s))"
  using assms
proof cases
  case (op_start scope)
  then show ?thesis using assms(2) by (simp add: same_remote_def local_in_def)
next
  case (op_rehash gs)
  then show ?thesis using pg_rehash_effect [OF assms(2)] by (simp add: same_remote_def local_in_def)
next
  case (op_join scope grp pid)
  then show ?thesis using pg_join_effect [OF assms(2)] by blast
next
  case (op_leave scope grp pid)
  then show ?thesis using pg_leave_effect [OF assms(2)] by blast
next
  case (op_exit pid)
  then show ?thesis using pg_exit_effect [OF assms(2)] by blast
qed

lemma pg_purge_effect:
  assumes "pg_ok s"
  shows "pg_ok (purge_remote_node n s) \<and> same_local s (purge_remote_node n s) \<and>
    (\<forall>scope grp m. remote_in scope grp m (purge_remote_node n s) \<longleftrightarrow> remote_in scope grp m s \<and> node m \<noteq> n)"
proof -
  let ?f = "\<lambda>m. m\<lparr>gm_remote := {x \<in> gm_remote m. node x \<noteq> n}\<rparr>"
  have mem: "members_of k (purge_remote_node n s) = ?f (members_of k s)" for k
    unfolding purge_remote_node_def by (rule members_of_map) simp
  have "map fst (groups (purge_remote_node n s)) = map fst (groups s)" by (simp add: purge_remote_node_def split_def)
  moreover have "\<forall>m\<in>snd ` set (groups (purge_remote_node n s)). finite (gm_local m) \<and> finite (gm_remote m)"
    using assms by (auto simp: pg_ok_def purge_remote_node_def)
  ultimately have "pg_ok (purge_remote_node n s)" using assms unfolding pg_ok_def by metis
  then show ?thesis by (auto simp: same_local_def remote_in_def mem)
qed

lemma remote_join_effect:
  assumes "pg_ok s"
  shows "pg_ok (apply_remote_join scope grp m s) \<and> same_local s (apply_remote_join scope grp m s) \<and>
    (remote_in scope' grp' m' (apply_remote_join scope grp m s) \<longleftrightarrow> (scope', grp', m') = (scope, grp, m) \<or> remote_in scope' grp' m' s)"
proof -
  let ?g = "members_of (scope, grp) s"
  have s': "apply_remote_join scope grp m s = set_members (scope, grp) (?g\<lparr>gm_remote := insert m (gm_remote ?g)\<rparr>) (start_scope scope s)"
    by (simp add: apply_remote_join_def Let_def)
  have "pg_ok (apply_remote_join scope grp m s)"
    unfolding s' by (rule pg_ok_set_members) (use assms pg_ok_finite [OF assms] in simp_all)
  then show ?thesis by (auto simp: s' same_local_def remote_in_def)
qed

lemma remote_leave_effect:
  assumes "pg_ok s"
  shows "pg_ok (apply_remote_leave scope grp m s) \<and> same_local s (apply_remote_leave scope grp m s) \<and>
    (remote_in scope' grp' m' (apply_remote_leave scope grp m s) \<longleftrightarrow> (scope', grp', m') \<noteq> (scope, grp, m) \<and> remote_in scope' grp' m' s)"
proof (cases "map_of (groups s) (scope, grp)")
  case None
  then show ?thesis
    using assms by (auto simp: apply_remote_leave_def same_local_def remote_in_def members_of_def members_default_def split: option.splits)
next
  case (Some g)
  then have s': "apply_remote_leave scope grp m s = set_members (scope, grp) (g\<lparr>gm_remote := gm_remote g - {m}\<rparr>) s"
    by (simp add: apply_remote_leave_def)
  note g = members_of_Some [OF Some]
  have "pg_ok (apply_remote_leave scope grp m s)"
    unfolding s' by (rule pg_ok_set_members) (use assms pg_ok_finite [OF assms, of "(scope, grp)"] g in simp_all)
  then show ?thesis by (auto simp: s' same_local_def remote_in_def g)
qed

lemma pg_remote_effect:
  assumes "pg_remote A s s'" "pg_ok s"
  shows "pg_ok s' \<and> same_local s s' \<and> (node m \<notin> A \<longrightarrow> remote_in scope grp m s' = remote_in scope grp m s)"
  using assms
proof cases
  case (remote_join m' scope' grp')
  then show ?thesis using remote_join_effect [OF assms(2), of scope' grp' m'] by auto
next
  case (remote_leave m' scope' grp')
  then show ?thesis using remote_leave_effect [OF assms(2), of scope' grp' m'] by auto
next
  case (remote_purge n)
  then show ?thesis using pg_purge_effect [OF assms(2), of n] by auto
qed

text \<open>The lists a program sees.\<close>

lemma local_members_set:
  assumes "pg_ok s"
  shows "set (local_members scope grp s) = {p. local_in (scope, grp, p) s}"
  using pg_ok_finite [OF assms, of "(scope, grp)"]
  by (auto simp: local_members_def local_in_def members_of_def members_default_def split: option.splits)

lemma member_key_inverse [simp]: "member_of_key (member_key m) = m"
  by (simp add: member_of_key_def member_key_def)

lemma remote_members_set:
  assumes "pg_ok s"
  shows "set (remote_members scope grp s) = {m. remote_in scope grp m s}"
  using pg_ok_finite [OF assms, of "(scope, grp)"]
  by (auto simp: remote_members_def remote_in_def members_of_def members_default_def image_image split: option.splits)

lemma pg_new_ok: "pg_ok (pg_new d)" "\<not> local_in k (pg_new d)" "\<not> remote_in scope grp m (pg_new d)"
  by (simp_all add: pg_ok_def pg_new_def local_in_def remote_in_def members_of_def members_default_def split: prod.splits)

inductive pg_change :: "PgState \<Rightarrow> PgState \<Rightarrow> bool" where
  "pg_op us s s' \<Longrightarrow> pg_change s s'"
| "pg_remote UNIV s s' \<Longrightarrow> pg_change s s'"

lemma pg_reachable_ok: "pg_change\<^sup>*\<^sup>* (pg_new d) s \<Longrightarrow> pg_ok s"
proof (induction rule: rtranclp_induct)
  case (step s s')
  from step.hyps(2) show ?case
    by cases (use pg_op_effect [OF _ step.IH] pg_remote_effect [OF _ step.IH] in blast)+
qed (rule pg_new_ok)

text \<open>
  C21. In every registry that operations and remote updates lead to: when a process exits it is
  removed from every group of every scope, no other member is, and there is exactly one leave to
  broadcast for each group it was in; when a node goes down exactly the members of that node are
  removed, and no local ones.
\<close>

theorem pg_exit_and_purge_exact:
  assumes "pg_change\<^sup>*\<^sup>* (pg_new d) s" "remove_pid_from_all_scopes_local pid s = (us, s')"
  shows "set (local_members scope grp s') = set (local_members scope grp s) - {pid} \<and>
    set (remote_members scope grp s') = set (remote_members scope grp s) \<and>
    distinct us \<and> (u \<in> set us \<longleftrightarrow> (\<exists>scope grp. u = PgLeave scope grp pid \<and> pid \<in> set (local_members scope grp s))) \<and>
    set (remote_members scope grp (purge_remote_node n s)) = {m \<in> set (remote_members scope grp s). node m \<noteq> n} \<and>
    set (local_members scope grp (purge_remote_node n s)) = set (local_members scope grp s)"
proof -
  have ok: "pg_ok s" by (rule pg_reachable_ok [OF assms(1)])
  note e = pg_exit_effect [OF ok assms(2)] and pu = pg_purge_effect [OF ok, of n]
  have "distinct us" using e by (simp add: distinct_map)
  moreover have "set (local_members scope grp s') = set (local_members scope grp s) - {pid}"
  proof -
    have "pg_ok s'" and loc: "\<And>p. local_in (scope, grp, p) s' \<longleftrightarrow> p \<noteq> pid \<and> local_in (scope, grp, p) s" using e by blast+
    then show ?thesis by (auto simp: local_members_set ok loc)
  qed
  moreover have "set (remote_members scope grp s') = set (remote_members scope grp s)"
    using e by (simp add: remote_members_set ok same_remote_def remote_in_def)
  moreover have "u \<in> set us \<longleftrightarrow> (\<exists>scope grp. u = PgLeave scope grp pid \<and> pid \<in> set (local_members scope grp s))"
    using e by (auto simp: local_members_set ok)
  moreover have "set (remote_members scope grp (purge_remote_node n s)) = {m \<in> set (remote_members scope grp s). node m \<noteq> n}"
    "set (local_members scope grp (purge_remote_node n s)) = set (local_members scope grp s)"
    using pu by (auto simp: remote_members_set local_members_set ok same_local_def local_in_def)
  ultimately show ?thesis by blast
qed

section \<open>The peer's view\<close>

definition view_of :: "u32 \<Rightarrow> u32 \<times> u32 \<times> u64 \<Rightarrow> PgState \<Rightarrow> bool" where
  "view_of a k s = (case k of (scope, grp, pid) \<Rightarrow> remote_in scope grp \<lparr>node = a, pid_number = pid, serial = 0\<rparr> s)"

text \<open>
  A step is orderly when no two updates in flight are about the same process in the same group,
  which holds when changes to one membership are made one after the other.
\<close>

definition pg_orderly :: "u32 \<Rightarrow> PgWorld \<Rightarrow> PgWorld \<Rightarrow> bool" where
  "pg_orderly a x y \<longleftrightarrow> pg_step a x y \<and> distinct (map upd_key (concat (in_flight y)))"

definition pg_world_ok :: "u32 \<Rightarrow> PgWorld \<Rightarrow> bool" where
  "pg_world_ok a x \<longleftrightarrow> pg_ok (own x) \<and> pg_ok (peer x) \<and> distinct (map upd_key (concat (in_flight x))) \<and>
     (\<forall>k. local_in k (own x) = replay k (lane x @ concat (in_flight x)) (view_of a k (peer x))) \<and>
     (\<forall>scope grp m. remote_in scope grp m (peer x) \<longrightarrow> node m = a \<longrightarrow> serial m = 0)"

lemma deliver_effect:
  assumes "pg_ok s"
  shows "pg_ok (deliver_update a u s) \<and> same_local s (deliver_update a u s) \<and>
    view_of a k (deliver_update a u s) = (if upd_key u = k then is_join u else view_of a k s) \<and>
    (remote_in scope grp m (deliver_update a u s) \<longrightarrow> remote_in scope grp m s \<or> serial m = 0)"
proof (cases u)
  case (PgJoin scope' grp' pid)
  show ?thesis using remote_join_effect [OF assms, of scope' grp' "\<lparr>node = a, pid_number = pid, serial = 0\<rparr>"]
    by (auto simp: PgJoin deliver_update_def view_of_def split: prod.splits)
next
  case (PgLeave scope' grp' pid)
  show ?thesis using remote_leave_effect [OF assms, of scope' grp' "\<lparr>node = a, pid_number = pid, serial = 0\<rparr>"]
    by (auto simp: PgLeave deliver_update_def view_of_def split: prod.splits)
qed

text \<open>With one update of a key in flight, sending it does not change the order of that key's updates.\<close>

lemma replay_broadcast:
  assumes "distinct (map upd_key (vs @ u # ws))"
  shows "replay k (vs @ u # ws) b = replay k (u # vs @ ws) b"
  using assms replay_other [of k vs] by auto

lemma pg_world_ok_step:
  assumes ok: "pg_world_ok a x" and step: "pg_orderly a x y"
  shows "pg_world_ok a y"
proof -
  have st: "pg_step a x y" and dist: "distinct (map upd_key (concat (in_flight y)))" using step by (simp_all add: pg_orderly_def)
  have own: "pg_ok (own x)" and peer: "pg_ok (peer x)" and dx: "distinct (map upd_key (concat (in_flight x)))"
    and rep: "\<And>k. local_in k (own x) = replay k (lane x @ concat (in_flight x)) (view_of a k (peer x))"
    and ser: "\<And>scope grp m. remote_in scope grp m (peer x) \<Longrightarrow> node m = a \<Longrightarrow> serial m = 0"
    using ok by (auto simp: pg_world_ok_def)
  from st show ?thesis
  proof cases
    case (own_op us s)
    then show ?thesis using pg_op_effect [OF own_op(2) own] peer dist rep ser by (simp add: pg_world_ok_def)
  next
    case (own_remote s)
    have "pg_ok s" "same_local (own x) s" using pg_remote_effect [OF own_remote(2) own] by auto
    moreover from this(2) have "local_in k s = local_in k (own x)" for k by (simp add: same_local_def local_in_def split: prod.splits)
    ultimately show ?thesis using own_remote(1) peer dx rep ser by (simp add: pg_world_ok_def)
  next
    case (broadcast before u us after)
    have "replay k (concat (in_flight x)) b = replay k (u # concat before @ us @ concat after) b" for k b
      using replay_broadcast [of "concat before" u "us @ concat after"] dx broadcast(2) by simp
    then show ?thesis using own peer dist rep ser unfolding pg_world_ok_def broadcast(1) by simp
  next
    case (receive u us)
    note de = deliver_effect [OF peer, of a u]
    have "serial m = 0" if "remote_in scope grp m (peer y)" "node m = a" for scope grp m
      using that de [of _ scope grp m] ser [of scope grp m] receive(1) by auto
    then show ?thesis using de own dx rep receive by (simp add: pg_world_ok_def)
  next
    case (peer_op us s)
    have "pg_ok s" "same_remote (peer x) s" using pg_op_effect [OF peer_op(2) peer] by auto
    then show ?thesis using own dx rep ser unfolding pg_world_ok_def peer_op(1)
      by (simp add: same_remote_def view_of_def remote_in_def split: prod.splits)
  next
    case (peer_remote s)
    have "pg_ok s" "\<And>scope grp m. node m = a \<Longrightarrow> remote_in scope grp m s = remote_in scope grp m (peer x)"
      using pg_remote_effect [OF peer_remote(2) peer] by auto
    then have "pg_ok s" "view_of a k s = view_of a k (peer x)"
      "remote_in scope grp m s \<Longrightarrow> node m = a \<Longrightarrow> serial m = 0" for k scope grp m
      using ser by (auto simp: view_of_def split: prod.splits)
    then show ?thesis using own dx rep by (simp add: pg_world_ok_def peer_remote(1))
  qed
qed

lemma pg_world_ok_init: "pg_world_ok a (pg_world d)"
  using pg_new_ok by (simp add: pg_world_ok_def pg_world_def view_of_def split: prod.splits)

text \<open>
  C13. However joins, leaves and exits interleave with broadcasting and delivery, and whatever the
  peer itself and other nodes do, as long as the changes to one membership are not made
  concurrently: a process is a local member of a group exactly when replaying the updates under
  way over the peer's view makes it one; and once every update has arrived the peer lists exactly
  the local members.
\<close>

theorem pg_views_converge:
  assumes "(pg_orderly a)\<^sup>*\<^sup>* (pg_world d) x"
  shows "(p \<in> set (local_members scope grp (own x)) \<longleftrightarrow>
      replay (scope, grp, p) (lane x @ concat (in_flight x))
        (\<lparr>node = a, pid_number = p, serial = 0\<rparr> \<in> set (remote_members scope grp (peer x)))) \<and>
    (lane x = [] \<longrightarrow> concat (in_flight x) = [] \<longrightarrow>
      {m \<in> set (remote_members scope grp (peer x)). node m = a} =
        (\<lambda>p. \<lparr>node = a, pid_number = p, serial = 0\<rparr>) ` set (local_members scope grp (own x)))"
proof -
  have "pg_world_ok a x" using assms
    by (induction rule: rtranclp_induct) (auto simp: pg_world_ok_init intro: pg_world_ok_step)
  then have oks: "pg_ok (own x)" "pg_ok (peer x)"
    and rep: "\<And>p. local_in (scope, grp, p) (own x) = replay (scope, grp, p) (lane x @ concat (in_flight x))
        (remote_in scope grp \<lparr>node = a, pid_number = p, serial = 0\<rparr> (peer x))"
    and ser: "\<And>m. remote_in scope grp m (peer x) \<Longrightarrow> node m = a \<Longrightarrow> serial m = 0"
    by (auto simp: pg_world_ok_def view_of_def)
  have "m \<in> (\<lambda>p. \<lparr>node = a, pid_number = p, serial = 0\<rparr>) ` {p. local_in (scope, grp, p) (own x)}"
    if "lane x = []" "concat (in_flight x) = []" "remote_in scope grp m (peer x)" "node m = a" for m
  proof -
    have "m = \<lparr>node = a, pid_number = pid_number m, serial = 0\<rparr>" using that(3,4) ser by simp
    moreover from this that have "local_in (scope, grp, pid_number m) (own x)"
      unfolding rep that(1,2) by (metis append_Nil replay_simps(1))
    ultimately show ?thesis by (metis (mono_tags) image_eqI mem_Collect_eq)
  qed
  moreover have "remote_in scope grp \<lparr>node = a, pid_number = p, serial = 0\<rparr> (peer x)"
    if "lane x = []" "concat (in_flight x) = []" "local_in (scope, grp, p) (own x)" for p
    using that(3) unfolding rep that(1,2) by simp
  ultimately have "lane x = [] \<Longrightarrow> concat (in_flight x) = [] \<Longrightarrow> {m. remote_in scope grp m (peer x) \<and> node m = a} =
      (\<lambda>p. \<lparr>node = a, pid_number = p, serial = 0\<rparr>) ` {p. local_in (scope, grp, p) (own x)}"
    by fastforce
  then show ?thesis using rep by (simp add: local_members_set remote_members_set oks)
qed

lemma orderly_steps:
  assumes "pg_join scope grp pid (pg_new d) = ([PgJoin scope grp pid], s)"
  shows "(pg_orderly a)\<^sup>*\<^sup>* (pg_world d)
    \<lparr>own = s, in_flight = [[]], lane = [], peer = deliver_update a (PgJoin scope grp pid) (pg_new d)\<rparr>"
proof -
  let ?u = "PgJoin scope grp pid"
  let ?x = "\<lparr>own = s, in_flight = [[?u]], lane = [], peer = pg_new d\<rparr>"
  let ?y = "\<lparr>own = s, in_flight = [[]], lane = [?u], peer = pg_new d\<rparr>"
  have "pg_step a (pg_world d) ?x" using own_op [OF op_join, of scope grp pid "pg_world d" "[?u]" s a] assms
    by (simp add: pg_world_def)
  moreover have "pg_step a ?x ?y" using broadcast [of ?x "[]" ?u "[]" "[]" a] by simp
  moreover have "pg_step a ?y \<lparr>own = s, in_flight = [[]], lane = [], peer = deliver_update a ?u (pg_new d)\<rparr>"
    using receive [of ?y ?u "[]" a] by simp
  ultimately have "pg_orderly a (pg_world d) ?x" "pg_orderly a ?x ?y"
    "pg_orderly a ?y \<lparr>own = s, in_flight = [[]], lane = [], peer = deliver_update a ?u (pg_new d)\<rparr>"
    by (simp_all add: pg_orderly_def)
  then show ?thesis by (meson rtranclp.rtrancl_refl rtranclp.rtrancl_into_rtrancl)
qed

theorem pg_views_converge_witness:
  "\<exists>x. (pg_orderly 1)\<^sup>*\<^sup>* (pg_world 0) x \<and> local_members 2 3 (own x) = [7] \<and>
     {m \<in> set (remote_members 2 3 (peer x)). node m = 1} = {\<lparr>node = 1, pid_number = 7, serial = 0\<rparr>}"
proof -
  obtain s where j: "pg_join 2 3 7 (pg_new 0) = ([PgJoin 2 3 7], s)" "local_members 2 3 s = [7]"
    by (simp add: pg_join_def pg_new_def start_scope_def set_members_def members_of_def members_default_def local_members_def Let_def)
  let ?x = "\<lparr>own = s, in_flight = [[]], lane = [], peer = deliver_update 1 (PgJoin 2 3 7) (pg_new 0)\<rparr>"
  have run: "(pg_orderly 1)\<^sup>*\<^sup>* (pg_world 0) ?x" by (rule orderly_steps [OF j(1)])
  show ?thesis using run j(2) pg_views_converge [OF run, of 7 2 3] by (intro exI [of _ ?x]) simp
qed

text \<open>
  C40. Updates are broadcast after the lock is released, so a join and a leave of the same process
  made by two threads can be sent the other way round: with nothing left under way, the peer lists
  a member that the node does not have, and repeating the leave sends nothing. And when the queue
  to the peer refuses a join, the peer misses the member, and repeating the join sends nothing
  either: the views stay apart.
\<close>

theorem pg_views_can_diverge:
  "(\<exists>x. (pg_step a)\<^sup>*\<^sup>* (pg_world d) x \<and> lane x = [] \<and> concat (in_flight x) = [] \<and>
      local_members scope grp (own x) = [] \<and> remote_members scope grp (peer x) = [\<lparr>node = a, pid_number = p, serial = 0\<rparr>] \<and>
      fst (pg_leave scope grp p (own x)) = []) \<and>
   (\<exists>x. (pg_lossy_step a)\<^sup>*\<^sup>* (pg_world d) x \<and> lane x = [] \<and> concat (in_flight x) = [] \<and>
      local_members scope grp (own x) = [p] \<and> remote_members scope grp (peer x) = [] \<and>
      fst (pg_join scope grp p (own x)) = [])"
proof
  let ?j = "PgJoin scope grp p" and ?l = "PgLeave scope grp p"
  obtain s where j: "pg_join scope grp p (pg_new d) = ([?j], s)"
    and s: "s = \<lparr>scopes = insert scope {d}, groups = [((scope, grp), \<lparr>gm_local = {p}, gm_remote = {}\<rparr>)]\<rparr>"
    by (simp add: pg_join_def pg_new_def start_scope_def set_members_def members_of_def members_default_def Let_def)
  obtain s' where l: "pg_leave scope grp p s = ([?l], s')"
    and s': "s' = \<lparr>scopes = insert scope {d}, groups = [((scope, grp), \<lparr>gm_local = {}, gm_remote = {}\<rparr>)]\<rparr>"
    by (simp add: s pg_leave_def set_members_def)
  let ?x1 = "\<lparr>own = s, in_flight = [[?j]], lane = [], peer = pg_new d\<rparr>"
  have one: "pg_step a (pg_world d) ?x1" using own_op [OF op_join, of scope grp p "pg_world d" "[?j]" s a] j
    by (simp add: pg_world_def)
  let ?x2 = "\<lparr>own = s', in_flight = [[?j], [?l]], lane = [], peer = pg_new d\<rparr>"
  let ?x3 = "\<lparr>own = s', in_flight = [[?j], []], lane = [?l], peer = pg_new d\<rparr>"
  let ?x4 = "\<lparr>own = s', in_flight = [[], []], lane = [?l, ?j], peer = pg_new d\<rparr>"
  let ?x5 = "\<lparr>own = s', in_flight = [[], []], lane = [?j], peer = deliver_update a ?l (pg_new d)\<rparr>"
  let ?x6 = "\<lparr>own = s', in_flight = [[], []], lane = [], peer = deliver_update a ?j (deliver_update a ?l (pg_new d))\<rparr>"
  have "pg_step a ?x1 ?x2" using own_op [OF op_leave, of scope grp p ?x1 "[?l]" s' a] l by simp
  moreover have "pg_step a ?x2 ?x3" using broadcast [of ?x2 "[[?j]]" ?l "[]" "[]" a] by simp
  moreover have "pg_step a ?x3 ?x4" using broadcast [of ?x3 "[]" ?j "[]" "[[]]" a] by simp
  moreover have "pg_step a ?x4 ?x5" using receive [of ?x4 ?l "[?j]" a] by simp
  moreover have "pg_step a ?x5 ?x6" using receive [of ?x5 ?j "[]" a] by simp
  ultimately have "(pg_step a)\<^sup>*\<^sup>* (pg_world d) ?x6"
    using one by (meson rtranclp.rtrancl_refl rtranclp.rtrancl_into_rtrancl)
  moreover have "local_members scope grp s' = []" "fst (pg_leave scope grp p s') = []"
    by (simp_all add: s' local_members_def pg_leave_def)
  moreover have "remote_members scope grp (deliver_update a ?j (deliver_update a ?l (pg_new d))) = [\<lparr>node = a, pid_number = p, serial = 0\<rparr>]"
    by (simp add: deliver_update_def apply_remote_join_def apply_remote_leave_def pg_new_def start_scope_def set_members_def
        members_of_def members_default_def remote_members_def Let_def member_key_def member_of_key_def)
  ultimately show "\<exists>x. (pg_step a)\<^sup>*\<^sup>* (pg_world d) x \<and> lane x = [] \<and> concat (in_flight x) = [] \<and>
      local_members scope grp (own x) = [] \<and> remote_members scope grp (peer x) = [\<lparr>node = a, pid_number = p, serial = 0\<rparr>] \<and>
      fst (pg_leave scope grp p (own x)) = []"
    by (intro exI [of _ ?x6]) simp
  let ?y = "\<lparr>own = s, in_flight = [[]], lane = [], peer = pg_new d\<rparr>"
  have "pg_lossy_step a ?x1 ?y" using refused [of ?x1 "[]" ?j "[]" "[]" a] by simp
  then have "(pg_lossy_step a)\<^sup>*\<^sup>* (pg_world d) ?y" using kept [OF one] by (meson rtranclp.rtrancl_refl rtranclp.rtrancl_into_rtrancl)
  moreover have "local_members scope grp s = [p]" "fst (pg_join scope grp p s) = []"
    by (simp_all add: s local_members_def pg_join_def start_scope_def members_of_def Let_def)
  moreover have "remote_members scope grp (pg_new d) = []" by (simp add: remote_members_def pg_new_def)
  ultimately show "\<exists>x. (pg_lossy_step a)\<^sup>*\<^sup>* (pg_world d) x \<and> lane x = [] \<and> concat (in_flight x) = [] \<and>
      local_members scope grp (own x) = [p] \<and> remote_members scope grp (peer x) = [] \<and> fst (pg_join scope grp p (own x)) = []"
    by (intro exI [of _ ?y]) simp
qed

theorem pg_exit_and_purge_exact_witness:
  "\<exists>s. pg_change\<^sup>*\<^sup>* (pg_new 0) s \<and> local_members 2 3 s = [7] \<and>
     set (local_members 2 3 (snd (remove_pid_from_all_scopes_local 7 s))) = {} \<and>
     PgLeave 2 3 7 \<in> set (fst (remove_pid_from_all_scopes_local 7 s))"
proof -
  obtain s where j: "pg_join 2 3 7 (pg_new 0) = ([PgJoin 2 3 7], s)" "local_members 2 3 s = [7]"
    by (simp add: pg_join_def pg_new_def start_scope_def set_members_def members_of_def members_default_def local_members_def Let_def)
  have run: "pg_change\<^sup>*\<^sup>* (pg_new 0) s" by (rule r_into_rtranclp, rule pg_change.intros, rule op_join [OF j(1)])
  obtain us s' where ex: "remove_pid_from_all_scopes_local 7 s = (us, s')" by fastforce
  show ?thesis using pg_exit_and_purge_exact [OF run ex, of 2 3 "PgLeave 2 3 7" 0] run j(2) ex by auto
qed

end
