(* ===== verification/Spec2Isabelle.thy ===== *)
theory Spec2Isabelle
  imports Code_Roundtrip Mailbox Timer_Wheel Monitors Run_Queue Exit_Store Load_Bounds Interpreter Atom_Cache Process_Groups
begin

text \<open>
  Verification of beamr, a BEAM virtual machine in Rust (\<^verbatim>\<open>crates/beamr/src\<close>).

  \<^bold>\<open>The program.\<close> The loader reads a module: the \<open>Code\<close> chunk is a stream of opcodes with compact
  operands, and an encoder writes the same format. The interpreter runs its instructions over the
  registers and the call stack of a process. Processes run on scheduler threads; each owner
  takes the next process from its run queue and idle threads steal from the others. A process
  has a mailbox, links and monitors; when it exits, links carry the exit to other processes and
  monitors turn it into messages. Nodes replicate process groups over connections that cache atoms.
  Receive timeouts live in a timer wheel. Terms are tagged 64-bit
  words, and integers beyond 61 bits are limb vectors.

  \<^bold>\<open>Theories and what they model.\<close>
  \<^item> \<open>Beamr_Prelude\<close>: results as sums, vectors, saturating arithmetic, shared list facts.
  \<^item> \<open>Term_Word\<close>: \<^verbatim>\<open>term/mod.rs\<close>, tags, immediates, small integers, pointers in one word.
  \<^item> \<open>Bigint_Math\<close>, \<open>Bigint_Division\<close>, \<open>Bigint_Value\<close>: \<^verbatim>\<open>term/bigint_math.rs\<close> and
    \<^verbatim>\<open>term/compare/bigint.rs\<close>, limb arithmetic with 64- and 128-bit words and signed values.
  \<^item> \<open>Bigint_Convert\<close>: \<^verbatim>\<open>term/bigint_convert.rs\<close>, bytes and radix strings.
  \<^item> \<open>Compact_Codec\<close>, \<open>Compact_Roundtrip\<close>: \<^verbatim>\<open>loader/decode/compact.rs\<close>, \<^verbatim>\<open>decode/budget.rs\<close>,
    \<^verbatim>\<open>loader/encode/compact.rs\<close>, operands and the atom index.
  \<^item> \<open>Code_Codec\<close>, \<open>Code_Roundtrip\<close>: \<^verbatim>\<open>loader/decode/instruction.rs\<close>, \<^verbatim>\<open>decode/opcode.rs\<close>,
    \<^verbatim>\<open>decode/code.rs\<close>, \<^verbatim>\<open>encode/opcodes.rs\<close>, \<^verbatim>\<open>encode/code.rs\<close>: all instruction forms, the dispatch of
    the decoder (its arms in three definitions by opcode range), the chunk header.
  \<^item> \<open>Atom_Table\<close>: \<^verbatim>\<open>atom/table.rs\<close>, the atom table and concurrent interning.
  \<^item> \<open>Chunk_Cursor\<close>, \<open>Literal_Codec\<close>, \<open>Literal_Roundtrip\<close>: \<^verbatim>\<open>loader/decode/bounded.rs\<close>, \<^verbatim>\<open>decode/etf.rs\<close>,
    \<^verbatim>\<open>encode/literals.rs\<close>, a bounded cursor with the decode budget, and literals.
  \<^item> \<open>Chunk_Codec\<close>: \<^verbatim>\<open>loader/decode/chunks.rs\<close>, \<^verbatim>\<open>encode/chunks.rs\<close>, the tables of a module.
  \<^item> \<open>Beam_File\<close>, \<open>Load_Bounds\<close>: \<^verbatim>\<open>loader/parser.rs\<close>, \<^verbatim>\<open>encode/container.rs\<close> and \<open>load_beam_chunks\<close> of
    \<^verbatim>\<open>loader/load.rs\<close>: whole files, and what loading can cost.
  \<^item> \<open>Module_Registry\<close>: \<^verbatim>\<open>module.rs\<close>, loaded modules, their position tables, the registry of versions.
  \<^item> \<open>Module_Validate\<close>, \<open>Module_Load\<close>: \<^verbatim>\<open>loader/validate.rs\<close>, the rest of \<^verbatim>\<open>loader/load.rs\<close>, the registry of
    native functions in \<^verbatim>\<open>native/mod.rs\<close> and \<^verbatim>\<open>native/capability.rs\<close>: from bytes to a registered module; and the instruction slice
    of an export in \<^verbatim>\<open>jit/aot.rs\<close>.
  \<^item> \<open>Mailbox\<close>: \<^verbatim>\<open>mailbox/mod.rs\<close>, \<^verbatim>\<open>mailbox/selective.rs\<close>, arrivals, scan list and selective receive.
  \<^item> \<open>Timer_Wheel\<close>: \<^verbatim>\<open>timer.rs\<close>, bucketed timers with an index and a deadline set.
  \<^item> \<open>Process_State\<close>, \<open>Links\<close>, \<open>Monitors\<close>: \<^verbatim>\<open>process/mod.rs\<close> and \<^verbatim>\<open>process/types.rs\<close> (status, link sets,
    monitor metadata), \<^verbatim>\<open>supervision/link.rs\<close>, \<^verbatim>\<open>supervision/monitor.rs\<close>.
  \<^item> \<open>Run_Queue\<close>: \<^verbatim>\<open>scheduler/run_queue.rs\<close>, \<^verbatim>\<open>scheduler/steal.rs\<close>.
  \<^item> \<open>Exit_Store\<close>: \<^verbatim>\<open>scheduler/exit_tombstones.rs\<close>, \<^verbatim>\<open>scheduler/exit_events.rs\<close>, exit records, events, watches.

  \<^item> \<open>Call_Stack\<close>: \<^verbatim>\<open>process/stack.rs\<close>, frames with Y registers, the frame limit, unwinding.
  \<^item> \<open>Interpreter\<close>: \<^verbatim>\<open>interpreter/mod.rs\<close>, \<^verbatim>\<open>interpreter/opcodes/core.rs\<close>, \<^verbatim>\<open>opcodes/exceptions.rs\<close>
    and \<open>jump\<close> of \<^verbatim>\<open>opcodes/guards.rs\<close>: the loop, register moves, local calls and frames, exceptions.
  \<^item> \<open>Atom_Cache\<close>: \<^verbatim>\<open>distribution/atom_cache.rs\<close>, atoms as one-byte indices between two nodes.
  \<^item> \<open>Process_Groups\<close>: \<^verbatim>\<open>distribution/pg.rs\<close>, \<^verbatim>\<open>scheduler/pg_propagation.rs\<close> and the group messages of
    \<^verbatim>\<open>distribution/control_link.rs\<close>: local and remote members, updates and their delivery.

  State is a record with the source's fields, an enum is a datatype, \<open>Result\<close> is a sum with the
  error on the left, a loop is a recursion, and a machine integer is a word where its width
  matters. Concurrent structures are modelled by their atomic operations, interleaved.

  \<^bold>\<open>What is shown.\<close> Bignum operations compute exact integers (ring operations, truncating division,
  ordering, shifts, radix and byte round trips). Every encodable operand, instruction and
  \<open>Code\<close> chunk decodes to itself, and the decoder returns on every input and respects the header
  it was given. A module written to a file is loaded back as it was; on any bytes the recursions
  of the loader end, and what they produce is bounded in atoms, table entries, literals and instructions (not what the
  operand decoder reserves in advance, \<open>reservation_unchecked\<close>); concurrent interning keeps names and atoms
  inverse and never changes a published one.
  Imports resolve in place and within the granted capabilities; a module that loads has exports,
  imports, registers and the targets that validation checks in range (neither the
  arity of calls to entry labels nor the labels in select lists are among them); the slices of the two compilers agree; the registry numbers versions without repetition and
  never frees one in use.
  Selective receive takes the first matching message and conserves the rest; a
  tick of the timer wheel fires exactly the due timers, each once, and the wheel implements
  a map of pending timers. An exit kills exactly the processes reachable over untrapped links and
  keeps links symmetric; the monitor registry implements a map and notifies each watcher once.
  The run queue bounds the wait of low-priority processes, and stealing neither loses nor
  duplicates a process. Exit tombstones are bounded and first-in first-out, and no interleaving of
  exits with watches loses or repeats a notification.
  The interpreter never indexes a register out of range on loaded code, keeps the stack within its
  limits, returns to the caller of each local call with its frames intact, resumes an exception at
  the enclosing handler with the stack of that point, and makes at most as many local calls in a
  slice as it has reductions. The atom caches of two nodes agree after every message, and its atoms
  arrive under their names. Group views converge where the changes of one membership are serial,
  and an example shows they need not otherwise.

  \<^bold>\<open>Interfaces.\<close> Six locales state what a client relies on, and each is interpreted on the model:
  \<open>signed_integer_arithmetic\<close> (bignums), \<open>fifo_mailbox\<close> (mailbox), \<open>timer_service\<close> (wheel),
  \<open>monitor_registry\<close> (monitors), \<open>native_functions\<close> (native registry) and \<open>atom_interner\<close> (atom table). Step relations (\<open>mailbox_step\<close>, \<open>wheel_step\<close>, \<open>monitor_step\<close>,
  \<open>status_step\<close>, \<open>exit_step\<close>, \<open>intern_step\<close>, \<open>reg_step\<close>, \<open>pg_step\<close>, \<open>slice\<close>) carry the invariants of reachable states.

  \<^bold>\<open>Parameters and bounds.\<close> The fuel of the operand decoder is one more than the bytes left, and
  every read consumes a byte, so it never runs out (\<open>enough_fuel\<close>, \<open>decode_loop_total\<close>); that of
  the literal decoder is one more than the nesting the budget allows (\<open>decode_term_total\<close>). A byte
  slice is shorter than \<open>2 ^ 64\<close>. Heap reservation by the collector enters \<open>Links\<close> and \<open>Monitors\<close>
  as the predicate \<open>fits\<close>; the batch steal of the crossbeam deque enters \<open>Run_Queue\<close> as a function
  with its documented law \<open>batch_law\<close>; the zlib inflater and the sizes of the Rust structs enter the
  loader as \<open>inflate\<close> and \<open>Layout\<close>, and materialising literals as \<open>materialise\<close>; the
  constant pool and the one heap allocation of the exception instructions enter \<open>Interpreter\<close> in \<open>Env\<close>, the
  module registry as a lookup; the largest instant of the platform enters \<open>Timer_Wheel\<close>.

  \<^bold>\<open>Not modelled.\<close> The process heap with its collector works on raw memory, and what reads or builds
  heap terms rests on it: the constant pool, the external term format, ETS, the built-in functions,
  and the instructions of the interpreter for tuples, lists, maps, binaries, closures, floats, type
  tests, receive, and external or native calls; dispatching one of these ends a run of the model without a
  result. The scheduler's threads, wake-ups and locks, the distribution transport, file and socket
  I/O, replay and telemetry are effects outside the model; the just-in-time compiler emits machine
  code through a library; the WebAssembly crate and the command line are bindings.
\<close>

end
